(* ===== verification/Prelude.thy ===== *)
theory Prelude
  imports Main "HOL-Library.AList" "HOL-Library.Product_Lexorder" "HOL-Library.Sublist"
begin

text \<open>
  Shared vocabulary of the development.

  The services of \<open>src/backend/app\<close> keep their state in PostgreSQL tables and touch it through
  SQLAlchemy.  A table is a list of row records here; this theory holds the few relational
  operators the services use (selection by a predicate, in-place update of the selected rows,
  \<open>order_by\<close>, \<open>limit(1)\<close>, \<open>scalar_one_or_none\<close>), the shape of a transaction, and the lemmas about
  them that every component proof rests on.
\<close>

named_theorems scope_frame \<open>what an operation leaves unchanged\<close>
named_theorems table_simps \<open>rewriting of table operators\<close>

section \<open>Relational operators\<close>

definition upd_where :: "('a \<Rightarrow> bool) \<Rightarrow> ('a \<Rightarrow> 'a) \<Rightarrow> 'a list \<Rightarrow> 'a list" where
  "upd_where P f xs = map (\<lambda>r. if P r then f r else r) xs"

definition first_row :: "'a list \<Rightarrow> 'a option" where
  "first_row xs = (case xs of [] \<Rightarrow> None | x # _ \<Rightarrow> Some x)"

text \<open>\<open>ORDER BY k\<close>: rows with equal keys keep the order of the table, which is one of the orders SQL
  allows.  A descending integer column is ordered by its negation.\<close>

definition order_by :: "('a \<Rightarrow> 'k::linorder) \<Rightarrow> 'a list \<Rightarrow> 'a list" where
  "order_by k xs = sort_key k xs"

definition trunc :: "nat \<Rightarrow> 'a list \<Rightarrow> 'a list" where
  "trunc n s = take n s"

fun dict_unique :: "'a list \<Rightarrow> 'a list" where
  "dict_unique [] = []"
| "dict_unique (x # xs) = x # dict_unique (filter (\<lambda>y. y \<noteq> x) xs)"

text \<open>The \<open>UPDATE\<close> SQLAlchemy sends has the columns only that differ from the loaded row.\<close>

definition changed :: "'a \<Rightarrow> 'a \<Rightarrow> 'a \<Rightarrow> 'a" where
  "changed loaded new current = (if new = loaded then current else new)"

text \<open>Python's \<open>list(dict.fromkeys(xs))\<close> keeps the first occurrence of every element.\<close>

lemma length_filter_less_Suc: "length (filter P xs) < Suc (length xs)"
  by (simp add: le_imp_less_Suc)

lemma set_dict_unique [simp]: "set (dict_unique xs) = set xs"
  by (induction xs rule: dict_unique.induct) auto

lemma distinct_dict_unique [simp]: "distinct (dict_unique xs)"
  by (induction xs rule: dict_unique.induct) auto

section \<open>Lemmas on the operators\<close>

lemma upd_where_Nil [simp, table_simps]: "upd_where P f [] = []"
  by (simp add: upd_where_def)

lemma upd_where_Cons [simp, table_simps]:
  "upd_where P f (x # xs) = (if P x then f x else x) # upd_where P f xs"
  by (simp add: upd_where_def)

lemma upd_where_append [simp, table_simps]: "upd_where P f (xs @ ys) = upd_where P f xs @ upd_where P f ys"
  by (simp add: upd_where_def)

lemma length_upd_where [simp, table_simps]: "length (upd_where P f xs) = length xs"
  by (simp add: upd_where_def)

lemma upd_where_none: "(\<And>x. x \<in> set xs \<Longrightarrow> \<not> P x) \<Longrightarrow> upd_where P f xs = xs"
  by (simp add: upd_where_def map_idI)

lemma in_upd_where: "x \<in> set (upd_where P f xs) \<longleftrightarrow> (\<exists>y \<in> set xs. x = (if P y then f y else y))"
  by (auto simp: upd_where_def)

lemma map_upd_where_same:
  "(\<And>x. x \<in> set xs \<Longrightarrow> P x \<Longrightarrow> g (f x) = g x) \<Longrightarrow> map g (upd_where P f xs) = map g xs"
  by (auto simp: upd_where_def)

lemma filter_upd_where_disjoint:
  assumes "\<And>x. x \<in> set xs \<Longrightarrow> P x \<Longrightarrow> \<not> Q x \<and> \<not> Q (f x)"
  shows "filter Q (upd_where P f xs) = filter Q xs"
  using assms by (induction xs) auto

lemma length_filter_upd_where_le:
  assumes "\<And>x. x \<in> set xs \<Longrightarrow> P x \<Longrightarrow> Q (f x) \<Longrightarrow> Q x"
  shows "length (filter Q (upd_where P f xs)) \<le> length (filter Q xs)"
  using assms by (induction xs) (auto simp: le_SucI)

lemma length_filter_upd_where_eq:
  assumes "\<And>x. x \<in> set xs \<Longrightarrow> P x \<Longrightarrow> Q (f x) = Q x"
  shows "length (filter Q (upd_where P f xs)) = length (filter Q xs)"
  using assms by (induction xs) auto

lemma filter_upd_where_same:
  assumes "\<And>x. x \<in> set xs \<Longrightarrow> P x \<Longrightarrow> Q (f x) = Q x"
  shows "filter Q (upd_where P f xs) = upd_where P f (filter Q xs)"
  using assms by (induction xs) auto

lemma first_row_Nil [simp]: "first_row [] = None"
  by (simp add: first_row_def)

lemma first_row_Cons [simp]: "first_row (x # xs) = Some x"
  by (simp add: first_row_def)

lemma first_row_None [simp]: "first_row xs = None \<longleftrightarrow> xs = []"
  by (cases xs) auto

lemma first_row_in: "first_row xs = Some x \<Longrightarrow> x \<in> set xs"
  by (cases xs) auto

lemma set_order_by [simp, table_simps]: "set (order_by k xs) = set xs"
  by (simp add: order_by_def)

lemma order_by_Nil_iff [simp]: "order_by k xs = [] \<longleftrightarrow> xs = []"
  by (metis set_empty set_order_by)

lemma sort_key_hd_le:
  assumes "sort_key k xs = y # ys" and "x \<in> set xs"
  shows "k y \<le> k x"
proof -
  have s: "sorted (map k (y # ys))" using sorted_sort_key [of k xs] assms(1) by simp
  have "x \<in> set (y # ys)" using assms by (metis set_sort)
  with s show ?thesis by auto
qed

lemma first_order_by_least:
  assumes "first_row (order_by k xs) = Some y" and "x \<in> set xs"
  shows "k y \<le> k x"
  using assms sort_key_hd_le by (cases "order_by k xs") (auto simp: order_by_def)

lemma first_order_by_in:
  "first_row (order_by k xs) = Some y \<Longrightarrow> y \<in> set xs"
  using first_row_in by fastforce

lemma first_order_by_ex: "xs \<noteq> [] \<Longrightarrow> \<exists>y. first_row (order_by k xs) = Some y"
  by (metis first_row_None not_None_eq order_by_Nil_iff)

lemma length_trunc [simp]: "length (trunc n s) \<le> n"
  by (simp add: trunc_def)

lemma trunc_id [simp]: "length s \<le> n \<Longrightarrow> trunc n s = s"
  by (simp add: trunc_def)

lemma trunc_trunc [simp]: "trunc n (trunc n s) = trunc n s"
  by (simp add: trunc_def)

lemma inj_on_distinct_filter:
  assumes "distinct (map g xs)"
  shows "length (filter (\<lambda>x. g x = a \<and> Q x) xs) \<le> 1"
  using assms
proof (induction xs)
  case (Cons x xs)
  show ?case
  proof (cases "g x = a \<and> Q x")
    case True
    then have "g y \<noteq> a" if "y \<in> set xs" for y
      using Cons.prems that by (metis distinct.simps(2) image_eqI list.map(2) set_map)
    then have "filter (\<lambda>y. g y = a \<and> Q y) xs = []"
      by (auto simp: filter_empty_conv)
    with True show ?thesis by simp
  next
    case False
    have "length (filter (\<lambda>y. g y = a \<and> Q y) xs) \<le> 1" using Cons by simp
    with False show ?thesis by auto
  qed
qed simp

lemma distinct_map_inj: "distinct (map g xs) \<Longrightarrow> x \<in> set xs \<Longrightarrow> y \<in> set xs \<Longrightarrow> g x = g y \<Longrightarrow> x = y"
  by (auto simp: distinct_map inj_on_def)

text \<open>A loop that updates, for each selected row, the row with its key.\<close>

lemma fold_upd_where_rows:
  assumes "distinct (map k rows)" and "set xs \<subseteq> set rows" and "distinct xs"
    and "\<And>x l. k (g x l) = k l"
  shows "fold (\<lambda>x. upd_where (\<lambda>l. k l = k x) (g x)) xs rows = map (\<lambda>l. if l \<in> set xs then g l l else l) rows"
  using assms(2,3)
proof (induction xs rule: rev_induct)
  case (snoc x xs)
  have "k (if l \<in> set xs then g l l else l) = k x \<longleftrightarrow> l = x" if "l \<in> set rows" for l
    using that snoc.prems assms(4) distinct_map_inj [OF assms(1), of l x] by auto
  with snoc show ?case by (auto simp: upd_where_def)
qed simp

lemma order_by_map_same:
  assumes "\<And>x. k (h x) = k x"
  shows "order_by k (map h xs) = map h (order_by k xs)"
proof -
  have "insort_key k (h x) (map h ys) = map h (insort_key k x ys)" for x ys
    by (induction ys) (simp_all add: assms)
  then have "sort_key k (map h ys) = map h (sort_key k ys)" for ys
    by (induction ys) simp_all
  then show ?thesis by (simp add: order_by_def)
qed

lemma order_by_upd_where:
  assumes "\<And>x. k (f x) = k x"
  shows "order_by k (upd_where P f xs) = upd_where P f (order_by k xs)"
  unfolding upd_where_def by (rule order_by_map_same) (simp add: assms)

lemma first_row_upd_where:
  "first_row (upd_where P f xs) = map_option (\<lambda>r. if P r then f r else r) (first_row xs)"
  by (cases xs) simp_all

end
