(* ===== verification/Py_Text.thy ===== *)
theory Py_Text
  imports Prelude
begin

text \<open>
  Python text.  A \<open>str\<close> is a list of code points; the model keeps the code points 0 to 255, one HOL
  \<open>char\<close> each, and follows Python on exactly that range: \<open>str.isspace\<close> / \<open>re\<close>'s \<open>\s\<close>, \<open>strip\<close>, \<open>lower\<close>,
  \<open>splitlines\<close>, \<open>split(sep, 1)\<close>, \<open>str(int)\<close>, \<open>str(uuid.UUID)\<close>, the length of the UTF-8 encoding and the
  calendar month of a timestamp.  A UUID is a number below \<open>2 ^ 128\<close>; a timestamp is an \<open>int\<close>
  counting seconds since 1970-01-01 UTC.
\<close>

abbreviation code :: "char \<Rightarrow> nat" where
  "code c \<equiv> of_char c"

definition is_space :: "char \<Rightarrow> bool" where
  "is_space c = (let n = code c in (9 \<le> n \<and> n \<le> 13) \<or> (28 \<le> n \<and> n \<le> 32) \<or> n = 133 \<or> n = 160)"

definition lstrip :: "string \<Rightarrow> string" where
  "lstrip s = dropWhile is_space s"

definition rstrip :: "string \<Rightarrow> string" where
  "rstrip s = rev (dropWhile is_space (rev s))"

definition strip :: "string \<Rightarrow> string" where
  "strip s = rstrip (lstrip s)"

definition lower_char :: "char \<Rightarrow> char" where
  "lower_char c = (let n = code c in
     if (65 \<le> n \<and> n \<le> 90) \<or> (192 \<le> n \<and> n \<le> 222 \<and> n \<noteq> 215) then char_of (n + 32) else c)"

definition lower :: "string \<Rightarrow> string" where
  "lower s = map lower_char s"

definition is_digit :: "char \<Rightarrow> bool" where
  "is_digit c = (48 \<le> code c \<and> code c \<le> 57)"

text \<open>\<open>len(s.encode("utf-8"))\<close>.\<close>

definition utf8_len :: "string \<Rightarrow> nat" where
  "utf8_len s = sum_list (map (\<lambda>c. if code c < 128 then 1 else 2) s)"

text \<open>\<open>sep in s\<close>, \<open>s.split(sep, 1)\<close> and \<open>s.partition(sep)\<close>: the text before and after the first
  occurrence, if there is one.\<close>

fun split_once :: "string \<Rightarrow> string \<Rightarrow> (string \<times> string) option" where
  "split_once sep [] = (if sep = [] then Some ([], []) else None)"
| "split_once sep (c # cs) =
     (if prefix sep (c # cs) then Some ([], drop (length sep) (c # cs))
      else map_option (\<lambda>(a, b). (c # a, b)) (split_once sep cs))"

text \<open>\<open>str.splitlines()\<close>: line feeds, carriage returns (with a following line feed), vertical tab, form
  feed, the file/group/record separators and NEL end a line; no empty last line.\<close>

definition is_line_break :: "char \<Rightarrow> bool" where
  "is_line_break c = (let n = code c in (10 \<le> n \<and> n \<le> 13) \<or> (28 \<le> n \<and> n \<le> 30) \<or> n = 133)"

fun split_lines :: "string \<Rightarrow> string \<Rightarrow> string list" where
  "split_lines acc [] = (if acc = [] then [] else [rev acc])"
| "split_lines acc (c # cs) =
     (if is_line_break c then
        rev acc # split_lines [] (if code c = 13 \<and> cs \<noteq> [] \<and> code (hd cs) = 10 then tl cs else cs)
      else split_lines (c # acc) cs)"

definition splitlines :: "string \<Rightarrow> string list" where
  "splitlines s = split_lines [] s"

section \<open>Numbers and identifiers as text\<close>

definition digit_char :: "nat \<Rightarrow> char" where
  "digit_char n = char_of (48 + n)"

definition digit_val :: "char \<Rightarrow> nat" where
  "digit_val c = code c - 48"

fun digits10 :: "nat \<Rightarrow> string" where
  "digits10 n = (if n < 10 then [digit_char n] else digits10 (n div 10) @ [digit_char (n mod 10)])"

declare digits10.simps [simp del]

definition str_int :: "int \<Rightarrow> string" where
  "str_int i = (if i < 0 then CHR ''-'' # digits10 (nat (- i)) else digits10 (nat i))"

definition nat_of_digits :: "string \<Rightarrow> nat" where
  "nat_of_digits s = foldl (\<lambda>a c. 10 * a + digit_val c) 0 s"

definition hex_char :: "nat \<Rightarrow> char" where
  "hex_char n = (if n < 10 then char_of (48 + n) else char_of (87 + n))"

fun hex_digits :: "nat \<Rightarrow> nat \<Rightarrow> string" where
  "hex_digits 0 n = []"
| "hex_digits (Suc w) n = hex_digits w (n div 16) @ [hex_char (n mod 16)]"

text \<open>\<open>str(uuid.UUID(int = n))\<close>: 32 hexadecimal digits in groups of 8-4-4-4-12.\<close>

definition uuid_str :: "nat \<Rightarrow> string" where
  "uuid_str n = (let h = hex_digits 32 n in
     take 8 h @ ''-'' @ take 4 (drop 8 h) @ ''-'' @ take 4 (drop 12 h) @ ''-''
       @ take 4 (drop 16 h) @ ''-'' @ drop 20 h)"

text \<open>\<open>datetime.strftime("%Y-%m")\<close> of a UTC timestamp, by the proleptic Gregorian calendar.\<close>

definition civil_month :: "int \<Rightarrow> int \<times> int" where
  "civil_month secs = (let z = secs div 86400 + 719468;
      era = z div 146097;
      doe = z - era * 146097;
      yoe = (doe - doe div 1460 + doe div 36524 - doe div 146096) div 365;
      doy = doe - (365 * yoe + yoe div 4 - yoe div 100);
      mp = (5 * doy + 2) div 153;
      m = (if mp < 10 then mp + 3 else mp - 9)
    in (yoe + era * 400 + (if m \<le> 2 then 1 else 0), m))"

definition month_key :: "int \<Rightarrow> string" where
  "month_key secs = (let (y, m) = civil_month secs in
     str_int y @ ''-'' @ (if m < 10 then ''0'' else []) @ str_int m)"

definition hex_val :: "char \<Rightarrow> nat option" where
  "hex_val c = (let n = code c in
     if 48 \<le> n \<and> n \<le> 57 then Some (n - 48)
     else if 97 \<le> n \<and> n \<le> 102 then Some (n - 87)
     else if 65 \<le> n \<and> n \<le> 70 then Some (n - 55) else None)"

text \<open>\<open>uuid.UUID(s)\<close>: \<open>urn:\<close> and \<open>uuid:\<close> are removed, braces stripped, dashes removed; exactly 32
  characters must remain and \<open>int(_, 16)\<close> must read them as a number below \<open>2 ^ 128\<close>.  (\<open>int\<close> allows
  surrounding blanks, a sign, a \<open>0x\<close> prefix and single underscores between digits.)\<close>

function remove_all :: "string \<Rightarrow> string \<Rightarrow> string" where
  "remove_all p [] = []"
| "remove_all p (c # cs) =
     (if p \<noteq> [] \<and> prefix p (c # cs) then remove_all p (drop (length p) (c # cs)) else c # remove_all p cs)"
  by pat_completeness auto
termination
  by (relation "measure (\<lambda>(p, s). length s)") auto

definition strip_chars :: "string \<Rightarrow> string \<Rightarrow> string" where
  "strip_chars ds s = rev (dropWhile (\<lambda>c. c \<in> set ds) (rev (dropWhile (\<lambda>c. c \<in> set ds) s)))"

fun hex_acc :: "bool \<Rightarrow> nat \<Rightarrow> string \<Rightarrow> nat option" where
  "hex_acc prev acc [] = (if prev then Some acc else None)"
| "hex_acc prev acc (c # cs) =
     (if c = CHR ''_'' then (if prev then hex_acc False acc cs else None)
      else (case hex_val c of None \<Rightarrow> None | Some v \<Rightarrow> hex_acc True (16 * acc + v) cs))"

definition hex_unsigned :: "string \<Rightarrow> nat option" where
  "hex_unsigned s =
     (if prefix ''0x'' s \<or> prefix ''0X'' s
      then hex_acc False 0 (if prefix ''_'' (drop 2 s) then drop 3 s else drop 2 s)
      else hex_acc False 0 s)"

definition parse_hex_int :: "string \<Rightarrow> int option" where
  "parse_hex_int s = (case strip s of
     [] \<Rightarrow> None
   | c # cs \<Rightarrow> if c = CHR ''-'' then map_option (\<lambda>n. - int n) (hex_unsigned cs)
              else if c = CHR ''+'' then map_option int (hex_unsigned cs)
              else map_option int (hex_unsigned (c # cs)))"

definition parse_uuid :: "string \<Rightarrow> nat option" where
  "parse_uuid s = (let h = remove_all ''-'' (strip_chars ''{}'' (remove_all ''uuid:'' (remove_all ''urn:'' s))) in
     if length h \<noteq> 32 then None
     else (case parse_hex_int h of
        None \<Rightarrow> None | Some i \<Rightarrow> if 0 \<le> i \<and> i < 2 ^ 128 then Some (nat i) else None))"

section \<open>Lemmas\<close>

lemma code_char_of [simp]: "n < 256 \<Longrightarrow> code (char_of n) = n"
  by simp

lemma rstrip_Nil [simp]: "rstrip [] = []"
  by (simp add: rstrip_def)

lemma strip_Nil [simp]: "strip [] = []"
  by (simp add: strip_def lstrip_def rstrip_def)

lemma dropWhile_idem [simp]: "dropWhile P (dropWhile P xs) = dropWhile P xs"
  by (induction xs) auto

lemma rstrip_prefix: "prefix (rstrip s) s"
  using suffix_dropWhile [of is_space "rev s"] by (simp add: rstrip_def suffix_to_prefix)

lemma lstrip_suffix: "suffix (lstrip s) s"
  by (simp add: lstrip_def suffix_dropWhile)

lemma length_strip_le: "length (strip s) \<le> length s"
proof -
  have "length (rstrip (lstrip s)) \<le> length (lstrip s)"
    by (rule prefix_length_le [OF rstrip_prefix])
  also have "\<dots> \<le> length s" by (rule suffix_length_le [OF lstrip_suffix])
  finally show ?thesis by (simp add: strip_def)
qed

lemma lstrip_rstrip_hd: "\<not> is_space (hd s) \<Longrightarrow> lstrip (rstrip s) = rstrip s"
proof (cases "rstrip s")
  case (Cons a t)
  assume h: "\<not> is_space (hd s)"
  from Cons rstrip_prefix [of s] have "hd s = a" by (auto elim: prefixE)
  with h Cons show ?thesis by (simp add: lstrip_def)
qed (simp add: lstrip_def)

lemma strip_strip [simp]: "strip (strip s) = strip s"
proof (cases "lstrip s")
  case Nil
  then have "strip s = []" by (simp add: strip_def)
  then show ?thesis by simp
next
  case (Cons a t)
  have "\<not> is_space a" using Cons hd_dropWhile [of is_space s] by (simp add: lstrip_def)
  then have "\<not> is_space (hd (lstrip s))" using Cons by simp
  then have "lstrip (rstrip (lstrip s)) = rstrip (lstrip s)" by (rule lstrip_rstrip_hd)
  moreover have "rstrip (rstrip x) = rstrip x" for x by (simp add: rstrip_def)
  ultimately show ?thesis by (simp add: strip_def)
qed

lemma code_less_256 [simp]: "code c < 256"
  by (metis of_char_mod_256 mod_less_divisor zero_less_numeral)

lemma digits10_nonempty [simp]: "digits10 n \<noteq> []"
  by (subst digits10.simps) simp

lemma digit_char_code [simp]: "n < 10 \<Longrightarrow> code (digit_char n) = 48 + n"
  by (simp add: digit_char_def)

lemma digit_val_char [simp]: "n < 10 \<Longrightarrow> digit_val (digit_char n) = n"
  by (simp add: digit_val_def)

lemma is_digit_char [simp]: "n < 10 \<Longrightarrow> is_digit (digit_char n)"
  by (simp add: is_digit_def)

lemma digits10_all_digits: "list_all is_digit (digits10 n)"
proof (induction n rule: digits10.induct)
  case (1 n)
  then show ?case by (subst digits10.simps) simp
qed

lemma nat_of_digits_snoc: "nat_of_digits (s @ [c]) = 10 * nat_of_digits s + digit_val c"
  by (simp add: nat_of_digits_def)

lemma nat_of_digits10 [simp]: "nat_of_digits (digits10 n) = n"
proof (induction n rule: digits10.induct)
  case (1 n)
  show ?case
  proof (cases "n < 10")
    case True
    then show ?thesis by (subst digits10.simps) (simp add: nat_of_digits_def)
  next
    case False
    with 1 show ?thesis by (subst digits10.simps) (simp add: nat_of_digits_snoc)
  qed
qed

lemma digits10_hd_zero: "hd (digits10 n) = CHR ''0'' \<longleftrightarrow> n = 0"
proof (induction n rule: digits10.induct)
  case (1 n)
  show ?case
  proof (cases "n < 10")
    case True
    have "digit_char n = CHR ''0'' \<longleftrightarrow> n = 0"
    proof
      assume "digit_char n = CHR ''0''"
      then have "code (digit_char n) = code (CHR ''0'')" by simp
      with True show "n = 0" by simp
    next
      assume "n = 0"
      then have "code (digit_char n) = code (CHR ''0'')" by simp
      then show "digit_char n = CHR ''0''" by (simp only: of_char_eq_iff)
    qed
    with True show ?thesis by (subst digits10.simps) simp
  next
    case False
    with 1 show ?thesis by (subst digits10.simps) (simp add: hd_append)
  qed
qed

lemma hex_val_char: "n < 16 \<Longrightarrow> hex_val (hex_char n) = Some n"
  by (auto simp: hex_val_def hex_char_def Let_def)

subsection \<open>\<open>uuid.UUID\<close> inverts \<open>str\<close>\<close>

lemma length_hex_digits [simp]: "length (hex_digits w n) = w"
  by (induction w arbitrary: n) auto

lemma set_hex_digits: "set (hex_digits w n) \<subseteq> hex_char ` {..<16}"
proof (induction w arbitrary: n)
  case (Suc w)
  have "hex_char (n mod 16) \<in> hex_char ` {..<16}" by simp
  with Suc [of "n div 16"] show ?case by simp
qed simp

lemma hex_char_code: "n < 16 \<Longrightarrow> code (hex_char n) = (if n < 10 then 48 + n else 87 + n)"
  by (simp add: hex_char_def)

lemma hex_char_range:
  assumes "c \<in> hex_char ` {..<16}"
  shows "(48 \<le> code c \<and> code c \<le> 57) \<or> (97 \<le> code c \<and> code c \<le> 102)"
  using assms by (auto simp: hex_char_code split: if_splits)

lemma hex_acc_append:
  "hex_acc p a (xs @ ys) = (case hex_acc p a xs of Some b \<Rightarrow> hex_acc True b ys | None \<Rightarrow> hex_acc p a (xs @ ys))"
  if "xs \<noteq> []"
  using that
proof (induction p a xs rule: hex_acc.induct)
  case (2 p a c cs)
  then show ?case by (cases "cs = []") (auto split: option.splits)
qed simp

lemma hex_acc_digits: "hex_acc p a (hex_digits (Suc w) n) = Some (16 ^ Suc w * a + n mod 16 ^ Suc w)"
proof (induction w arbitrary: p a n)
  case 0
  have "hex_char (n mod 16) \<noteq> CHR ''_''"
    using hex_char_range [of "hex_char (n mod 16)"] by auto
  then show ?case by (simp add: hex_val_char)
next
  case (Suc w)
  have ne: "hex_char (n mod 16) \<noteq> CHR ''_''"
    using hex_char_range [of "hex_char (n mod 16)"] by auto
  have "hex_digits (Suc w) (n div 16) \<noteq> []" by simp
  moreover have "hex_acc p a (hex_digits (Suc w) (n div 16)) = Some (16 ^ Suc w * a + (n div 16) mod 16 ^ Suc w)"
    by (rule Suc)
  ultimately have "hex_acc p a (hex_digits (Suc (Suc w)) n) =
      Some (16 * (16 ^ Suc w * a + (n div 16) mod 16 ^ Suc w) + n mod 16)"
    using hex_acc_append [of "hex_digits (Suc w) (n div 16)" p a "[hex_char (n mod 16)]"] ne
    by (simp only: hex_digits.simps) (simp add: hex_val_char)
  moreover have "16 * ((n div 16) mod 16 ^ Suc w) + n mod 16 = n mod 16 ^ Suc (Suc w)"
    by (metis add.commute mod_mult2_eq power_Suc)
  ultimately show ?case by (simp add: algebra_simps)
qed

lemma remove_all_absent:
  assumes "c \<in> set p" and "c \<notin> set s"
  shows "remove_all p s = s"
  using assms
proof (induction p s rule: remove_all.induct)
  case (2 p d ds)
  have "\<not> prefix p (d # ds)" using set_mono_prefix [of p "d # ds"] "2.prems" by blast
  with 2 show ?case by simp
qed simp

lemma remove_all_char: "remove_all [c] s = filter (\<lambda>x. x \<noteq> c) s"
  by (induction "[c]" s rule: remove_all.induct) auto

lemma dropWhile_none: "\<forall>c \<in> set s. \<not> P c \<Longrightarrow> dropWhile P s = s"
  by (cases s) auto

lemma strip_none: "\<forall>c \<in> set s. \<not> is_space c \<Longrightarrow> strip s = s"
  by (simp add: strip_def lstrip_def rstrip_def dropWhile_none)

lemma hex_unsigned_digits:
  assumes "\<forall>c \<in> set s. (48 \<le> code c \<and> code c \<le> 57) \<or> (97 \<le> code c \<and> code c \<le> 102)"
  shows "hex_unsigned s = hex_acc False 0 s"
proof -
  have "CHR ''x'' \<notin> set s" "CHR ''X'' \<notin> set s" using assms by auto
  then have "\<not> prefix ''0x'' s" "\<not> prefix ''0X'' s" by (auto dest: set_mono_prefix)
  then show ?thesis by (simp add: hex_unsigned_def)
qed

lemma parse_hex_int_digits:
  assumes "n < 2 ^ 128"
  shows "parse_hex_int (hex_digits 32 n) = Some (int n)"
proof -
  let ?h = "hex_digits 32 n"
  have r: "(48 \<le> code c \<and> code c \<le> 57) \<or> (97 \<le> code c \<and> code c \<le> 102)" if "c \<in> set ?h" for c
    using that set_hex_digits hex_char_range by blast
  have "\<forall>c \<in> set ?h. \<not> is_space c" using r by (fastforce simp: is_space_def Let_def)
  then have "strip ?h = ?h" by (rule strip_none)
  moreover have "?h \<noteq> []" by (metis length_hex_digits list.size(3) zero_neq_numeral)
  then obtain c cs where c: "?h = c # cs" by (cases ?h) auto
  moreover from c r [of c] have "c \<noteq> CHR ''-''" "c \<noteq> CHR ''+''" by auto
  moreover have "hex_unsigned ?h = Some n"
    using hex_unsigned_digits [of ?h] r hex_acc_digits [of False 0 31 n] assms by simp
  ultimately show ?thesis by (simp add: parse_hex_int_def)
qed

lemma parse_uuid_str:
  assumes "n < 2 ^ 128"
  shows "parse_uuid (uuid_str n) = Some n"
proof -
  let ?h = "hex_digits 32 n"
  have r: "(48 \<le> code c \<and> code c \<le> 57) \<or> (97 \<le> code c \<and> code c \<le> 102)" if "c \<in> set ?h" for c
    using that set_hex_digits hex_char_range by blast
  have sub: "set (uuid_str n) \<subseteq> insert (CHR ''-'') (set ?h)"
    by (auto simp: uuid_str_def Let_def dest: in_set_takeD in_set_dropD)
  have nu: "CHR ''u'' \<notin> set (uuid_str n)" using sub r by fastforce
  have "CHR ''{'' \<notin> set (uuid_str n)" "CHR ''}'' \<notin> set (uuid_str n)" using sub r by fastforce+
  then have "\<forall>c \<in> set (uuid_str n). c \<notin> set ''{}''" by auto
  then have sc: "strip_chars ''{}'' (uuid_str n) = uuid_str n"
    unfolding strip_chars_def by (metis (no_types, lifting) dropWhile_none rev_rev_ident set_rev)
  have "filter (\<lambda>x. x \<noteq> CHR ''-'') ys = ys" if "set ys \<subseteq> set ?h" for ys
    using that r by (fastforce simp: filter_id_conv)
  then have "filter (\<lambda>x. x \<noteq> CHR ''-'') (uuid_str n)
      = take 8 ?h @ take 4 (drop 8 ?h) @ take 4 (drop 12 ?h) @ take 4 (drop 16 ?h) @ drop 20 ?h"
    by (simp add: uuid_str_def Let_def set_take_subset set_drop_subset subset_trans [OF set_take_subset set_drop_subset])
  also have "\<dots> = ?h"
  proof -
    have d: "take m (drop k ?h) @ drop (m + k) ?h = drop k ?h" for m k
      by (metis append_take_drop_id drop_drop)
    from d [of 4 16] d [of 4 12] d [of 4 8] d [of 8 0] show ?thesis by simp
  qed
  finally have f: "remove_all ''-'' (uuid_str n) = ?h" by (simp add: remove_all_char)
  show ?thesis
    using f sc remove_all_absent [of "CHR ''u''" "''urn:''", OF _ nu] remove_all_absent [of "CHR ''u''" "''uuid:''", OF _ nu]
      parse_hex_int_digits [OF assms] assms
    by (simp add: parse_uuid_def)
qed

end
