(* ===== verification/Json.thy ===== *)
theory Json
  imports Py_Text
begin

text \<open>
  The part of Python's \<open>json\<close> module the services use: \<open>json.dumps(x, separators=(",", ":"))\<close> with
  \<open>ensure_ascii\<close> on or off, and \<open>json.loads\<close>.  A JSON object is an association list in insertion order,
  so \<open>d.get\<close> is \<open>map_of\<close>, \<open>d[k] = v\<close> is \<open>AList.update\<close> and \<open>d.pop(k, None)\<close> is \<open>AList.delete\<close>.
  Floats are kept as the text of the number.  The decoder carries a fuel argument for its nested
  recursion; \<open>json_loads\<close> supplies twice the input's length plus two, and \<open>json_loads_dumps\<close> shows
  that this is enough for everything the encoder writes.
\<close>

datatype json = JNull | JBool bool | JInt int | JFloat string | JStr string
  | JList "json list" | JObj "(string \<times> json) list"

type_synonym jdict = "(string \<times> json) list"

section \<open>Reading dictionaries\<close>

definition dict_get :: "jdict \<Rightarrow> string \<Rightarrow> json option" where
  "dict_get d k = map_of d k"

definition dict_set :: "string \<Rightarrow> json \<Rightarrow> jdict \<Rightarrow> jdict" where
  "dict_set k v d = AList.update k v d"

definition dict_setdefault :: "string \<Rightarrow> json \<Rightarrow> jdict \<Rightarrow> jdict" where
  "dict_setdefault k v d = (if map_of d k = None then AList.update k v d else d)"

definition dict_pop :: "string \<Rightarrow> jdict \<Rightarrow> jdict" where
  "dict_pop k d = AList.delete k d"

text \<open>\<open>dict(x or {})\<close> of a JSON column, and \<open>x if isinstance(x, dict) else {}\<close>.\<close>

fun as_dict :: "json \<Rightarrow> jdict" where
  "as_dict (JObj d) = d"
| "as_dict _ = []"

fun is_dict :: "json \<Rightarrow> bool" where
  "is_dict (JObj d) = True"
| "is_dict _ = False"

text \<open>Python truth of a JSON value, and \<open>str(d.get(k) or "")\<close> for the string-valued keys.\<close>

definition float_is_zero :: "string \<Rightarrow> bool" where
  "float_is_zero s = list_all (\<lambda>c. \<not> (49 \<le> code c \<and> code c \<le> 57)) (takeWhile (\<lambda>c. c \<noteq> CHR ''e'' \<and> c \<noteq> CHR ''E'') s)"

fun truthy :: "json \<Rightarrow> bool" where
  "truthy JNull = False"
| "truthy (JBool b) = b"
| "truthy (JInt i) = (i \<noteq> 0)"
| "truthy (JFloat s) = (\<not> float_is_zero s)"
| "truthy (JStr s) = (s \<noteq> [])"
| "truthy (JList xs) = (xs \<noteq> [])"
| "truthy (JObj d) = (d \<noteq> [])"

section \<open>Encoding\<close>

definition u_escape :: "char \<Rightarrow> string" where
  "u_escape c = CHR 0x5C # CHR ''u'' # hex_digits 4 (code c)"

definition esc_char :: "bool \<Rightarrow> char \<Rightarrow> string" where
  "esc_char ascii c = (let n = code c in
     if n = 34 then [CHR 0x5C, CHR 0x22]
     else if n = 92 then [CHR 0x5C, CHR 0x5C]
     else if n = 10 then [CHR 0x5C, CHR ''n'']
     else if n = 13 then [CHR 0x5C, CHR ''r'']
     else if n = 9 then [CHR 0x5C, CHR ''t'']
     else if n = 12 then [CHR 0x5C, CHR ''f'']
     else if n = 8 then [CHR 0x5C, CHR ''b'']
     else if n < 32 \<or> (ascii \<and> 126 < n) then u_escape c
     else [c])"

definition json_str :: "bool \<Rightarrow> string \<Rightarrow> string" where
  "json_str ascii s = CHR 0x22 # concat (map (esc_char ascii) s) @ [CHR 0x22]"

fun commas :: "string list \<Rightarrow> string" where
  "commas [] = []"
| "commas [x] = x"
| "commas (x # y # zs) = x @ '','' @ commas (y # zs)"

fun json_dumps :: "bool \<Rightarrow> json \<Rightarrow> string" where
  "json_dumps a JNull = ''null''"
| "json_dumps a (JBool b) = (if b then ''true'' else ''false'')"
| "json_dumps a (JInt i) = str_int i"
| "json_dumps a (JFloat s) = s"
| "json_dumps a (JStr s) = json_str a s"
| "json_dumps a (JList xs) = ''['' @ commas (map (json_dumps a) xs) @ '']''"
| "json_dumps a (JObj d) = ''{'' @ commas (map (\<lambda>(k, v). json_str a k @ '':'' @ json_dumps a v) d) @ ''}''"

section \<open>Decoding\<close>

definition json_ws :: "char \<Rightarrow> bool" where
  "json_ws c = (c \<in> {CHR '' '', CHR 0x09, CHR 0x0A, CHR 0x0D})"

definition skip_ws :: "string \<Rightarrow> string" where
  "skip_ws s = dropWhile json_ws s"

text \<open>A string body up to the closing quote; \<open>None\<close> is Python's \<open>JSONDecodeError\<close>.  A code point
  above 255 has no character in the model and is rejected too.\<close>

fun parse_chars :: "string \<Rightarrow> (string \<times> string) option" where
  "parse_chars [] = None"
| "parse_chars (c # cs) =
     (if code c = 34 then Some ([], cs)
      else if code c = 92 then
        (case cs of
           [] \<Rightarrow> None
         | e # es \<Rightarrow>
             (if e = CHR ''u'' then
                (case es of
                   a # b # x # y # zs \<Rightarrow>
                     (case (hex_val a, hex_val b, hex_val x, hex_val y) of
                        (Some p, Some q, Some r, Some t) \<Rightarrow>
                          (if p * 4096 + q * 256 + r * 16 + t < 256
                           then map_option (\<lambda>(s, rest). (char_of (p * 4096 + q * 256 + r * 16 + t) # s, rest)) (parse_chars zs)
                           else None)
                      | _ \<Rightarrow> None)
                 | _ \<Rightarrow> None)
              else
                (case map_of [(CHR 0x22, CHR 0x22), (CHR 0x5C, CHR 0x5C), (CHR ''/'', CHR ''/''), (CHR ''b'', CHR 0x08),
                              (CHR ''f'', CHR 0x0C), (CHR ''n'', CHR 0x0A), (CHR ''r'', CHR 0x0D), (CHR ''t'', CHR 0x09)] e of
                   None \<Rightarrow> None
                 | Some x \<Rightarrow> map_option (\<lambda>(s, rest). (x # s, rest)) (parse_chars es))))
      else if code c < 32 then None
      else map_option (\<lambda>(s, rest). (c # s, rest)) (parse_chars cs))"

text \<open>A number: sign, integer part without leading zeros, optional fraction and exponent.\<close>

definition parse_int_part :: "string \<Rightarrow> (string \<times> string) option" where
  "parse_int_part s = (case s of
     [] \<Rightarrow> None
   | c # cs \<Rightarrow> if c = CHR ''0'' then Some ([c], cs)
              else if is_digit c then Some (takeWhile is_digit s, dropWhile is_digit s) else None)"

definition parse_frac :: "string \<Rightarrow> string \<times> string" where
  "parse_frac s = (case s of
     c # d # ds \<Rightarrow> if c = CHR ''.'' \<and> is_digit d then (c # takeWhile is_digit (d # ds), dropWhile is_digit (d # ds)) else ([], s)
   | _ \<Rightarrow> ([], s))"

definition parse_exp :: "string \<Rightarrow> string \<times> string" where
  "parse_exp s = (case s of
     c # d # ds \<Rightarrow>
       if c \<noteq> CHR ''e'' \<and> c \<noteq> CHR ''E'' then ([], s)
       else if is_digit d then (c # takeWhile is_digit (d # ds), dropWhile is_digit (d # ds))
       else if (d = CHR ''+'' \<or> d = CHR ''-'') \<and> ds \<noteq> [] \<and> is_digit (hd ds)
         then (c # d # takeWhile is_digit ds, dropWhile is_digit ds)
       else ([], s)
   | _ \<Rightarrow> ([], s))"

definition parse_number :: "string \<Rightarrow> (json \<times> string) option" where
  "parse_number s = (let (sign, body) = (case s of c # cs \<Rightarrow> if c = CHR ''-'' then ([c], cs) else ([], s) | [] \<Rightarrow> ([], s)) in
     case parse_int_part body of
       None \<Rightarrow> None
     | Some (ds, rest) \<Rightarrow>
         (let (fr, rest1) = parse_frac rest; (ex, rest2) = parse_exp rest1 in
          if fr = [] \<and> ex = []
          then Some (JInt (if sign = [] then int (nat_of_digits ds) else - int (nat_of_digits ds)), rest2)
          else Some (JFloat (sign @ ds @ fr @ ex), rest2)))"

definition parse_literal :: "string \<Rightarrow> (json \<times> string) option" where
  "parse_literal s =
     (if prefix ''null'' s then Some (JNull, drop 4 s)
      else if prefix ''true'' s then Some (JBool True, drop 4 s)
      else if prefix ''false'' s then Some (JBool False, drop 5 s)
      else if prefix ''NaN'' s then Some (JFloat ''NaN'', drop 3 s)
      else if prefix ''Infinity'' s then Some (JFloat ''Infinity'', drop 8 s)
      else if prefix ''-Infinity'' s then Some (JFloat ''-Infinity'', drop 9 s)
      else parse_number s)"

fun parse_value :: "nat \<Rightarrow> string \<Rightarrow> (json \<times> string) option"
  and parse_elems :: "nat \<Rightarrow> string \<Rightarrow> (json list \<times> string) option"
  and parse_members :: "nat \<Rightarrow> string \<Rightarrow> (jdict \<times> string) option" where
  "parse_value 0 s = None"
| "parse_value (Suc n) s = (case s of
     [] \<Rightarrow> None
   | c # cs \<Rightarrow>
       if code c = 34 then map_option (\<lambda>(t, rest). (JStr t, rest)) (parse_chars cs)
       else if c = CHR ''['' then
         (case skip_ws cs of
            [] \<Rightarrow> None
          | d # ds \<Rightarrow> if d = CHR '']'' then Some (JList [], ds)
                     else map_option (\<lambda>(xs, rest). (JList xs, rest)) (parse_elems n (d # ds)))
       else if c = CHR ''{'' then
         (case skip_ws cs of
            [] \<Rightarrow> None
          | d # ds \<Rightarrow> if d = CHR ''}'' then Some (JObj [], ds)
                     else map_option (\<lambda>(kvs, rest). (JObj (foldl (\<lambda>d (k, v). AList.update k v d) [] kvs), rest)) (parse_members n (d # ds)))
       else parse_literal s)"
| "parse_elems 0 s = None"
| "parse_elems (Suc n) s = (case parse_value n s of
     None \<Rightarrow> None
   | Some (x, rest) \<Rightarrow>
       (case skip_ws rest of
          [] \<Rightarrow> None
        | c # cs \<Rightarrow> if c = CHR '']'' then Some ([x], cs)
                   else if c = CHR '','' then map_option (\<lambda>(xs, r). (x # xs, r)) (parse_elems n (skip_ws cs))
                   else None))"
| "parse_members 0 s = None"
| "parse_members (Suc n) s = (case s of
     [] \<Rightarrow> None
   | q # qs \<Rightarrow>
       if code q \<noteq> 34 then None
       else (case parse_chars qs of
          None \<Rightarrow> None
        | Some (k, rest) \<Rightarrow>
            (case skip_ws rest of
               [] \<Rightarrow> None
             | c # cs \<Rightarrow>
                 if c \<noteq> CHR '':'' then None
                 else (case parse_value n (skip_ws cs) of
                    None \<Rightarrow> None
                  | Some (v, rest1) \<Rightarrow>
                      (case skip_ws rest1 of
                         [] \<Rightarrow> None
                       | d # ds \<Rightarrow> if d = CHR ''}'' then Some ([(k, v)], ds)
                                  else if d = CHR '','' then map_option (\<lambda>(kvs, r). ((k, v) # kvs, r)) (parse_members n (skip_ws ds))
                                  else None)))))"

definition json_loads :: "string \<Rightarrow> json option" where
  "json_loads s = (case parse_value (2 * length s + 2) (skip_ws s) of
     None \<Rightarrow> None
   | Some (j, rest) \<Rightarrow> if skip_ws rest = [] then Some j else None)"

section \<open>Python's \<open>str\<close> of a JSON value\<close>

definition repr_char :: "char \<Rightarrow> char \<Rightarrow> string" where
  "repr_char q c = (let n = code c in
     if c = q \<or> n = 92 then [CHR 0x5C, c]
     else if n = 10 then [CHR 0x5C, CHR ''n'']
     else if n = 13 then [CHR 0x5C, CHR ''r'']
     else if n = 9 then [CHR 0x5C, CHR ''t'']
     else if n < 32 \<or> (127 \<le> n \<and> n \<le> 160) \<or> n = 173 then CHR 0x5C # CHR ''x'' # hex_digits 2 n
     else [c])"

definition repr_str :: "string \<Rightarrow> string" where
  "repr_str s = (let q = (if CHR 0x27 \<in> set s \<and> CHR 0x22 \<notin> set s then CHR 0x22 else CHR 0x27)
     in q # concat (map (repr_char q) s) @ [q])"

fun comma_spaces :: "string list \<Rightarrow> string" where
  "comma_spaces [] = []"
| "comma_spaces [x] = x"
| "comma_spaces (x # y # zs) = x @ '', '' @ comma_spaces (y # zs)"

fun py_repr :: "json \<Rightarrow> string" where
  "py_repr JNull = ''None''"
| "py_repr (JBool b) = (if b then ''True'' else ''False'')"
| "py_repr (JInt i) = str_int i"
| "py_repr (JFloat s) = s"
| "py_repr (JStr s) = repr_str s"
| "py_repr (JList xs) = ''['' @ comma_spaces (map py_repr xs) @ '']''"
| "py_repr (JObj d) = ''{'' @ comma_spaces (map (\<lambda>(k, v). repr_str k @ '': '' @ py_repr v) d) @ ''}''"

fun py_str :: "json \<Rightarrow> string" where
  "py_str (JStr s) = s"
| "py_str j = py_repr j"

text \<open>\<open>str(d.get(k) or default)\<close>.\<close>

definition get_str_or :: "jdict \<Rightarrow> string \<Rightarrow> string \<Rightarrow> string" where
  "get_str_or d k dflt = (case map_of d k of
     None \<Rightarrow> dflt | Some v \<Rightarrow> if truthy v then py_str v else dflt)"

text \<open>PostgreSQL's \<open>column ->> key\<close> (\<open>astext\<close>): SQL NULL for a missing key or JSON null.\<close>

definition json_astext :: "jdict \<Rightarrow> string \<Rightarrow> string option" where
  "json_astext d k = (case map_of d k of
     None \<Rightarrow> None | Some JNull \<Rightarrow> None | Some (JStr s) \<Rightarrow> Some s | Some v \<Rightarrow> Some (json_dumps False v))"

section \<open>The decoder inverts the encoder\<close>

text \<open>The documents the services write: no floats, and the keys of a \<open>dict\<close> are distinct.\<close>

fun json_ok :: "json \<Rightarrow> bool" where
  "json_ok (JFloat s) = False"
| "json_ok (JList xs) = (\<forall>x \<in> set xs. json_ok x)"
| "json_ok (JObj d) = (distinct (map fst d) \<and> (\<forall>p \<in> set d. json_ok (snd p)))"
| "json_ok _ = True"

definition number_stop :: "string \<Rightarrow> bool" where
  "number_stop rest = (rest = [] \<or> (\<not> is_digit (hd rest) \<and> hd rest \<notin> {CHR ''.'', CHR ''e'', CHR ''E''}))"

lemma hex_digits_4:
  "hex_digits 4 n = [hex_char (n div 16 div 16 div 16 mod 16), hex_char (n div 16 div 16 mod 16),
     hex_char (n div 16 mod 16), hex_char (n mod 16)]"
proof -
  have "(4::nat) = Suc (Suc (Suc (Suc 0)))" by simp
  then show ?thesis by (simp only: hex_digits.simps append.simps)
qed

lemma hex_value_4:
  "(n div 16 div 16 div 16 mod 16) * 4096 + (n div 16 div 16 mod 16) * 256 + (n div 16 mod 16) * 16 + n mod 16 = n"
  if "n < 256" for n :: nat
proof -
  have q: "n div 16 < 16" using that by simp
  then have "n div 16 div 16 = 0" by (rule div_less)
  with q show ?thesis by (simp del: div_mult2_eq)
qed

lemma parse_esc_u:
  assumes "parse_chars rest = Some (s, r)"
  shows "parse_chars (u_escape c @ rest) = Some (c # s, r)"
proof -
  define n where "n = code c"
  have n: "n < 256" by (simp add: n_def)
  have v: "(n div 16 div 16 div 16 mod 16) * 4096 + (n div 16 div 16 mod 16) * 256 + (n div 16 mod 16) * 16 + n mod 16 = n"
    using n by (rule hex_value_4)
  have "u_escape c = [CHR 0x5C, CHR ''u'', hex_char (n div 16 div 16 div 16 mod 16), hex_char (n div 16 div 16 mod 16),
     hex_char (n div 16 mod 16), hex_char (n mod 16)]"
    by (simp add: u_escape_def hex_digits_4 n_def)
  moreover have "char_of n = c" by (simp add: n_def)
  ultimately show ?thesis
    using assms n v by (simp add: hex_val_char del: div_mult2_eq)
qed

lemma code_eq_char: "code c = n \<longleftrightarrow> c = d" if "code d = n" for d
  using that by auto

lemmas special_codes =
  code_eq_char [of "CHR 0x22" 34, simplified] code_eq_char [of "CHR 0x5C" 92, simplified]
  code_eq_char [of "CHR 0x0A" 10, simplified] code_eq_char [of "CHR 0x0D" 13, simplified]
  code_eq_char [of "CHR 0x09" 9, simplified] code_eq_char [of "CHR 0x0C" 12, simplified]
  code_eq_char [of "CHR 0x08" 8, simplified]

lemma parse_esc_char:
  assumes "parse_chars rest = Some (s, r)"
  shows "parse_chars (esc_char a c @ rest) = Some (c # s, r)"
  using assms parse_esc_u [OF assms, of c]
  by (auto simp: esc_char_def Let_def special_codes)

lemma parse_json_str:
  "parse_chars (concat (map (esc_char a) s) @ CHR 0x22 # rest) = Some (s, rest)"
proof (induction s)
  case (Cons c s)
  then show ?case using parse_esc_char [OF Cons, of a c] by simp
qed simp

lemma dumps_hd:
  assumes "json_ok j"
  shows "\<exists>c cs. json_dumps a j = c # cs \<and> \<not> json_ws c \<and> c \<noteq> CHR '']'' \<and> c \<noteq> CHR ''}''"
proof (cases j)
  case (JInt i)
  obtain d ds where d: "digits10 (nat \<bar>i\<bar>) = d # ds" by (metis digits10_nonempty neq_Nil_conv)
  then have "is_digit d" using digits10_all_digits [of "nat \<bar>i\<bar>"] by simp
  then have "\<not> json_ws d \<and> d \<noteq> CHR '']'' \<and> d \<noteq> CHR ''}''"
    by (auto simp: json_ws_def is_digit_def)
  with JInt d show ?thesis by (auto simp: str_int_def json_ws_def)
qed (use assms in \<open>auto simp: json_str_def json_ws_def\<close>)

lemma skip_ws_dumps [simp]: "json_ok j \<Longrightarrow> skip_ws (json_dumps a j @ rest) = json_dumps a j @ rest"
  using dumps_hd [of j a] by (auto simp: skip_ws_def)

lemma skip_ws_stop: "\<not> json_ws c \<Longrightarrow> skip_ws (c # cs) = c # cs"
  by (simp add: skip_ws_def)

lemma takeWhile_digits:
  assumes "list_all is_digit ds" and "number_stop rest"
  shows "takeWhile is_digit (ds @ rest) = ds" "dropWhile is_digit (ds @ rest) = rest"
  using assms by (cases rest; auto simp: number_stop_def list_all_iff takeWhile_append dropWhile_append)+

lemma parse_int_part_digits:
  assumes "number_stop rest"
  shows "parse_int_part (digits10 n @ rest) = Some (digits10 n, rest)"
proof (cases "n = 0")
  case True
  have "digits10 0 = ''0''" by (metis append_Nil digits10.simps digits10_hd_zero list.sel(1) zero_less_numeral)
  with True show ?thesis by (simp add: parse_int_part_def)
next
  case False
  obtain d ds where d: "digits10 n = d # ds" by (metis digits10_nonempty neq_Nil_conv)
  then have "is_digit d" "d \<noteq> CHR ''0''"
    using digits10_all_digits [of n] digits10_hd_zero [of n] False by auto
  with d show ?thesis
    using takeWhile_digits [OF digits10_all_digits assms, of n] by (simp add: parse_int_part_def)
qed

lemma no_frac_exp: "number_stop rest \<Longrightarrow> parse_frac rest = ([], rest) \<and> parse_exp rest = ([], rest)"
  by (cases rest; cases "tl rest") (auto simp: number_stop_def parse_frac_def parse_exp_def split: list.splits)

lemma parse_number_int:
  assumes "number_stop rest"
  shows "parse_number (str_int i @ rest) = Some (JInt i, rest)"
proof -
  obtain d ds where d: "digits10 (nat i) = d # ds" by (metis digits10_nonempty neq_Nil_conv)
  then have "is_digit d" using digits10_all_digits [of "nat i"] by simp
  then have "d \<noteq> CHR ''-''" by (auto simp: is_digit_def)
  then show ?thesis
    using parse_int_part_digits [OF assms, of "nat i"] parse_int_part_digits [OF assms, of "nat (- i)"]
      no_frac_exp [OF assms] d nat_of_digits10 [of "nat i"]
    by (auto simp: parse_number_def str_int_def simp del: nat_of_digits10)
      (simp_all add: nat_of_digits10)
qed

lemma str_int_hd: "\<exists>c cs. str_int i = c # cs \<and> (is_digit c \<or> c = CHR ''-'' \<and> (\<exists>d ds. cs = d # ds \<and> is_digit d))"
proof -
  obtain d ds where "digits10 (nat \<bar>i\<bar>) = d # ds" by (metis digits10_nonempty neq_Nil_conv)
  moreover from this have "is_digit d" using digits10_all_digits [of "nat \<bar>i\<bar>"] by simp
  ultimately show ?thesis by (auto simp: str_int_def)
qed

lemma parse_literal_int:
  assumes "number_stop rest"
  shows "parse_literal (str_int i @ rest) = Some (JInt i, rest)"
proof -
  have "\<not> is_digit CHR ''n''" "\<not> is_digit CHR ''t''" "\<not> is_digit CHR ''f''" "\<not> is_digit CHR ''N''"
    "\<not> is_digit CHR ''I''" "\<not> is_digit CHR ''-''" by (simp_all add: is_digit_def)
  then show ?thesis
    using str_int_hd [of i] parse_number_int [OF assms, of i] by (auto simp: parse_literal_def)
qed

lemma parse_value_atom:
  assumes "c \<noteq> CHR ''['' " and "c \<noteq> CHR ''{''" and "code c \<noteq> 34"
  shows "parse_value (Suc n) (c # cs) = parse_literal (c # cs)"
  using assms by simp

lemma parse_value_int:
  assumes "number_stop rest"
  shows "parse_value (Suc n) (str_int i @ rest) = Some (JInt i, rest)"
proof -
  obtain c cs where c: "str_int i = c # cs" "is_digit c \<or> c = CHR ''-''" using str_int_hd [of i] by auto
  then have "c \<noteq> CHR ''['' \<and> c \<noteq> CHR ''{'' \<and> code c \<noteq> 34" by (auto simp: is_digit_def)
  with c show ?thesis using parse_literal_int [OF assms, of i] by (simp add: parse_value_atom)
qed

lemma number_stop_sep [simp]:
  "number_stop (CHR '','' # r)" "number_stop (CHR '']'' # r)" "number_stop (CHR ''}'' # r)" "number_stop []"
  by (simp_all add: number_stop_def is_digit_def)

lemma parse_elems_dumps:
  assumes "\<And>x n rest. x \<in> set xs \<Longrightarrow> 2 * length (json_dumps a x) \<le> n \<Longrightarrow> number_stop rest \<Longrightarrow>
      parse_value n (json_dumps a x @ rest) = Some (x, rest)"
    and "\<And>x. x \<in> set xs \<Longrightarrow> json_ok x" and "xs \<noteq> []"
    and "2 * length (commas (map (json_dumps a) xs)) + 1 \<le> n"
  shows "parse_elems n (commas (map (json_dumps a) xs) @ CHR '']'' # rest) = Some (xs, rest)"
  using assms
proof (induction xs arbitrary: n)
  case (Cons x xs)
  obtain m where n: "n = Suc m" using Cons.prems(4) by (cases n) auto
  show ?case
  proof (cases xs)
    case Nil
    with Cons.prems(1) [of x m "CHR '']'' # rest"] Cons.prems(4) n show ?thesis
      by (simp add: skip_ws_def json_ws_def)
  next
    case (Cons y ys)
    let ?tl = "commas (map (json_dumps a) xs) @ CHR '']'' # rest"
    have ok: "json_ok y" using Cons.prems(2) Cons by simp
    have len: "length (commas (map (json_dumps a) (x # xs))) = length (json_dumps a x) + 1 + length (commas (map (json_dumps a) xs))"
      using Cons by simp
    have "2 * length (json_dumps a x) \<le> m" using Cons.prems(4) n len by simp
    then have px: "parse_value m (json_dumps a x @ CHR '','' # ?tl) = Some (x, CHR '','' # ?tl)"
      by (intro Cons.prems(1)) simp_all
    have ptl: "parse_elems m ?tl = Some (xs, rest)"
      using Cons.IH [of m] Cons.prems n len Cons by simp
    have "skip_ws ?tl = ?tl"
      using dumps_hd [OF ok, of a] Cons by (cases ys) (auto simp: skip_ws_def)
    with px ptl n Cons show ?thesis by (simp add: skip_ws_stop json_ws_def)
  qed
qed simp

lemma parse_members_dumps:
  assumes "\<And>k v n rest. (k, v) \<in> set kvs \<Longrightarrow> 2 * length (json_dumps a v) \<le> n \<Longrightarrow> number_stop rest \<Longrightarrow>
      parse_value n (json_dumps a v @ rest) = Some (v, rest)"
    and "\<And>k v. (k, v) \<in> set kvs \<Longrightarrow> json_ok v" and "kvs \<noteq> []"
    and "2 * length (commas (map (\<lambda>(k, v). json_str a k @ '':'' @ json_dumps a v) kvs)) + 1 \<le> n"
  shows "parse_members n (commas (map (\<lambda>(k, v). json_str a k @ '':'' @ json_dumps a v) kvs) @ CHR ''}'' # rest) = Some (kvs, rest)"
  using assms
proof (induction kvs arbitrary: n)
  case (Cons kv kvs)
  obtain k v where kv: "kv = (k, v)" by (cases kv)
  obtain m where n: "n = Suc m" using Cons.prems(4) by (cases n) auto
  let ?enc = "\<lambda>kvs. commas (map (\<lambda>(k, v). json_str a k @ '':'' @ json_dumps a v) kvs)"
  have ok: "json_ok v" using Cons.prems(2) [of k v] kv by simp
  have colon: "skip_ws (CHR '':'' # r) = CHR '':'' # r" for r by (simp add: skip_ws_def json_ws_def)
  show ?case
  proof (cases kvs)
    case Nil
    then have "2 * length (json_dumps a v) \<le> m" using Cons.prems(4) n kv by simp
    then have "parse_value m (json_dumps a v @ CHR ''}'' # rest) = Some (v, CHR ''}'' # rest)"
      using Cons.prems(1) [of k v m "CHR ''}'' # rest"] kv by simp
    with Nil kv n ok colon show ?thesis
      by (simp add: json_str_def parse_json_str skip_ws_stop json_ws_def)
  next
    case (Cons p ps)
    let ?tl = "?enc kvs @ CHR ''}'' # rest"
    have len: "length (?enc (kv # kvs)) = length (json_str a k) + 1 + length (json_dumps a v) + 1 + length (?enc kvs)"
      using Cons kv by simp
    have "2 * length (json_dumps a v) \<le> m" using Cons.prems(4) n len by simp
    then have pv: "parse_value m (json_dumps a v @ CHR '','' # ?tl) = Some (v, CHR '','' # ?tl)"
      using Cons.prems(1) [of k v m "CHR '','' # ?tl"] kv by simp
    have ptl: "parse_members m ?tl = Some (kvs, rest)"
    proof (rule Cons.IH)
      show "parse_value n' (json_dumps a v' @ rest') = Some (v', rest')"
        if "(k', v') \<in> set kvs" "2 * length (json_dumps a v') \<le> n'" "number_stop rest'" for k' v' n' rest'
        using that Cons.prems(1) [of k' v' n' rest'] by simp
      show "json_ok v'" if "(k', v') \<in> set kvs" for k' v'
        using that Cons.prems(2) [of k' v'] by simp
      show "2 * length (?enc kvs) + 1 \<le> m" using Cons.prems(4) n len by simp
    qed (simp add: Cons)
    have "skip_ws ?tl = ?tl"
      using Cons by (cases p; cases ps) (auto simp: skip_ws_def json_str_def json_ws_def)
    with pv ptl n kv Cons ok colon show ?thesis
      by (simp add: json_str_def parse_json_str skip_ws_stop json_ws_def)
  qed
qed simp

lemma foldl_update_distinct:
  assumes "distinct (map fst (d @ kvs))"
  shows "foldl (\<lambda>d (k, v). AList.update k v d) d kvs = d @ kvs"
  using assms
proof (induction kvs arbitrary: d)
  case (Cons p kvs)
  obtain k v where p: "p = (k, v)" by (cases p)
  have "AList.update k v d = d @ [(k, v)]"
    using Cons.prems p by (induction d) (auto split: prod.splits)
  with Cons p show ?case by simp
qed simp

lemma parse_value_dumps:
  "json_ok j \<Longrightarrow> 2 * length (json_dumps a j) \<le> n \<Longrightarrow> number_stop rest \<Longrightarrow>
   parse_value n (json_dumps a j @ rest) = Some (j, rest)"
proof (induction j arbitrary: n rest)
  case JNull
  then obtain m where "n = Suc m" by (cases n) auto
  then show ?case by (simp add: parse_literal_def)
next
  case (JBool b)
  then obtain m where "n = Suc m" by (cases n) (auto split: if_splits)
  then show ?case by (cases b) (simp_all add: parse_literal_def)
next
  case (JInt i)
  have "str_int i \<noteq> []" using str_int_hd [of i] by auto
  with JInt obtain m where "n = Suc m" by (cases n) auto
  with JInt show ?case using parse_value_int by simp
next
  case (JStr s)
  then obtain m where "n = Suc m" by (cases n) (auto simp: json_str_def)
  then show ?case by (simp add: json_str_def parse_json_str)
next
  case (JList xs)
  then obtain m where n: "n = Suc m" by (cases n) auto
  show ?case
  proof (cases xs)
    case Nil
    with n show ?thesis by (simp add: skip_ws_stop json_ws_def)
  next
    case (Cons y ys)
    have "parse_elems m (commas (map (json_dumps a) xs) @ CHR '']'' # rest) = Some (xs, rest)"
      using JList n Cons by (intro parse_elems_dumps) auto
    moreover obtain c cs where "commas (map (json_dumps a) xs) = c # cs" "\<not> json_ws c" "c \<noteq> CHR '']''"
      using dumps_hd [of y a] JList.prems(1) Cons by (cases ys) auto
    ultimately show ?thesis using n by (simp add: skip_ws_stop)
  qed
next
  case (JObj d)
  then obtain m where n: "n = Suc m" by (cases n) auto
  show ?case
  proof (cases d)
    case Nil
    with n show ?thesis by (simp add: skip_ws_stop json_ws_def)
  next
    case (Cons y ys)
    let ?e = "commas (map (\<lambda>(k, v). json_str a k @ '':'' @ json_dumps a v) d)"
    have "parse_members m (?e @ CHR ''}'' # rest) = Some (d, rest)"
    proof (rule parse_members_dumps)
      fix k v n' rest'
      assume "(k, v) \<in> set d" "2 * length (json_dumps a v) \<le> n'" "number_stop rest'"
      then show "parse_value n' (json_dumps a v @ rest') = Some (v, rest')"
        using JObj.IH [of "(k, v)" v n' rest'] JObj.prems(1) by auto
    next
      show "json_ok v" if "(k, v) \<in> set d" for k v using that JObj.prems(1) by auto
      show "2 * length ?e + 1 \<le> m" using JObj.prems(2) n by simp
    qed (simp add: Cons)
    moreover obtain cs where "?e = CHR 0x22 # cs"
      using Cons by (cases y; cases ys) (auto simp: json_str_def)
    moreover have "foldl (\<lambda>d (k, v). AList.update k v d) [] d = d"
      using foldl_update_distinct [of "[]" d] JObj.prems(1) by simp
    ultimately show ?thesis using n by (simp add: skip_ws_stop json_ws_def)
  qed
qed simp

lemma json_loads_dumps: "json_ok j \<Longrightarrow> json_loads (json_dumps a j) = Some j"
  using parse_value_dumps [of j a "2 * length (json_dumps a j) + 2" "[]"] skip_ws_dumps [of j a "[]"]
  by (simp add: json_loads_def skip_ws_def)

end
