(* ===== verification/Tables.thy ===== *)
theory Tables
  imports Json
begin

text \<open>
  The database rows the modelled services read and write (\<open>src/backend/app/*/models\<close>) and the record
  of all tables.  Status columns that only ever hold the values of one fixed set are datatypes;
  \<open>deepspace_agent_runs.status\<close>, which is written from strings reported by a stream, has a
  constructor for any other text.  Columns that no modelled operation reads (row creation times that
  are only displayed, encrypted payloads) are left out.  Identifiers are UUIDs, so numbers; a new row
  takes the next unused one, which stands for \<open>uuid4\<close>.
\<close>

section \<open>Statuses\<close>

datatype turn_status = Queued | Running | Cancelling | AwaitingUser | AwaitingApproval
  | Completed | Cancelled | Failed

fun turn_status_str :: "turn_status \<Rightarrow> string" where
  "turn_status_str Queued = ''queued''"
| "turn_status_str Running = ''running''"
| "turn_status_str Cancelling = ''cancelling''"
| "turn_status_str AwaitingUser = ''awaiting_user''"
| "turn_status_str AwaitingApproval = ''awaiting_approval''"
| "turn_status_str Completed = ''completed''"
| "turn_status_str Cancelled = ''cancelled''"
| "turn_status_str Failed = ''failed''"

datatype run_status = RRunning | RCancelling | RAwaitingUser | RAwaitingApproval
  | RReady | RCompleted | RCancelled | RFailed | RBlocked | ROther string

definition run_status_of :: "string \<Rightarrow> run_status" where
  "run_status_of s =
     (if s = ''running'' then RRunning else if s = ''cancelling'' then RCancelling
      else if s = ''awaiting_user'' then RAwaitingUser else if s = ''awaiting_approval'' then RAwaitingApproval
      else if s = ''ready'' then RReady else if s = ''completed'' then RCompleted
      else if s = ''cancelled'' then RCancelled else if s = ''failed'' then RFailed
      else if s = ''blocked'' then RBlocked else ROther s)"

fun run_status_str :: "run_status \<Rightarrow> string" where
  "run_status_str RRunning = ''running''"
| "run_status_str RCancelling = ''cancelling''"
| "run_status_str RAwaitingUser = ''awaiting_user''"
| "run_status_str RAwaitingApproval = ''awaiting_approval''"
| "run_status_str RReady = ''ready''"
| "run_status_str RCompleted = ''completed''"
| "run_status_str RCancelled = ''cancelled''"
| "run_status_str RFailed = ''failed''"
| "run_status_str RBlocked = ''blocked''"
| "run_status_str (ROther s) = s"

section \<open>Rows\<close>

text \<open>Almost every query is scoped to one tenant, user and conversation.\<close>

type_synonym scope = "nat \<times> nat \<times> nat"

record turn =
  t_id :: nat
  t_scope :: scope
  t_request :: string
  t_regenerate :: "nat option"
  t_resume_from :: "string option"
  t_prompt :: string
  t_priority :: int
  t_sequence :: int
  t_thinking :: bool
  t_effort :: "string option"
  t_roles :: "string list"
  t_permissions :: "string list"
  t_files :: "string list"
  t_status :: turn_status
  t_error :: "string option"
  t_started :: "int option"
  t_completed :: "int option"

record control =
  c_scope :: scope
  c_paused :: bool
  c_reason :: "string option"
  c_failed_request :: "string option"
  c_paused_at :: "int option"

record agent_run =
  r_id :: nat
  r_scope :: scope
  r_message :: "nat option"
  r_status :: run_status
  r_cancel :: bool
  r_steps :: int
  r_last_sequence :: int
  r_checkpoint :: json
  r_error :: "string option"
  r_created :: int
  r_updated :: int
  r_heartbeat :: "int option"

record agent_step =
  s_id :: nat
  s_run :: nat
  s_scope :: scope
  s_sequence :: int
  s_type :: string
  s_tool :: "string option"
  s_call :: "string option"
  s_status :: string
  s_input :: jdict
  s_result :: jdict
  s_created :: int

record run_event =
  e_id :: nat
  e_scope :: scope
  e_run :: "nat option"
  e_request :: string
  e_sequence :: int
  e_frame :: string
  e_name :: string
  e_created :: int

record message =
  m_id :: nat
  m_conversation :: nat
  m_role :: string
  m_meta :: jdict

record conversation =
  v_scope :: scope
  v_kind :: string

record allocation =
  a_tenant :: nat
  a_plan :: string
  a_bytes :: int
  a_measured :: int
  a_measured_at :: "int option"
  a_mode :: string
  a_days :: int
  a_version :: int
  a_policy_at :: "int option"

record reservation =
  q_id :: nat
  q_tenant :: nat
  q_owner :: "nat option"
  q_key :: string
  q_bytes :: int
  q_status :: string
  q_expires :: int
  q_released :: "int option"

record lifecycle_item =
  l_id :: nat
  l_tenant :: nat
  l_owner :: "nat option"
  l_category :: string
  l_source_type :: string
  l_source_id :: string
  l_state :: string
  l_size :: int
  l_activity_at :: int
  l_activity_kind :: string
  l_group :: "string option"
  l_protected_until :: "int option"
  l_reason :: "string option"
  l_pinned :: bool
  l_legal_hold :: bool
  l_admin_exempt :: bool
  l_policy_version :: int
  l_archived_at :: "int option"
  l_purge_after :: "int option"
  l_updated :: int

record manifest =
  f_id :: nat
  f_tenant :: nat
  f_item :: nat
  f_category :: string
  f_source_type :: string
  f_source_id :: string
  f_state :: string
  f_policy_version :: int
  f_archived_at :: int
  f_restored_at :: "int option"

record decision =
  d_run :: nat
  d_tenant :: nat
  d_item :: nat
  d_action :: string
  d_reason :: string
  d_policy_version :: int

record retention_run =
  g_id :: nat
  g_tenant :: nat
  g_version :: int
  g_mode :: string
  g_days :: int
  g_status :: string
  g_operation :: string
  g_cursor :: "string option"
  g_lease :: "int option"
  g_candidates :: int
  g_protected :: int
  g_legacy :: int
  g_error :: "string option"
  g_started :: int
  g_completed :: "int option"

record notification =
  n_id :: nat
  n_tenant :: nat
  n_recipient :: nat
  n_domain :: string
  n_type :: string
  n_title :: string
  n_message :: string
  n_href :: string
  n_resource :: "string option"
  n_key :: "string option"

record delivery =
  y_tenant :: nat
  y_notification :: nat
  y_recipient :: nat
  y_channel :: string
  y_next_attempt :: int

record preference =
  p_tenant :: nat
  p_user :: nat
  p_email_enabled :: bool
  p_muted :: "string list"
  p_frequency :: string
  p_timezone :: string

text \<open>The rows other services own, with the columns the quota and the retention rules read.\<close>

record sized_row =
  z_tenant :: nat
  z_conversation :: "nat option"
  z_status :: string
  z_bytes :: int

record storage_metric =
  i_key :: string
  i_bytes :: int
  i_included :: bool

record schedule_run =
  h_tenant :: nat
  h_user :: nat
  h_request :: string
  h_status :: string
  h_error :: "string option"
  h_started :: "int option"
  h_completed :: "int option"

text \<open>One message on the realtime stream of a user (\<open>realtime/event_bus.py\<close>).\<close>

record realtime_event =
  x_tenant :: nat
  x_user :: nat
  x_type :: string
  x_resource :: string
  x_data :: jdict

section \<open>The store\<close>

text \<open>
  \<open>documents\<close> holds the rows with \<open>is_deleted\<close> false under the status \<open>live\<close>.  \<open>inventory\<close> is what the
  SQL text-length sums of \<open>StorageQuotaService.metrics\<close> return for a tenant; \<open>redis_up\<close> says whether
  the Redis server answers, \<open>smtp_on\<close> whether an SMTP host and sender are configured, and \<open>due_at\<close> is
  the time-zone database behind \<open>next_notification_delivery_at\<close> (frequency, zone, current time).
\<close>

record db =
  tenants :: "nat list"
  user_emails :: "(nat \<times> nat \<times> string) list"
  user_roles :: "(nat \<times> nat \<times> string) list"
  conversations :: "conversation list"
  messages :: "message list"
  turns :: "turn list"
  controls :: "control list"
  runs :: "agent_run list"
  steps :: "agent_step list"
  events :: "run_event list"
  allocations :: "allocation list"
  reservations :: "reservation list"
  lifecycle :: "lifecycle_item list"
  manifests :: "manifest list"
  decisions :: "decision list"
  retention_runs :: "retention_run list"
  notifications :: "notification list"
  deliveries :: "delivery list"
  preferences :: "preference list"
  documents :: "sized_row list"
  library_files :: "sized_row list"
  artifacts :: "sized_row list"
  uploads :: "sized_row list"
  artifact_jobs :: "sized_row list"
  schedules :: "sized_row list"
  schedule_runs :: "schedule_run list"
  inventory :: "(nat \<times> storage_metric) list"
  realtime :: "realtime_event list"
  live_channel :: "(string \<times> string) list"
  redis_up :: bool
  smtp_on :: bool
  due_at :: "string \<Rightarrow> string \<Rightarrow> int \<Rightarrow> int"
  next_id :: nat

text \<open>A fresh installation: no row in any table.\<close>

definition empty_db :: db where
  "empty_db = \<lparr>tenants = [], user_emails = [], user_roles = [], conversations = [], messages = [], turns = [],
     controls = [], runs = [], steps = [], events = [], allocations = [], reservations = [], lifecycle = [],
     manifests = [], decisions = [], retention_runs = [], notifications = [], deliveries = [],
     preferences = [], documents = [], library_files = [], artifacts = [], uploads = [], artifact_jobs = [],
     schedules = [], schedule_runs = [], inventory = [], realtime = [], live_channel = [], redis_up = True, smtp_on = False,
     due_at = (\<lambda>_ _ now. now), next_id = 1\<rparr>"

section \<open>Errors\<close>

text \<open>\<open>QuotaExceeded plan usage requested\<close> and \<open>ApiError code status\<close> carry the fields of the
  exceptions; the other constructors carry the message.  \<open>MultipleResults\<close> and \<open>NoResult\<close> are SQLAlchemy's
  answers of \<open>scalar_one_or_none\<close> and \<open>scalar_one\<close>, \<open>IntegrityError\<close> a violated unique constraint.\<close>

datatype app_error = ValueErr string | OverflowErr string | EditConflict string | NotEditable string
  | QuotaExceeded string int int | ReservationErr string | ApiError string int
  | MultipleResults | NoResult | IntegrityError | AttributeErr string | TypeErr string

text \<open>A transaction either raises, and the session is rolled back, or commits a result and a new store.
  An operation that commits more than once returns the store it leaves behind in both cases.\<close>

type_synonym 'a tx = "app_error + ('a \<times> db)"
type_synonym 'a session = "(app_error + 'a) \<times> db"

definition run_tx :: "'a tx \<Rightarrow> db \<Rightarrow> 'a session" where
  "run_tx r s = (case r of Inl e \<Rightarrow> (Inl e, s) | Inr (x, s') \<Rightarrow> (Inr x, s'))"

definition one_or_none :: "'a list \<Rightarrow> app_error + 'a option" where
  "one_or_none xs = (case xs of [] \<Rightarrow> Inr None | [x] \<Rightarrow> Inr (Some x) | _ \<Rightarrow> Inl MultipleResults)"

lemma one_or_none_short: "length xs \<le> 1 \<Longrightarrow> one_or_none xs = Inr (first_row xs)"
  by (cases xs; cases "tl xs") (auto simp: one_or_none_def)

lemma one_or_none_Some: "one_or_none xs = Inr (Some x) \<longleftrightarrow> xs = [x]"
  by (auto simp: one_or_none_def split: list.splits)

lemma one_or_none_None: "one_or_none xs = Inr None \<longleftrightarrow> xs = []"
  by (auto simp: one_or_none_def split: list.splits)

lemma run_tx_Inl [simp]: "run_tx (Inl e) s = (Inl e, s)"
  by (simp add: run_tx_def)

lemma run_tx_Inr [simp]: "run_tx (Inr (x, s')) s = (Inr x, s')"
  by (simp add: run_tx_def)

lemma case_ok:
  assumes "\<not> isl r" and "\<And>x s'. r = Inr (x, s') \<Longrightarrow> P x s'"
  shows "case r of Inl _ \<Rightarrow> False | Inr (x, s') \<Rightarrow> P x s'"
  using assms by (cases r) auto

lemma run_status_of_str [simp]: "run_status_of (run_status_str (run_status_of s)) = run_status_of s"
  by (simp add: run_status_of_def)


section \<open>Tables with a primary key\<close>

text \<open>
  What the services assume of \<open>session.get\<close> and of an update of one row by its key.  The lemmas hold
  for every table with such a lookup and update; each component interprets the locale on the table
  it owns.
\<close>

locale keyed_table =
  fixes key :: "'r \<Rightarrow> 'k"
    and rows :: "'s \<Rightarrow> 'r list"
    and find_row :: "'k \<Rightarrow> 's \<Rightarrow> 'r option"
    and upd_row :: "'k \<Rightarrow> ('r \<Rightarrow> 'r) \<Rightarrow> 's \<Rightarrow> 's"
  assumes find_row: "find_row k s = first_row (filter (\<lambda>r. key r = k) (rows s))"
    and rows_upd: "rows (upd_row k f s) = upd_where (\<lambda>r. key r = k) f (rows s)"
begin

lemma find_key: "find_row k s = Some r \<Longrightarrow> key r = k"
  using first_row_in by (fastforce simp: find_row)

lemma find_in: "find_row k s = Some r \<Longrightarrow> r \<in> set (rows s)"
  using first_row_in by (fastforce simp: find_row)

lemma find_None: "find_row k s = None \<longleftrightarrow> k \<notin> key ` set (rows s)"
  by (auto simp: find_row filter_empty_conv)

lemma find_unique:
  assumes "distinct (map key (rows s))" and "r \<in> set (rows s)"
  shows "find_row (key r) s = Some r"
proof -
  have "filter (\<lambda>x. key x = key r) (rows s) \<noteq> []"
    using assms(2) by (auto simp: filter_empty_conv)
  then obtain x xs where f: "filter (\<lambda>x. key x = key r) (rows s) = x # xs"
    by (cases "filter (\<lambda>x. key x = key r) (rows s)") auto
  then have "x \<in> set (filter (\<lambda>x. key x = key r) (rows s))" by simp
  then have "x = r" using assms distinct_map_inj [of key "rows s" x r] by simp
  with f show ?thesis by (simp add: find_row)
qed

lemma find_upd:
  assumes "\<And>r. key r = k \<Longrightarrow> key (f r) = k"
  shows "find_row k (upd_row k f s) = map_option f (find_row k s)"
proof -
  have "filter (\<lambda>r. key r = k) (upd_where (\<lambda>r. key r = k) f xs) = map f (filter (\<lambda>r. key r = k) xs)" for xs
    by (induction xs) (auto simp: assms)
  then show ?thesis
    by (simp add: find_row rows_upd first_row_def split: list.splits)
qed

lemma find_upd_other:
  assumes "\<And>r. key r = k \<Longrightarrow> key (f r) = k" and "k' \<noteq> k"
  shows "find_row k' (upd_row k f s) = find_row k' s"
proof -
  have "filter (\<lambda>r. key r = k') (upd_where (\<lambda>r. key r = k) f xs) = filter (\<lambda>r. key r = k') xs" for xs
    by (rule filter_upd_where_disjoint) (use assms in auto)
  then show ?thesis by (simp add: find_row rows_upd)
qed

lemma keys_upd:
  assumes "\<And>r. key r = k \<Longrightarrow> key (f r) = k"
  shows "map key (rows (upd_row k f s)) = map key (rows s)"
  unfolding rows_upd by (rule map_upd_where_same) (use assms in auto)

lemma find_insert:
  assumes "rows s' = rows s @ [r]"
  shows "find_row k s' = (case find_row k s of Some x \<Rightarrow> Some x | None \<Rightarrow> if key r = k then Some r else None)"
  by (auto simp: find_row assms first_row_def filter_empty_conv split: list.splits option.splits)

lemma rows_frame: "rows s' = rows s \<Longrightarrow> find_row k s' = find_row k s"
  by (simp add: find_row)

end


section \<open>Services beside the conversation tables\<close>

text \<open>
  Notifications, storage accounting, lifecycle rows and realtime events are written beside the
  conversation tables in the same transaction.  \<open>workspace_core\<close> is what such a service leaves alone;
  the two locales are the contract the queue and the run store rely on, the first for a service that
  always succeeds, the second for a guard that may reject the write.
\<close>

definition workspace_core :: "db \<Rightarrow> db" where
  "workspace_core s = s\<lparr>notifications := [], deliveries := [], allocations := [], lifecycle := [],
     decisions := [], retention_runs := [],
     manifests := [], realtime := [], live_channel := [], next_id := 0\<rparr>"

lemma workspace_core_upd [simp]:
  "workspace_core (s\<lparr>notifications := x0\<rparr>) = workspace_core s"
  "workspace_core (s\<lparr>deliveries := x1\<rparr>) = workspace_core s"
  "workspace_core (s\<lparr>allocations := x2\<rparr>) = workspace_core s"
  "workspace_core (s\<lparr>lifecycle := x3\<rparr>) = workspace_core s"
  "workspace_core (s\<lparr>manifests := x4\<rparr>) = workspace_core s"
  "workspace_core (s\<lparr>decisions := x8\<rparr>) = workspace_core s"
  "workspace_core (s\<lparr>retention_runs := x9\<rparr>) = workspace_core s"
  "workspace_core (s\<lparr>realtime := x5\<rparr>) = workspace_core s"
  "workspace_core (s\<lparr>live_channel := x6\<rparr>) = workspace_core s"
  "workspace_core (s\<lparr>next_id := x7\<rparr>) = workspace_core s"
  by (simp_all add: workspace_core_def)

lemma workspace_core_fields:
  assumes "workspace_core s' = workspace_core s"
  shows "turns s' = turns s" "controls s' = controls s" "runs s' = runs s" "steps s' = steps s"
    "events s' = events s" "messages s' = messages s" "conversations s' = conversations s"
    "tenants s' = tenants s" "reservations s' = reservations s" "redis_up s' = redis_up s"
    "documents s' = documents s" "library_files s' = library_files s" "artifacts s' = artifacts s"
    "uploads s' = uploads s" "inventory s' = inventory s" "user_roles s' = user_roles s"
    "artifact_jobs s' = artifact_jobs s" "schedules s' = schedules s"
    "schedule_runs s' = schedule_runs s"
proof -
  note c = arg_cong [OF assms]
  show "turns s' = turns s" using c [of turns] by (simp add: workspace_core_def)
  show "controls s' = controls s" using c [of controls] by (simp add: workspace_core_def)
  show "runs s' = runs s" using c [of runs] by (simp add: workspace_core_def)
  show "steps s' = steps s" using c [of steps] by (simp add: workspace_core_def)
  show "events s' = events s" using c [of events] by (simp add: workspace_core_def)
  show "messages s' = messages s" using c [of messages] by (simp add: workspace_core_def)
  show "conversations s' = conversations s" using c [of conversations] by (simp add: workspace_core_def)
  show "tenants s' = tenants s" using c [of tenants] by (simp add: workspace_core_def)
  show "reservations s' = reservations s" using c [of reservations] by (simp add: workspace_core_def)
  show "redis_up s' = redis_up s" using c [of redis_up] by (simp add: workspace_core_def)
  show "documents s' = documents s" using c [of documents] by (simp add: workspace_core_def)
  show "library_files s' = library_files s" using c [of library_files] by (simp add: workspace_core_def)
  show "artifacts s' = artifacts s" using c [of artifacts] by (simp add: workspace_core_def)
  show "uploads s' = uploads s" using c [of uploads] by (simp add: workspace_core_def)
  show "inventory s' = inventory s" using c [of inventory] by (simp add: workspace_core_def)
  show "artifact_jobs s' = artifact_jobs s" using c [of artifact_jobs] by (simp add: workspace_core_def)
  show "schedules s' = schedules s" using c [of schedules] by (simp add: workspace_core_def)
  show "schedule_runs s' = schedule_runs s" using c [of schedule_runs] by (simp add: workspace_core_def)
  show "user_roles s' = user_roles s" using c [of user_roles] by (simp add: workspace_core_def)
qed

locale neutral_service =
  fixes serve :: "db \<Rightarrow> db"
  assumes core: "workspace_core (serve s) = workspace_core s"
    and ids: "next_id s \<le> next_id (serve s)"
begin

lemmas frame = workspace_core_fields [OF core]

lemma core_fold: "workspace_core (if P then serve s else s) = workspace_core s"
  by (simp add: core)

end

locale neutral_guard =
  fixes guard :: "db \<Rightarrow> 'r tx"
  assumes guard_core: "guard s = Inr (x, s') \<Longrightarrow> workspace_core s' = workspace_core s"
    and guard_ids: "guard s = Inr (x, s') \<Longrightarrow> next_id s \<le> next_id s'"
begin

lemmas guard_frame = workspace_core_fields [OF guard_core]

end

end
