(* ===== verification/Accounts.thy ===== *)
theory Accounts
  imports Tables
begin

text \<open>
  Roles, permissions and tenant headers: \<open>auth/roles.py\<close>, \<open>auth/permissions.py\<close>, \<open>auth/rbac.py\<close> and
  \<open>auth/tenancy.py\<close>.  A Python \<open>frozenset\<close> of names is a list, read through \<open>set\<close>; a permission check
  is a function from the caller's roles and direct grants to a denial that lists what is missing.
\<close>

section \<open>Role names\<close>

definition role_aliases :: "(string \<times> string) list" where
  "role_aliases = [(''reader'', ''user''), (''super_admin'', ''admin'')]"

definition canonicalize_role_name :: "string \<Rightarrow> string" where
  "canonicalize_role_name role = (let normalized = lower (strip role) in
     case map_of role_aliases normalized of None \<Rightarrow> normalized | Some r \<Rightarrow> r)"

definition canonicalize_role_names :: "string list \<Rightarrow> string list" where
  "canonicalize_role_names roles = map canonicalize_role_name (filter (\<lambda>r. strip r \<noteq> []) roles)"

definition is_admin_role :: "string list \<Rightarrow> bool" where
  "is_admin_role roles = (''admin'' \<in> set (canonicalize_role_names roles))"

definition is_platform_admin_email :: "string \<Rightarrow> string list \<Rightarrow> bool" where
  "is_platform_admin_email email allowed = (let e = lower (strip email) in
     if e = [] then False
     else e \<in> set (map (\<lambda>a. lower (strip a)) (filter (\<lambda>a. strip a \<noteq> []) allowed)))"

section \<open>Permissions\<close>

definition admin_permissions :: "string list" where
  "admin_permissions =
     [''auth:login_self'', ''auth:refresh_self'', ''auth:logout_self'', ''documents:upload'',
      ''documents:read'', ''documents:delete'', ''documents:organization:basic'',
      ''documents:organization:advanced'', ''documents:organization:admin'', ''collections:read'',
      ''collections:write'', ''queries:run'', ''deepspace:diagnostics'', ''providers:read'',
      ''providers:write'', ''providers:test'', ''providers:assign'', ''providers:oauth'',
      ''admin:audit_logs:read'', ''admin:break_glass:write'', ''admin:data_deletions:write'',
      ''admin:data_deletions:approve'', ''admin:data_deletions:read'', ''admin:support:read'',
      ''admin:support:write'', ''admin:feedback:read'', ''admin:feedback:write'',
      ''admin:metrics:read'', ''admin:users:read'', ''admin:users:disable'',
      ''admin:users:reactivate'', ''admin:users:logout'', ''admin:users:delete'',
      ''mcp:catalog:manage'']"

definition support_manager_permissions :: "string list" where
  "support_manager_permissions =
     [''auth:login_self'', ''auth:refresh_self'', ''auth:logout_self'']"

definition feedback_manager_permissions :: "string list" where
  "feedback_manager_permissions =
     [''auth:login_self'', ''auth:refresh_self'', ''auth:logout_self'']"

definition collection_moderator_permissions :: "string list" where
  "collection_moderator_permissions =
     [''auth:login_self'', ''auth:refresh_self'', ''auth:logout_self'',
      ''collections:moderation:read'', ''collections:moderation:write'']"

definition editor_permissions :: "string list" where
  "editor_permissions =
     [''auth:login_self'', ''auth:refresh_self'', ''auth:logout_self'', ''documents:upload'',
      ''documents:read'', ''documents:delete'', ''documents:organization:basic'',
      ''documents:organization:advanced'', ''collections:read'', ''collections:write'',
      ''queries:run'', ''providers:read'', ''providers:write'', ''providers:test'',
      ''providers:assign'', ''providers:oauth'']"

definition user_permissions :: "string list" where
  "user_permissions =
     [''auth:login_self'', ''auth:refresh_self'', ''auth:logout_self'', ''documents:upload'',
      ''documents:read'', ''documents:delete'', ''documents:organization:basic'',
      ''collections:read'', ''collections:write'', ''queries:run'', ''providers:read'',
      ''providers:write'', ''providers:test'', ''providers:assign'', ''providers:oauth'']"

definition service_permissions :: "string list" where
  "service_permissions =
     [''documents:upload'', ''documents:read'', ''queries:run'']"

definition permissions_by_role :: "(string \<times> string list) list" where
  "permissions_by_role =
     [(''admin'', admin_permissions),
      (''support_manager'', support_manager_permissions),
      (''feedback_manager'', feedback_manager_permissions),
      (''collection_moderator'', collection_moderator_permissions),
      (''editor'', editor_permissions),
      (''user'', user_permissions),
      (''service'', service_permissions),
      (''super_admin'', admin_permissions),
      (''reader'', user_permissions),
      (''member'', user_permissions)]"

definition role_permissions :: "string \<Rightarrow> string list" where
  "role_permissions role =
     (case map_of permissions_by_role (canonicalize_role_name role) of None \<Rightarrow> [] | Some ps \<Rightarrow> ps)"

definition resolve_permissions :: "string list \<Rightarrow> string list \<Rightarrow> string list" where
  "resolve_permissions roles direct = concat (map role_permissions roles) @ direct"

section \<open>Endpoint checks\<close>

fun normalize_from :: "string list \<Rightarrow> string list \<Rightarrow> string list" where
  "normalize_from seen [] = []"
| "normalize_from seen (v # vs) = (let cleaned = strip v in
     if cleaned = [] \<or> cleaned \<in> set seen then normalize_from seen vs
     else cleaned # normalize_from (cleaned # seen) vs)"

definition normalize_permissions :: "string list \<Rightarrow> string list" where
  "normalize_permissions values = normalize_from [] values"

datatype access_error = Forbidden "string list"

definition require_permissions :: "string list \<Rightarrow> string list \<Rightarrow> string list \<Rightarrow> access_error + unit" where
  "require_permissions required roles direct = (let needed = normalize_permissions required in
     if needed = [] then Inr ()
     else (let granted = resolve_permissions roles direct;
               missing = filter (\<lambda>p. p \<notin> set granted) needed
           in if missing \<noteq> [] then Inl (Forbidden missing) else Inr ()))"

section \<open>The tenant header\<close>

definition parse_tenant_header :: "string option \<Rightarrow> bool \<Rightarrow> app_error + nat option" where
  "parse_tenant_header header required = (case header of
     None \<Rightarrow> if required then Inl (ApiError ''TENANT_REQUIRED'' 400) else Inr None
   | Some h \<Rightarrow> (let cleaned = strip h in
       if cleaned = [] then (if required then Inl (ApiError ''TENANT_REQUIRED'' 400) else Inr None)
       else (case parse_uuid cleaned of
          None \<Rightarrow> Inl (ApiError ''INVALID_TENANT_ID'' 400)
        | Some u \<Rightarrow> Inr (Some u))))"

definition get_login_tenant_id :: "string option \<Rightarrow> app_error + nat option" where
  "get_login_tenant_id header = parse_tenant_header header False"

text \<open>\<open>require_login_tenant_id\<close> and \<open>require_request_tenant_id\<close> differ in the message only; the
  \<open>RuntimeError\<close> branch behind the parser is the last one.\<close>

definition require_tenant_id :: "string option \<Rightarrow> app_error + nat" where
  "require_tenant_id header = (case parse_tenant_header header True of
     Inl e \<Rightarrow> Inl e
   | Inr (Some u) \<Rightarrow> Inr u
   | Inr None \<Rightarrow> Inl (ValueErr ''tenant id parser returned None''))"

section \<open>Lemmas\<close>

lemma in_resolve_permissions:
  "p \<in> set (resolve_permissions roles direct) \<longleftrightarrow>
     p \<in> set direct \<or> (\<exists>r \<in> set roles. p \<in> set (role_permissions r))"
  by (auto simp: resolve_permissions_def)

lemma role_permissions_cases:
  assumes "p \<in> set (role_permissions r)"
  shows "\<exists>n ps. canonicalize_role_name r = n \<and> (n, ps) \<in> set permissions_by_role \<and> p \<in> set ps"
proof (cases "map_of permissions_by_role (canonicalize_role_name r)")
  case None
  with assms show ?thesis by (simp add: role_permissions_def)
next
  case (Some ps)
  with assms show ?thesis by (auto simp: role_permissions_def dest: map_of_SomeD)
qed

lemma set_normalize_from:
  "set (normalize_from seen vs) = {p. p \<noteq> [] \<and> p \<in> strip ` set vs} - set seen"
  by (induction seen vs rule: normalize_from.induct) (auto simp: Let_def)

lemma distinct_normalize_from: "distinct (normalize_from seen vs) \<and> set (normalize_from seen vs) \<inter> set seen = {}"
  by (induction seen vs rule: normalize_from.induct) (auto simp: Let_def)

lemma set_normalize: "set (normalize_permissions vs) = {p. p \<noteq> [] \<and> p \<in> strip ` set vs}"
  by (simp add: normalize_permissions_def set_normalize_from)

lemma canonical_never_alias: "canonicalize_role_name r \<noteq> ''super_admin'' \<and> canonicalize_role_name r \<noteq> ''reader''"
  by (auto simp: canonicalize_role_name_def role_aliases_def Let_def split: option.splits)

lemma resolve_permissions_append:
  "set (resolve_permissions (rs @ qs) ds) = set (resolve_permissions rs ds) \<union> set (resolve_permissions qs ds)"
  by (auto simp: in_resolve_permissions)

definition admin_only :: "string \<Rightarrow> bool" where
  "admin_only p = (prefix ''admin:'' p \<or> p \<in> {''mcp:catalog:manage'', ''deepspace:diagnostics'', ''documents:organization:admin''})"

lemma admin_only_in_table:
  "\<forall>(n, ps) \<in> set permissions_by_role. (\<exists>p \<in> set ps. admin_only p) \<longrightarrow> n = ''admin'' \<or> n = ''super_admin''"
  by (simp add: permissions_by_role_def admin_only_def support_manager_permissions_def
      feedback_manager_permissions_def collection_moderator_permissions_def editor_permissions_def
      user_permissions_def service_permissions_def)

text \<open>
  Privilege separation: a permission that belongs to the administration surface (every
  \<open>admin:\<close> permission, catalog management, diagnostics and the admin organisation controls) is in the
  effective permissions of a caller only if it was granted directly or one of the caller's roles
  canonicalises to \<open>admin\<close>; the moderator, manager, editor, user and service roles never carry it.
\<close>

theorem admin_permissions_need_admin_role:
  assumes "p \<in> set (resolve_permissions roles direct)" and "admin_only p" and "p \<notin> set direct"
  shows "is_admin_role roles"
proof -
  obtain r where r: "r \<in> set roles" "p \<in> set (role_permissions r)"
    using assms by (auto simp: in_resolve_permissions)
  then obtain ps where ps: "(canonicalize_role_name r, ps) \<in> set permissions_by_role" "p \<in> set ps"
    using role_permissions_cases by blast
  then have "canonicalize_role_name r = ''admin''"
    using admin_only_in_table assms(2) canonical_never_alias [of r] by fastforce
  moreover from this have "strip r \<noteq> []"
    by (auto simp: canonicalize_role_name_def role_aliases_def lower_def)
  ultimately show ?thesis using r by (force simp: is_admin_role_def canonicalize_role_names_def)
qed

theorem admin_permissions_need_admin_role_witness:
  "is_admin_role ['' Super_Admin '']"
  by (rule admin_permissions_need_admin_role [of "''admin:users:read''" _ "[]"])
    code_simp+

text \<open>
  Endpoint checks: \<open>require_permissions\<close> lets a caller through exactly when every non-blank required
  permission (blanks around it removed) is among the caller's effective permissions, and a denial
  names, without duplicates, exactly the required permissions the caller lacks.
\<close>

theorem require_permissions_correct:
  "(require_permissions required roles direct = Inr () \<longleftrightarrow>
      (\<forall>p \<in> strip ` set required. p = [] \<or> p \<in> set (resolve_permissions roles direct))) \<and>
   (\<forall>missing. require_permissions required roles direct = Inl (Forbidden missing) \<longrightarrow>
      distinct missing \<and>
      set missing = {p \<in> strip ` set required. p \<noteq> [] \<and> p \<notin> set (resolve_permissions roles direct)})"
proof -
  have n: "set (normalize_permissions required) = {p. p \<noteq> [] \<and> p \<in> strip ` set required}"
    by (rule set_normalize)
  have d: "distinct (normalize_permissions required)"
    using distinct_normalize_from by (simp add: normalize_permissions_def)
  have e: "normalize_permissions required = [] \<longleftrightarrow> (\<forall>p \<in> strip ` set required. p = [])"
    using n by (metis (mono_tags, lifting) empty_Collect_eq set_empty)
  show ?thesis
    using n d e by (auto simp: require_permissions_def Let_def filter_empty_conv)
qed

theorem require_permissions_correct_witness:
  "require_permissions ['' admin:users:read '', ''documents:read''] [''member''] [] = Inl (Forbidden [''admin:users:read'']) \<and>
   set [''admin:users:read''] =
     {p \<in> strip ` set ['' admin:users:read '', ''documents:read'']. p \<noteq> [] \<and> p \<notin> set (resolve_permissions [''member''] [])}"
proof -
  have r: "require_permissions ['' admin:users:read '', ''documents:read''] [''member''] [] = Inl (Forbidden [''admin:users:read''])"
    by code_simp
  show ?thesis
    using r require_permissions_correct [THEN conjunct2, rule_format, OF r] by blast
qed

end
