(* ===== verification/Quota.thy ===== *)
theory Quota
  imports Accounts
begin

text \<open>
  Storage plans, the tenant's allocation, the capacity check every durable write goes through and the
  reservations of multi-step writes (\<open>system/services/storage_quota.py\<close>), with the in-app notification
  they emit (\<open>system/services/user_notifications.py\<close>).
\<close>

section \<open>Plans\<close>

record storage_plan =
  plan_id :: string
  plan_name :: string
  plan_limit :: int
  plan_admin_only :: bool

definition bytes_per_mb :: int where "bytes_per_mb = 1024 * 1024"
definition free_storage_bytes :: int where "free_storage_bytes = 500 * bytes_per_mb"
definition editor_storage_bytes :: int where "editor_storage_bytes = 1024 * bytes_per_mb"

definition free_plan :: storage_plan where
  "free_plan = \<lparr>plan_id = ''free'', plan_name = ''Free'', plan_limit = free_storage_bytes, plan_admin_only = False\<rparr>"

definition editor_plan :: storage_plan where
  "editor_plan = \<lparr>plan_id = ''editor'', plan_name = ''Editor'', plan_limit = editor_storage_bytes, plan_admin_only = False\<rparr>"

definition admin_plan :: storage_plan where
  "admin_plan = \<lparr>plan_id = ''admin'', plan_name = ''Admin'', plan_limit = editor_storage_bytes, plan_admin_only = True\<rparr>"

definition plans :: "(string \<times> storage_plan) list" where
  "plans = [(''free'', free_plan), (''editor'', editor_plan), (''admin'', admin_plan)]"

definition plan_get :: "string \<Rightarrow> storage_plan \<Rightarrow> storage_plan" where
  "plan_get k dflt = (case map_of plans k of None \<Rightarrow> dflt | Some p \<Rightarrow> p)"

definition resolve_storage_plan :: "string list \<Rightarrow> storage_plan" where
  "resolve_storage_plan roles = (let canonical = canonicalize_role_names roles in
     if ''admin'' \<in> set canonical then admin_plan
     else if ''editor'' \<in> set canonical then editor_plan
     else free_plan)"

section \<open>Payload estimates\<close>

datatype py_value = PNone | PBytes nat | PStr string | PJson json

definition estimate_value :: "py_value \<Rightarrow> int" where
  "estimate_value v = (case v of
     PNone \<Rightarrow> 0
   | PBytes n \<Rightarrow> int n
   | PStr t \<Rightarrow> int (utf8_len t)
   | PJson j \<Rightarrow> int (utf8_len (json_dumps False j)))"

definition estimate_bytes :: "py_value list \<Rightarrow> int" where
  "estimate_bytes vs = sum_list (map estimate_value vs)"

definition py_strings :: "string list \<Rightarrow> py_value" where
  "py_strings xs = PJson (JList (map JStr xs))"

definition py_opt :: "string option \<Rightarrow> py_value" where
  "py_opt t = (case t of None \<Rightarrow> PNone | Some u \<Rightarrow> PStr u)"

section \<open>Usage\<close>

record storage_usage =
  documents_bytes :: int
  library_bytes :: int
  artifacts_bytes :: int
  pending_upload_bytes :: int
  account_data_bytes :: int

definition total_bytes :: "storage_usage \<Rightarrow> int" where
  "total_bytes u = documents_bytes u + library_bytes u + artifacts_bytes u + pending_upload_bytes u
     + account_data_bytes u"

definition active_upload_statuses :: "string list" where
  "active_upload_statuses = [''pending'', ''uploading'', ''queued'', ''processing'']"

definition sum_rows :: "(sized_row \<Rightarrow> bool) \<Rightarrow> sized_row list \<Rightarrow> int" where
  "sum_rows P zs = max 0 (sum_list (map z_bytes (filter P zs)))"

definition exact_usage :: "nat \<Rightarrow> db \<Rightarrow> storage_usage" where
  "exact_usage tn s =
     \<lparr>documents_bytes = sum_rows (\<lambda>z. z_tenant z = tn \<and> z_status z = ''live'') (documents s),
      library_bytes = sum_rows (\<lambda>z. z_tenant z = tn) (library_files s),
      artifacts_bytes = sum_rows (\<lambda>z. z_tenant z = tn \<and> z_status z \<noteq> ''deleted'') (artifacts s),
      pending_upload_bytes =
        sum_rows (\<lambda>z. z_tenant z = tn \<and> z_status z \<in> set active_upload_statuses) (uploads s),
      account_data_bytes = 0\<rparr>"

definition metrics :: "nat \<Rightarrow> db \<Rightarrow> storage_metric list" where
  "metrics tn s = (let u = exact_usage tn s in
     [\<lparr>i_key = ''documents'', i_bytes = documents_bytes u, i_included = True\<rparr>,
      \<lparr>i_key = ''library'', i_bytes = library_bytes u, i_included = True\<rparr>,
      \<lparr>i_key = ''artifacts'', i_bytes = artifacts_bytes u, i_included = True\<rparr>,
      \<lparr>i_key = ''pending_uploads'', i_bytes = pending_upload_bytes u, i_included = True\<rparr>]
     @ map snd (filter (\<lambda>p. fst p = tn) (inventory s)))"

definition exact_keys :: "string list" where
  "exact_keys = [''documents'', ''library'', ''artifacts'', ''pending_uploads'']"

definition usage :: "nat \<Rightarrow> db \<Rightarrow> storage_usage" where
  "usage tn s = (exact_usage tn s)\<lparr>account_data_bytes :=
     sum_list (map i_bytes (filter (\<lambda>m. i_included m \<and> i_key m \<notin> set exact_keys) (metrics tn s)))\<rparr>"

section \<open>Notifications\<close>

text \<open>The email half of \<open>add_user_notification\<close>: a delivery is queued when the recipient wants mail.\<close>

definition wants_email :: "nat \<Rightarrow> nat \<Rightarrow> string \<Rightarrow> db \<Rightarrow> preference option" where
  "wants_email tn rc domn s =
     (if \<not> smtp_on s then None
      else (case first_row (filter (\<lambda>p. p_tenant p = tn \<and> p_user p = rc) (preferences s)) of
        None \<Rightarrow> None
      | Some p \<Rightarrow>
          if (\<exists>u \<in> set (user_emails s). fst u = tn \<and> fst (snd u) = rc \<and> snd (snd u) \<noteq> [])
             \<and> p_email_enabled p \<and> domn \<notin> set (p_muted p)
          then Some p else None))"

definition email_delivery :: "int \<Rightarrow> nat \<Rightarrow> nat \<Rightarrow> nat \<Rightarrow> preference \<Rightarrow> db \<Rightarrow> delivery" where
  "email_delivery now tn nid rc p s =
     \<lparr>y_tenant = tn, y_notification = nid, y_recipient = rc, y_channel = ''email'',
      y_next_attempt = due_at s (if p_frequency p = [] then ''none'' else p_frequency p)
                         (if p_timezone p = [] then ''UTC'' else p_timezone p) now\<rparr>"

definition already_notified :: "nat \<Rightarrow> nat \<Rightarrow> string option \<Rightarrow> db \<Rightarrow> bool" where
  "already_notified tn rc key s = (key \<noteq> None \<and> key \<noteq> Some [] \<and>
     (\<exists>n \<in> set (notifications s). n_tenant n = tn \<and> n_recipient n = rc \<and> n_key n = key))"

definition add_user_notification ::
  "int \<Rightarrow> nat \<Rightarrow> nat \<Rightarrow> string \<Rightarrow> string \<Rightarrow> string \<Rightarrow> string \<Rightarrow> string \<Rightarrow> string option \<Rightarrow> string option \<Rightarrow> db \<Rightarrow> db" where
  "add_user_notification now tn rc domn kind title msg href resource key s =
     (if already_notified tn rc key s then s
      else (let nid = next_id s;
                n = \<lparr>n_id = nid, n_tenant = tn, n_recipient = rc, n_domain = domn, n_type = kind,
                     n_title = title, n_message = msg, n_href = href, n_resource = resource, n_key = key\<rparr>
            in s\<lparr>notifications := notifications s @ [n], next_id := Suc nid,
                 deliveries := deliveries s @ (case wants_email tn rc domn s of
                    None \<Rightarrow> [] | Some p \<Rightarrow> [email_delivery now tn nid rc p s])\<rparr>))"

section \<open>Allocations\<close>

definition find_allocation :: "nat \<Rightarrow> db \<Rightarrow> allocation option" where
  "find_allocation tn s = first_row (filter (\<lambda>a. a_tenant a = tn) (allocations s))"

definition upd_allocation :: "nat \<Rightarrow> (allocation \<Rightarrow> allocation) \<Rightarrow> db \<Rightarrow> db" where
  "upd_allocation tn f s = s\<lparr>allocations := upd_where (\<lambda>a. a_tenant a = tn) f (allocations s)\<rparr>"

definition plan_for_user :: "nat \<Rightarrow> nat option \<Rightarrow> db \<Rightarrow> storage_plan" where
  "plan_for_user tn user s = (case user of
     None \<Rightarrow> free_plan
   | Some u \<Rightarrow> resolve_storage_plan
       (map (\<lambda>r. snd (snd r)) (filter (\<lambda>r. fst r = tn \<and> fst (snd r) = u) (user_roles s))))"

definition requested_plan :: "nat \<Rightarrow> string list \<Rightarrow> nat option \<Rightarrow> db \<Rightarrow> storage_plan" where
  "requested_plan tn roles user s = (if roles \<noteq> [] then resolve_storage_plan roles else plan_for_user tn user s)"

definition new_allocation :: "nat \<Rightarrow> storage_plan \<Rightarrow> allocation" where
  "new_allocation tn p = \<lparr>a_tenant = tn, a_plan = plan_id p, a_bytes = plan_limit p, a_measured = 0,
     a_measured_at = None, a_mode = ''off'', a_days = 0, a_version = 1, a_policy_at = None\<rparr>"

definition upgrade_allocation :: "storage_plan \<Rightarrow> allocation \<Rightarrow> allocation" where
  "upgrade_allocation requested a = (let current = plan_get (a_plan a) free_plan in
     if plan_limit current < plan_limit requested
     then a\<lparr>a_plan := plan_id requested, a_bytes := plan_limit requested\<rparr>
     else if plan_limit requested = plan_limit current \<and> plan_id requested \<noteq> plan_id current
     then a\<lparr>a_plan := plan_id requested\<rparr>
     else a)"

definition ensure_allocation :: "nat \<Rightarrow> storage_plan \<Rightarrow> db \<Rightarrow> allocation tx" where
  "ensure_allocation tn requested s =
     (if tn \<notin> set (tenants s) then Inl NoResult
      else (case find_allocation tn s of
         None \<Rightarrow> let a = new_allocation tn requested in Inr (a, s\<lparr>allocations := allocations s @ [a]\<rparr>)
       | Some a \<Rightarrow> let a' = upgrade_allocation requested a in Inr (a', upd_allocation tn (\<lambda>_. a') s)))"

section \<open>The capacity check\<close>

definition threshold_key :: "nat \<Rightarrow> int \<Rightarrow> int \<Rightarrow> string" where
  "threshold_key tn now th = uuid_str tn @ '':'' @ month_key now @ '':'' @ str_int th"

definition notify_threshold :: "int \<Rightarrow> nat \<Rightarrow> nat \<Rightarrow> string \<Rightarrow> int \<Rightarrow> db \<Rightarrow> db" where
  "notify_threshold now tn user pname th s =
     add_user_notification now tn user ''storage'' ''quota_threshold''
       (''Storage usage reached '' @ str_int th @ ''%'')
       (''Your workspace is using about '' @ str_int th @ ''% of its '' @ pname @ '' storage allocation.'')
       ''/dashboard/settings/storage'' (Some (threshold_key tn now th))
       (Some (''storage:quota:'' @ threshold_key tn now th)) s"

definition notify_thresholds :: "int \<Rightarrow> nat \<Rightarrow> nat option \<Rightarrow> storage_plan \<Rightarrow> int \<Rightarrow> int \<Rightarrow> db \<Rightarrow> db" where
  "notify_thresholds now tn user plan allocated projected s = (case user of
     None \<Rightarrow> s
   | Some u \<Rightarrow>
       if 0 < allocated \<and> projected \<le> allocated
       then fold (\<lambda>th s. if allocated * th \<le> projected * 100 then notify_threshold now tn u (plan_name plan) th s else s)
              [80, 90, 100] s
       else s)"

definition notify_plan_change :: "int \<Rightarrow> nat \<Rightarrow> nat option \<Rightarrow> string option \<Rightarrow> storage_plan \<Rightarrow> db \<Rightarrow> db" where
  "notify_plan_change now tn user prior plan s = (case (prior, user) of
     (Some p, Some u) \<Rightarrow>
       if p \<noteq> plan_id plan
       then add_user_notification now tn u ''plan'' ''role_plan_changed'' ''Workspace storage plan updated''
              (''Your workspace allocation is now '' @ plan_name plan @ ''.'') ''/dashboard/settings/plan''
              (Some (uuid_str tn)) (Some (''plan:allocation:'' @ uuid_str tn @ '':'' @ plan_id plan)) s
       else s
   | _ \<Rightarrow> s)"

definition ensure_capacity :: "int \<Rightarrow> nat \<Rightarrow> string list \<Rightarrow> nat option \<Rightarrow> int \<Rightarrow> int \<Rightarrow> db \<Rightarrow> storage_usage tx" where
  "ensure_capacity now tn roles user additional replacing s =
     (let safe_additional = max 0 additional; safe_replacing = max 0 replacing in
      if tn \<notin> set (tenants s) then Inl NoResult
      else (let plan = requested_plan tn roles user s;
                prior = map_option a_plan (find_allocation tn s) in
        case ensure_allocation tn plan s of
          Inl e \<Rightarrow> Inl e
        | Inr (a, s1) \<Rightarrow>
            (let u = usage tn s1;
                 effective = max 0 (total_bytes u - safe_replacing);
                 allocated_plan = plan_get (a_plan a) plan;
                 projected = effective + safe_additional;
                 s2 = notify_thresholds now tn user allocated_plan (a_bytes a) projected s1;
                 s3 = notify_plan_change now tn user prior allocated_plan s2
             in if a_bytes a < effective + safe_additional
                then Inl (QuotaExceeded (plan_id allocated_plan) (max 0 effective) (max 0 safe_additional))
                else Inr (u, upd_allocation tn (\<lambda>a. a\<lparr>a_measured := effective, a_measured_at := Some now\<rparr>) s3))))"

text \<open>\<open>ensure_capacity_if_supported\<close> on a real session: no check for a tenant without a row.\<close>

definition ensure_capacity_if_supported ::
  "int \<Rightarrow> nat \<Rightarrow> nat option \<Rightarrow> int \<Rightarrow> int \<Rightarrow> db \<Rightarrow> storage_usage option tx" where
  "ensure_capacity_if_supported now tn user additional replacing s =
     (if tn \<notin> set (tenants s) then Inr (None, s)
      else (case ensure_capacity now tn [] user additional replacing s of
         Inl e \<Rightarrow> Inl e | Inr (u, s') \<Rightarrow> Inr (Some u, s')))"

section \<open>Reservations\<close>

definition is_reservation :: "nat \<Rightarrow> string \<Rightarrow> reservation \<Rightarrow> bool" where
  "is_reservation tn key q = (q_tenant q = tn \<and> q_key q = key)"

definition held :: "int \<Rightarrow> reservation \<Rightarrow> bool" where
  "held now q = (q_status q = ''active'' \<and> now < q_expires q)"

definition reserved_total :: "int \<Rightarrow> nat \<Rightarrow> db \<Rightarrow> int" where
  "reserved_total now tn s =
     sum_list (map q_bytes (filter (\<lambda>q. q_tenant q = tn \<and> held now q) (reservations s)))"

definition expire_reservations :: "int \<Rightarrow> nat \<Rightarrow> db \<Rightarrow> db" where
  "expire_reservations now tn s = s\<lparr>reservations :=
     upd_where (\<lambda>q. q_tenant q = tn \<and> q_status q = ''active'' \<and> q_expires q \<le> now)
       (\<lambda>q. q\<lparr>q_status := ''expired'', q_released := Some now\<rparr>) (reservations s)\<rparr>"

definition clear_reservation :: "int \<Rightarrow> nat \<Rightarrow> string \<Rightarrow> reservation option \<Rightarrow> db \<Rightarrow> db" where
  "clear_reservation now tn key existing s = expire_reservations now tn
     (case existing of
        Some q \<Rightarrow> if q_status q = ''active''
                  then s\<lparr>reservations := upd_where (is_reservation tn key)
                          (\<lambda>q. q\<lparr>q_status := ''expired'', q_released := Some now\<rparr>) (reservations s)\<rparr>
                  else s
      | None \<Rightarrow> s)"

definition store_reservation ::
  "nat \<Rightarrow> string \<Rightarrow> nat option \<Rightarrow> int \<Rightarrow> int \<Rightarrow> reservation option \<Rightarrow> db \<Rightarrow> reservation \<times> db" where
  "store_reservation tn key user amount expires existing s = (case existing of
     None \<Rightarrow>
       (let q = \<lparr>q_id = next_id s, q_tenant = tn, q_owner = user, q_key = key, q_bytes = amount,
                 q_status = ''active'', q_expires = expires, q_released = None\<rparr>
        in (q, s\<lparr>reservations := reservations s @ [q], next_id := Suc (next_id s)\<rparr>))
   | Some q0 \<Rightarrow>
       (let q = q0\<lparr>q_owner := (if user \<noteq> None then user else q_owner q0), q_bytes := amount,
                   q_status := ''active'', q_expires := expires, q_released := None\<rparr>
        in (q, s\<lparr>reservations := upd_where (is_reservation tn key) (\<lambda>_. q) (reservations s)\<rparr>)))"

definition grant_reservation ::
  "int \<Rightarrow> nat \<Rightarrow> string \<Rightarrow> nat option \<Rightarrow> int \<Rightarrow> int \<Rightarrow> allocation \<Rightarrow> storage_plan \<Rightarrow> reservation option \<Rightarrow> db \<Rightarrow> reservation tx" where
  "grant_reservation now tn key user amount ttl a plan existing s =
     (let s3 = clear_reservation now tn key existing s;
          reserved = reserved_total now tn s3;
          u = usage tn s3
      in if a_bytes a < total_bytes u + reserved + amount
         then Inl (QuotaExceeded (plan_id (plan_get (a_plan a) plan)) (max 0 (total_bytes u + reserved)) amount)
         else Inr (store_reservation tn key user amount (now + ttl) existing s3))"

definition reserve_capacity ::
  "int \<Rightarrow> nat \<Rightarrow> string \<Rightarrow> int \<Rightarrow> string list \<Rightarrow> nat option \<Rightarrow> int \<Rightarrow> db \<Rightarrow> reservation tx" where
  "reserve_capacity now tn rkey reserved_bytes roles user ttl_seconds s =
     (let key = strip rkey; amount = max 0 reserved_bytes in
      if key = [] \<or> 255 < length key then Inl (ReservationErr ''A bounded reservation key is required.'')
      else if amount \<le> 0 then Inl (ReservationErr ''Reserved bytes must be greater than zero.'')
      else if tn \<notin> set (tenants s) then Inl NoResult
      else (let ttl = max 1 (min ttl_seconds (24 * 60 * 60));
                plan = requested_plan tn roles user s in
        case ensure_allocation tn plan s of
          Inl e \<Rightarrow> Inl e
        | Inr (a, s1) \<Rightarrow>
          (case one_or_none (filter (is_reservation tn key) (reservations s1)) of
             Inl e \<Rightarrow> Inl e
           | Inr existing \<Rightarrow>
             (case existing of
                Some q \<Rightarrow> if held now q then Inr (q, s1) else
                  grant_reservation now tn key user amount ttl a plan existing s1
              | None \<Rightarrow> grant_reservation now tn key user amount ttl a plan existing s1))))"

definition release_capacity :: "int \<Rightarrow> nat \<Rightarrow> string \<Rightarrow> string \<Rightarrow> db \<Rightarrow> bool tx" where
  "release_capacity now tn rkey status s =
     (if status \<notin> {''released'', ''committed''}
      then Inl (ReservationErr ''Reservation status must be released or committed.'')
      else (case one_or_none (filter (is_reservation tn rkey) (reservations s)) of
         Inl e \<Rightarrow> Inl e
       | Inr None \<Rightarrow> Inr (False, s)
       | Inr (Some q) \<Rightarrow>
           (if q_status q = ''active''
            then Inr (True, s\<lparr>reservations := upd_where (is_reservation tn rkey)
                              (\<lambda>q. q\<lparr>q_status := status, q_released := Some now\<rparr>) (reservations s)\<rparr>)
            else Inr (True, s))))"


section \<open>What the operations leave alone\<close>

interpretation alloc_table: keyed_table a_tenant allocations find_allocation upd_allocation
  by unfold_locales (simp_all add: find_allocation_def upd_allocation_def)

interpretation notify: neutral_service "add_user_notification now tn rc domn kind title msg href resource key"
  for now tn rc domn kind title msg href resource key
  by unfold_locales
    (simp_all add: add_user_notification_def Let_def)

lemma notify_allocations [simp]:
  "allocations (add_user_notification now tn rc domn kind title msg href resource key s) = allocations s"
  by (simp add: add_user_notification_def Let_def)

lemma notify_threshold_frame:
  "workspace_core (notify_threshold now tn u pname th s) = workspace_core s"
  "allocations (notify_threshold now tn u pname th s) = allocations s"
  "next_id s \<le> next_id (notify_threshold now tn u pname th s)"
  by (simp_all add: notify_threshold_def notify.core notify.ids)

lemma notify_thresholds_frame:
  "workspace_core (notify_thresholds now tn user plan allocated projected s) = workspace_core s"
  "allocations (notify_thresholds now tn user plan allocated projected s) = allocations s"
  "next_id s \<le> next_id (notify_thresholds now tn user plan allocated projected s)"
  by (auto simp: notify_thresholds_def notify_threshold_frame intro: order_trans
      split: option.splits intro!: notify_threshold_frame(3) [THEN [2] order_trans])

lemma notify_plan_change_frame:
  "workspace_core (notify_plan_change now tn user prior plan s) = workspace_core s"
  "allocations (notify_plan_change now tn user prior plan s) = allocations s"
  "next_id s \<le> next_id (notify_plan_change now tn user prior plan s)"
  by (auto simp: notify_plan_change_def notify.core notify.ids split: option.splits)

lemma ensure_allocation_frame:
  assumes "ensure_allocation tn plan s = Inr (a, s')"
  shows "workspace_core s' = workspace_core s" "next_id s' = next_id s"
  using assms
  by (auto simp: ensure_allocation_def upd_allocation_def Let_def
      split: if_splits option.splits)

lemma usage_core:
  assumes "workspace_core s' = workspace_core s"
  shows "usage tn s' = usage tn s"
  by (simp add: usage_def metrics_def exact_usage_def workspace_core_fields [OF assms])

lemma ensure_capacity_cases:
  assumes "ensure_capacity now tn roles user additional replacing s = Inr (u, s')"
  obtains a s1 s3 where "ensure_allocation tn (requested_plan tn roles user s) s = Inr (a, s1)"
    and "u = usage tn s" and "workspace_core s3 = workspace_core s" and "allocations s3 = allocations s1"
    and "next_id s \<le> next_id s3"
    and "max 0 (total_bytes u - max 0 replacing) + max 0 additional \<le> a_bytes a"
    and "s' = upd_allocation tn (\<lambda>a. a\<lparr>a_measured := max 0 (total_bytes u - max 0 replacing),
                a_measured_at := Some now\<rparr>) s3"
proof -
  obtain a s1 where e: "ensure_allocation tn (requested_plan tn roles user s) s = Inr (a, s1)"
    using assms by (auto simp: ensure_capacity_def Let_def split: if_splits sum.splits)
  note f = ensure_allocation_frame [OF e]
  have tn: "tn \<in> set (tenants s)" using assms by (simp add: ensure_capacity_def Let_def split: if_splits)
  define plan where "plan = requested_plan tn roles user s"
  define eff where "eff = max 0 (total_bytes (usage tn s1) - max 0 replacing)"
  define s2 where "s2 = notify_thresholds now tn user (plan_get (a_plan a) plan) (a_bytes a)
    (eff + max 0 additional) s1"
  define s3 where "s3 = notify_plan_change now tn user (map_option a_plan (find_allocation tn s))
    (plan_get (a_plan a) plan) s2"
  have "ensure_capacity now tn roles user additional replacing s =
      (if a_bytes a < eff + max 0 additional
       then Inl (QuotaExceeded (plan_id (plan_get (a_plan a) plan)) (max 0 eff) (max 0 (max 0 additional)))
       else Inr (usage tn s1, upd_allocation tn (\<lambda>a. a\<lparr>a_measured := eff, a_measured_at := Some now\<rparr>) s3))"
    using e tn by (simp add: ensure_capacity_def Let_def plan_def eff_def s2_def s3_def)
  with assms have "\<not> a_bytes a < eff + max 0 additional" and "u = usage tn s1"
    and s': "s' = upd_allocation tn (\<lambda>a. a\<lparr>a_measured := eff, a_measured_at := Some now\<rparr>) s3"
    by (simp_all split: if_splits)
  moreover have "workspace_core s3 = workspace_core s" "allocations s3 = allocations s1" "next_id s \<le> next_id s3"
    using f notify_thresholds_frame notify_plan_change_frame
    unfolding s3_def s2_def by (simp_all, metis order_trans)
  ultimately show thesis
    using e usage_core [OF f(1)] that [of a s1 s3] by (simp add: eff_def)
qed

lemma upd_allocation_core: "workspace_core (upd_allocation tn f s) = workspace_core s"
  "next_id (upd_allocation tn f s) = next_id s"
  by (simp_all add: upd_allocation_def)

interpretation capacity: neutral_guard "ensure_capacity now tn roles user additional replacing"
  for now tn roles user additional replacing
  by unfold_locales (auto elim!: ensure_capacity_cases simp: upd_allocation_core)


interpretation supported_capacity: neutral_guard "ensure_capacity_if_supported now tn user additional replacing"
  for now tn user additional replacing
proof unfold_locales
  fix s x s' assume "ensure_capacity_if_supported now tn user additional replacing s = Inr (x, s')"
  then have "s' = s \<or> (\<exists>u. ensure_capacity now tn [] user additional replacing s = Inr (u, s'))"
    by (auto simp: ensure_capacity_if_supported_def split: if_splits sum.splits)
  then show "workspace_core s' = workspace_core s" "next_id s \<le> next_id s'"
    using capacity.guard_core capacity.guard_ids by auto
qed

section \<open>The quota holds\<close>

lemma ensure_allocation_found:
  assumes "ensure_allocation tn plan s = Inr (a, s')"
  shows "find_allocation tn s' = Some a \<and> a_tenant a = tn"
proof (cases "find_allocation tn s")
  case None
  then have "a = new_allocation tn plan" "allocations s' = allocations s @ [a]"
    using assms by (auto simp: ensure_allocation_def Let_def split: if_splits)
  with None alloc_table.find_insert [of s' s a tn] show ?thesis by (simp add: new_allocation_def)
next
  case (Some b)
  then have "a = upgrade_allocation plan b" "s' = upd_allocation tn (\<lambda>_. a) s"
    using assms by (auto simp: ensure_allocation_def Let_def split: if_splits)
  moreover have "a_tenant b = tn" using Some alloc_table.find_key by blast
  ultimately show ?thesis
    using Some alloc_table.find_upd [of tn "\<lambda>_. a" s] by (simp add: upgrade_allocation_def Let_def)
qed

lemma find_allocation_frame: "allocations s' = allocations s \<Longrightarrow> find_allocation tn s' = find_allocation tn s"
  by (rule alloc_table.rows_frame)

text \<open>An admitted write fits the tenant's allocation: the measured usage less the bytes it replaces,
  plus the bytes it adds, is at most the allocated bytes of the row \<open>ensure_capacity\<close> leaves behind.\<close>

theorem ensure_capacity_within_allocation:
  assumes "ensure_capacity now tn roles user additional replacing s = Inr (u, s')"
  shows "u = usage tn s \<and>
    (\<exists>a. find_allocation tn s' = Some a \<and> a_measured a = max 0 (total_bytes u - max 0 replacing) \<and>
         a_measured a + max 0 additional \<le> a_bytes a)"
proof -
  obtain a s1 s3 where e: "ensure_allocation tn (requested_plan tn roles user s) s = Inr (a, s1)"
    and u: "u = usage tn s" and al: "allocations s3 = allocations s1"
    and le: "max 0 (total_bytes u - max 0 replacing) + max 0 additional \<le> a_bytes a"
    and s': "s' = upd_allocation tn (\<lambda>a. a\<lparr>a_measured := max 0 (total_bytes u - max 0 replacing),
                a_measured_at := Some now\<rparr>) s3"
    using assms by (rule ensure_capacity_cases)
  have "find_allocation tn s3 = Some a" "a_tenant a = tn"
    using ensure_allocation_found [OF e] find_allocation_frame [OF al] by auto
  then have "find_allocation tn s' = Some (a\<lparr>a_measured := max 0 (total_bytes u - max 0 replacing), a_measured_at := Some now\<rparr>)"
    unfolding s' by (subst alloc_table.find_upd) auto
  with u le show ?thesis by simp
qed

text \<open>\<open>ensure_capacity\<close> rejects exactly the writes that do not fit: for an existing tenant it raises
  \<open>StorageQuotaExceededError\<close> when the projected bytes are above the bytes the (possibly upgraded)
  allocation grants, and returns the measured usage otherwise.\<close>

theorem ensure_capacity_decides:
  assumes "tn \<in> set (tenants s)" and "ensure_allocation tn (requested_plan tn roles user s) s = Inr (a, s1)"
  shows "(case ensure_capacity now tn roles user additional replacing s of
      Inl e \<Rightarrow> a_bytes a < max 0 (total_bytes (usage tn s) - max 0 replacing) + max 0 additional \<and>
        e = QuotaExceeded (plan_id (plan_get (a_plan a) (requested_plan tn roles user s)))
              (max 0 (total_bytes (usage tn s) - max 0 replacing)) (max 0 additional)
    | Inr (u, s') \<Rightarrow> max 0 (total_bytes (usage tn s) - max 0 replacing) + max 0 additional \<le> a_bytes a \<and>
        u = usage tn s)"
  using assms usage_core [OF ensure_allocation_frame(1) [OF assms(2)]]
  by (simp add: ensure_capacity_def Let_def)

definition allocation_wf :: "allocation \<Rightarrow> bool" where
  "allocation_wf a = (a_plan a \<in> fst ` set plans \<and> a_bytes a = plan_limit (plan_get (a_plan a) free_plan))"

lemma resolve_storage_plan_known:
  "plan_get (plan_id (resolve_storage_plan roles)) dflt = resolve_storage_plan roles"
  "plan_id (resolve_storage_plan roles) \<in> fst ` set plans"
  by (auto simp: resolve_storage_plan_def plan_get_def plans_def free_plan_def editor_plan_def admin_plan_def Let_def)

lemma resolve_no_roles: "resolve_storage_plan [] = free_plan"
  by code_simp

lemma requested_plan_known:
  "plan_get (plan_id (requested_plan tn roles user s)) dflt = requested_plan tn roles user s"
  "plan_id (requested_plan tn roles user s) \<in> fst ` set plans"
proof -
  have "\<exists>rs. requested_plan tn roles user s = resolve_storage_plan rs"
    by (simp add: requested_plan_def plan_for_user_def split: option.split) (metis resolve_no_roles)
  then show "plan_get (plan_id (requested_plan tn roles user s)) dflt = requested_plan tn roles user s"
    "plan_id (requested_plan tn roles user s) \<in> fst ` set plans"
    using resolve_storage_plan_known by auto
qed

lemma upgrade_allocation_wf:
  assumes "allocation_wf a" and "plan_id p \<in> fst ` set plans" and "\<And>d. plan_get (plan_id p) d = p"
  shows "allocation_wf (upgrade_allocation p a)"
    and "a_bytes (upgrade_allocation p a) = max (a_bytes a) (plan_limit p)"
  using assms by (auto simp: allocation_wf_def upgrade_allocation_def Let_def)

text \<open>Role changes never take storage away: for a well-formed allocation, the allocation after
  \<open>ensure_allocation\<close> is well-formed again and grants the larger of the old bytes and the bytes of the
  requested plan, so a tenant whose roles are downgraded keeps what it had.\<close>

theorem ensure_allocation_never_shrinks:
  assumes "\<forall>a \<in> set (allocations s). allocation_wf a"
    and "ensure_allocation tn (requested_plan tn roles user s) s = Inr (a, s')"
  shows "(\<forall>b \<in> set (allocations s'). allocation_wf b) \<and>
    a_bytes a = (case find_allocation tn s of
      None \<Rightarrow> plan_limit (requested_plan tn roles user s)
    | Some old \<Rightarrow> max (a_bytes old) (plan_limit (requested_plan tn roles user s)))"
proof -
  note k = requested_plan_known [of tn roles user s]
  show ?thesis
  proof (cases "find_allocation tn s")
    case None
    moreover have "allocation_wf (new_allocation tn (requested_plan tn roles user s))"
      unfolding allocation_wf_def new_allocation_def using k by simp
    ultimately show ?thesis
      using assms by (auto simp: ensure_allocation_def Let_def new_allocation_def split: if_splits)
  next
    case (Some old)
    then have wf: "allocation_wf old" using assms(1) alloc_table.find_in by blast
    have a: "a = upgrade_allocation (requested_plan tn roles user s) old" and
      s': "s' = upd_allocation tn (\<lambda>_. a) s"
      using assms(2) Some by (auto simp: ensure_allocation_def Let_def split: if_splits)
    show ?thesis
      using upgrade_allocation_wf [OF wf k(2) k(1)] assms(1) Some
      by (auto simp: s' upd_allocation_def in_upd_where a)
  qed
qed

section \<open>Reservations hold\<close>

definition reservation_row :: "nat \<Rightarrow> string \<Rightarrow> db \<Rightarrow> reservation list" where
  "reservation_row tn key s = filter (is_reservation tn key) (reservations s)"

lemma expire_upd_where_held:
  "filter (\<lambda>q. q_tenant q = tn \<and> held now q) (reservations (expire_reservations now tn s)) =
   filter (\<lambda>q. q_tenant q = tn \<and> held now q) (reservations s)"
  unfolding expire_reservations_def by (simp, rule filter_upd_where_disjoint) (auto simp: held_def)

lemma filter_upd_where_single:
  assumes "filter P xs = [x]" and "P y" and "\<not> Q x" and "Q y"
  shows "sum_list (map f (filter Q (upd_where P (\<lambda>_. y) xs))) = sum_list (map f (filter Q xs)) + (f y :: int)"
  using assms
proof (induction xs)
  case (Cons z zs)
  show ?case
  proof (cases "P z")
    case True
    then have zx: "z = x" and nil: "filter P zs = []" using Cons.prems by auto
    have "upd_where P (\<lambda>_. y) zs = zs"
      by (rule upd_where_none) (use nil in \<open>auto simp: filter_empty_conv\<close>)
    then show ?thesis using True zx Cons.prems(3,4) by simp
  next
    case False
    then show ?thesis using Cons by simp
  qed
qed simp

lemma filter_upd_where_to:
  assumes "filter P xs = [x]" and "P y"
  shows "filter P (upd_where P (\<lambda>_. y) xs) = [y]"
proof -
  have "filter P (upd_where P (\<lambda>_. y) zs) = map (\<lambda>_. y) (filter P zs)" for zs
    by (induction zs) (auto simp: assms(2))
  with assms show ?thesis by simp
qed

lemma filter_upd_where_map:
  assumes "\<And>x. P (f x) = P x"
  shows "filter P (upd_where Q f xs) = upd_where Q f (filter P xs)"
  by (rule filter_upd_where_same) (use assms in simp)

lemma usage_reservations [simp]: "usage tn (s\<lparr>reservations := qs, next_id := n\<rparr>) = usage tn s"
  "usage tn (s\<lparr>reservations := qs\<rparr>) = usage tn s"
  by (simp_all add: usage_def metrics_def exact_usage_def)

lemma clear_reservation_frame:
  "usage tn' (clear_reservation now tn key existing s) = usage tn' s"
  "allocations (clear_reservation now tn key existing s) = allocations s"
  "tenants (clear_reservation now tn key existing s) = tenants s"
  by (simp_all add: clear_reservation_def expire_reservations_def split: option.split)

lemma mark_expired_not_held:
  "held now (q\<lparr>q_status := ''expired'', q_released := r\<rparr>) = False"
  by (simp add: held_def)

lemma clear_reservation_held:
  assumes "reservation_row tn key s = (case existing of None \<Rightarrow> [] | Some q \<Rightarrow> [q])"
    and "\<And>q. existing = Some q \<Longrightarrow> \<not> held now q"
  shows "reserved_total now tn (clear_reservation now tn key existing s) = reserved_total now tn s"
proof -
  have "filter (\<lambda>q. q_tenant q = tn \<and> held now q)
      (upd_where (is_reservation tn key) (\<lambda>q. q\<lparr>q_status := ''expired'', q_released := Some now\<rparr>) (reservations s)) =
    filter (\<lambda>q. q_tenant q = tn \<and> held now q) (reservations s)" if e: "existing = Some q0" for q0
  proof (rule filter_upd_where_disjoint)
    fix q assume "q \<in> set (reservations s)" "is_reservation tn key q"
    then have "q \<in> set (reservation_row tn key s)" by (simp add: reservation_row_def)
    then have "q = q0" using assms(1) e by simp
    then show "\<not> (q_tenant q = tn \<and> held now q) \<and> \<not> (q_tenant (q\<lparr>q_status := ''expired'', q_released := Some now\<rparr>) = tn \<and>
        held now (q\<lparr>q_status := ''expired'', q_released := Some now\<rparr>))"
      using assms(2) [OF e] by (simp add: mark_expired_not_held)
  qed
  then show ?thesis
    by (simp add: reserved_total_def clear_reservation_def expire_upd_where_held split: option.split)
qed

lemma clear_reservation_row:
  assumes "reservation_row tn key s = (case existing of None \<Rightarrow> [] | Some q \<Rightarrow> [q])"
    and "\<And>q. existing = Some q \<Longrightarrow> \<not> held now q"
  obtains "existing = None" "reservation_row tn key (clear_reservation now tn key existing s) = []"
  | q0 q1 where "existing = Some q0" "reservation_row tn key (clear_reservation now tn key existing s) = [q1]"
    and "\<not> held now q1"
proof (cases existing)
  case None
  then show thesis
    using assms that(1)
    by (auto simp: clear_reservation_def reservation_row_def expire_reservations_def is_reservation_def
        filter_upd_where_map filter_empty_conv in_upd_where)
next
  case (Some q0)
  then have r: "filter (is_reservation tn key) (reservations s) = [q0]" and nh: "\<not> held now q0"
    using assms by (simp_all add: reservation_row_def)
  show thesis
  proof (rule that(2) [OF Some])
    let ?x = "\<lambda>q. q\<lparr>q_status := ''expired'', q_released := Some now\<rparr>"
    let ?q1 = "if q_status q0 = ''active'' then ?x q0 else q0"
    let ?q2 = "if q_tenant ?q1 = tn \<and> q_status ?q1 = ''active'' \<and> q_expires ?q1 \<le> now then ?x ?q1 else ?q1"
    show "reservation_row tn key (clear_reservation now tn key existing s) = [?q2]"
      using r filter_eq_ConsD [OF r]
      by (auto simp: Some clear_reservation_def reservation_row_def expire_reservations_def
          filter_upd_where_map is_reservation_def)
    show "\<not> held now ?q2" using nh by (simp add: held_def)
  qed
qed

lemma filter_append_new: "filter P xs = [] \<Longrightarrow> P y \<Longrightarrow> filter P (xs @ [y]) = [y]"
  by simp

lemma store_reservation_effect:
  assumes "store_reservation tn key user amount expires existing s = (q, s')"
    and "reservation_row tn key s = (case existing of None \<Rightarrow> [] | Some _ \<Rightarrow> [q1])"
    and "\<And>q0. existing = Some q0 \<Longrightarrow> \<not> held now q1 \<and> q_tenant q0 = tn \<and> q_key q0 = key"
    and "now < expires"
  shows "reservation_row tn key s' = [q]" and "held now q"
    and "q_bytes q = amount \<and> q_expires q = expires \<and> is_reservation tn key q"
    and "reserved_total now tn s' = reserved_total now tn s + amount"
    and "usage tn s' = usage tn s" and "allocations s' = allocations s" and "tenants s' = tenants s"
proof -
  have q: "q_bytes q = amount \<and> q_expires q = expires \<and> is_reservation tn key q" "held now q"
    and fr: "usage tn s' = usage tn s" "allocations s' = allocations s" "tenants s' = tenants s"
    using assms by (auto simp: store_reservation_def Let_def held_def is_reservation_def split: option.splits)
  have "reservation_row tn key s' = [q] \<and> reserved_total now tn s' = reserved_total now tn s + amount"
  proof (cases existing)
    case None
    then show ?thesis
      using assms q by (auto simp: store_reservation_def Let_def reservation_row_def reserved_total_def
          is_reservation_def)
  next
    case (Some q0)
    then have s': "s' = s\<lparr>reservations := upd_where (is_reservation tn key) (\<lambda>_. q) (reservations s)\<rparr>"
      using assms(1) by (auto simp: store_reservation_def Let_def)
    have "filter (is_reservation tn key) (reservations s) = [q1]" using assms(2) Some by (simp add: reservation_row_def)
    then show ?thesis
      using q assms(3) [OF Some] filter_upd_where_to [of "is_reservation tn key" "reservations s" q1 q]
        filter_upd_where_single [of "is_reservation tn key" "reservations s" q1 q "\<lambda>q. q_tenant q = tn \<and> held now q" q_bytes]
      by (simp add: s' reservation_row_def reserved_total_def is_reservation_def)
  qed
  then show "reservation_row tn key s' = [q]" "reserved_total now tn s' = reserved_total now tn s + amount" by auto
qed (use assms in \<open>auto simp: store_reservation_def Let_def held_def is_reservation_def split: option.splits\<close>)

lemma reserve_capacity_cases:
  assumes "reserve_capacity now tn rkey amount roles user ttl s = Inr (q, s')"
  obtains (held) a where "ensure_allocation tn (requested_plan tn roles user s) s = Inr (a, s')"
    and "reservation_row tn (strip rkey) s' = [q]" and "held now q" and "is_reservation tn (strip rkey) q"
    and "reservations s' = reservations s" and "tenants s' = tenants s"
  | (granted) a s1 where "ensure_allocation tn (requested_plan tn roles user s) s = Inr (a, s1)"
    and "reservation_row tn (strip rkey) s' = [q]" and "held now q" and "is_reservation tn (strip rkey) q"
    and "q_bytes q = amount" and "q_expires q = now + max 1 (min ttl (24 * 60 * 60))"
    and "reserved_total now tn s' = reserved_total now tn s + amount" and "usage tn s' = usage tn s"
    and "allocations s' = allocations s1" and "total_bytes (usage tn s') + reserved_total now tn s' \<le> a_bytes a"
    and "tenants s' = tenants s"
proof -
  let ?key = "strip rkey"
  let ?plan = "requested_plan tn roles user s"
  let ?ttl = "max 1 (min ttl (24 * 60 * 60))"
  let ?grant = "\<lambda>a ex s1. case ex of
      Some q \<Rightarrow> if held now q then Inr (q, s1)
                else grant_reservation now tn ?key user (max 0 amount) ?ttl a ?plan ex s1
    | None \<Rightarrow> grant_reservation now tn ?key user (max 0 amount) ?ttl a ?plan ex s1"
  have am: "0 < amount" using assms by (simp add: reserve_capacity_def Let_def split: if_splits)
  obtain a s1 where e: "ensure_allocation tn ?plan s = Inr (a, s1)"
    using assms by (auto simp: reserve_capacity_def Let_def split: if_splits sum.splits)
  have "(case one_or_none (filter (is_reservation tn ?key) (reservations s1)) of
      Inl e \<Rightarrow> Inl e | Inr ex \<Rightarrow> ?grant a ex s1) = Inr (q, s')"
    using assms unfolding reserve_capacity_def Let_def e sum.case prod.case by (auto split: if_splits)
  then obtain ex where o: "one_or_none (filter (is_reservation tn ?key) (reservations s1)) = Inr ex"
    and r: "?grant a ex s1 = Inr (q, s')"
    by (cases "one_or_none (filter (is_reservation tn ?key) (reservations s1))") auto
  note f = workspace_core_fields [OF ensure_allocation_frame(1) [OF e]]
  have row: "reservation_row tn ?key s1 = (case ex of None \<Rightarrow> [] | Some q \<Rightarrow> [q])"
    using o by (auto simp: reservation_row_def one_or_none_Some one_or_none_None split: option.split)
  show thesis
  proof (cases "\<exists>q. ex = Some q \<and> held now q")
    case True
    then have "s' = s1" "ex = Some q" "held now q" using r by auto
    moreover then have "q \<in> set (reservation_row tn ?key s1)" using row by simp
    ultimately show thesis using held [OF e [folded \<open>s' = s1\<close>]] row f by (simp add: reservation_row_def)
  next
    case False
    then have nh: "\<not> held now q" if "ex = Some q" for q using that by auto
    define s3 where "s3 = clear_reservation now tn ?key ex s1"
    have g: "grant_reservation now tn ?key user amount ?ttl a ?plan ex s1 = Inr (q, s')"
      using r am False by (auto split: option.splits)
    then have st: "store_reservation tn ?key user amount (now + ?ttl) ex s3 = (q, s')"
      and le: "total_bytes (usage tn s3) + reserved_total now tn s3 + amount \<le> a_bytes a"
      by (auto simp: grant_reservation_def Let_def s3_def split: if_splits)
    have ex_row: "q_tenant q0 = tn \<and> q_key q0 = ?key" if "ex = Some q0" for q0
    proof -
      have "q0 \<in> set (reservation_row tn ?key s1)" using row that by simp
      then show ?thesis by (simp add: reservation_row_def is_reservation_def)
    qed
    obtain q1 where q1: "reservation_row tn ?key s3 = (case ex of None \<Rightarrow> [] | Some _ \<Rightarrow> [q1])"
      "\<And>q0. ex = Some q0 \<Longrightarrow> \<not> held now q1 \<and> q_tenant q0 = tn \<and> q_key q0 = ?key"
      using clear_reservation_row [OF row nh] ex_row unfolding s3_def by (metis option.case option.distinct(1))
    have "now < now + ?ttl" by simp
    note eff = store_reservation_effect [OF st q1 this]
    note cf = clear_reservation_frame [where now = now and tn = tn and key = ?key and existing = ex and s = s1, folded s3_def]
    have "reserved_total now tn s3 = reserved_total now tn s"
      using clear_reservation_held [OF row nh] f unfolding s3_def by (simp add: reserved_total_def)
    then show thesis
      using granted [OF e eff(1,2)] eff le cf f usage_core [OF ensure_allocation_frame(1) [OF e]] by simp
  qed
qed

text \<open>C38. A granted reservation does not overcommit the tenant: after \<open>reserve_capacity\<close> the row under the
  stripped key is the one returned and holds, and either it was already held and no reservation
  changed, or the measured usage together with every held reservation of the tenant fits the
  allocated bytes.\<close>

theorem reserve_capacity_no_overcommit:
  assumes "reserve_capacity now tn rkey amount roles user ttl s = Inr (q, s')"
  shows "reservation_row tn (strip rkey) s' = [q] \<and> held now q \<and>
    (reservations s' = reservations s \<or>
     (q_bytes q = amount \<and> (\<exists>a. find_allocation tn s' = Some a \<and>
        total_bytes (usage tn s') + reserved_total now tn s' \<le> a_bytes a)))"
  using assms
proof (cases rule: reserve_capacity_cases)
  case (held a)
  then show ?thesis by simp
next
  case (granted a s1)
  have "find_allocation tn s' = Some a"
    using ensure_allocation_found [OF granted(1)] find_allocation_frame [OF granted(9)] by simp
  with granted show ?thesis by auto
qed

lemma reserve_capacity_row:
  assumes "reserve_capacity now tn rkey amount roles user ttl s = Inr (q, s')"
  shows "reservation_row tn (strip rkey) s' = [q]" "held now q" "is_reservation tn (strip rkey) q"
    "tn \<in> set (tenants s')"
proof -
  have "tn \<in> set (tenants s)"
    using assms by (auto simp: reserve_capacity_def Let_def split: if_splits)
  with assms show "reservation_row tn (strip rkey) s' = [q]" "held now q" "is_reservation tn (strip rkey) q"
    "tn \<in> set (tenants s')"
    by (auto elim!: reserve_capacity_cases)
qed

lemma reserve_capacity_held:
  assumes "reservation_row tn (strip rkey) s = [q]" and "held now q" and "tn \<in> set (tenants s)"
    and "strip rkey \<noteq> []" and "length (strip rkey) \<le> 255" and "0 < amount"
  shows "\<exists>s'. reserve_capacity now tn rkey amount roles user ttl s = Inr (q, s') \<and> reservations s' = reservations s"
proof -
  obtain a s1 where e: "ensure_allocation tn (requested_plan tn roles user s) s = Inr (a, s1)"
    using assms(3) by (cases "find_allocation tn s") (simp_all add: ensure_allocation_def Let_def)
  have f: "reservations s1 = reservations s"
    using workspace_core_fields [OF ensure_allocation_frame(1) [OF e]] by simp
  then have o: "one_or_none (filter (is_reservation tn (strip rkey)) (reservations s1)) = Inr (Some q)"
    using assms(1) by (simp add: one_or_none_Some reservation_row_def)
  show ?thesis
    using assms e f o by (simp add: reserve_capacity_def Let_def)
qed

text \<open>Retrying a reservation before it expires is idempotent: the same row comes back, whatever
  size, roles, owner or lifetime the retry asks for, and no reservation of any tenant changes.\<close>

theorem reserve_capacity_retry:
  assumes "reserve_capacity now tn rkey amount roles user ttl s = Inr (q, s')"
    and "now \<le> now'" and "now' < q_expires q" and "0 < amount'"
  shows "\<exists>s''. reserve_capacity now' tn rkey amount' roles' user' ttl' s' = Inr (q, s'') \<and>
               reservations s'' = reservations s'"
proof (rule reserve_capacity_held)
  have ok: "strip rkey \<noteq> []" "length (strip rkey) \<le> 255"
    using assms(1) by (auto simp: reserve_capacity_def Let_def split: if_splits)
  then show "strip rkey \<noteq> []" "length (strip rkey) \<le> 255" by auto
  show "reservation_row tn (strip rkey) s' = [q]" and "held now' q"
    using reserve_capacity_row [OF assms(1)] assms(3) by (auto simp: held_def)
  show "tn \<in> set (tenants s')" by (rule reserve_capacity_row [OF assms(1)])
qed (rule assms(4))

lemma release_capacity_row:
  assumes "reservation_row tn key s = [q]" and "status \<in> {''released'', ''committed''}"
  shows "release_capacity now tn key status s = Inr (True,
    if q_status q = ''active''
    then s\<lparr>reservations := upd_where (is_reservation tn key) (\<lambda>_. q\<lparr>q_status := status, q_released := Some now\<rparr>) (reservations s)\<rparr>
    else s)"
proof -
  have f: "filter (is_reservation tn key) (reservations s) = [q]" using assms(1) by (simp add: reservation_row_def)
  have "upd_where (is_reservation tn key) g xs = upd_where (is_reservation tn key) (\<lambda>_. g q) xs"
    if "filter (is_reservation tn key) xs = [q]" for g xs
    using that
  proof (induction xs)
    case (Cons x xs)
    then show ?case by (auto split: if_splits intro!: upd_where_none [THEN trans, OF _ upd_where_none [symmetric]]
          simp: filter_empty_conv)
  qed simp
  from this [OF f, of "\<lambda>q. q\<lparr>q_status := status, q_released := Some now\<rparr>"] show ?thesis
    using assms(2) by (simp add: release_capacity_def one_or_none_def f)
qed

lemma filter_upd_where_drop:
  assumes "filter P xs = [x]" and "\<not> Q y" and "Q x"
  shows "sum_list (map f (filter Q (upd_where P (\<lambda>_. y) xs))) = sum_list (map f (filter Q xs)) - (f x :: int)"
  using assms
proof (induction xs)
  case (Cons z zs)
  show ?case
  proof (cases "P z")
    case True
    then have zx: "z = x" and nil: "filter P zs = []" using Cons.prems by auto
    have "upd_where P (\<lambda>_. y) zs = zs"
      by (rule upd_where_none) (use nil in \<open>auto simp: filter_empty_conv\<close>)
    then show ?thesis using True zx Cons.prems(2,3) by simp
  next
    case False
    then show ?thesis using Cons by simp
  qed
qed simp

text \<open>Releasing a held reservation gives back exactly its bytes, once: it reports success, lowers the
  reserved total by the reservation's bytes, and a second release or commit under the same key
  succeeds and changes nothing.\<close>

theorem release_capacity_once:
  assumes "reservation_row tn key s = [q]" and "held now q"
    and "status \<in> {''released'', ''committed''}" and "status' \<in> {''released'', ''committed''}"
  shows "\<exists>s'. release_capacity now tn key status s = Inr (True, s') \<and>
    reserved_total now tn s' = reserved_total now tn s - q_bytes q \<and>
    release_capacity now' tn key status' s' = Inr (True, s')"
proof -
  let ?q = "q\<lparr>q_status := status, q_released := Some now\<rparr>"
  let ?s = "s\<lparr>reservations := upd_where (is_reservation tn key) (\<lambda>_. ?q) (reservations s)\<rparr>"
  have f: "filter (is_reservation tn key) (reservations s) = [q]" using assms(1) by (simp add: reservation_row_def)
  then have k: "is_reservation tn key q" using filter_eq_ConsD by fastforce
  have "reservation_row tn key ?s = [?q]"
    using filter_upd_where_to [OF f] k by (simp add: reservation_row_def is_reservation_def)
  moreover have "q_status ?q \<noteq> ''active''" using assms(3) by auto
  moreover have "reserved_total now tn ?s = reserved_total now tn s - q_bytes q"
    using filter_upd_where_drop [OF f, of "\<lambda>q. q_tenant q = tn \<and> held now q" ?q q_bytes] k assms(2,3)
    by (auto simp: reserved_total_def held_def is_reservation_def)
  ultimately show ?thesis
    using release_capacity_row [OF assms(1,3), of now] release_capacity_row [of tn key ?s ?q status' now'] assms(2,4)
    by (simp add: held_def)
qed

section \<open>The properties at concrete inputs\<close>

definition quota_db :: db where
  "quota_db = empty_db\<lparr>tenants := [1], next_id := 10,
     allocations := [\<lparr>a_tenant = 1, a_plan = ''free'', a_bytes = free_storage_bytes, a_measured = 0,
       a_measured_at = None, a_mode = ''off'', a_days = 0, a_version = 1, a_policy_at = None\<rparr>],
     documents := [\<lparr>z_tenant = 1, z_conversation = None, z_status = ''live'', z_bytes = 1000\<rparr>],
     reservations := [\<lparr>q_id = 1, q_tenant = 1, q_owner = None, q_key = ''upload'', q_bytes = 700,
       q_status = ''active'', q_expires = 900, q_released = None\<rparr>]\<rparr>"

theorem ensure_capacity_within_allocation_witness:
  "case ensure_capacity 5 1 [''editor''] None 2000 400 quota_db of Inl _ \<Rightarrow> False
   | Inr (u, s') \<Rightarrow> u = usage 1 quota_db \<and>
    (\<exists>a. find_allocation 1 s' = Some a \<and> a_measured a = max 0 (total_bytes u - max 0 400) \<and>
         a_measured a + max 0 2000 \<le> a_bytes a)"
  by (rule case_ok, code_simp, rule ensure_capacity_within_allocation)

theorem ensure_capacity_decides_witness:
  "\<exists>a s1. ensure_allocation 1 (requested_plan 1 [''editor''] None quota_db) quota_db = Inr (a, s1) \<and>
    (case ensure_capacity 5 1 [''editor''] None 2000000000 0 quota_db of
      Inl e \<Rightarrow> a_bytes a < max 0 (total_bytes (usage 1 quota_db) - max 0 0) + max 0 2000000000 \<and>
        e = QuotaExceeded (plan_id (plan_get (a_plan a) (requested_plan 1 [''editor''] None quota_db)))
              (max 0 (total_bytes (usage 1 quota_db) - max 0 0)) (max 0 2000000000)
    | Inr (u, s') \<Rightarrow> max 0 (total_bytes (usage 1 quota_db) - max 0 0) + max 0 2000000000 \<le> a_bytes a \<and>
        u = usage 1 quota_db)"
proof -
  have "\<not> isl (ensure_allocation 1 (requested_plan 1 [''editor''] None quota_db) quota_db)" by code_simp
  then obtain a s1 where "ensure_allocation 1 (requested_plan 1 [''editor''] None quota_db) quota_db = Inr (a, s1)"
    by (cases "ensure_allocation 1 (requested_plan 1 [''editor''] None quota_db) quota_db") auto
  moreover have "1 \<in> set (tenants quota_db)" by (simp add: quota_db_def)
  ultimately show ?thesis using ensure_capacity_decides by blast
qed

theorem ensure_allocation_never_shrinks_witness:
  "case ensure_allocation 1 (requested_plan 1 [''admin''] None quota_db) quota_db of Inl _ \<Rightarrow> False
   | Inr (a, s') \<Rightarrow> (\<forall>b \<in> set (allocations s'). allocation_wf b) \<and>
    a_bytes a = (case find_allocation 1 quota_db of
      None \<Rightarrow> plan_limit (requested_plan 1 [''admin''] None quota_db)
    | Some old \<Rightarrow> max (a_bytes old) (plan_limit (requested_plan 1 [''admin''] None quota_db)))"
proof (rule case_ok, code_simp, rule ensure_allocation_never_shrinks)
  show "\<forall>a \<in> set (allocations quota_db). allocation_wf a" by code_simp
qed

theorem reserve_capacity_no_overcommit_witness:
  "case reserve_capacity 5 1 '' backup '' 300 [] None 60 quota_db of Inl _ \<Rightarrow> False
   | Inr (q, s') \<Rightarrow> reservation_row 1 (strip '' backup '') s' = [q] \<and> held 5 q \<and>
    (reservations s' = reservations quota_db \<or>
     (q_bytes q = 300 \<and> (\<exists>a. find_allocation 1 s' = Some a \<and>
        total_bytes (usage 1 s') + reserved_total 5 1 s' \<le> a_bytes a)))"
  by (rule case_ok, code_simp, rule reserve_capacity_no_overcommit)

theorem reserve_capacity_retry_witness:
  "case reserve_capacity 5 1 ''upload'' 300 [] None 60 quota_db of Inl _ \<Rightarrow> False
   | Inr (q, s') \<Rightarrow> (\<exists>s''. reserve_capacity 899 1 ''upload'' 12 [''admin''] (Some 4) 1 s' = Inr (q, s'') \<and>
               reservations s'' = reservations s')"
proof (rule case_ok)
  fix q s' assume r: "reserve_capacity 5 1 ''upload'' 300 [] None 60 quota_db = Inr (q, s')"
  have "case reserve_capacity 5 1 ''upload'' 300 [] None 60 quota_db of Inl _ \<Rightarrow> False | Inr (q, s') \<Rightarrow> q_expires q = 900"
    by code_simp
  with r have "(899::int) < q_expires q" by simp
  with reserve_capacity_retry [OF r] show "\<exists>s''. reserve_capacity 899 1 ''upload'' 12 [''admin''] (Some 4) 1 s' = Inr (q, s'') \<and>
      reservations s'' = reservations s'" by simp
qed code_simp

theorem release_capacity_once_witness:
  "\<exists>q. held 5 q \<and> (\<exists>s'. release_capacity 5 1 ''upload'' ''committed'' quota_db = Inr (True, s') \<and>
    reserved_total 5 1 s' = reserved_total 5 1 quota_db - q_bytes q \<and>
    release_capacity 8 1 ''upload'' ''released'' s' = Inr (True, s'))"
proof -
  have "reservation_row 1 ''upload'' quota_db = [hd (reservations quota_db)]" "held 5 (hd (reservations quota_db))"
    by code_simp+
  from this release_capacity_once [OF this, of "''committed''" "''released''" 8] show ?thesis by blast
qed

end
