(* ===== verification/Lifecycle.thy ===== *)
theory Lifecycle
  imports Quota
begin

text \<open>
  The archive-first retention service (\<open>system/services/storage_lifecycle.py\<close>): a lifecycle row per
  durable source, the tenant's retention policy, scan leases, the preview that marks inactive items
  eligible, the archive and restore of items, and the reasons that protect an item.
\<close>

section \<open>Policy\<close>

definition retention_days_by_mode :: "(string \<times> int) list" where
  "retention_days_by_mode = [(''off'', 0), (''30'', 30), (''60'', 60), (''90'', 90)]"

definition protected_categories :: "string list" where
  "protected_categories = [''provider_settings'', ''security'', ''audit'']"

definition user_content_categories :: "string list" where
  "user_content_categories = [''files'', ''library'', ''artifacts'', ''chat_history'', ''memory'', ''queries'',
     ''collections'', ''queues'']"

definition protected_run_statuses :: "string list" where
  "protected_run_statuses = [''running'', ''cancelling'', ''awaiting_approval'', ''awaiting_user'', ''blocked'',
     ''failed'']"

definition protected_queue_statuses :: "string list" where
  "protected_queue_statuses = [''queued'', ''running'', ''stopping'', ''failed'']"

record retention_policy =
  rp_mode :: string
  rp_days :: int
  rp_version :: int

record retention_preview =
  rv_run :: "nat option"
  rv_mode :: string
  rv_days :: int
  rv_cutoff :: "int option"
  rv_candidates :: int
  rv_candidate_bytes :: int
  rv_protected :: int

definition day_seconds :: int where "day_seconds = 24 * 60 * 60"

definition policy :: "nat \<Rightarrow> db \<Rightarrow> retention_policy" where
  "policy tn s = (case find_allocation tn s of
     None \<Rightarrow> \<lparr>rp_mode = ''off'', rp_days = 0, rp_version = 1\<rparr>
   | Some a \<Rightarrow>
       (let mode = (if a_mode a \<in> set (map fst retention_days_by_mode) then a_mode a else ''off'');
            days = (case map_of retention_days_by_mode mode of None \<Rightarrow> 0 | Some d \<Rightarrow> d)
        in \<lparr>rp_mode = mode, rp_days = days, rp_version = max 1 (a_version a)\<rparr>))"

definition set_policy :: "int \<Rightarrow> nat \<Rightarrow> nat \<Rightarrow> string \<Rightarrow> db \<Rightarrow> retention_policy tx" where
  "set_policy now tn user mode s =
     (let normalized = lower (strip mode) in
      case map_of retention_days_by_mode normalized of
        None \<Rightarrow> Inl (ValueErr ''Retention must be Off, 30, 60, or 90 days.'')
      | Some days \<Rightarrow>
          (case ensure_allocation tn (plan_for_user tn (Some user) s) s of
             Inl e \<Rightarrow> Inl e
           | Inr (a, s1) \<Rightarrow>
               (let s2 = upd_allocation tn (\<lambda>a. a\<lparr>a_mode := normalized, a_days := days,
                             a_version := max 1 (a_version a) + 1, a_policy_at := Some now\<rparr>) s1
                in Inr (policy tn s2, s2))))"

section \<open>Scan leases\<close>

definition find_scan :: "nat \<Rightarrow> db \<Rightarrow> retention_run option" where
  "find_scan tn s = first_row (order_by (\<lambda>g. - g_started g)
     (filter (\<lambda>g. g_tenant g = tn \<and> g_operation g = ''scan'' \<and> g_status g = ''running'') (retention_runs s)))"

definition leased :: "int \<Rightarrow> retention_run \<Rightarrow> bool" where
  "leased now g = (case g_lease g of None \<Rightarrow> False | Some t \<Rightarrow> now < t)"

definition upd_scan :: "nat \<Rightarrow> (retention_run \<Rightarrow> retention_run) \<Rightarrow> db \<Rightarrow> db" where
  "upd_scan k f s = s\<lparr>retention_runs := upd_where (\<lambda>g. g_id g = k) f (retention_runs s)\<rparr>"

definition claim_scan_run :: "int \<Rightarrow> nat \<Rightarrow> int \<Rightarrow> db \<Rightarrow> retention_run option \<times> db" where
  "claim_scan_run now tn lease_minutes s =
     (let p = policy tn s; until = now + max 1 lease_minutes * 60 in
      case find_scan tn s of
        None \<Rightarrow>
          (let g = \<lparr>g_id = next_id s, g_tenant = tn, g_version = rp_version p, g_mode = rp_mode p,
                    g_days = rp_days p, g_status = ''running'', g_operation = ''scan'', g_cursor = Some ''start'',
                    g_lease = Some until, g_candidates = 0, g_protected = 0, g_legacy = 0, g_error = None,
                    g_started = now, g_completed = None\<rparr>
           in (Some g, s\<lparr>retention_runs := retention_runs s @ [g], next_id := Suc (next_id s)\<rparr>))
      | Some g \<Rightarrow>
          if leased now g then (None, s)
          else (let g' = g\<lparr>g_version := rp_version p, g_mode := rp_mode p, g_days := rp_days p,
                           g_error := None, g_lease := Some until\<rparr>
                in (Some g', upd_scan (g_id g) (\<lambda>_. g') s)))"

definition advance_scan_run :: "int \<Rightarrow> nat \<Rightarrow> nat \<Rightarrow> string \<Rightarrow> db \<Rightarrow> unit tx" where
  "advance_scan_run now tn run cursor s =
     (case first_row (filter (\<lambda>g. g_id g = run \<and> g_tenant g = tn \<and> g_operation g = ''scan'' \<and>
             g_status g = ''running'') (retention_runs s)) of
        None \<Rightarrow> Inl (ValueErr ''Retention scan lease is no longer owned.'')
      | Some g \<Rightarrow> Inr ((), upd_scan run (\<lambda>g. g\<lparr>g_cursor := Some (trunc 255 cursor),
                            g_lease := Some (now + 15 * 60)\<rparr>) s))"

definition complete_scan_run :: "int \<Rightarrow> nat \<Rightarrow> nat \<Rightarrow> int \<Rightarrow> int \<Rightarrow> db \<Rightarrow> db" where
  "complete_scan_run now tn run candidates protected s =
     (case first_row (filter (\<lambda>g. g_id g = run \<and> g_tenant g = tn) (retention_runs s)) of
        None \<Rightarrow> s
      | Some g \<Rightarrow> upd_scan run (\<lambda>g. g\<lparr>g_cursor := Some ''complete'', g_candidates := candidates,
                    g_protected := protected, g_status := ''complete'', g_lease := None,
                    g_completed := Some now\<rparr>) s)"

section \<open>Activity\<close>

definition is_item :: "nat \<Rightarrow> string \<Rightarrow> string \<Rightarrow> string \<Rightarrow> lifecycle_item \<Rightarrow> bool" where
  "is_item tn cat styp sid l =
     (l_tenant l = tn \<and> l_category l = cat \<and> l_source_type l = styp \<and> l_source_id l = sid)"

definition coalesce :: "'a option \<Rightarrow> 'a option \<Rightarrow> 'a option" where
  "coalesce x y = (case x of None \<Rightarrow> y | Some _ \<Rightarrow> x)"

text \<open>What one activity reports: the arguments of \<open>record_activity\<close> beside the key.\<close>

record activity =
  ac_kind :: string
  ac_size :: int
  ac_owner :: "nat option"
  ac_group :: "string option"
  ac_until :: "int option"
  ac_reason :: "string option"
  ac_replace :: bool

definition fresh_item :: "int \<Rightarrow> nat \<Rightarrow> string \<Rightarrow> string \<Rightarrow> string \<Rightarrow> activity \<Rightarrow> nat \<Rightarrow> lifecycle_item" where
  "fresh_item now tn cat styp sid ac k =
     \<lparr>l_id = k, l_tenant = tn, l_owner = ac_owner ac, l_category = cat, l_source_type = styp, l_source_id = sid,
      l_state = ''active'', l_size = max 0 (ac_size ac), l_activity_at = now, l_activity_kind = ac_kind ac,
      l_group = ac_group ac, l_protected_until = ac_until ac, l_reason = ac_reason ac, l_pinned = False,
      l_legal_hold = False, l_admin_exempt = False, l_policy_version = 1, l_archived_at = None,
      l_purge_after = None, l_updated = now\<rparr>"

definition merge_activity :: "int \<Rightarrow> activity \<Rightarrow> lifecycle_item \<Rightarrow> lifecycle_item" where
  "merge_activity now ac l = l\<lparr>
     l_owner := coalesce (ac_owner ac) (l_owner l),
     l_size := (if ac_replace ac then max 0 (ac_size ac) else max (l_size l) (max 0 (ac_size ac))),
     l_activity_at := max (l_activity_at l) now,
     l_activity_kind := (if l_activity_at l \<le> now then ac_kind ac else l_activity_kind l),
     l_group := coalesce (ac_group ac) (l_group l),
     l_protected_until := coalesce (ac_until ac) (l_protected_until l),
     l_reason := coalesce (ac_reason ac) (l_reason l),
     l_state := (if ac_kind ac = ''reconciliation'' then l_state l else ''active''),
     l_archived_at := None,
     l_purge_after := None,
     l_updated := now\<rparr>"

definition record_activity :: "int \<Rightarrow> nat \<Rightarrow> string \<Rightarrow> string \<Rightarrow> string \<Rightarrow> activity \<Rightarrow> db \<Rightarrow> db" where
  "record_activity now tn cat styp sid ac s =
     (if \<exists>l \<in> set (lifecycle s). is_item tn cat styp sid l
      then s\<lparr>lifecycle := upd_where (is_item tn cat styp sid) (merge_activity now ac) (lifecycle s)\<rparr>
      else s\<lparr>lifecycle := lifecycle s @ [fresh_item now tn cat styp sid ac (next_id s)],
             next_id := Suc (next_id s)\<rparr>)"

definition lifecycle_row :: "nat \<Rightarrow> string \<Rightarrow> string \<Rightarrow> string \<Rightarrow> db \<Rightarrow> lifecycle_item option" where
  "lifecycle_row tn cat styp sid s = first_row (filter (is_item tn cat styp sid) (lifecycle s))"

definition touch_source ::
  "int \<Rightarrow> nat \<Rightarrow> string \<Rightarrow> string \<Rightarrow> string \<Rightarrow> nat option \<Rightarrow> string option \<Rightarrow> string \<Rightarrow> db \<Rightarrow> db" where
  "touch_source now tn cat styp sid owner grp kind s =
     record_activity now tn cat styp sid
       \<lparr>ac_kind = kind, ac_size = 0, ac_owner = owner, ac_group = grp, ac_until = None, ac_reason = None,
        ac_replace = False\<rparr> s"

section \<open>Protection\<close>

definition in_conversation :: "nat \<Rightarrow> nat \<Rightarrow> scope \<Rightarrow> bool" where
  "in_conversation tn conv sc = (fst sc = tn \<and> snd (snd sc) = conv)"

definition sized_in :: "nat \<Rightarrow> nat \<Rightarrow> sized_row \<Rightarrow> bool" where
  "sized_in tn conv z = (z_tenant z = tn \<and> z_conversation z = Some conv)"

definition active_upload_states :: "string list" where
  "active_upload_states = [''pending'', ''uploading'', ''processing'', ''queued'']"

definition active_job_states :: "string list" where
  "active_job_states = [''queued'', ''running'', ''processing'']"

definition conversation_protection :: "nat \<Rightarrow> nat \<Rightarrow> db \<Rightarrow> string option" where
  "conversation_protection tn conv s =
     (if \<exists>e \<in> set (events s). in_conversation tn conv (e_scope e) \<and> e_run e = None
      then Some ''unresolved_legacy_run_event''
      else if \<exists>e \<in> set (events s). in_conversation tn conv (e_scope e) \<and>
              (\<exists>r \<in> set (runs s). e_run e = Some (r_id r) \<and> run_status_str (r_status r) \<in> set protected_run_statuses)
      then Some ''active_linked_run_event''
      else if \<exists>r \<in> set (runs s). in_conversation tn conv (r_scope r) \<and>
              run_status_str (r_status r) \<in> set protected_run_statuses
      then Some ''active_or_waiting_deepspace_run''
      else if \<exists>t \<in> set (turns s). in_conversation tn conv (t_scope t) \<and>
              turn_status_str (t_status t) \<in> set protected_queue_statuses
      then Some ''queued_or_retryable_turn''
      else if \<exists>c \<in> set (controls s). in_conversation tn conv (c_scope c) \<and> c_paused c
      then Some ''paused_queue''
      else if \<exists>z \<in> set (uploads s). sized_in tn conv z \<and> z_status z \<in> set active_upload_states
      then Some ''active_upload''
      else if \<exists>z \<in> set (artifact_jobs s). sized_in tn conv z \<and> z_status z \<in> set active_job_states
      then Some ''active_artifact_job''
      else if \<exists>z \<in> set (artifacts s). sized_in tn conv z \<and> z_status z \<noteq> ''deleted''
      then Some ''referenced_artifact''
      else if \<exists>z \<in> set (schedules s). sized_in tn conv z \<and> z_status z = ''active''
      then Some ''active_schedule''
      else None)"

definition newer_dependency :: "nat \<Rightarrow> lifecycle_item \<Rightarrow> db \<Rightarrow> bool" where
  "newer_dependency tn l s = (case l_group l of
     None \<Rightarrow> False
   | Some g \<Rightarrow> g \<noteq> [] \<and>
       (\<exists>k \<in> set (lifecycle s). l_tenant k = tn \<and> l_group k = Some g \<and> l_activity_at l < l_activity_at k))"

definition protection_reason :: "int \<Rightarrow> nat \<Rightarrow> lifecycle_item \<Rightarrow> db \<Rightarrow> string option" where
  "protection_reason now tn l s =
     (if l_category l \<in> set protected_categories then Some ''protected_category''
      else if l_category l \<notin> set user_content_categories then Some ''unclassified_category''
      else if l_legal_hold l then Some ''legal_hold''
      else if l_pinned l then Some ''pinned''
      else if l_admin_exempt l then Some ''administrator_retention_exemption''
      else if (case l_protected_until l of None \<Rightarrow> False | Some t \<Rightarrow> now \<le> t) then Some ''explicit_protection_window''
      else if newer_dependency tn l s then Some ''newer_dependency_in_group''
      else if l_source_type l = ''conversation''
      then (case parse_uuid (l_source_id l) of
              None \<Rightarrow> Some ''unparseable_source_identity''
            | Some conv \<Rightarrow> conversation_protection tn conv s)
      else None)"

section \<open>Preview\<close>

definition upd_item :: "nat \<Rightarrow> (lifecycle_item \<Rightarrow> lifecycle_item) \<Rightarrow> db \<Rightarrow> db" where
  "upd_item k f s = s\<lparr>lifecycle := upd_where (\<lambda>l. l_id l = k) f (lifecycle s)\<rparr>"

definition find_item :: "nat \<Rightarrow> db \<Rightarrow> lifecycle_item option" where
  "find_item k s = first_row (filter (\<lambda>l. l_id l = k) (lifecycle s))"

definition add_decision :: "nat \<Rightarrow> nat \<Rightarrow> nat \<Rightarrow> string \<Rightarrow> string \<Rightarrow> int \<Rightarrow> db \<Rightarrow> db" where
  "add_decision run tn item act reason version s = s\<lparr>decisions := decisions s @
     [\<lparr>d_run = run, d_tenant = tn, d_item = item, d_action = act, d_reason = reason, d_policy_version = version\<rparr>]\<rparr>"

text \<open>One turn of the preview loop, over the pair of the counters (candidates, bytes, protected) and the store.\<close>

definition preview_item ::
  "int \<Rightarrow> nat \<Rightarrow> nat \<Rightarrow> int \<Rightarrow> lifecycle_item \<Rightarrow> (int \<times> int \<times> int) \<times> db \<Rightarrow> (int \<times> int \<times> int) \<times> db" where
  "preview_item now tn run version l acc = (case acc of ((cand, bytes, prot), s) \<Rightarrow>
     (case protection_reason now tn l s of
        Some reason \<Rightarrow>
          ((cand, bytes, prot + 1),
           upd_item (l_id l) (\<lambda>l. l\<lparr>l_reason := Some reason\<rparr>)
             (add_decision run tn (l_id l) ''protected'' reason version s))
      | None \<Rightarrow>
          ((cand + 1, bytes + max 0 (l_size l), prot),
           upd_item (l_id l) (\<lambda>l. l\<lparr>l_state := ''eligible''\<rparr>)
             (add_decision run tn (l_id l) ''candidate'' ''inactive_threshold_reached'' version s))))"

definition inactive_items :: "nat \<Rightarrow> int \<Rightarrow> db \<Rightarrow> lifecycle_item list" where
  "inactive_items tn cutoff s = order_by l_activity_at
     (filter (\<lambda>l. l_tenant l = tn \<and> l_state l \<in> {''active'', ''eligible''} \<and> l_activity_at l \<le> cutoff) (lifecycle s))"

definition preview :: "int \<Rightarrow> nat \<Rightarrow> db \<Rightarrow> retention_preview \<times> db" where
  "preview now tn s =
     (let p = policy tn s in
      if rp_days p \<le> 0
      then (\<lparr>rv_run = None, rv_mode = ''off'', rv_days = 0, rv_cutoff = None, rv_candidates = 0,
             rv_candidate_bytes = 0, rv_protected = 0\<rparr>, s)
      else (let cutoff = now - rp_days p * day_seconds;
                run = next_id s;
                g = \<lparr>g_id = run, g_tenant = tn, g_version = rp_version p, g_mode = rp_mode p, g_days = rp_days p,
                     g_status = ''preview'', g_operation = ''preview'', g_cursor = None,
                     g_lease = Some (now + 15 * 60), g_candidates = 0, g_protected = 0, g_legacy = 0,
                     g_error = None, g_started = now, g_completed = None\<rparr>;
                s1 = s\<lparr>retention_runs := retention_runs s @ [g], next_id := Suc run\<rparr>
            in case fold (preview_item now tn run (rp_version p)) (inactive_items tn cutoff s) ((0, 0, 0), s1) of
                 ((cand, bytes, prot), s2) \<Rightarrow>
                   (\<lparr>rv_run = Some run, rv_mode = rp_mode p, rv_days = rp_days p, rv_cutoff = Some cutoff,
                     rv_candidates = cand, rv_candidate_bytes = bytes, rv_protected = prot\<rparr>,
                    upd_scan run (\<lambda>g. g\<lparr>g_candidates := cand, g_protected := prot, g_legacy := 0,
                      g_status := ''preview'', g_completed := Some now\<rparr>) s2)))"

section \<open>Archive and restore\<close>

definition is_manifest :: "nat \<Rightarrow> nat \<Rightarrow> manifest \<Rightarrow> bool" where
  "is_manifest tn item f = (f_tenant f = tn \<and> f_item f = item)"

text \<open>Create or refresh the manifest of an item; \<open>version\<close> is the policy version a refresh writes, if any.\<close>

definition put_manifest :: "int \<Rightarrow> nat \<Rightarrow> lifecycle_item \<Rightarrow> int \<Rightarrow> int option \<Rightarrow> db \<Rightarrow> db" where
  "put_manifest now tn l version refresh s =
     (if \<exists>f \<in> set (manifests s). is_manifest tn (l_id l) f
      then s\<lparr>manifests := upd_where (is_manifest tn (l_id l))
              (\<lambda>f. f\<lparr>f_state := ''archived'', f_restored_at := None,
                     f_policy_version := (case refresh of None \<Rightarrow> f_policy_version f | Some v \<Rightarrow> v)\<rparr>) (manifests s)\<rparr>
      else s\<lparr>manifests := manifests s @
              [\<lparr>f_id = next_id s, f_tenant = tn, f_item = l_id l, f_category = l_category l,
                f_source_type = l_source_type l, f_source_id = l_source_id l, f_state = ''archived'',
                f_policy_version = version, f_archived_at = now, f_restored_at = None\<rparr>],
             next_id := Suc (next_id s)\<rparr>)"

definition find_manifest :: "nat \<Rightarrow> nat \<Rightarrow> db \<Rightarrow> manifest option" where
  "find_manifest tn item s = first_row (filter (is_manifest tn item) (manifests s))"

definition mark_archived :: "int \<Rightarrow> lifecycle_item \<Rightarrow> lifecycle_item" where
  "mark_archived now l = l\<lparr>l_state := ''archived'', l_archived_at := Some now, l_updated := now\<rparr>"

definition archive_item :: "int \<Rightarrow> nat \<Rightarrow> nat \<Rightarrow> nat \<Rightarrow> bool \<Rightarrow> db \<Rightarrow> manifest option tx" where
  "archive_item now tn item user is_admin s =
     (case first_row (filter (\<lambda>l. l_id l = item \<and> l_tenant l = tn) (lifecycle s)) of
        None \<Rightarrow> Inl (ValueErr ''Storage item was not found.'')
      | Some l \<Rightarrow>
          if \<not> is_admin \<and> l_owner l \<noteq> Some user
          then Inl (ValueErr ''Storage item is not owned by this user.'')
          else if l_state l \<noteq> ''eligible''
          then Inl (ValueErr ''Only a preview-eligible item can be archived.'')
          else (case protection_reason now tn l s of
             Some reason \<Rightarrow> Inl (ValueErr (''Storage item is protected: '' @ reason @ ''.''))
           | None \<Rightarrow>
               (let s1 = upd_item (l_id l) (mark_archived now)
                           (put_manifest now tn l (l_policy_version l) None s)
                in Inr (find_manifest tn (l_id l) s1, s1))))"

definition archive_one :: "int \<Rightarrow> nat \<Rightarrow> int \<Rightarrow> nat \<Rightarrow> lifecycle_item \<Rightarrow> nat \<times> db \<Rightarrow> nat \<times> db" where
  "archive_one now tn version run l acc = (case acc of (n, s) \<Rightarrow>
     (case protection_reason now tn l s of
        Some reason \<Rightarrow> (n, upd_item (l_id l) (\<lambda>l. l\<lparr>l_reason := Some reason\<rparr>) s)
      | None \<Rightarrow>
          (Suc n, add_decision run tn (l_id l) ''archived'' ''inactive_threshold_reached'' version
             (upd_item (l_id l) (mark_archived now) (put_manifest now tn l version (Some version) s)))))"

definition eligible_items :: "nat \<Rightarrow> db \<Rightarrow> lifecycle_item list" where
  "eligible_items tn s = order_by l_activity_at
     (filter (\<lambda>l. l_tenant l = tn \<and> l_state l = ''eligible'' \<and> l_category l \<in> set user_content_categories)
       (lifecycle s))"

definition archive_eligible_items :: "int \<Rightarrow> nat \<Rightarrow> int \<Rightarrow> nat \<Rightarrow> int \<Rightarrow> db \<Rightarrow> nat \<times> db" where
  "archive_eligible_items now tn version run limit s =
     fold (archive_one now tn version run)
       (take (nat (max 1 (min limit 5000))) (eligible_items tn s)) (0, s)"

definition restore_item :: "int \<Rightarrow> nat \<Rightarrow> nat \<Rightarrow> nat \<Rightarrow> bool \<Rightarrow> db \<Rightarrow> manifest option tx" where
  "restore_item now tn item user is_admin s =
     (case find_manifest tn item s of
        None \<Rightarrow> Inl (ValueErr ''Archived storage item was not found.'')
      | Some f \<Rightarrow>
          (case first_row (filter (\<lambda>l. l_id l = item \<and> l_tenant l = tn) (lifecycle s)) of
             None \<Rightarrow> Inl NoResult
           | Some l \<Rightarrow>
               if \<not> is_admin \<and> l_owner l \<noteq> Some user
               then Inl (ValueErr ''Storage item is not owned by this user.'')
               else (let s1 = upd_item item (\<lambda>l. l\<lparr>l_state := ''active'', l_archived_at := None,
                                l_purge_after := None, l_activity_at := now, l_activity_kind := ''restore'',
                                l_updated := now\<rparr>) s;
                         s2 = s1\<lparr>manifests := upd_where (is_manifest tn item)
                                (\<lambda>f. f\<lparr>f_state := ''restored'', f_restored_at := Some now\<rparr>) (manifests s1)\<rparr>
                     in Inr (find_manifest tn item s2, s2))))"

definition set_source_protection ::
  "int \<Rightarrow> nat \<Rightarrow> string \<Rightarrow> string \<Rightarrow> string \<Rightarrow> bool option \<Rightarrow> bool option \<Rightarrow> bool option \<Rightarrow> string option \<Rightarrow> db
     \<Rightarrow> lifecycle_item tx" where
  "set_source_protection now tn cat styp sid pinned hold exempt reason s =
     (case lifecycle_row tn cat styp sid s of
        None \<Rightarrow> Inl (ValueErr ''Storage lifecycle item was not found.'')
      | Some l \<Rightarrow>
          (let keep = (\<lambda>new old. case new of None \<Rightarrow> old | Some b \<Rightarrow> b);
               l' = l\<lparr>l_pinned := keep pinned (l_pinned l), l_legal_hold := keep hold (l_legal_hold l),
                      l_admin_exempt := keep exempt (l_admin_exempt l),
                      l_reason := (case reason of None \<Rightarrow> l_reason l
                         | Some r \<Rightarrow> (let t = trunc 2000 (strip r) in if t = [] then None else Some t)),
                      l_updated := now\<rparr>
           in Inr (l', upd_item (l_id l) (\<lambda>_. l') s)))"

section \<open>Frames\<close>

interpretation item_table: keyed_table l_id lifecycle find_item upd_item
  by unfold_locales (simp_all add: find_item_def upd_item_def)

lemma upd_item_frame [simp]:
  "workspace_core (upd_item k f s) = workspace_core s" "lifecycle (upd_item k f s) = upd_where (\<lambda>l. l_id l = k) f (lifecycle s)"
  "retention_runs (upd_item k f s) = retention_runs s" "allocations (upd_item k f s) = allocations s"
  "decisions (upd_item k f s) = decisions s" "manifests (upd_item k f s) = manifests s"
  "next_id (upd_item k f s) = next_id s"
  by (simp_all add: upd_item_def)

lemma add_decision_frame [simp]:
  "workspace_core (add_decision run tn item act reason version s) = workspace_core s"
  "lifecycle (add_decision run tn item act reason version s) = lifecycle s"
  "manifests (add_decision run tn item act reason version s) = manifests s"
  "retention_runs (add_decision run tn item act reason version s) = retention_runs s"
  "decisions (add_decision run tn item act reason version s) = decisions s @
     [\<lparr>d_run = run, d_tenant = tn, d_item = item, d_action = act, d_reason = reason, d_policy_version = version\<rparr>]"
  "next_id (add_decision run tn item act reason version s) = next_id s"
  by (simp_all add: add_decision_def)

lemma put_manifest_frame [simp]:
  "workspace_core (put_manifest now tn l version refresh s) = workspace_core s"
  "lifecycle (put_manifest now tn l version refresh s) = lifecycle s"
  "decisions (put_manifest now tn l version refresh s) = decisions s"
  by (simp_all add: put_manifest_def)

interpretation activity: neutral_service "record_activity now tn cat styp sid ac" for now tn cat styp sid ac
  by unfold_locales (simp_all add: record_activity_def)

lemma record_activity_tables [simp]:
  "allocations (record_activity now tn cat styp sid ac s) = allocations s"
  "manifests (record_activity now tn cat styp sid ac s) = manifests s"
  by (simp_all add: record_activity_def)

text \<open>Protection looks at the conversation tables and at three columns of the lifecycle rows.\<close>

definition item_view :: "lifecycle_item \<Rightarrow> nat \<times> string option \<times> int" where
  "item_view l = (l_tenant l, l_group l, l_activity_at l)"

lemma newer_dependency_view:
  "newer_dependency tn l s = (case l_group l of None \<Rightarrow> False
     | Some g \<Rightarrow> g \<noteq> [] \<and> (\<exists>v \<in> set (map item_view (lifecycle s)). fst v = tn \<and> fst (snd v) = Some g \<and> l_activity_at l < snd (snd v)))"
  by (auto simp: newer_dependency_def item_view_def split: option.splits)

lemma conversation_protection_core:
  assumes "workspace_core s' = workspace_core s"
  shows "conversation_protection tn conv s' = conversation_protection tn conv s"
  unfolding conversation_protection_def workspace_core_fields [OF assms] by (rule refl)

lemma protection_reason_stable:
  assumes "workspace_core s' = workspace_core s" and "map item_view (lifecycle s') = map item_view (lifecycle s)"
  shows "protection_reason now tn l s' = protection_reason now tn l s"
proof -
  have "newer_dependency tn l s' = newer_dependency tn l s"
    unfolding newer_dependency_view assms(2) by simp
  then show ?thesis
    by (simp add: protection_reason_def conversation_protection_core [OF assms(1)] split: option.split)
qed

lemma map_view_upd:
  assumes "\<And>l. item_view (f l) = item_view l"
  shows "map item_view (upd_where P f xs) = map item_view xs"
  by (rule map_upd_where_same) (simp add: assms)

lemma map_view_steps [simp]:
  "map item_view (upd_where P (mark_archived now) xs) = map item_view xs"
  "map item_view (upd_where P (\<lambda>l. l\<lparr>l_reason := r\<rparr>) xs) = map item_view xs"
  "map item_view (upd_where P (\<lambda>l. l\<lparr>l_state := st\<rparr>) xs) = map item_view xs"
  by (intro map_view_upd, simp add: mark_archived_def item_view_def)+

section \<open>Archiving is safe\<close>

text \<open>What the archive loop does to one row, and its fold over a batch.\<close>

definition archive_outcome :: "int \<Rightarrow> nat \<Rightarrow> db \<Rightarrow> lifecycle_item \<Rightarrow> lifecycle_item" where
  "archive_outcome now tn s l = (case protection_reason now tn l s of
     Some reason \<Rightarrow> l\<lparr>l_reason := Some reason\<rparr> | None \<Rightarrow> mark_archived now l)"

lemma archive_fold:
  "workspace_core (snd (fold (archive_one now tn v run) xs (n, s))) = workspace_core s \<and>
   map item_view (lifecycle (snd (fold (archive_one now tn v run) xs (n, s)))) = map item_view (lifecycle s) \<and>
   lifecycle (snd (fold (archive_one now tn v run) xs (n, s))) =
     fold (\<lambda>x. upd_where (\<lambda>l. l_id l = l_id x) (\<lambda>l. case protection_reason now tn x s of
        Some reason \<Rightarrow> l\<lparr>l_reason := Some reason\<rparr> | None \<Rightarrow> mark_archived now l)) xs (lifecycle s) \<and>
   fst (fold (archive_one now tn v run) xs (n, s)) = n + length (filter (\<lambda>x. protection_reason now tn x s = None) xs)"
proof (induction xs rule: rev_induct)
  case (snoc x xs)
  obtain m t where a: "fold (archive_one now tn v run) xs (n, s) = (m, t)" by force
  note ih = snoc [unfolded a fst_conv snd_conv]
  have st: "protection_reason now tn x t = protection_reason now tn x s"
    using ih by (intro protection_reason_stable) auto
  show ?case
  proof (cases "protection_reason now tn x s")
    case None
    have "archive_one now tn v run x (m, t) = (Suc m, add_decision run tn (l_id x) ''archived'' ''inactive_threshold_reached'' v
             (upd_item (l_id x) (mark_archived now) (put_manifest now tn x v (Some v) t)))"
      using None st by (simp add: archive_one_def)
    then show ?thesis
      using ih None a by (elim conjE) simp
  next
    case (Some r)
    have "archive_one now tn v run x (m, t) = (m, upd_item (l_id x) (\<lambda>l. l\<lparr>l_reason := Some r\<rparr>) t)"
      using Some st by (simp add: archive_one_def)
    then show ?thesis
      using ih Some a by (elim conjE) simp
  qed
qed simp

lemma in_inactive_items:
  "l \<in> set (inactive_items tn cutoff s) \<longleftrightarrow> l \<in> set (lifecycle s) \<and> l_tenant l = tn \<and>
     l_state l \<in> {''active'', ''eligible''} \<and> l_activity_at l \<le> cutoff"
  by (auto simp: inactive_items_def)

lemma in_eligible_items:
  "l \<in> set (eligible_items tn s) \<longleftrightarrow> l \<in> set (lifecycle s) \<and> l_tenant l = tn \<and> l_state l = ''eligible'' \<and>
     l_category l \<in> set user_content_categories"
  by (auto simp: eligible_items_def)

lemma distinct_selected:
  assumes "distinct (map l_id (lifecycle s))"
  shows "distinct (inactive_items tn cutoff s)" "distinct (eligible_items tn s)"
  using assms by (simp_all add: inactive_items_def eligible_items_def order_by_def distinct_map)

text \<open>Automatic archiving touches exactly its batch and never the sources: with primary keys distinct,
  every lifecycle row outside the batch of eligible user-content items is unchanged, a batch row is
  archived when nothing protects it and only gets its protection reason recorded otherwise, the
  returned number counts the archived rows, and every other table of the workspace is as before.\<close>

theorem archive_eligible_items_exact:
  assumes "distinct (map l_id (lifecycle s))"
    and "archive_eligible_items now tn version run limit s = (n, s')"
    and "batch = take (nat (max 1 (min limit 5000))) (eligible_items tn s)"
  shows "lifecycle s' = map (\<lambda>l. if l \<in> set batch then archive_outcome now tn s l else l) (lifecycle s) \<and>
    n = length (filter (\<lambda>l. protection_reason now tn l s = None) batch) \<and>
    workspace_core s' = workspace_core s"
proof -
  note a = archive_fold [of now tn version run batch 0 s]
  have s': "fold (archive_one now tn version run) batch (0, s) = (n, s')"
    using assms(2,3) by (simp add: archive_eligible_items_def)
  have "set batch \<subseteq> set (lifecycle s)" "distinct batch"
    using in_eligible_items distinct_selected [OF assms(1)] assms(3) by (auto dest: in_set_takeD)
  then have "fold (\<lambda>x. upd_where (\<lambda>l. l_id l = l_id x) (\<lambda>l. case protection_reason now tn x s of
        Some reason \<Rightarrow> l\<lparr>l_reason := Some reason\<rparr> | None \<Rightarrow> mark_archived now l)) batch (lifecycle s) =
      map (\<lambda>l. if l \<in> set batch then archive_outcome now tn s l else l) (lifecycle s)"
    by (subst fold_upd_where_rows [OF assms(1)])
      (auto simp: mark_archived_def archive_outcome_def split: option.split)
  with a s' show ?thesis by simp
qed

section \<open>The preview accounts for every inactive item\<close>

definition preview_outcome :: "int \<Rightarrow> nat \<Rightarrow> db \<Rightarrow> lifecycle_item \<Rightarrow> lifecycle_item" where
  "preview_outcome now tn s l = (case protection_reason now tn l s of
     Some reason \<Rightarrow> l\<lparr>l_reason := Some reason\<rparr> | None \<Rightarrow> l\<lparr>l_state := ''eligible''\<rparr>)"

definition preview_decision :: "int \<Rightarrow> nat \<Rightarrow> nat \<Rightarrow> int \<Rightarrow> db \<Rightarrow> lifecycle_item \<Rightarrow> decision" where
  "preview_decision now tn run version s l = (case protection_reason now tn l s of
     Some reason \<Rightarrow> \<lparr>d_run = run, d_tenant = tn, d_item = l_id l, d_action = ''protected'', d_reason = reason,
                     d_policy_version = version\<rparr>
   | None \<Rightarrow> \<lparr>d_run = run, d_tenant = tn, d_item = l_id l, d_action = ''candidate'',
              d_reason = ''inactive_threshold_reached'', d_policy_version = version\<rparr>)"

definition preview_counts :: "int \<Rightarrow> nat \<Rightarrow> db \<Rightarrow> lifecycle_item list \<Rightarrow> int \<times> int \<times> int" where
  "preview_counts now tn s ls =
     (let free = filter (\<lambda>l. protection_reason now tn l s = None) ls
      in (int (length free), sum_list (map (\<lambda>l. max 0 (l_size l)) free), int (length ls) - int (length free)))"

lemma preview_fold:
  assumes "workspace_core s1 = workspace_core s" and "lifecycle s1 = lifecycle s"
  shows "fst (fold (preview_item now tn run v) xs ((0, 0, 0), s1)) = preview_counts now tn s xs \<and>
   workspace_core (snd (fold (preview_item now tn run v) xs ((0, 0, 0), s1))) = workspace_core s \<and>
   map item_view (lifecycle (snd (fold (preview_item now tn run v) xs ((0, 0, 0), s1)))) = map item_view (lifecycle s) \<and>
   decisions (snd (fold (preview_item now tn run v) xs ((0, 0, 0), s1))) =
     decisions s1 @ map (preview_decision now tn run v s) xs \<and>
   lifecycle (snd (fold (preview_item now tn run v) xs ((0, 0, 0), s1))) =
     fold (\<lambda>x. upd_where (\<lambda>l. l_id l = l_id x) (\<lambda>l. case protection_reason now tn x s of
        Some reason \<Rightarrow> l\<lparr>l_reason := Some reason\<rparr> | None \<Rightarrow> l\<lparr>l_state := ''eligible''\<rparr>)) xs (lifecycle s)"
proof (induction xs rule: rev_induct)
  case Nil
  then show ?case using assms by (simp add: preview_counts_def)
next
  case (snoc x xs)
  obtain c b p t where a: "fold (preview_item now tn run v) xs ((0, 0, 0), s1) = ((c, b, p), t)"
    by (metis prod.exhaust)
  note ih = snoc [unfolded a fst_conv snd_conv]
  have st: "protection_reason now tn x t = protection_reason now tn x s"
    using ih by (intro protection_reason_stable) auto
  show ?case
  proof (cases "protection_reason now tn x s")
    case None
    then have "preview_item now tn run v x ((c, b, p), t) = ((c + 1, b + max 0 (l_size x), p),
           upd_item (l_id x) (\<lambda>l. l\<lparr>l_state := ''eligible''\<rparr>)
             (add_decision run tn (l_id x) ''candidate'' ''inactive_threshold_reached'' v t))"
      using st by (simp add: preview_item_def)
    then show ?thesis
      using ih None a by (elim conjE) (simp add: preview_counts_def preview_decision_def Let_def)
  next
    case (Some r)
    then have "preview_item now tn run v x ((c, b, p), t) = ((c, b, p + 1),
           upd_item (l_id x) (\<lambda>l. l\<lparr>l_reason := Some r\<rparr>) (add_decision run tn (l_id x) ''protected'' r v t))"
      using st by (simp add: preview_item_def)
    then show ?thesis
      using ih Some a by (elim conjE) (simp add: preview_counts_def preview_decision_def Let_def)
  qed
qed

lemma upd_scan_frame [simp]:
  "lifecycle (upd_scan k f s) = lifecycle s" "decisions (upd_scan k f s) = decisions s"
  "workspace_core (upd_scan k f s) = workspace_core s" "retention_runs (upd_scan k f s) = upd_where (\<lambda>g. g_id g = k) f (retention_runs s)"
  by (simp_all add: upd_scan_def)

text \<open>A retention preview is complete and sources stay untouched: under a policy with a positive
  number of days, exactly the active or eligible rows of the tenant whose last activity is at least
  that many days old are examined; each gets one decision row, becomes eligible if nothing protects
  it and has its protection reason recorded otherwise; the counts and bytes reported are those of the
  unprotected and protected rows; other rows and all other workspace tables are unchanged.\<close>

theorem preview_exact:
  assumes "distinct (map l_id (lifecycle s))" and "0 < rp_days (policy tn s)"
    and "preview now tn s = (rv, s')"
    and "old = inactive_items tn (now - rp_days (policy tn s) * day_seconds) s"
  shows "lifecycle s' = map (\<lambda>l. if l \<in> set old then preview_outcome now tn s l else l) (lifecycle s) \<and>
    (rv_candidates rv, rv_candidate_bytes rv, rv_protected rv) = preview_counts now tn s old \<and>
    decisions s' = decisions s @ map (preview_decision now tn (next_id s) (rp_version (policy tn s)) s) old \<and>
    workspace_core s' = workspace_core s"
proof -
  define s1 where "s1 = s\<lparr>retention_runs := retention_runs s @
      [\<lparr>g_id = next_id s, g_tenant = tn, g_version = rp_version (policy tn s), g_mode = rp_mode (policy tn s),
        g_days = rp_days (policy tn s), g_status = ''preview'', g_operation = ''preview'', g_cursor = None,
        g_lease = Some (now + 15 * 60), g_candidates = 0, g_protected = 0, g_legacy = 0,
        g_error = None, g_started = now, g_completed = None\<rparr>], next_id := Suc (next_id s)\<rparr>"
  have s1: "workspace_core s1 = workspace_core s" "lifecycle s1 = lifecycle s" "decisions s1 = decisions s"
    by (simp_all add: s1_def)
  obtain c b p t where f: "fold (preview_item now tn (next_id s) (rp_version (policy tn s))) old ((0, 0, 0), s1) = ((c, b, p), t)"
    by (metis prod.exhaust)
  note F = preview_fold [OF s1(1,2), of now tn "next_id s" "rp_version (policy tn s)" old, unfolded f fst_conv snd_conv]
  have "set old \<subseteq> set (lifecycle s)" "distinct old"
    using in_inactive_items distinct_selected [OF assms(1)] assms(4) by auto
  then have "fold (\<lambda>x. upd_where (\<lambda>l. l_id l = l_id x) (\<lambda>l. case protection_reason now tn x s of
        Some reason \<Rightarrow> l\<lparr>l_reason := Some reason\<rparr> | None \<Rightarrow> l\<lparr>l_state := ''eligible''\<rparr>)) old (lifecycle s) =
      map (\<lambda>l. if l \<in> set old then preview_outcome now tn s l else l) (lifecycle s)"
    by (subst fold_upd_where_rows [OF assms(1)]) (auto simp: preview_outcome_def split: option.split)
  moreover have "preview now tn s = (\<lparr>rv_run = Some (next_id s), rv_mode = rp_mode (policy tn s),
      rv_days = rp_days (policy tn s), rv_cutoff = Some (now - rp_days (policy tn s) * day_seconds),
      rv_candidates = c, rv_candidate_bytes = b, rv_protected = p\<rparr>,
      upd_scan (next_id s) (\<lambda>g. g\<lparr>g_candidates := c, g_protected := p, g_legacy := 0,
                      g_status := ''preview'', g_completed := Some now\<rparr>) t)"
    using assms(2) f unfolding preview_def Let_def s1_def [symmetric] assms(4) [symmetric] by simp
  ultimately show ?thesis using F assms(3) s1(3) by auto
qed

section \<open>Activity is an upsert\<close>

lemma filter_upd_where_into:
  assumes "\<And>x. P x \<Longrightarrow> P (f x)"
  shows "filter P (upd_where P f xs) = map f (filter P xs)"
  using assms by (induction xs) auto

lemma merge_activity_key: "is_item tn cat styp sid (merge_activity now ac l) = is_item tn cat styp sid l"
  by (simp add: is_item_def merge_activity_def)

lemma fresh_item_key: "is_item tn cat styp sid (fresh_item now tn cat styp sid ac k)"
  by (simp add: is_item_def fresh_item_def)

text \<open>Recording activity is an upsert on (tenant, category, source type, source id): the row of the key
  becomes the merge of the old row and the report, or a fresh active row, every other row stays, and
  the number of rows under the key never exceeds one if it did not before.\<close>

theorem record_activity_upsert:
  "lifecycle_row tn cat styp sid (record_activity now tn cat styp sid ac s) =
     Some (case lifecycle_row tn cat styp sid s of
       None \<Rightarrow> fresh_item now tn cat styp sid ac (next_id s) | Some l \<Rightarrow> merge_activity now ac l) \<and>
   filter (\<lambda>l. \<not> is_item tn cat styp sid l) (lifecycle (record_activity now tn cat styp sid ac s)) =
     filter (\<lambda>l. \<not> is_item tn cat styp sid l) (lifecycle s) \<and>
   length (filter (is_item tn cat styp sid) (lifecycle (record_activity now tn cat styp sid ac s))) =
     max 1 (length (filter (is_item tn cat styp sid) (lifecycle s)))"
proof (cases "\<exists>l \<in> set (lifecycle s). is_item tn cat styp sid l")
  case True
  let ?P = "is_item tn cat styp sid"
  have "filter ?P (lifecycle s) \<noteq> []" using True by (auto simp: filter_empty_conv)
  moreover have "filter ?P (upd_where ?P (merge_activity now ac) (lifecycle s)) = map (merge_activity now ac) (filter ?P (lifecycle s))"
    by (rule filter_upd_where_into) (simp add: merge_activity_key)
  moreover have "filter (\<lambda>l. \<not> ?P l) (upd_where ?P (merge_activity now ac) (lifecycle s)) = filter (\<lambda>l. \<not> ?P l) (lifecycle s)"
    by (rule filter_upd_where_disjoint) (simp add: merge_activity_key)
  ultimately show ?thesis
    using True by (cases "filter ?P (lifecycle s)") (simp_all add: record_activity_def lifecycle_row_def)
next
  case False
  then have "filter (is_item tn cat styp sid) (lifecycle s) = []" by (simp add: filter_empty_conv)
  with False show ?thesis
    by (simp add: record_activity_def lifecycle_row_def fresh_item_key)
qed

text \<open>Activity never ages a source and user activity undoes an archive: on an existing row the activity
  time and the default-mode size do not decrease, a report other than \<open>reconciliation\<close> makes the row
  active again, and a reconciliation keeps its state.\<close>

theorem record_activity_monotone:
  assumes "lifecycle_row tn cat styp sid s = Some l"
  shows "\<exists>l'. lifecycle_row tn cat styp sid (record_activity now tn cat styp sid ac s) = Some l' \<and>
    l_activity_at l \<le> l_activity_at l' \<and> now \<le> l_activity_at l' \<and>
    (\<not> ac_replace ac \<longrightarrow> l_size l \<le> l_size l') \<and>
    l_state l' = (if ac_kind ac = ''reconciliation'' then l_state l else ''active'') \<and>
    l_pinned l' = l_pinned l \<and> l_legal_hold l' = l_legal_hold l \<and> l_admin_exempt l' = l_admin_exempt l"
proof -
  have "lifecycle_row tn cat styp sid (record_activity now tn cat styp sid ac s) = Some (merge_activity now ac l)"
  proof -
    have r: "first_row (filter (is_item tn cat styp sid) (lifecycle s)) = Some l"
      using assms by (simp add: lifecycle_row_def)
    then have "\<exists>x \<in> set (lifecycle s). is_item tn cat styp sid x" using first_row_in [OF r] by auto
    with r show ?thesis
      by (cases "filter (is_item tn cat styp sid) (lifecycle s)")
        (auto simp: record_activity_def lifecycle_row_def merge_activity_key
            filter_upd_where_into [of "is_item tn cat styp sid" "merge_activity now ac"])
  qed
  then show ?thesis by (auto simp: merge_activity_def)
qed

section \<open>Archive and restore\<close>

lemma archive_item_Inr:
  assumes "archive_item now tn item user is_admin s = Inr (m, s')"
  obtains l where "first_row (filter (\<lambda>l. l_id l = item \<and> l_tenant l = tn) (lifecycle s)) = Some l"
    and "is_admin \<or> l_owner l = Some user" and "l_state l = ''eligible''" and "protection_reason now tn l s = None"
    and "s' = upd_item item (mark_archived now) (put_manifest now tn l (l_policy_version l) None s)"
    and "l_id l = item" and "l_tenant l = tn"
proof -
  obtain l where l: "first_row (filter (\<lambda>l. l_id l = item \<and> l_tenant l = tn) (lifecycle s)) = Some l"
    using assms by (auto simp: archive_item_def split: option.splits)
  have "l_id l = item" "l_tenant l = tn" using first_row_in [OF l] by auto
  then show thesis
    using assms l by (intro that [of l]) (auto simp: archive_item_def Let_def split: if_splits option.splits)
qed

lemma filter_manifest_upd:
  assumes "\<And>f. f_tenant (h f) = f_tenant f \<and> f_item (h f) = f_item f"
  shows "filter (is_manifest tn k) (upd_where (is_manifest tn k) h fs) = map h (filter (is_manifest tn k) fs)"
  by (rule filter_upd_where_into) (simp add: is_manifest_def assms)

lemma find_manifest_put:
  "\<exists>f. find_manifest tn (l_id l) (put_manifest now tn l v refresh s) = Some f \<and> f_state f = ''archived'' \<and> f_restored_at f = None"
proof (cases "\<exists>f \<in> set (manifests s). is_manifest tn (l_id l) f")
  case True
  then have "filter (is_manifest tn (l_id l)) (manifests s) \<noteq> []" by (auto simp: filter_empty_conv)
  with True show ?thesis
    by (cases "filter (is_manifest tn (l_id l)) (manifests s)")
      (auto simp: put_manifest_def find_manifest_def filter_manifest_upd)
next
  case False
  then have "filter (is_manifest tn (l_id l)) (manifests s) = []" by (simp add: filter_empty_conv)
  with False show ?thesis
    by (simp add: put_manifest_def find_manifest_def) (simp add: is_manifest_def)
qed

lemma upd_item_manifests: "find_manifest tn k (upd_item i f s) = find_manifest tn k s"
  by (simp add: find_manifest_def)

text \<open>Archiving can always be undone by whoever did it: after a successful \<open>archive_item\<close> the same
  caller's \<open>restore_item\<close> succeeds, the row is active with no archive or purge time and with the
  restore as its latest activity, its manifest says \<open>restored\<close>, and the source tables are as before
  both calls.\<close>

theorem archive_then_restore:
  assumes "archive_item now tn item user is_admin s = Inr (m, s1)"
  shows "\<exists>m' s2 f l. restore_item now' tn item user is_admin s1 = Inr (m', s2) \<and>
    m' = Some f \<and> f_state f = ''restored'' \<and> f_restored_at f = Some now' \<and>
    first_row (filter (\<lambda>l. l_id l = item \<and> l_tenant l = tn) (lifecycle s2)) = Some l \<and>
    l_state l = ''active'' \<and> l_archived_at l = None \<and> l_purge_after l = None \<and> l_activity_at l = now' \<and>
    workspace_core s2 = workspace_core s"
proof -
  obtain l where l: "first_row (filter (\<lambda>l. l_id l = item \<and> l_tenant l = tn) (lifecycle s)) = Some l"
    and own: "is_admin \<or> l_owner l = Some user" and "l_state l = ''eligible''" "protection_reason now tn l s = None"
    and s1: "s1 = upd_item item (mark_archived now) (put_manifest now tn l (l_policy_version l) None s)"
    and id: "l_id l = item" "l_tenant l = tn"
    by (rule archive_item_Inr [OF assms])
  obtain f where f: "find_manifest tn item s1 = Some f"
    using find_manifest_put [of tn l now "l_policy_version l" None s] by (auto simp: s1 id upd_item_manifests)
  have row: "first_row (filter (\<lambda>l. l_id l = item \<and> l_tenant l = tn) (upd_where (\<lambda>l. l_id l = item) g rows)) =
      map_option g (first_row (filter (\<lambda>l. l_id l = item \<and> l_tenant l = tn) rows))"
    if "\<And>l. l_id (g l) = l_id l \<and> l_tenant (g l) = l_tenant l" for g rows
    using that by (induction rows) auto
  have l1: "first_row (filter (\<lambda>l. l_id l = item \<and> l_tenant l = tn) (lifecycle s1)) = Some (mark_archived now l)"
    using row [of "mark_archived now" "lifecycle s"] l by (simp add: s1 mark_archived_def)
  let ?g = "\<lambda>l. l\<lparr>l_state := ''active'', l_archived_at := None, l_purge_after := None, l_activity_at := now',
    l_activity_kind := ''restore'', l_updated := now'\<rparr>"
  let ?h = "\<lambda>f. f\<lparr>f_state := ''restored'', f_restored_at := Some now'\<rparr>"
  define s2 where "s2 = (upd_item item ?g s1)\<lparr>manifests := upd_where (is_manifest tn item) ?h (manifests s1)\<rparr>"
  have r: "restore_item now' tn item user is_admin s1 = Inr (find_manifest tn item s2, s2)"
    using f l1 own by (simp add: restore_item_def Let_def mark_archived_def s2_def upd_item_def)
  have m: "find_manifest tn item s2 = Some (?h f)"
    using f by (cases "filter (is_manifest tn item) (manifests s1)")
      (auto simp: find_manifest_def filter_manifest_upd s2_def)
  have l2: "first_row (filter (\<lambda>l. l_id l = item \<and> l_tenant l = tn) (lifecycle s2)) = Some (?g (mark_archived now l))"
    using row [of ?g "lifecycle s1"] l1 by (simp add: s2_def)
  have c: "workspace_core s2 = workspace_core s" by (simp add: s2_def s1)
  show ?thesis
    by (rule exI [of _ "Some (?h f)"], rule exI [of _ s2], rule exI [of _ "?h f"], rule exI [of _ "?g (mark_archived now l)"])
      (simp add: r m l2 c)
qed

section \<open>Scan leases\<close>

lemma claim_scan_claimed:
  assumes "claim_scan_run now tn minutes s = (Some g, s')"
    and "distinct (map g_id (retention_runs s))"
    and "\<forall>x \<in> set (retention_runs s). g_id x < next_id s"
  shows "find_scan tn s' = Some g \<and> g_lease g = Some (now + max 1 minutes * 60)"
proof (cases "find_scan tn s")
  case None
  then have "filter (\<lambda>g. g_tenant g = tn \<and> g_operation g = ''scan'' \<and> g_status g = ''running'') (retention_runs s) = []"
    by (simp add: find_scan_def)
  with assms None show ?thesis
    by (auto simp: claim_scan_run_def Let_def find_scan_def order_by_def)
next
  case (Some g0)
  let ?P = "\<lambda>g. g_tenant g = tn \<and> g_operation g = ''scan'' \<and> g_status g = ''running''"
  let ?f = "\<lambda>x. x\<lparr>g_version := rp_version (policy tn s), g_mode := rp_mode (policy tn s), g_days := rp_days (policy tn s),
        g_error := None, g_lease := Some (now + max 1 minutes * 60)\<rparr>"
  have g: "g = ?f g0" and s': "s' = upd_scan (g_id g0) (\<lambda>_. ?f g0) s"
    using assms(1) Some by (auto simp: claim_scan_run_def Let_def split: if_splits)
  have in0: "g0 \<in> set (retention_runs s)" "?P g0"
    using Some first_order_by_in unfolding find_scan_def by fastforce+
  have e: "upd_where (\<lambda>g. g_id g = g_id g0) (\<lambda>_. ?f g0) (retention_runs s) = upd_where (\<lambda>g. g_id g = g_id g0) ?f (retention_runs s)"
    using distinct_map_inj [OF assms(2)] in0(1) by (auto simp: upd_where_def)
  have fl: "filter ?P (upd_where (\<lambda>g. g_id g = g_id g0) ?f (retention_runs s)) =
      upd_where (\<lambda>g. g_id g = g_id g0) ?f (filter ?P (retention_runs s))"
    by (rule filter_upd_where_same) simp
  have ob: "order_by (\<lambda>g. - g_started g) (upd_where (\<lambda>g. g_id g = g_id g0) ?f xs) =
      upd_where (\<lambda>g. g_id g = g_id g0) ?f (order_by (\<lambda>g. - g_started g) xs)" for xs
    by (rule order_by_upd_where) simp
  have "find_scan tn s' = map_option (\<lambda>r. if g_id r = g_id g0 then ?f r else r) (find_scan tn s)"
    unfolding find_scan_def s' upd_scan_frame e fl ob by (rule first_row_upd_where)
  then show ?thesis using Some g by simp
qed

text \<open>A tenant's retention scan has one owner at a time: after a claim succeeds, every further claim
  before the lease ends is refused without changing anything, and the first claim at or after its end
  takes over the same run instead of starting another.\<close>

theorem claim_scan_exclusive:
  assumes "claim_scan_run now tn minutes s = (Some g, s')"
    and "distinct (map g_id (retention_runs s))" and "\<forall>x \<in> set (retention_runs s). g_id x < next_id s"
  shows "(now' < now + max 1 minutes * 60 \<longrightarrow> claim_scan_run now' tn minutes' s' = (None, s')) \<and>
    (now + max 1 minutes * 60 \<le> now' \<longrightarrow>
      (\<exists>g' s''. claim_scan_run now' tn minutes' s' = (Some g', s'') \<and> g_id g' = g_id g \<and>
         length (retention_runs s'') = length (retention_runs s')))"
  using claim_scan_claimed [OF assms] by (auto simp: claim_scan_run_def Let_def leased_def)

section \<open>The properties at concrete inputs\<close>

definition old_file :: lifecycle_item where
  "old_file = fresh_item 0 1 ''files'' ''document'' ''42''
     \<lparr>ac_kind = ''source_write'', ac_size = 500, ac_owner = Some 7, ac_group = None, ac_until = None, ac_reason = None,
      ac_replace = False\<rparr> 3"

definition old_audit :: lifecycle_item where
  "old_audit = old_file\<lparr>l_id := 4, l_category := ''audit''\<rparr>"

definition eligible_file :: lifecycle_item where
  "eligible_file = old_file\<lparr>l_id := 5, l_source_id := ''43'', l_state := ''eligible''\<rparr>"

definition lifecycle_db :: db where
  "lifecycle_db = empty_db\<lparr>tenants := [1], next_id := 10,
     allocations := [\<lparr>a_tenant = 1, a_plan = ''free'', a_bytes = free_storage_bytes, a_measured = 0,
       a_measured_at = None, a_mode = ''30'', a_days = 30, a_version = 2, a_policy_at = Some 0\<rparr>],
     lifecycle := [old_file, old_audit, eligible_file]\<rparr>"

lemma lifecycle_db_ids: "distinct (map l_id (lifecycle lifecycle_db))"
  by code_simp

theorem archive_eligible_items_exact_witness:
  "\<exists>n s'. archive_eligible_items 9000000 1 2 8 500 lifecycle_db = (n, s') \<and>
    lifecycle s' = map (\<lambda>l. if l \<in> set (take (nat (max 1 (min 500 5000))) (eligible_items 1 lifecycle_db))
      then archive_outcome 9000000 1 lifecycle_db l else l) (lifecycle lifecycle_db) \<and>
    n = length (filter (\<lambda>l. protection_reason 9000000 1 l lifecycle_db = None)
          (take (nat (max 1 (min 500 5000))) (eligible_items 1 lifecycle_db))) \<and>
    workspace_core s' = workspace_core lifecycle_db"
proof -
  obtain n s' where a: "archive_eligible_items 9000000 1 2 8 500 lifecycle_db = (n, s')" by force
  show ?thesis using archive_eligible_items_exact [OF lifecycle_db_ids a refl] a by blast
qed

theorem preview_exact_witness:
  "\<exists>rv s'. preview 9000000 1 lifecycle_db = (rv, s') \<and>
    (rv_candidates rv, rv_candidate_bytes rv, rv_protected rv) =
       preview_counts 9000000 1 lifecycle_db (inactive_items 1 (9000000 - rp_days (policy 1 lifecycle_db) * day_seconds) lifecycle_db) \<and>
    workspace_core s' = workspace_core lifecycle_db"
proof -
  obtain rv s' where a: "preview 9000000 1 lifecycle_db = (rv, s')" by force
  have "0 < rp_days (policy 1 lifecycle_db)" by code_simp
  from preview_exact [OF lifecycle_db_ids this a refl] a show ?thesis by blast
qed

theorem record_activity_monotone_witness:
  "\<exists>l'. lifecycle_row 1 ''files'' ''document'' ''42'' (record_activity 50 1 ''files'' ''document'' ''42''
      \<lparr>ac_kind = ''reconciliation'', ac_size = 20, ac_owner = None, ac_group = None, ac_until = None, ac_reason = None,
       ac_replace = False\<rparr> lifecycle_db) = Some l' \<and> 50 \<le> l_activity_at l' \<and> l_state l' = ''active''"
proof -
  have "lifecycle_row 1 ''files'' ''document'' ''42'' lifecycle_db = Some old_file" by code_simp
  from record_activity_monotone [OF this, of 50 "\<lparr>ac_kind = ''reconciliation'', ac_size = 20, ac_owner = None,
      ac_group = None, ac_until = None, ac_reason = None, ac_replace = False\<rparr>"]
  show ?thesis by (auto simp: old_file_def fresh_item_def)
qed

theorem archive_then_restore_witness:
  "case archive_item 9000000 1 5 7 False lifecycle_db of Inl _ \<Rightarrow> False
   | Inr (m, s1) \<Rightarrow> (\<exists>m' s2 f l. restore_item 9000001 1 5 7 False s1 = Inr (m', s2) \<and>
    m' = Some f \<and> f_state f = ''restored'' \<and> f_restored_at f = Some 9000001 \<and>
    first_row (filter (\<lambda>l. l_id l = 5 \<and> l_tenant l = 1) (lifecycle s2)) = Some l \<and>
    l_state l = ''active'' \<and> l_archived_at l = None \<and> l_purge_after l = None \<and> l_activity_at l = 9000001 \<and>
    workspace_core s2 = workspace_core lifecycle_db)"
  by (rule case_ok, code_simp, rule archive_then_restore)

theorem claim_scan_exclusive_witness:
  "\<exists>g s'. claim_scan_run 100 1 15 lifecycle_db = (Some g, s') \<and> claim_scan_run 999 1 15 s' = (None, s')"
proof -
  obtain o' s' where c: "claim_scan_run 100 1 15 lifecycle_db = (o', s')" by force
  have "\<not> Option.is_none (fst (claim_scan_run 100 1 15 lifecycle_db))" by code_simp
  then obtain g where g: "claim_scan_run 100 1 15 lifecycle_db = (Some g, s')" using c by (cases o') auto
  have "distinct (map g_id (retention_runs lifecycle_db))"
    "\<forall>x \<in> set (retention_runs lifecycle_db). g_id x < next_id lifecycle_db" by code_simp+
  from claim_scan_exclusive [OF g this, of 999 15] g show ?thesis by auto
qed

end
