(* ===== verification/Run_Events.thy ===== *)
theory Run_Events
  imports Lifecycle
begin

text \<open>
  The durable event log of detached runs (\<open>deepspace/services/run_events.py\<close>): server-sent frames with
  a sequence per request id, the batch append with its quota check and notifications, the replay
  queries, the Redis payload, and the compact timeline of a history page.
\<close>

section \<open>Frames\<close>

definition drop_prefix :: "string \<Rightarrow> string \<Rightarrow> string option" where
  "drop_prefix p line = (if prefix p line then Some (drop (length p) line) else None)"

text \<open>The value of the first line that starts with \<open>name:\<close>, blanks removed.\<close>

fun first_field :: "string \<Rightarrow> string list \<Rightarrow> string option" where
  "first_field p [] = None"
| "first_field p (line # ls) = (case drop_prefix p line of
     Some v \<Rightarrow> Some (strip v) | None \<Rightarrow> first_field p ls)"

definition event_name_from_frame :: "string \<Rightarrow> string" where
  "event_name_from_frame frame = (case first_field ''event:'' (splitlines frame) of
     None \<Rightarrow> ''message'' | Some v \<Rightarrow> if v = [] then ''message'' else v)"

definition is_terminal_event :: "string \<Rightarrow> bool" where
  "is_terminal_event name = (name \<in> {''done'', ''error''})"

definition sse :: "string \<Rightarrow> jdict \<Rightarrow> string" where
  "sse event data = ''event: '' @ event @ [CHR 0x0A] @ ''data: '' @ json_dumps True (JObj data) @ [CHR 0x0A, CHR 0x0A]"

definition channel_name :: "string \<Rightarrow> string" where
  "channel_name rid = ''deepspace:run:'' @ rid"

definition cancellation_key :: "nat \<Rightarrow> nat \<Rightarrow> string \<Rightarrow> string" where
  "cancellation_key tn user rid = ''deepspace:cancel:'' @ uuid_str tn @ '':'' @ uuid_str user @ '':'' @ rid"

record pending_event =
  pe_sequence :: int
  pe_frame :: string
  pe_run :: "nat option"

definition live_event_payload :: "pending_event \<Rightarrow> string" where
  "live_event_payload ev = json_dumps True (JObj [(''sequence'', JInt (pe_sequence ev)), (''frame'', JStr (pe_frame ev))])"

definition publish_live_event :: "string \<Rightarrow> pending_event \<Rightarrow> db \<Rightarrow> db" where
  "publish_live_event rid ev s =
     (if redis_up s then s\<lparr>live_channel := live_channel s @ [(channel_name rid, live_event_payload ev)]\<rparr> else s)"

section \<open>The log\<close>

definition of_request :: "scope \<Rightarrow> string \<Rightarrow> run_event \<Rightarrow> bool" where
  "of_request sc rid e = (e_scope e = sc \<and> e_request e = strip rid)"

definition latest_sequence :: "scope \<Rightarrow> string \<Rightarrow> db \<Rightarrow> int" where
  "latest_sequence sc rid s =
     (let es = filter (of_request sc rid) (events s) in if es = [] then 0 else Max (set (map e_sequence es)))"

definition load_events :: "scope \<Rightarrow> string \<Rightarrow> int \<Rightarrow> db \<Rightarrow> run_event list" where
  "load_events sc rid after s =
     order_by e_sequence (filter (\<lambda>e. of_request sc rid e \<and> max 0 after < e_sequence e) (events s))"

definition load_events_for_requests :: "scope \<Rightarrow> string list \<Rightarrow> db \<Rightarrow> (string \<times> run_event list) list" where
  "load_events_for_requests sc rids s =
     (let ids = dict_unique (map strip (filter (\<lambda>r. r \<noteq> []) rids))
      in filter (\<lambda>p. snd p \<noteq> [])
           (map (\<lambda>rid. (rid, order_by e_sequence (filter (\<lambda>e. e_scope e = sc \<and> e_request e = rid) (events s)))) ids))"

definition frames_after :: "run_event list \<Rightarrow> int \<Rightarrow> (int \<times> string) list" where
  "frames_after es after = map (\<lambda>e. (e_sequence e, e_frame e)) (filter (\<lambda>e. after < e_sequence e) es)"

text \<open>The run id of a batch also goes to the earlier rows of the request that have none.\<close>

definition backfill_run :: "scope \<Rightarrow> string \<Rightarrow> pending_event list \<Rightarrow> db \<Rightarrow> db" where
  "backfill_run sc rid evs s = (case first_row (filter (\<lambda>ev. pe_run ev \<noteq> None) evs) of
     None \<Rightarrow> s
   | Some ev \<Rightarrow> s\<lparr>events := upd_where (\<lambda>e. e_scope e = sc \<and> e_request e = rid \<and> e_run e = None)
                    (\<lambda>e. e\<lparr>e_run := pe_run ev\<rparr>) (events s)\<rparr>)"

definition event_row :: "int \<Rightarrow> scope \<Rightarrow> string \<Rightarrow> nat \<Rightarrow> pending_event \<Rightarrow> run_event" where
  "event_row now sc rid k ev =
     \<lparr>e_id = k, e_scope = sc, e_run = pe_run ev, e_request = rid, e_sequence = pe_sequence ev,
      e_frame = pe_frame ev, e_name = event_name_from_frame (pe_frame ev), e_created = now\<rparr>"

fun event_rows :: "int \<Rightarrow> scope \<Rightarrow> string \<Rightarrow> nat \<Rightarrow> pending_event list \<Rightarrow> run_event list" where
  "event_rows now sc rid k [] = []"
| "event_rows now sc rid k (ev # evs) = event_row now sc rid k ev # event_rows now sc rid (Suc k) evs"

text \<open>The unique index \<open>uq_deepspace_run_events_request_sequence\<close>.\<close>

definition event_key :: "run_event \<Rightarrow> scope \<times> string \<times> int" where
  "event_key e = (e_scope e, e_request e, e_sequence e)"

definition notify_terminal :: "int \<Rightarrow> scope \<Rightarrow> run_event \<Rightarrow> db \<Rightarrow> db" where
  "notify_terminal now sc e s = (case sc of (tn, user, conv) \<Rightarrow>
     if e_name e \<notin> {''done'', ''error''} then s
     else (let ok = (e_name e = ''done'');
               reference = (case e_run e of Some r \<Rightarrow> uuid_str r | None \<Rightarrow> e_request e)
       in add_user_notification now tn user ''deepspace''
            (if ok then ''run_completed'' else ''run_failed'')
            (if ok then ''DeepSpace run completed'' else ''DeepSpace run needs attention'')
            (if ok then ''Your DeepSpace run has finished. Open the conversation to review its response.''
             else ''Your DeepSpace run stopped with an error. Open the conversation to review it and retry.'')
            (''/dashboard/deepspace?conversation='' @ uuid_str conv) (Some reference)
            (Some (''deepspace:'' @ reference @ '':'' @ e_name e)) s))"

definition append_event_batch :: "int \<Rightarrow> scope \<Rightarrow> string \<Rightarrow> pending_event list \<Rightarrow> db \<Rightarrow> run_event list tx" where
  "append_event_batch now sc rid evs s =
     (if evs = [] then Inr ([], s)
      else (let nid = strip rid;
                s1 = backfill_run sc nid evs s
       in case ensure_capacity_if_supported now (fst sc) (Some (fst (snd sc)))
                 (sum_list (map (\<lambda>ev. estimate_bytes [PStr (pe_frame ev)]) evs)) 0 s1 of
            Inl err \<Rightarrow> Inl err
          | Inr (_, s2) \<Rightarrow>
              (let rows = event_rows now sc nid (next_id s2) evs;
                   s3 = s2\<lparr>events := events s2 @ rows, next_id := next_id s2 + length rows\<rparr>
               in if \<not> distinct (map event_key rows) \<or> (\<exists>e \<in> set rows. event_key e \<in> event_key ` set (events s2))
                  then Inl IntegrityError
                  else Inr (rows, fold (notify_terminal now sc) rows s3))))"

definition append_event :: "int \<Rightarrow> scope \<Rightarrow> string \<Rightarrow> string \<Rightarrow> nat option \<Rightarrow> db \<Rightarrow> run_event option tx" where
  "append_event now sc rid frame run s =
     (let nid = strip rid;
          ev = \<lparr>pe_sequence = latest_sequence sc nid s + 1, pe_frame = frame, pe_run = run\<rparr>
      in case append_event_batch now sc nid [ev] s of
           Inl err \<Rightarrow> Inl err
         | Inr (rows, s1) \<Rightarrow> Inr (first_row rows, publish_live_event nid ev s1))"

section \<open>Decoding a live message\<close>

text \<open>
  \<open>int(v)\<close> of a decoded JSON value: \<open>Inr None\<close> is the \<open>TypeError\<close> or \<open>ValueError\<close> the caller catches, an
  infinite float is the \<open>OverflowError\<close> it does not catch.  A decimal literal is truncated exactly.
\<close>

definition decimal_parts :: "string \<Rightarrow> string \<times> string \<times> int" where
  "decimal_parts s =
     (let ds = takeWhile is_digit s; rest = dropWhile is_digit s;
          fr = (if prefix ''.'' rest then takeWhile is_digit (tl rest) else []);
          rest' = (if prefix ''.'' rest then dropWhile is_digit (tl rest) else rest);
          ex = (case rest' of
             [] \<Rightarrow> 0
           | _ # t \<Rightarrow> (if prefix ''-'' t then - int (nat_of_digits (tl t))
                      else if prefix ''+'' t then int (nat_of_digits (tl t)) else int (nat_of_digits t)))
      in (ds, fr, ex))"

definition trunc_decimal :: "string \<Rightarrow> int" where
  "trunc_decimal s =
     (let neg = prefix ''-'' s; (ds, fr, ex) = decimal_parts (if neg then tl s else s);
          m = int (nat_of_digits (ds @ fr)); k = ex - int (length fr);
          v = (if 0 \<le> k then m * 10 ^ nat k else m div 10 ^ nat (- k))
      in if neg then - v else v)"

fun int_digits :: "bool \<Rightarrow> nat \<Rightarrow> string \<Rightarrow> nat option" where
  "int_digits prev acc [] = (if prev then Some acc else None)"
| "int_digits prev acc (c # cs) =
     (if c = CHR ''_'' then (if prev then int_digits False acc cs else None)
      else if is_digit c then int_digits True (10 * acc + digit_val c) cs else None)"

definition int_of_str :: "string \<Rightarrow> int option" where
  "int_of_str s = (case strip s of
     [] \<Rightarrow> None
   | c # cs \<Rightarrow> if c = CHR ''-'' then map_option (\<lambda>n. - int n) (int_digits False 0 cs)
              else if c = CHR ''+'' then map_option int (int_digits False 0 cs)
              else map_option int (int_digits False 0 (c # cs)))"

definition float_max :: int where "float_max = 2 ^ 1024 - 2 ^ 970"

definition int_of_json :: "json \<Rightarrow> app_error + int option" where
  "int_of_json v = (case v of
     JInt i \<Rightarrow> Inr (Some i)
   | JBool b \<Rightarrow> Inr (Some (if b then 1 else 0))
   | JStr t \<Rightarrow> Inr (int_of_str t)
   | JFloat t \<Rightarrow>
       if t = ''NaN'' then Inr None
       else if t \<in> {''Infinity'', ''-Infinity''} then Inl (OverflowErr ''cannot convert float infinity to integer'')
       else (let i = trunc_decimal t in
         if float_max \<le> \<bar>i\<bar> then Inl (OverflowErr ''cannot convert float infinity to integer'') else Inr (Some i))
   | _ \<Rightarrow> Inr None)"

definition decode_live_event :: "string \<Rightarrow> app_error + (int \<times> string) option" where
  "decode_live_event payload = (case json_loads payload of
     Some (JObj d) \<Rightarrow>
       (case map_of d ''sequence'' of
          None \<Rightarrow> Inr None
        | Some v \<Rightarrow>
            (case int_of_json v of
               Inl err \<Rightarrow> Inl err
             | Inr None \<Rightarrow> Inr None
             | Inr (Some i) \<Rightarrow>
                 (case map_of d ''frame'' of None \<Rightarrow> Inr None | Some f \<Rightarrow> Inr (Some (i, py_str f)))))
   | _ \<Rightarrow> Inr None)"

section \<open>The timeline of a history page\<close>

definition timeline_event_names :: "string list" where
  "timeline_event_names = [''agent_plan'', ''thinking'', ''model_message'', ''lane_thinking'', ''lane_agent_thinking'',
     ''agent_thinking'', ''tool_start'', ''tool_result'', ''tool_error'', ''research_status'', ''ask_user_question'',
     ''permission_request'', ''permission_granted'', ''permission_denied'', ''agent_testing'', ''agent_verifying'',
     ''agent_self_correct'']"

definition thinking_event_names :: "string list" where
  "thinking_event_names = [''thinking'', ''lane_thinking'', ''lane_agent_thinking'', ''agent_thinking'']"

record timeline_entry =
  tl_event :: string
  tl_data :: jdict
  tl_sequence :: int
  tl_end :: int

definition frame_payload :: "string \<Rightarrow> jdict option" where
  "frame_payload frame =
     (case json_loads (case first_field ''data:'' (splitlines frame) of None \<Rightarrow> ''{}'' | Some v \<Rightarrow> v) of
        Some (JObj d) \<Rightarrow> Some d | _ \<Rightarrow> None)"

definition two_digits :: "int \<Rightarrow> string" where
  "two_digits n = (if n < 10 then ''0'' else []) @ str_int n"

text \<open>\<open>isoformat()\<close> of a UTC time in whole seconds (years 1000 to 9999).\<close>

definition isoformat :: "int \<Rightarrow> string" where
  "isoformat secs =
     (let (y, m) = civil_month secs; z = secs div 86400 + 719468; doe = z mod 146097;
          yoe = (doe - doe div 1460 + doe div 36524 - doe div 146096) div 365;
          doy = doe - (365 * yoe + yoe div 4 - yoe div 100);
          d = doy - (153 * ((5 * doy + 2) div 153) + 2) div 5 + 1; t = secs mod 86400
      in str_int y @ ''-'' @ two_digits m @ ''-'' @ two_digits d @ ''T'' @ two_digits (t div 3600) @ '':'' @
         two_digits (t mod 3600 div 60) @ '':'' @ two_digits (t mod 60) @ ''+00:00'')"

text \<open>One step of the loop of \<open>timeline_events\<close>; \<open>redact\<close> is \<open>redact_reasoning_text\<close>, a list of regular
  expressions that is not modelled.\<close>

definition timeline_payload :: "(string \<Rightarrow> string) \<Rightarrow> run_event \<Rightarrow> string \<Rightarrow> jdict option" where
  "timeline_payload redact e name = (case frame_payload (e_frame e) of
     None \<Rightarrow> None
   | Some d \<Rightarrow>
       (let d1 = (if name \<in> set thinking_event_names
                  then (case dict_get d ''text'' of Some (JStr t) \<Rightarrow> dict_set ''text'' (JStr (redact t)) d | _ \<Rightarrow> d)
                  else d)
        in Some (dict_setdefault ''timestamp'' (JStr (isoformat (e_created e))) d1)))"

definition timeline_name :: "run_event \<Rightarrow> string" where
  "timeline_name e = (if e_name e = [] then event_name_from_frame (e_frame e) else e_name e)"

definition merge_thinking :: "timeline_entry \<Rightarrow> jdict \<Rightarrow> int \<Rightarrow> timeline_entry" where
  "merge_thinking prev payload n = prev\<lparr>
     tl_data := dict_set ''text'' (JStr (get_str_or (tl_data prev) ''text'' [] @ get_str_or payload ''text'' [])) (tl_data prev),
     tl_end := n\<rparr>"

definition timeline_step :: "(string \<Rightarrow> string) \<Rightarrow> run_event \<Rightarrow> timeline_entry list \<Rightarrow> timeline_entry list" where
  "timeline_step redact e acc = (let name = timeline_name e in
     if name \<notin> set timeline_event_names then acc
     else (case timeline_payload redact e name of
        None \<Rightarrow> acc
      | Some payload \<Rightarrow>
          if name \<in> set thinking_event_names \<and> acc \<noteq> [] \<and> tl_event (last acc) \<in> set thinking_event_names
          then butlast acc @ [merge_thinking (last acc) payload (e_sequence e)]
          else acc @ [\<lparr>tl_event = name, tl_data = payload, tl_sequence = e_sequence e, tl_end = e_sequence e\<rparr>]))"

definition timeline_events :: "(string \<Rightarrow> string) \<Rightarrow> run_event list \<Rightarrow> timeline_entry list" where
  "timeline_events redact es = fold (timeline_step redact) es []"

section \<open>Frames carry their event\<close>

definition printable :: "string \<Rightarrow> bool" where
  "printable s = (\<forall>c \<in> set s. 32 \<le> code c \<and> code c \<le> 126)"

lemma printable_append [simp]: "printable (xs @ ys) \<longleftrightarrow> printable xs \<and> printable ys"
  by (auto simp: printable_def)

lemma printable_Cons [simp]: "printable (c # cs) \<longleftrightarrow> 32 \<le> code c \<and> code c \<le> 126 \<and> printable cs"
  by (auto simp: printable_def)

lemma printable_Nil [simp]: "printable []"
  by (simp add: printable_def)

lemma printable_concat [simp]: "printable (concat xss) \<longleftrightarrow> (\<forall>xs \<in> set xss. printable xs)"
  by (auto simp: printable_def)

lemma printable_commas: "(\<forall>x \<in> set xs. printable x) \<Longrightarrow> printable (commas xs)"
  by (induction xs rule: commas.induct) auto

lemma hex_char_printable: "n < 16 \<Longrightarrow> 32 \<le> code (hex_char n) \<and> code (hex_char n) \<le> 126"
  by (simp add: hex_char_code)

lemma printable_esc_char: "printable (esc_char True c)"
  by (auto simp: esc_char_def Let_def u_escape_def hex_digits_4 hex_char_printable)

lemma printable_json_str: "printable (json_str True s)"
  by (simp add: json_str_def printable_esc_char)

lemma printable_str_int: "printable (str_int i)"
proof -
  have "printable (digits10 n)" for n
    using digits10_all_digits [of n] by (auto simp: printable_def list_all_iff is_digit_def)
  then show ?thesis by (simp add: str_int_def)
qed

lemma printable_dumps: "json_ok j \<Longrightarrow> printable (json_dumps True j)"
proof (induction j)
  case (JList xs)
  then show ?case by (auto intro!: printable_commas)
next
  case (JObj d)
  then have "printable (commas (map (\<lambda>(k, v). json_str True k @ '':'' @ json_dumps True v) d))"
    by (intro printable_commas) (auto simp: printable_json_str)
  then show ?case by simp
qed (auto simp: printable_str_int printable_json_str)

lemma printable_no_break: "printable s \<Longrightarrow> c \<in> set s \<Longrightarrow> \<not> is_line_break c"
  by (auto simp: printable_def is_line_break_def Let_def)

lemma split_lines_step:
  assumes "\<forall>c \<in> set xs. \<not> is_line_break c"
  shows "split_lines acc (xs @ CHR 0x0A # rest) = (rev acc @ xs) # split_lines [] rest"
  using assms by (induction xs arbitrary: acc) (auto simp: is_line_break_def)

lemma strip_space: "strip (CHR 0x20 # s) = strip s"
  by (simp add: strip_def lstrip_def is_space_def)

lemma strip_ends:
  assumes "s \<noteq> [] \<Longrightarrow> \<not> is_space (hd s) \<and> \<not> is_space (last s)"
  shows "strip s = s"
proof (cases s)
  case (Cons c cs)
  then have "dropWhile is_space s = s" "dropWhile is_space (rev s) = rev s"
    using assms by (simp_all, cases "rev cs", auto simp: last_rev hd_rev [symmetric])
  then show ?thesis by (simp add: strip_def lstrip_def rstrip_def)
qed simp

lemma dumps_obj_stripped: "strip (json_dumps a (JObj d)) = json_dumps a (JObj d)"
  by (rule strip_ends) (simp add: is_space_def)

lemma splitlines_sse:
  assumes "\<forall>c \<in> set name. \<not> is_line_break c" and "json_ok (JObj data)"
  shows "splitlines (sse name data) = [''event: '' @ name, ''data: '' @ json_dumps True (JObj data), []]"
proof -
  have d: "\<forall>c \<in> set (''data: '' @ json_dumps True (JObj data)). \<not> is_line_break c"
    using printable_no_break [OF printable_dumps [OF assms(2)]] by (auto simp: is_line_break_def)
  have n: "\<forall>c \<in> set (''event: '' @ name). \<not> is_line_break c" using assms(1) by (auto simp: is_line_break_def)
  have e: "sse name data = (''event: '' @ name) @ CHR 0x0A # (''data: '' @ json_dumps True (JObj data)) @ CHR 0x0A # [CHR 0x0A]"
    by (simp add: sse_def)
  show ?thesis
    unfolding splitlines_def e by (simp only: split_lines_step [OF n] split_lines_step [OF d] rev.simps append_Nil)
      (simp add: is_line_break_def)
qed

text \<open>A frame carries its event name and payload: reading back a frame written by \<open>sse\<close> yields the event
  name it was written with and the same payload object, for every payload without floats whose keys are
  distinct, whatever characters its strings contain.\<close>

theorem sse_roundtrip:
  assumes "\<forall>c \<in> set name. \<not> is_line_break c" and "strip name = name" and "name \<noteq> []" and "json_ok (JObj data)"
  shows "event_name_from_frame (sse name data) = name \<and> frame_payload (sse name data) = Some data"
  using assms(2,3) json_loads_dumps [OF assms(4), of True]
  by (simp add: event_name_from_frame_def frame_payload_def splitlines_sse [OF assms(1,4)] drop_prefix_def
      strip_space dumps_obj_stripped del: json_dumps.simps)

text \<open>What the worker publishes is what a reader of the channel decodes: the sequence and the frame come
  back unchanged from the Redis payload.\<close>

theorem live_event_roundtrip:
  "decode_live_event (live_event_payload ev) = Inr (Some (pe_sequence ev, pe_frame ev))"
  by (simp add: decode_live_event_def live_event_payload_def json_loads_dumps int_of_json_def
      del: json_dumps.simps)

section \<open>The log grows by whole batches\<close>

definition log_core :: "db \<Rightarrow> db" where
  "log_core s = workspace_core (s\<lparr>events := []\<rparr>)"

lemma log_core_upd [simp]:
  "log_core (s\<lparr>events := es\<rparr>) = log_core s" "log_core (s\<lparr>events := es, next_id := n\<rparr>) = log_core s"
  "log_core (s\<lparr>live_channel := ch\<rparr>) = log_core s"
  by (simp_all add: log_core_def workspace_core_def)

lemma workspace_core_events: "workspace_core (s\<lparr>events := es\<rparr>) = (workspace_core s)\<lparr>events := es\<rparr>"
  by (cases s) (simp add: workspace_core_def)

lemma log_core_of_core: "workspace_core s' = workspace_core s \<Longrightarrow> log_core s' = log_core s"
  by (simp add: log_core_def workspace_core_events)

lemma log_core_fields:
  assumes "log_core s' = log_core s"
  shows "turns s' = turns s" "controls s' = controls s" "runs s' = runs s" "steps s' = steps s"
    "messages s' = messages s" "conversations s' = conversations s" "tenants s' = tenants s"
    "redis_up s' = redis_up s"
  using workspace_core_fields [OF assms [unfolded log_core_def]] by simp_all

definition event_log_ok :: "db \<Rightarrow> bool" where
  "event_log_ok s = (distinct (map event_key (events s)) \<and> (\<forall>e \<in> set (events s). 1 \<le> e_sequence e))"

lemma backfill_frame [simp]:
  "log_core (backfill_run sc rid evs s) = log_core s" "next_id (backfill_run sc rid evs s) = next_id s"
  "workspace_core ((backfill_run sc rid evs s)\<lparr>events := es\<rparr>) = workspace_core (s\<lparr>events := es\<rparr>)"
  "map event_key (events (backfill_run sc rid evs s)) = map event_key (events s)"
  "length (events (backfill_run sc rid evs s)) = length (events s)"
  by (auto simp: backfill_run_def event_key_def split: option.split intro!: map_upd_where_same)

interpretation terminal_notice: neutral_service "notify_terminal now sc e" for now sc e
  by unfold_locales (auto simp: notify_terminal_def Let_def notify.core notify.ids split: prod.split)

lemma fold_notify_terminal:
  "workspace_core (fold (notify_terminal now sc) rows s) = workspace_core s"
  "next_id s \<le> next_id (fold (notify_terminal now sc) rows s)"
  by (induction rows arbitrary: s) (auto simp: terminal_notice.core intro: order_trans [OF terminal_notice.ids])

lemma length_event_rows [simp]: "length (event_rows now sc rid k evs) = length evs"
  by (induction evs arbitrary: k) simp_all

lemma in_event_rows:
  "e \<in> set (event_rows now sc rid k evs) \<Longrightarrow> \<exists>ev \<in> set evs. \<exists>i. e = event_row now sc rid i ev \<and> k \<le> i \<and> i < k + length evs"
proof (induction evs arbitrary: k)
  case (Cons ev evs)
  show ?case
  proof (cases "e = event_row now sc rid k ev")
    case True
    then show ?thesis by auto
  next
    case False
    then have "e \<in> set (event_rows now sc rid (Suc k) evs)" using Cons.prems by simp
    then obtain ev' i where "ev' \<in> set evs" "e = event_row now sc rid i ev'" "Suc k \<le> i" "i < Suc k + length evs"
      using Cons.IH by blast
    then show ?thesis by (intro bexI [of _ ev'] exI [of _ i]) auto
  qed
qed simp

lemma append_event_batch_cases:
  assumes "append_event_batch now sc rid evs s = Inr (rows, s')" and "evs \<noteq> []"
  obtains k where "rows = event_rows now sc (strip rid) k evs"
    and "events s' = events (backfill_run sc (strip rid) evs s) @ rows"
    and "distinct (map event_key rows)" and "event_key ` set rows \<inter> event_key ` set (events s) = {}"
    and "log_core s' = log_core s" and "next_id s \<le> k" and "k + length evs \<le> next_id s'"
proof -
  let ?s1 = "backfill_run sc (strip rid) evs s"
  let ?bytes = "sum_list (map (\<lambda>ev. estimate_bytes [PStr (pe_frame ev)]) evs)"
  obtain u s2 where c: "ensure_capacity_if_supported now (fst sc) (Some (fst (snd sc))) ?bytes 0 ?s1 = Inr (u, s2)"
    and r: "rows = event_rows now sc (strip rid) (next_id s2) evs"
    and d: "distinct (map event_key rows)" "\<not> (\<exists>e \<in> set rows. event_key e \<in> event_key ` set (events s2))"
    and s': "s' = fold (notify_terminal now sc) rows (s2\<lparr>events := events s2 @ rows, next_id := next_id s2 + length rows\<rparr>)"
    using assms by (auto simp: append_event_batch_def Let_def split: sum.splits if_splits)
  note f = workspace_core_fields [OF supported_capacity.guard_core [OF c]]
  note n = fold_notify_terminal [where now = now and sc = sc and rows = rows and s = "s2\<lparr>events := events s2 @ rows, next_id := next_id s2 + length rows\<rparr>", folded s']
  have "log_core s' = log_core s"
    using log_core_of_core [OF n(1)] log_core_of_core [OF supported_capacity.guard_core [OF c]] by simp
  moreover have "events s' = events ?s1 @ rows" using workspace_core_fields(5) [OF n(1)] f(5) by simp
  moreover have "event_key ` set (events s2) = event_key ` set (events s)"
    by (metis backfill_frame(4) f(5) set_map)
  ultimately show thesis
    using that [OF r] d n(2) supported_capacity.guard_ids [OF c] by (auto simp: r)
qed

lemma event_log_append:
  assumes "event_log_ok s" and "events s' = es @ rows" and "map event_key es = map event_key (events s)"
    and "distinct (map event_key rows)" and "event_key ` set rows \<inter> event_key ` set (events s) = {}"
    and "\<forall>e \<in> set rows. 1 \<le> e_sequence e"
  shows "event_log_ok s'"
proof -
  have "map (\<lambda>k. snd (snd k)) (map event_key es) = map (\<lambda>k. snd (snd k)) (map event_key (events s))"
    by (simp only: assms(3))
  then have "set (map e_sequence es) = set (map e_sequence (events s))"
    by (simp add: event_key_def o_def del: set_map)
  then have "\<forall>e \<in> set es. 1 \<le> e_sequence e"
    using assms(1) by (force simp: event_log_ok_def)
  moreover have "set (map event_key es) = set (map event_key (events s))" using assms(3) by simp
  ultimately show ?thesis
    using assms by (auto simp: event_log_ok_def)
qed


lemma of_request_strip [simp]: "of_request sc (strip rid) = of_request sc rid"
  by (simp add: of_request_def fun_eq_iff)

lemma latest_sequence_ge: "e \<in> set (events s) \<Longrightarrow> of_request sc rid e \<Longrightarrow> e_sequence e \<le> latest_sequence sc rid s"
  by (auto simp: latest_sequence_def Let_def filter_empty_conv intro!: Max_ge)

lemma latest_sequence_in:
  "latest_sequence sc rid s = 0 \<or> (\<exists>e \<in> set (events s). of_request sc rid e \<and> e_sequence e = latest_sequence sc rid s)"
proof (cases "filter (of_request sc rid) (events s) = []")
  case False
  then have "latest_sequence sc rid s \<in> set (map e_sequence (filter (of_request sc rid) (events s)))"
    by (simp only: latest_sequence_def Let_def if_False) (rule Max_in, auto simp: filter_empty_conv)
  then show ?thesis by auto
qed (simp add: latest_sequence_def)

lemma latest_sequence_nonneg: "event_log_ok s \<Longrightarrow> 0 \<le> latest_sequence sc rid s"
  using latest_sequence_in [of sc rid s] by (auto simp: event_log_ok_def)

lemma append_event_rows:
  assumes "append_event now sc rid frame run s = Inr (r, s')"
  obtains k es where "events s' = es @ [event_row now sc (strip rid) k
      \<lparr>pe_sequence = latest_sequence sc rid s + 1, pe_frame = frame, pe_run = run\<rparr>]"
    and "map event_key es = map event_key (events s)" and "map e_frame es = map e_frame (events s)"
    and "r = Some (event_row now sc (strip rid) k
      \<lparr>pe_sequence = latest_sequence sc rid s + 1, pe_frame = frame, pe_run = run\<rparr>)"
    and "log_core s' = log_core s" and "next_id s \<le> k" and "k < next_id s'"
proof -
  let ?ev = "\<lparr>pe_sequence = latest_sequence sc rid s + 1, pe_frame = frame, pe_run = run\<rparr>"
  have l: "latest_sequence sc (strip rid) s = latest_sequence sc rid s"
    by (simp add: latest_sequence_def)
  obtain rows s1 where b: "append_event_batch now sc (strip rid) [?ev] s = Inr (rows, s1)"
    and r: "r = first_row rows" and s': "s' = publish_live_event (strip rid) ?ev s1"
    using assms by (auto simp: append_event_def Let_def l split: sum.splits)
  obtain k where "rows = event_rows now sc (strip (strip rid)) k [?ev]"
    and e: "events s1 = events (backfill_run sc (strip (strip rid)) [?ev] s) @ rows"
    and d: "distinct (map event_key rows)" "event_key ` set rows \<inter> event_key ` set (events s) = {}"
    and c: "log_core s1 = log_core s" and k: "next_id s \<le> k" "k + length [?ev] \<le> next_id s1"
    by (rule append_event_batch_cases [OF b]) simp
  moreover have "map e_frame (events (backfill_run sc (strip rid) [?ev] s)) = map e_frame (events s)"
    by (auto simp: backfill_run_def split: option.split intro!: map_upd_where_same)
  moreover have "events s' = events s1" "log_core s' = log_core s1" "next_id s' = next_id s1"
    by (simp_all add: s' publish_live_event_def)
  ultimately show thesis
    using that [of "events (backfill_run sc (strip rid) [?ev] s)" k] r by simp
qed

text \<open>A single append takes the next number of its request: the new row's sequence is one above the
  latest stored one and becomes the latest; a reader that had replayed up to the old latest sees exactly
  the new frame, and the log's unique index still holds.\<close>

theorem append_event_next:
  assumes "append_event now sc rid frame run s = Inr (r, s')" and "event_log_ok s"
  shows "event_log_ok s' \<and> latest_sequence sc rid s' = latest_sequence sc rid s + 1 \<and>
    frames_after (load_events sc rid (latest_sequence sc rid s) s') (latest_sequence sc rid s) =
      [(latest_sequence sc rid s + 1, frame)]"
proof -
  obtain k es where e: "events s' = es @ [event_row now sc (strip rid) k
      \<lparr>pe_sequence = latest_sequence sc rid s + 1, pe_frame = frame, pe_run = run\<rparr>]"
    and key: "map event_key es = map event_key (events s)"
    using append_event_rows [OF assms(1)] by metis
  let ?new = "event_row now sc (strip rid) k \<lparr>pe_sequence = latest_sequence sc rid s + 1, pe_frame = frame, pe_run = run\<rparr>"
  have new: "of_request sc rid ?new" "e_sequence ?new = latest_sequence sc rid s + 1" "e_frame ?new = frame"
    "event_key ?new = (sc, strip rid, latest_sequence sc rid s + 1)"
    by (simp_all add: event_row_def of_request_def event_key_def)
  have le: "e_sequence x \<le> latest_sequence sc rid s" if "x \<in> set es" "of_request sc rid x" for x
  proof -
    have "event_key x \<in> set (map event_key es)" using that(1) by simp
    then obtain y where "y \<in> set (events s)" "event_key y = event_key x" by (auto simp: key simp del: set_map) (auto)
    then show ?thesis using that(2) latest_sequence_ge [of y s sc rid] by (auto simp: event_key_def of_request_def)
  qed
  have nn: "0 \<le> latest_sequence sc rid s" by (rule latest_sequence_nonneg [OF assms(2)])
  have "event_key ?new \<notin> event_key ` set (events s)"
    using latest_sequence_ge [of _ s sc rid] new(4) by (force simp: event_key_def of_request_def)
  then have ok: "event_log_ok s'"
    using event_log_append [OF assms(2) e key] new(2) nn by simp
  have "Max (set (map e_sequence (filter (of_request sc rid) (events s')))) = latest_sequence sc rid s + 1"
    by (rule Max_eqI) (use le new nn in \<open>auto simp: e\<close>, fastforce)
  then have l: "latest_sequence sc rid s' = latest_sequence sc rid s + 1"
    using new by (simp add: latest_sequence_def [of _ _ s'] Let_def e)
  have "filter (\<lambda>x. of_request sc rid x \<and> max 0 (latest_sequence sc rid s) < e_sequence x) es = []"
    using le nn by (fastforce simp: filter_empty_conv)
  then have "load_events sc rid (latest_sequence sc rid s) s' = [?new]"
    using new nn by (simp add: load_events_def e order_by_def)
  with ok l new show ?thesis by (simp add: frames_after_def)
qed

section \<open>Replay\<close>

lemma sorted_filter_split:
  assumes "sorted (map f xs)"
  shows "xs = filter (\<lambda>x. f x \<le> k) xs @ filter (\<lambda>x. (k::'b::linorder) < f x) xs"
  using assms
proof (induction xs)
  case (Cons x xs)
  show ?case
  proof (cases "f x \<le> k")
    case True
    then show ?thesis using Cons by (simp add: not_less)
  next
    case False
    then have "\<forall>y \<in> set xs. k < f y" using Cons.prems by fastforce
    then show ?thesis using False by (auto simp: not_le filter_empty_conv)
  qed
qed simp

lemma sorted_load_events: "sorted (map e_sequence (load_events sc rid k s))"
  by (simp add: load_events_def order_by_def)

lemma load_events_later:
  assumes "0 \<le> k" and "k \<le> k'"
  shows "load_events sc rid k' s = filter (\<lambda>e. k' < e_sequence e) (load_events sc rid k s)"
proof -
  have "filter P (sort_key f xs) = sort_key f (filter P xs)" for P and f :: "run_event \<Rightarrow> int" and xs
    by (induction xs) (simp_all add: filter_insort insort_is_Cons sorted_sort_key filter_insort_triv)
  then have "filter (\<lambda>e. k' < e_sequence e) (load_events sc rid k s) =
      order_by e_sequence (filter (\<lambda>e. k' < e_sequence e) (filter (\<lambda>e. of_request sc rid e \<and> max 0 k < e_sequence e) (events s)))"
    by (simp add: load_events_def order_by_def)
  also have "filter (\<lambda>e. k' < e_sequence e) (filter (\<lambda>e. of_request sc rid e \<and> max 0 k < e_sequence e) (events s)) =
      filter (\<lambda>e. of_request sc rid e \<and> max 0 k' < e_sequence e) (events s)"
    using assms by (auto simp: filter_filter intro!: filter_cong)
  finally show ?thesis by (simp add: load_events_def)
qed

lemma distinct_sequences:
  assumes "event_log_ok s"
  shows "distinct (map e_sequence (load_events sc rid k s))"
proof -
  have "distinct (map e_sequence (filter (\<lambda>e. of_request sc rid e \<and> max 0 k < e_sequence e) (events s)))"
  proof -
    have "inj_on e_sequence (set (filter (\<lambda>e. of_request sc rid e \<and> max 0 k < e_sequence e) (events s)))"
      using assms by (auto simp: event_log_ok_def distinct_map inj_on_def event_key_def of_request_def)
    moreover have "distinct (events s)" using assms by (simp add: event_log_ok_def distinct_map)
    ultimately show ?thesis by (simp add: distinct_map)
  qed
  then show ?thesis
    by (simp add: load_events_def order_by_def distinct_map)
qed

text \<open>Reconnecting loses and repeats nothing: with the log's unique index, a request's stored frames in
  replay order have strictly increasing sequences, and for every cursor the frames up to the cursor
  followed by what \<open>load_events\<close> returns after the cursor are the whole stream.\<close>

theorem replay_partition:
  assumes "event_log_ok s" and "0 \<le> k"
  shows "sorted_wrt (<) (map e_sequence (load_events sc rid 0 s)) \<and>
    load_events sc rid 0 s = filter (\<lambda>e. e_sequence e \<le> k) (load_events sc rid 0 s) @ load_events sc rid k s"
proof
  show "sorted_wrt (<) (map e_sequence (load_events sc rid 0 s))"
    using sorted_load_events distinct_sequences [OF assms(1)] by (simp add: strict_sorted_iff)
  show "load_events sc rid 0 s = filter (\<lambda>e. e_sequence e \<le> k) (load_events sc rid 0 s) @ load_events sc rid k s"
    using sorted_filter_split [OF sorted_load_events, of sc rid 0 s k] load_events_later [of 0 k sc rid s] assms(2) by simp
qed

section \<open>The timeline\<close>

definition is_thinking :: "timeline_entry \<Rightarrow> bool" where
  "is_thinking t = (tl_event t \<in> set thinking_event_names)"

text \<open>The frames the timeline keeps, with their payload.\<close>

definition timeline_frames :: "(string \<Rightarrow> string) \<Rightarrow> run_event list \<Rightarrow> (run_event \<times> jdict) list" where
  "timeline_frames redact es = List.map_filter
     (\<lambda>e. if timeline_name e \<in> set timeline_event_names
          then map_option (\<lambda>d. (e, d)) (timeline_payload redact e (timeline_name e)) else None) es"

lemma timeline_frames_snoc:
  "timeline_frames redact (es @ [e]) = timeline_frames redact es @
     (if timeline_name e \<in> set timeline_event_names
      then (case timeline_payload redact e (timeline_name e) of None \<Rightarrow> [] | Some d \<Rightarrow> [(e, d)]) else [])"
  by (auto simp: timeline_frames_def map_filter_def split: option.split)

definition no_adjacent_thinking :: "timeline_entry list \<Rightarrow> bool" where
  "no_adjacent_thinking ts = (\<forall>i. Suc i < length ts \<longrightarrow> \<not> (is_thinking (ts ! i) \<and> is_thinking (ts ! Suc i)))"

definition entry_text :: "jdict \<Rightarrow> string" where
  "entry_text d = get_str_or d ''text'' []"

definition thinking_text :: "timeline_entry list \<Rightarrow> string" where
  "thinking_text ts = concat (map (\<lambda>t. entry_text (tl_data t)) (filter is_thinking ts))"

lemma no_adjacent_snoc:
  assumes "no_adjacent_thinking ts" and "ts \<noteq> [] \<Longrightarrow> is_thinking (last ts) \<Longrightarrow> \<not> is_thinking t"
  shows "no_adjacent_thinking (ts @ [t])"
  using assms
  by (cases ts rule: rev_cases) (auto simp: no_adjacent_thinking_def nth_append less_Suc_eq)

lemma no_adjacent_replace:
  assumes "no_adjacent_thinking ts" and "ts \<noteq> []" and "is_thinking t = is_thinking (last ts)"
  shows "no_adjacent_thinking (butlast ts @ [t])"
proof -
  have "ts = butlast ts @ [last ts]" using assms(2) by simp
  then have "no_adjacent_thinking (butlast ts @ [last ts])" using assms(1) by simp
  then show ?thesis using assms(3) by (auto simp: no_adjacent_thinking_def nth_append less_Suc_eq)
qed

lemma get_text_set: "entry_text (dict_set ''text'' (JStr t) d) = t"
  by (auto simp: entry_text_def get_str_or_def dict_set_def update_conv' )

lemma timeline_inv:
  "no_adjacent_thinking (timeline_events redact es) \<and>
   thinking_text (timeline_events redact es) =
     concat (map (\<lambda>(e, d). entry_text d) (filter (\<lambda>(e, d). timeline_name e \<in> set thinking_event_names) (timeline_frames redact es))) \<and>
   map (\<lambda>t. (tl_event t, tl_data t, tl_sequence t)) (filter (\<lambda>t. \<not> is_thinking t) (timeline_events redact es)) =
     map (\<lambda>(e, d). (timeline_name e, d, e_sequence e))
       (filter (\<lambda>(e, d). timeline_name e \<notin> set thinking_event_names) (timeline_frames redact es))"
proof (induction es rule: rev_induct)
  case Nil
  then show ?case by (simp add: timeline_events_def timeline_frames_def no_adjacent_thinking_def thinking_text_def map_filter_def)
next
  case (snoc e es)
  let ?T = "timeline_events redact es" and ?n = "timeline_name e"
  have step: "timeline_events redact (es @ [e]) = timeline_step redact e ?T" by (simp add: timeline_events_def)
  show ?case
  proof (cases "?n \<in> set timeline_event_names \<and> timeline_payload redact e ?n \<noteq> None")
    case False
    then have "timeline_step redact e ?T = ?T"
      by (auto simp: timeline_step_def Let_def split: option.split)
    moreover have "timeline_frames redact (es @ [e]) = timeline_frames redact es"
      using False by (auto simp: timeline_frames_snoc)
    ultimately show ?thesis using snoc step by simp
  next
    case True
    then obtain d where d: "timeline_payload redact e ?n = Some d" and n: "?n \<in> set timeline_event_names" by auto
    note fr = timeline_frames_snoc [of redact es e] d n
    show ?thesis
    proof (cases "?n \<in> set thinking_event_names \<and> ?T \<noteq> [] \<and> is_thinking (last ?T)")
      case True
      then have st: "timeline_step redact e ?T = butlast ?T @ [merge_thinking (last ?T) d (e_sequence e)]"
        using d n by (simp add: timeline_step_def Let_def is_thinking_def)
      have th: "is_thinking (merge_thinking (last ?T) d m) = is_thinking (last ?T)" for m
        by (simp add: is_thinking_def merge_thinking_def)
      have sp: "filter P ?T = filter P (butlast ?T) @ filter P [last ?T]" for P
        by (metis True append_butlast_last_id filter_append)
      have tt: "entry_text (tl_data (merge_thinking (last ?T) d m)) = entry_text (tl_data (last ?T)) @ entry_text d" for m
        unfolding merge_thinking_def by (simp add: get_text_set) (simp add: entry_text_def)
      show ?thesis
        using snoc True no_adjacent_replace [of ?T] th tt sp [of is_thinking] sp [of "\<lambda>t. \<not> is_thinking t"] fr
        by (simp add: step st thinking_text_def)
    next
      case False
      let ?t = "\<lparr>tl_event = ?n, tl_data = d, tl_sequence = e_sequence e, tl_end = e_sequence e\<rparr>"
      have st: "timeline_step redact e ?T = ?T @ [?t]"
        using d n False by (auto simp: timeline_step_def Let_def is_thinking_def)
      have "is_thinking ?t \<longleftrightarrow> ?n \<in> set thinking_event_names" by (simp add: is_thinking_def)
      then show ?thesis
        using snoc False no_adjacent_snoc [of ?T ?t] fr by (auto simp: step st thinking_text_def)
    qed
  qed
qed

text \<open>The history timeline compresses thinking and nothing else: no two neighbouring entries are
  thinking entries; the concatenated (redacted) thinking text equals that of the stored thinking
  frames; and the other semantic frames appear once each, in order, with their payload and sequence.\<close>

theorem timeline_lossless:
  "no_adjacent_thinking (timeline_events redact es) \<and>
   thinking_text (timeline_events redact es) =
     concat (map (\<lambda>(e, d). entry_text d) (filter (\<lambda>(e, d). timeline_name e \<in> set thinking_event_names) (timeline_frames redact es))) \<and>
   map (\<lambda>t. (tl_event t, tl_data t, tl_sequence t)) (filter (\<lambda>t. \<not> is_thinking t) (timeline_events redact es)) =
     map (\<lambda>(e, d). (timeline_name e, d, e_sequence e))
       (filter (\<lambda>(e, d). timeline_name e \<notin> set thinking_event_names) (timeline_frames redact es))"
  by (rule timeline_inv)

section \<open>The properties at concrete inputs\<close>

definition event_db :: db where
  "event_db = quota_db\<lparr>events :=
     [\<lparr>e_id = 2, e_scope = (1, 7, 9), e_run = None, e_request = ''req'', e_sequence = 2, e_frame = ''b'',
       e_name = ''token'', e_created = 0\<rparr>,
      \<lparr>e_id = 3, e_scope = (1, 7, 9), e_run = None, e_request = ''req'', e_sequence = 1, e_frame = ''a'',
       e_name = ''token'', e_created = 0\<rparr>]\<rparr>"

lemma event_db_ok: "event_log_ok event_db"
  by code_simp

theorem sse_roundtrip_witness:
  "event_name_from_frame (sse ''done'' [(''note'', JStr [CHR 0x0A, CHR 0x22, CHR 0xE9]), (''n'', JInt (-3))]) = ''done'' \<and>
   frame_payload (sse ''done'' [(''note'', JStr [CHR 0x0A, CHR 0x22, CHR 0xE9]), (''n'', JInt (-3))]) =
     Some [(''note'', JStr [CHR 0x0A, CHR 0x22, CHR 0xE9]), (''n'', JInt (-3))]"
  by (rule sse_roundtrip) code_simp+


theorem append_event_next_witness:
  "case append_event 50 (1, 7, 9) ''req'' ''c'' None event_db of Inl _ \<Rightarrow> False
   | Inr (r, s') \<Rightarrow> event_log_ok s' \<and>
       latest_sequence (1, 7, 9) ''req'' s' = latest_sequence (1, 7, 9) ''req'' event_db + 1 \<and>
       frames_after (load_events (1, 7, 9) ''req'' (latest_sequence (1, 7, 9) ''req'' event_db) s')
         (latest_sequence (1, 7, 9) ''req'' event_db) = [(latest_sequence (1, 7, 9) ''req'' event_db + 1, ''c'')]"
  by (rule case_ok, code_simp, rule append_event_next [OF _ event_db_ok])

theorem replay_partition_witness:
  "load_events (1, 7, 9) ''req'' 0 event_db =
     filter (\<lambda>e. e_sequence e \<le> 1) (load_events (1, 7, 9) ''req'' 0 event_db) @ load_events (1, 7, 9) ''req'' 1 event_db"
  using replay_partition [OF event_db_ok, of 1 "(1, 7, 9)" "''req''"] by simp

end
