(* ===== verification/Runtime_Store.thy ===== *)
theory Runtime_Store
  imports Run_Events
begin

text \<open>
  Persistence and cancellation of agent runs (\<open>deepspace/services/runtime_store.py\<close>): a run with its
  checkpoint, heartbeat and retained steps, the claim of a clarification, the decision on an approval,
  cooperative cancellation, and the closing of a run from its worker's outcome.
\<close>

section \<open>Statuses and lookups\<close>

definition active_run_statuses :: "run_status list" where
  "active_run_statuses = [RRunning, RAwaitingUser, RAwaitingApproval, RCancelling]"

definition worker_run_statuses :: "run_status list" where
  "worker_run_statuses = [RRunning, RCancelling]"

definition run_stale_after :: int where "run_stale_after = 30 * 60"

definition default_retained_steps :: int where "default_retained_steps = 10000"

definition retained_steps :: "int \<Rightarrow> nat" where
  "retained_steps n = nat (max 100 (min n default_retained_steps))"

definition find_run :: "nat \<Rightarrow> db \<Rightarrow> agent_run option" where
  "find_run k s = first_row (filter (\<lambda>r. r_id r = k) (runs s))"

definition upd_run :: "nat \<Rightarrow> (agent_run \<Rightarrow> agent_run) \<Rightarrow> db \<Rightarrow> db" where
  "upd_run k f s = s\<lparr>runs := upd_where (\<lambda>r. r_id r = k) f (runs s)\<rparr>"

text \<open>\<open>ORDER BY updated_at DESC\<close>.\<close>

definition newest_runs :: "(agent_run \<Rightarrow> bool) \<Rightarrow> db \<Rightarrow> agent_run list" where
  "newest_runs P s = order_by (\<lambda>r. - r_updated r) (filter P (runs s))"

definition run_activity :: "int \<Rightarrow> scope \<Rightarrow> string \<Rightarrow> int \<Rightarrow> db \<Rightarrow> db" where
  "run_activity now sc kind bytes s = (case sc of (tn, user, conv) \<Rightarrow>
     record_activity now tn ''activity_and_runs'' ''conversation'' (uuid_str conv)
       \<lparr>ac_kind = kind, ac_size = bytes, ac_owner = Some user, ac_group = None, ac_until = None, ac_reason = None,
        ac_replace = False\<rparr> s)"

definition run_capacity :: "int \<Rightarrow> scope \<Rightarrow> int \<Rightarrow> int \<Rightarrow> db \<Rightarrow> storage_usage option tx" where
  "run_capacity now sc additional replacing s =
     ensure_capacity_if_supported now (fst sc) (Some (fst (snd sc))) additional replacing s"

section \<open>Runs\<close>

definition create_run :: "int \<Rightarrow> scope \<Rightarrow> nat \<Rightarrow> jdict \<Rightarrow> db \<Rightarrow> agent_run tx" where
  "create_run now sc msg checkpoint s =
     (case run_capacity now sc (estimate_bytes [PJson (JObj checkpoint)]) 0 s of
        Inl err \<Rightarrow> Inl err
      | Inr (_, s1) \<Rightarrow>
          (let r = \<lparr>r_id = next_id s1, r_scope = sc, r_message = Some msg, r_status = RRunning, r_cancel = False,
                    r_steps = 0, r_last_sequence = 0, r_checkpoint = JObj checkpoint, r_error = None,
                    r_created = now, r_updated = now, r_heartbeat = Some now\<rparr>
           in Inr (r, run_activity now sc ''run_started'' (estimate_bytes [PJson (JObj checkpoint)])
                        (s1\<lparr>runs := runs s1 @ [r], next_id := Suc (next_id s1)\<rparr>))))"

definition or_else :: "'a option \<Rightarrow> 'a \<Rightarrow> 'a" where
  "or_else x y = (case x of None \<Rightarrow> y | Some v \<Rightarrow> v)"

definition write_checkpoint ::
  "int \<Rightarrow> run_status option \<Rightarrow> jdict option \<Rightarrow> string option \<Rightarrow> agent_run \<Rightarrow> agent_run" where
  "write_checkpoint now status checkpoint err r = r\<lparr>
     r_updated := now,
     r_status := or_else status (r_status r),
     r_checkpoint := or_else (map_option JObj checkpoint) (r_checkpoint r),
     r_error := (case err of None \<Rightarrow> r_error r | Some e \<Rightarrow> Some (trunc 2000 e)),
     r_heartbeat := (case status of None \<Rightarrow> Some now
        | Some st \<Rightarrow> if st \<in> set worker_run_statuses then Some now else r_heartbeat r)\<rparr>"

definition update_checkpoint ::
  "int \<Rightarrow> nat \<Rightarrow> string option \<Rightarrow> jdict option \<Rightarrow> string option \<Rightarrow> db \<Rightarrow> unit tx" where
  "update_checkpoint now run status checkpoint err s = (case find_run run s of
     None \<Rightarrow> Inl NoResult
   | Some r \<Rightarrow>
       (let old_payload = estimate_bytes [PJson (r_checkpoint r), py_opt (r_error r)];
            new_payload = estimate_bytes [PJson (or_else (map_option JObj checkpoint) (r_checkpoint r)),
                            py_opt (if err \<noteq> None then err else r_error r)];
            checked = (if checkpoint \<noteq> None \<or> err \<noteq> None
                       then run_capacity now (r_scope r) new_payload old_payload s else Inr (None, s))
        in case checked of
             Inl e \<Rightarrow> Inl e
           | Inr (_, s1) \<Rightarrow>
               (let r' = write_checkpoint now (map_option run_status_of status) checkpoint err r
                in Inr ((), run_activity now (r_scope r) ''run_checkpoint''
                              (estimate_bytes [PJson (r_checkpoint r'), py_opt (r_error r')])
                              (upd_run run (write_checkpoint now (map_option run_status_of status) checkpoint err) s1)))))"

definition beats :: "nat \<Rightarrow> agent_run \<Rightarrow> bool" where
  "beats run r = (r_id r = run \<and> r_status r \<in> set worker_run_statuses \<and> \<not> r_cancel r)"

definition heartbeat :: "int \<Rightarrow> nat \<Rightarrow> db \<Rightarrow> bool \<times> db" where
  "heartbeat now run s =
     ((\<exists>r \<in> set (runs s). beats run r),
      s\<lparr>runs := upd_where (beats run) (\<lambda>r. r\<lparr>r_heartbeat := Some now, r_updated := now\<rparr>) (runs s)\<rparr>)"

definition live_worker :: "int \<Rightarrow> int \<Rightarrow> scope \<Rightarrow> agent_run \<Rightarrow> bool" where
  "live_worker now stale sc r =
     (r_scope r = sc \<and> r_status r \<in> set worker_run_statuses \<and> \<not> r_cancel r \<and>
      (case r_heartbeat r of None \<Rightarrow> False | Some t \<Rightarrow> now - stale \<le> t))"

definition by_heartbeat :: "agent_run list \<Rightarrow> agent_run list" where
  "by_heartbeat rs = order_by (\<lambda>r. - or_else (r_heartbeat r) 0) rs"

definition live_worker_run_for_message :: "int \<Rightarrow> int \<Rightarrow> scope \<Rightarrow> nat \<Rightarrow> db \<Rightarrow> agent_run option" where
  "live_worker_run_for_message now stale sc msg s =
     first_row (by_heartbeat (filter (\<lambda>r. live_worker now stale sc r \<and> r_message r = Some msg) (runs s)))"

definition add_newest :: "agent_run \<Rightarrow> (nat \<times> agent_run) list \<Rightarrow> (nat \<times> agent_run) list" where
  "add_newest r acc = (case r_message r of
     None \<Rightarrow> acc | Some m \<Rightarrow> if map_of acc m = None then acc @ [(m, r)] else acc)"

definition live_worker_runs_for_messages :: "int \<Rightarrow> int \<Rightarrow> scope \<Rightarrow> nat list \<Rightarrow> db \<Rightarrow> (nat \<times> agent_run) list" where
  "live_worker_runs_for_messages now stale sc msgs s =
     (if msgs = [] then []
      else fold add_newest
             (by_heartbeat (filter (\<lambda>r. live_worker now stale sc r \<and> (\<exists>m \<in> set msgs. r_message r = Some m)) (runs s))) [])"

definition message_request :: "scope \<Rightarrow> message \<Rightarrow> string option" where
  "message_request sc m =
     (if m_conversation m = snd (snd sc) then json_astext (m_meta m) ''client_request_id'' else None)"

text \<open>The join of runs and messages on the assistant message.\<close>

definition run_requests :: "scope \<Rightarrow> agent_run \<Rightarrow> db \<Rightarrow> string list" where
  "run_requests sc r s = List.map_filter (message_request sc) (filter (\<lambda>m. Some (m_id m) = r_message r) (messages s))"

definition active_request_id :: "scope \<Rightarrow> db \<Rightarrow> string option" where
  "active_request_id sc s = first_row (concat (map (\<lambda>r. run_requests sc r s)
     (newest_runs (\<lambda>r. r_scope r = sc \<and> r_status r \<in> set active_run_statuses) s)))"

section \<open>Steps\<close>

definition bounded_json :: "jdict option \<Rightarrow> jdict" where
  "bounded_json v = (case v of
     None \<Rightarrow> []
   | Some d \<Rightarrow> (let encoded = py_repr (JObj d) in
       if length encoded \<le> 20000 then d
       else [(''truncated'', JBool True), (''preview'', JStr (trunc 19500 encoded))]))"

definition nonempty_trunc :: "nat \<Rightarrow> string option \<Rightarrow> string option" where
  "nonempty_trunc n v = (case v of None \<Rightarrow> None | Some t \<Rightarrow> if t = [] then None else Some (trunc n t))"

definition step_bytes :: "agent_step \<Rightarrow> int" where
  "step_bytes st = estimate_bytes [PStr (s_type st), py_opt (s_tool st), py_opt (s_call st), PStr (s_status st),
     PJson (JObj (s_input st)), PJson (JObj (s_result st))]"

text \<open>Delete every step of the run behind the newest \<open>n\<close>.\<close>

definition retain_steps :: "nat \<Rightarrow> nat \<Rightarrow> db \<Rightarrow> db" where
  "retain_steps n run s =
     (let old = map s_id (drop n (order_by (\<lambda>st. - s_sequence st) (filter (\<lambda>st. s_run st = run) (steps s))))
      in s\<lparr>steps := filter (\<lambda>st. s_id st \<notin> set old) (steps s)\<rparr>)"

definition count_step :: "int \<Rightarrow> int \<Rightarrow> agent_run \<Rightarrow> agent_run" where
  "count_step now sequence r = r\<lparr>r_last_sequence := sequence, r_steps := r_steps r + 1, r_updated := now,
     r_heartbeat := (if r_status r \<in> set worker_run_statuses \<and> \<not> r_cancel r then Some now else r_heartbeat r)\<rparr>"

definition record_step ::
  "int \<Rightarrow> int \<Rightarrow> nat \<Rightarrow> scope \<Rightarrow> string \<Rightarrow> string \<Rightarrow> string option \<Rightarrow> string option \<Rightarrow> jdict option \<Rightarrow> jdict option
     \<Rightarrow> db \<Rightarrow> int tx" where
  "record_step now retained run sc step_type status tool call input result s = (case find_run run s of
     None \<Rightarrow> Inl NoResult
   | Some r \<Rightarrow>
       (let sequence = r_last_sequence r + 1;
            step = (\<lambda>k. \<lparr>s_id = k, s_run = run, s_scope = sc, s_sequence = sequence, s_type = trunc 40 step_type,
                    s_tool = nonempty_trunc 100 tool, s_call = nonempty_trunc 255 call, s_status = trunc 40 status,
                    s_input = bounded_json input, s_result = bounded_json result, s_created = now\<rparr>)
        in case run_capacity now sc (step_bytes (step 0)) 0 s of
             Inl e \<Rightarrow> Inl e
           | Inr (_, s1) \<Rightarrow>
               (let s2 = upd_run run (count_step now sequence)
                           (s1\<lparr>steps := steps s1 @ [step (next_id s1)], next_id := Suc (next_id s1)\<rparr>)
                in Inr (sequence, run_activity now sc ''run_step'' (step_bytes (step 0))
                                    (retain_steps (retained_steps retained) run s2)))))"

definition is_cancel_requested :: "nat \<Rightarrow> db \<Rightarrow> bool" where
  "is_cancel_requested run s = (case find_run run s of None \<Rightarrow> False | Some r \<Rightarrow> r_cancel r)"

section \<open>History\<close>

definition opt_str :: "string option \<Rightarrow> json" where
  "opt_str v = (case v of None \<Rightarrow> JNull | Some t \<Rightarrow> JStr t)"

definition step_ref :: "agent_step \<Rightarrow> string" where
  "step_ref st = ''runtime_'' @ uuid_str (s_run st) @ ''_'' @ str_int (s_sequence st)"

definition model_step_entry :: "agent_step \<Rightarrow> jdict" where
  "model_step_entry st = (let text = JStr (get_str_or (s_result st) ''text'' []); at = JStr (isoformat (s_created st)) in
     [(''type'', JStr ''model_message''), (''step_id'', JStr (step_ref st)), (''tool_id'', JNull), (''tool_name'', JNull),
      (''tool_input'', JObj []), (''output'', text), (''success'', JBool True), (''status'', JStr (s_status st)),
      (''data'', JObj [(''text'', text), (''phase'', JStr ''exploring'')]), (''started_at'', at), (''completed_at'', at),
      (''turn_index'', or_else (dict_get (s_result st) ''turn_index'')
                        (or_else (dict_get (s_input st) ''turn_index'') (JInt 0)))])"

definition tool_step_entry :: "agent_step \<Rightarrow> jdict" where
  "tool_step_entry st =
     (let success = (case dict_get (s_result st) ''success'' of None \<Rightarrow> s_status st = ''completed'' | Some v \<Rightarrow> truthy v);
          at = JStr (isoformat (s_created st))
      in [(''type'', JStr (if s_type st = ''tool_start'' then ''tool_start''
                        else if success then ''tool_result'' else ''tool_error'')),
          (''step_id'', JStr (step_ref st)), (''tool_id'', opt_str (s_call st)), (''tool_name'', opt_str (s_tool st)),
          (''tool_input'', JObj (s_input st)), (''output'', JStr (get_str_or (s_result st) ''output'' [])),
          (''success'', JBool success), (''status'', JStr (s_status st)), (''started_at'', at), (''completed_at'', at)])"

definition history_step_types :: "string list" where
  "history_step_types = [''tool_start'', ''tool_result'', ''approval_requested'', ''research_step'']"

definition serialize_history_steps :: "agent_step list \<Rightarrow> jdict list" where
  "serialize_history_steps sts = List.map_filter
     (\<lambda>st. if s_type st = ''model_message'' then Some (model_step_entry st)
           else if s_type st \<in> set history_step_types then Some (tool_step_entry st) else None) sts"

text \<open>The rows of the join, in the order of the query: (message, step).\<close>

definition history_rows :: "scope \<Rightarrow> nat list \<Rightarrow> db \<Rightarrow> (nat \<times> agent_step) list" where
  "history_rows sc msgs s =
     map (\<lambda>(r, st). (or_else (r_message r) 0, st))
       (order_by (\<lambda>(r, st). (r_created r, r_id r, s_sequence st, s_created st))
         (concat (map (\<lambda>r. map (\<lambda>st. (r, st)) (filter (\<lambda>st. s_run st = r_id r \<and> s_scope st = sc) (steps s)))
           (filter (\<lambda>r. r_scope r = sc \<and> (\<exists>m \<in> set msgs. r_message r = Some m)) (runs s)))))"

definition history_steps_for_messages :: "scope \<Rightarrow> nat list \<Rightarrow> db \<Rightarrow> (nat \<times> jdict list) list" where
  "history_steps_for_messages sc msgs s =
     (let rows = history_rows sc msgs s
      in map (\<lambda>m. (m, serialize_history_steps (map snd (filter (\<lambda>p. fst p = m) rows)))) (dict_unique (map fst rows)))"

definition history_steps_for_message :: "scope \<Rightarrow> nat \<Rightarrow> db \<Rightarrow> jdict list" where
  "history_steps_for_message sc msg s = or_else (map_of (history_steps_for_messages sc [msg] s) msg) []"

definition replay_entry :: "agent_step \<Rightarrow> jdict option" where
  "replay_entry st = (case (s_tool st, s_call st, dict_get (s_result st) ''output'') of
     (Some tool, Some call, Some (JStr output)) \<Rightarrow>
       if tool = [] \<or> call = [] then None
       else Some ([(''tool_name'', JStr tool), (''tool_call_id'', JStr call), (''arguments'', JObj (s_input st)),
                   (''output'', JStr output)]
              @ (case dict_get (s_result st) ''turn_index'' of
                   Some (JInt i) \<Rightarrow> [(''turn_index'', JInt i)]
                 | Some (JBool b) \<Rightarrow> [(''turn_index'', JBool b)]
                 | _ \<Rightarrow> []))
   | _ \<Rightarrow> None)"

definition replayable_tool_results :: "nat \<Rightarrow> db \<Rightarrow> jdict list" where
  "replayable_tool_results run s = List.map_filter replay_entry
     (order_by s_sequence (filter (\<lambda>st. s_run st = run \<and> s_type st = ''tool_result'' \<and> s_status st = ''completed'') (steps s)))"

section \<open>Questions and approvals\<close>

text \<open>\<open>checkpoint.get(key)\<close> is a dictionary whose \<open>id_key\<close> reads as the given id.\<close>

definition pending_in :: "string \<Rightarrow> string \<Rightarrow> string \<Rightarrow> json \<Rightarrow> jdict option" where
  "pending_in key id_key ident cp = (case dict_get (as_dict cp) key of
     Some (JObj p) \<Rightarrow> if get_str_or p id_key [] = ident then Some p else None
   | _ \<Rightarrow> None)"

definition pending_question :: "string \<Rightarrow> agent_run \<Rightarrow> jdict option" where
  "pending_question qid r = pending_in ''pending_user_question'' ''question_id'' qid (r_checkpoint r)"

definition pending_approval :: "string \<Rightarrow> agent_run \<Rightarrow> jdict option" where
  "pending_approval aid r = pending_in ''pending_approval'' ''approval_id'' aid (r_checkpoint r)"

definition get_run_for_approval :: "scope \<Rightarrow> string \<Rightarrow> db \<Rightarrow> agent_run option" where
  "get_run_for_approval sc aid s = first_row (filter (\<lambda>r. pending_approval aid r \<noteq> None)
     (take 25 (newest_runs (\<lambda>r. r_scope r = sc \<and> r_status r \<in> {RAwaitingApproval, RRunning, RBlocked}) s)))"

definition get_failed_run_for_request_id :: "scope \<Rightarrow> string \<Rightarrow> db \<Rightarrow> agent_run option" where
  "get_failed_run_for_request_id sc rid s = first_row (newest_runs
     (\<lambda>r. r_scope r = sc \<and> r_status r \<in> {RFailed, RBlocked} \<and> rid \<in> set (run_requests sc r s)) s)"

definition get_run_for_user_question :: "scope \<Rightarrow> string \<Rightarrow> db \<Rightarrow> agent_run option" where
  "get_run_for_user_question sc qid s = first_row (filter (\<lambda>r. pending_question qid r \<noteq> None)
     (take 25 (newest_runs (\<lambda>r. r_scope r = sc \<and> r_status r = RAwaitingUser) s)))"

record question_claim =
  qc_run :: agent_run
  qc_pending :: jdict
  qc_claimed :: bool

definition claim_in_progress :: "agent_run \<Rightarrow> bool" where
  "claim_in_progress r = (r_status r = RRunning \<and>
     dict_get (as_dict (r_checkpoint r)) ''phase'' \<in> {Some (JStr ''question_claimed''), Some (JStr ''question_resumed'')})"

definition answered :: "int \<Rightarrow> string \<Rightarrow> jdict \<Rightarrow> jdict" where
  "answered now answer p = dict_set ''answer_submitted_at'' (JStr (isoformat now)) (dict_set ''answer'' (JStr answer) p)"

definition mark_claimed :: "int \<Rightarrow> jdict \<Rightarrow> agent_run \<Rightarrow> agent_run" where
  "mark_claimed now p r = r\<lparr>
     r_checkpoint := JObj (dict_set ''pending_user_question'' (JObj p)
       (dict_set ''phase'' (JStr ''question_claimed'') (dict_set ''status'' (JStr ''running'') (as_dict (r_checkpoint r))))),
     r_status := RRunning, r_updated := now, r_heartbeat := Some now\<rparr>"

fun claim_loop :: "int \<Rightarrow> string \<Rightarrow> string \<Rightarrow> agent_run list \<Rightarrow> db \<Rightarrow> question_claim option \<times> db" where
  "claim_loop now qid answer [] s = (None, s)"
| "claim_loop now qid answer (r # rs) s = (case pending_question qid r of
     None \<Rightarrow> claim_loop now qid answer rs s
   | Some p \<Rightarrow>
       if claim_in_progress r then (Some \<lparr>qc_run = r, qc_pending = p, qc_claimed = False\<rparr>, s)
       else if r_status r \<noteq> RAwaitingUser then claim_loop now qid answer rs s
       else (let p' = answered now answer p
             in (Some \<lparr>qc_run = mark_claimed now p' r, qc_pending = p', qc_claimed = True\<rparr>,
                 upd_run (r_id r) (mark_claimed now p') s)))"

definition claim_user_question :: "int \<Rightarrow> scope \<Rightarrow> string \<Rightarrow> string \<Rightarrow> db \<Rightarrow> question_claim option \<times> db" where
  "claim_user_question now sc qid answer s =
     claim_loop now qid answer (newest_runs (\<lambda>r. r_scope r = sc \<and> r_status r \<in> {RAwaitingUser, RRunning}) s) s"

definition get_claimed_user_question :: "scope \<Rightarrow> string \<Rightarrow> db \<Rightarrow> agent_run option" where
  "get_claimed_user_question sc qid s = first_row (filter (\<lambda>r. claim_in_progress r \<and> pending_question qid r \<noteq> None)
     (newest_runs (\<lambda>r. r_scope r = sc \<and> r_status r = RRunning) s))"

definition decide_approval :: "int \<Rightarrow> string \<Rightarrow> jdict \<Rightarrow> agent_run \<Rightarrow> agent_run" where
  "decide_approval now decision p r = r\<lparr>
     r_checkpoint := JObj (dict_set ''phase'' (JStr ''approval_resolved'') (dict_set ''pending_approval'' (JObj p) (as_dict (r_checkpoint r)))),
     r_status := (if decision = ''approved'' then RRunning else RBlocked), r_updated := now\<rparr>"

definition resolve_approval :: "int \<Rightarrow> scope \<Rightarrow> string \<Rightarrow> string \<Rightarrow> db \<Rightarrow> jdict option tx" where
  "resolve_approval now sc aid decision s =
     (if decision \<notin> {''approved'', ''denied''}
      then Inl (ValueErr ''Approval decision must be approved or denied.'')
      else (case get_run_for_approval sc aid s of
         None \<Rightarrow> Inr (None, s)
       | Some r \<Rightarrow>
           (let p = or_else (pending_approval aid r) []; current = get_str_or p ''decision'' [] in
            if current \<noteq> [] \<and> current \<noteq> ''pending''
            then Inr (Some (dict_set ''status'' (JStr ''already_resolved'') p), s)
            else (let p' = dict_set ''resolved_at'' (JStr (isoformat now)) (dict_set ''decision'' (JStr decision) p)
                  in Inr (Some p', upd_run (r_id r) (decide_approval now decision p') s)))))"

definition clear_pending_approval :: "int \<Rightarrow> nat \<Rightarrow> jdict \<Rightarrow> db \<Rightarrow> unit tx" where
  "clear_pending_approval now run checkpoint s =
     update_checkpoint now run (Some ''running'')
       (Some (dict_set ''phase'' (JStr ''tool'') (dict_pop ''pending_approval'' checkpoint))) None s"

section \<open>Cancellation and closing\<close>

definition cancellable :: "scope \<Rightarrow> agent_run \<Rightarrow> bool" where
  "cancellable sc r = (r_scope r = sc \<and> r_status r \<in> set active_run_statuses)"

definition request_run_cancel :: "int \<Rightarrow> scope \<Rightarrow> db \<Rightarrow> bool \<times> db" where
  "request_run_cancel now sc s =
     ((\<exists>r \<in> set (runs s). cancellable sc r),
      s\<lparr>runs := upd_where (cancellable sc) (\<lambda>r. r\<lparr>r_cancel := True, r_status := RCancelling, r_updated := now\<rparr>) (runs s)\<rparr>)"

definition cancel_acknowledged :: "scope \<Rightarrow> agent_run \<Rightarrow> bool" where
  "cancel_acknowledged sc r = (r_scope r = sc \<and> r_status r = RCancelling \<and> r_cancel r)"

definition finish_requested_cancellations :: "int \<Rightarrow> scope \<Rightarrow> db \<Rightarrow> nat \<times> db" where
  "finish_requested_cancellations now sc s =
     (length (filter (cancel_acknowledged sc) (runs s)),
      s\<lparr>runs := upd_where (cancel_acknowledged sc)
         (\<lambda>r. r\<lparr>r_status := RCancelled, r_heartbeat := None, r_updated := now, r_error := Some ''user_cancelled''\<rparr>) (runs s)\<rparr>)"

definition opt_trunc :: "string option \<Rightarrow> string option \<Rightarrow> string option" where
  "opt_trunc err old = (case err of None \<Rightarrow> old | Some e \<Rightarrow> if e = [] then old else Some (trunc 2000 e))"

definition finish_run :: "int \<Rightarrow> nat \<Rightarrow> string \<Rightarrow> string option \<Rightarrow> db \<Rightarrow> db" where
  "finish_run now run status err s = (case find_run run s of
     None \<Rightarrow> s
   | Some r \<Rightarrow> run_activity now (r_scope r) ''run_finished'' (estimate_bytes [py_opt err])
       (upd_run run (\<lambda>r. r\<lparr>r_status := run_status_of status, r_updated := now, r_heartbeat := None,
          r_error := opt_trunc err (r_error r)\<rparr>) s))"

definition closing_metadata :: "string \<Rightarrow> string option \<Rightarrow> jdict \<Rightarrow> jdict" where
  "closing_metadata target err meta0 =
     (let meta1 = dict_set ''runtime_active'' (JBool False) meta0;
          meta2 = (if dict_get meta1 ''status'' = Some (JStr ''streaming'')
                   then dict_set ''status'' (JStr (if target = ''failed'' then ''error''
                          else if target = ''blocked'' then ''blocked'' else ''ready'')) meta1
                   else meta1)
      in if target = ''failed'' \<and> dict_get meta2 ''status'' = Some (JStr ''error'')
         then (let meta3 = dict_setdefault ''error_code'' (JStr ''DEEPSPACE_WORKER_FAILED'') meta2
               in case err of None \<Rightarrow> meta3
                  | Some e \<Rightarrow> if e = [] then meta3 else dict_setdefault ''error_message'' (JStr (trunc 2000 e)) meta3)
         else meta2)"

definition assistant_of :: "scope \<Rightarrow> agent_run \<Rightarrow> message \<Rightarrow> bool" where
  "assistant_of sc r m = (Some (m_id m) = r_message r \<and> m_conversation m = snd (snd sc) \<and> m_role m = ''assistant'')"

definition finish_for_request :: "int \<Rightarrow> scope \<Rightarrow> string \<Rightarrow> string \<Rightarrow> string option \<Rightarrow> db \<Rightarrow> bool \<times> db" where
  "finish_for_request now sc rid status err s =
     (if status \<notin> {''ready'', ''completed'', ''failed'', ''cancelled'', ''blocked''} then (False, s)
      else (case first_row (newest_runs (\<lambda>r. r_scope r = sc \<and> rid \<in> set (run_requests sc r s)) s) of
         None \<Rightarrow> (False, s)
       | Some r \<Rightarrow>
           (let target = (if status = ''completed'' then ''ready'' else status);
                s1 = (if r_status r \<in> set active_run_statuses
                      then run_activity now sc ''run_finished'' (estimate_bytes [py_opt err])
                             (upd_run (r_id r) (\<lambda>r. r\<lparr>r_status := run_status_of target, r_updated := now, r_heartbeat := None,
                                r_error := opt_trunc err (r_error r)\<rparr>) s)
                      else s)
            in (True, s1\<lparr>messages := upd_where (assistant_of sc r)
                           (\<lambda>m. m\<lparr>m_meta := closing_metadata target err (m_meta m)\<rparr>) (messages s1)\<rparr>))))"

section \<open>Frames\<close>

interpretation run_table: keyed_table r_id runs find_run upd_run
  by unfold_locales (simp_all add: find_run_def upd_run_def)

interpretation run_guard: neutral_guard "run_capacity now sc additional replacing" for now sc additional replacing
  by unfold_locales (auto simp: run_capacity_def supported_capacity.guard_core supported_capacity.guard_ids)

interpretation run_act: neutral_service "run_activity now sc kind bytes" for now sc kind bytes
  by unfold_locales (auto simp: run_activity_def activity.core activity.ids split: prod.split)

lemma upd_run_frame [simp]:
  "runs (upd_run k f s) = upd_where (\<lambda>r. r_id r = k) f (runs s)" "steps (upd_run k f s) = steps s"
  "messages (upd_run k f s) = messages s" "turns (upd_run k f s) = turns s" "controls (upd_run k f s) = controls s"
  "events (upd_run k f s) = events s" "next_id (upd_run k f s) = next_id s"
  by (simp_all add: upd_run_def)

lemmas run_act_frame [simp] = run_act.frame

lemma in_newest_runs [simp]: "r \<in> set (newest_runs P s) \<longleftrightarrow> r \<in> set (runs s) \<and> P r"
  by (auto simp: newest_runs_def)

section \<open>Steps are numbered and bounded\<close>

lemma retained_filter:
  assumes "distinct (map k xs)" and "set ls = set (filter P xs)" and "distinct ls"
  shows "set (filter P (filter (\<lambda>x. k x \<notin> set (map k (drop n ls))) xs)) = set (take n ls) \<and>
    length (filter P (filter (\<lambda>x. k x \<notin> set (map k (drop n ls))) xs)) = min n (length ls)"
proof -
  let ?ys = "filter P (filter (\<lambda>x. k x \<notin> set (map k (drop n ls))) xs)"
  have sub: "set (drop n ls) \<subseteq> set xs" "set (take n ls) \<subseteq> set xs"
    using set_drop_subset [of n ls] set_take_subset [of n ls] unfolding assms(2) by auto
  have "k x \<in> set (map k (drop n ls)) \<longleftrightarrow> x \<in> set (drop n ls)" if "x \<in> set xs" for x
  proof
    assume "k x \<in> set (map k (drop n ls))"
    then obtain y where "y \<in> set (drop n ls)" "k x = k y" by auto
    with that sub(1) show "x \<in> set (drop n ls)" using distinct_map_inj [OF assms(1), of x y] by auto
  qed simp
  moreover have "x \<in> set (take n ls) \<longleftrightarrow> x \<in> set ls \<and> x \<notin> set (drop n ls)" for x
  proof -
    have "set ls = set (take n ls) \<union> set (drop n ls)" by (metis append_take_drop_id set_append)
    moreover have "set (take n ls) \<inter> set (drop n ls) = {}" using assms(3) by (rule set_take_disj_set_drop_if_distinct) simp
    ultimately show ?thesis by auto
  qed
  ultimately have st: "set ?ys = set (take n ls)" using assms(2) by auto
  have "distinct ?ys" using assms(1) by (simp add: distinct_map)
  then have "length ?ys = card (set ?ys)" by (rule distinct_card [symmetric])
  also have "\<dots> = length (take n ls)" unfolding st by (rule distinct_card) (simp add: assms(3))
  finally show ?thesis using st by simp
qed

lemma length_filter_upd_where_into:
  assumes "\<And>x. P x \<Longrightarrow> Q (f x)"
  shows "length (filter P xs) \<le> length (filter Q (upd_where P f xs))"
  using assms by (induction xs) (auto intro: le_SucI)

lemma hd_in_take: "ls \<noteq> [] \<Longrightarrow> 0 < n \<Longrightarrow> hd ls \<in> set (take n ls)"
  by (cases ls; cases n) auto

lemma record_step_cases:
  assumes "record_step now retained run sc step_type status tool call input result s = Inr (q, s')"
  obtains r s1 st where "find_run run s = Some r" and "q = r_last_sequence r + 1"
    and "workspace_core s1 = workspace_core s" and "next_id s \<le> next_id s1"
    and "s_id st = next_id s1" and "s_run st = run" and "s_sequence st = q"
    and "s_scope st = sc" and "s_type st = trunc 40 step_type" and "s_result st = bounded_json result"
    and "steps s' = steps (retain_steps (retained_steps retained) run (s1\<lparr>steps := steps s1 @ [st]\<rparr>))"
    and "runs s' = upd_where (\<lambda>r. r_id r = run) (count_step now q) (runs s)"
proof -
  obtain r where r: "find_run run s = Some r"
    using assms by (auto simp: record_step_def split: option.splits)
  define step where "step = (\<lambda>k. \<lparr>s_id = k, s_run = run, s_scope = sc, s_sequence = r_last_sequence r + 1, s_type = trunc 40 step_type,
                    s_tool = nonempty_trunc 100 tool, s_call = nonempty_trunc 255 call, s_status = trunc 40 status,
                    s_input = bounded_json input, s_result = bounded_json result, s_created = now\<rparr>)"
  obtain u s1 where c: "run_capacity now sc (step_bytes (step 0)) 0 s = Inr (u, s1)"
    and q: "q = r_last_sequence r + 1"
    and s': "s' = run_activity now sc ''run_step'' (step_bytes (step 0)) (retain_steps (retained_steps retained) run
        (upd_run run (count_step now q) (s1\<lparr>steps := steps s1 @ [step (next_id s1)], next_id := Suc (next_id s1)\<rparr>)))"
    using assms r unfolding record_step_def step_def by (auto simp: Let_def split: sum.splits)
  note f = workspace_core_fields [OF run_guard.guard_core [OF c]]
  have "steps s' = steps (retain_steps (retained_steps retained) run (s1\<lparr>steps := steps s1 @ [step (next_id s1)]\<rparr>))"
    by (simp add: s' retain_steps_def Let_def)
  moreover have "runs s' = upd_where (\<lambda>r. r_id r = run) (count_step now q) (runs s)"
    using f by (simp add: s' retain_steps_def Let_def)
  ultimately show thesis
    using that [OF r q run_guard.guard_core [OF c] run_guard.guard_ids [OF c], of "step (next_id s1)"] q
    by (simp add: step_def)
qed

text \<open>Steps of a run are numbered in order and bounded: when the stored steps of the run have distinct
  numbers up to its last sequence, \<open>record_step\<close> returns the next number, stores it on the run, keeps the
  new step and exactly the newest earlier ones up to the retention limit, each kept step newer than each
  dropped one, and does not touch the steps of other runs.\<close>

theorem record_step_retains_newest:
  assumes "record_step now retained run sc step_type status tool call input result s = Inr (q, s')"
    and "find_run run s = Some r"
    and "distinct (map s_id (steps s))" and "\<forall>st \<in> set (steps s). s_id st < next_id s"
    and "\<forall>st \<in> set (steps s). s_run st = run \<longrightarrow> s_sequence st \<le> r_last_sequence r"
    and "mine = (\<lambda>st. s_run st = run)"
  shows "q = r_last_sequence r + 1 \<and> map_option r_last_sequence (find_run run s') = Some q \<and>
    (\<exists>st \<in> set (steps s'). mine st \<and> s_sequence st = q) \<and>
    length (filter mine (steps s')) = min (retained_steps retained) (Suc (length (filter mine (steps s)))) \<and>
    (\<forall>old \<in> set (filter mine (steps s)) - set (steps s'). \<forall>st \<in> set (filter mine (steps s')). s_sequence old \<le> s_sequence st) \<and>
    filter (\<lambda>st. \<not> mine st) (steps s') = filter (\<lambda>st. \<not> mine st) (steps s)"
proof -
  obtain r' s1 st where r': "find_run run s = Some r'" "q = r_last_sequence r' + 1"
    and c: "workspace_core s1 = workspace_core s" and i: "next_id s \<le> next_id s1"
    and st: "s_id st = next_id s1" "s_run st = run" "s_sequence st = q"
    and "s_scope st = sc" "s_type st = trunc 40 step_type" "s_result st = bounded_json result"
    and steps: "steps s' = steps (retain_steps (retained_steps retained) run (s1\<lparr>steps := steps s1 @ [st]\<rparr>))"
    and runs: "runs s' = upd_where (\<lambda>r. r_id r = run) (count_step now q) (runs s)"
    by (rule record_step_cases [OF assms(1)])
  have q: "q = r_last_sequence r + 1" using r' assms(2) by simp
  have s1: "steps s1 = steps s" using workspace_core_fields(4) [OF c] .
  let ?xs = "steps s @ [st]" and ?n = "retained_steps retained"
  define L where "L = order_by (\<lambda>st. - s_sequence st) (filter mine ?xs)"
  have n: "0 < ?n" by (simp add: retained_steps_def)
  have d: "distinct (map s_id ?xs)" using assms(3,4) st i by fastforce
  have dx: "distinct ?xs" using d by (simp add: distinct_map del: map_append)
  have ls: "set L = set (filter mine ?xs)" "distinct L" "sorted (map (\<lambda>st. - s_sequence st) L)"
    "length L = Suc (length (filter mine (steps s)))"
    using dx st by (simp_all add: L_def order_by_def assms(6))
  have eq: "steps s' = filter (\<lambda>x. s_id x \<notin> set (map s_id (drop ?n L))) ?xs"
    by (simp add: steps retain_steps_def Let_def s1 assms(6) L_def)
  have R: "set (filter mine (steps s')) = set (take ?n L)" "length (filter mine (steps s')) = min ?n (length L)"
    using retained_filter [OF d ls(1,2), of ?n] by (simp_all only: eq)
  have hd: "hd L = st"
  proof -
    have "L \<noteq> []" using ls(4) by (metis length_0_conv nat.distinct(1))
    then obtain y ys where y: "L = y # ys" by (meson list.exhaust)
    have "y \<in> set (filter mine ?xs)" using y ls(1) by (metis list.set_intros(1))
    moreover have "- s_sequence y \<le> - s_sequence st"
      using y sort_key_hd_le [of "\<lambda>st. - s_sequence st" "filter mine ?xs" y ys st] st assms(6) by (simp add: order_by_def L_def)
    ultimately have "y = st" using assms(5,6) st q by auto
    with y show ?thesis by simp
  qed
  have "L \<noteq> []" using ls(4) by (metis length_0_conv nat.distinct(1))
  then have "st \<in> set (take ?n L)" using hd n hd_in_take by metis
  then have "st \<in> set (steps s') \<and> mine st" using R(1) st assms(6) by auto
  moreover have "s_sequence old \<le> s_sequence new"
    if "old \<in> set (filter mine (steps s)) - set (steps s')" "new \<in> set (filter mine (steps s'))" for old new
  proof -
    have "old \<in> set L" using that(1) ls(1) by simp
    moreover have "old \<notin> set (take ?n L)" using that(1) R(1) by auto
    ultimately have "old \<in> set (drop ?n L)"
      using set_append [of "take ?n L" "drop ?n L"] by (simp only: append_take_drop_id) blast
    moreover have "new \<in> set (take ?n L)" using that(2) unfolding R(1) .
    moreover have "sorted (map (\<lambda>st. - s_sequence st) (take ?n L) @ map (\<lambda>st. - s_sequence st) (drop ?n L))"
      using ls(3) by (metis append_take_drop_id map_append)
    ultimately show ?thesis by (fastforce simp: sorted_append)
  qed
  moreover have "filter (\<lambda>st. \<not> mine st) (steps s') = filter (\<lambda>st. \<not> mine st) (steps s)"
  proof -
    have "s_id x \<notin> set (map s_id (drop ?n L))" if "x \<in> set (steps s)" "\<not> mine x" for x
    proof
      assume "s_id x \<in> set (map s_id (drop ?n L))"
      then obtain y where "y \<in> set L" "s_id y = s_id x" by (auto dest: in_set_dropD)
      then have "y \<in> set (filter mine ?xs)" unfolding ls(1) by simp
      then have "mine y" "y \<in> set ?xs" by (simp_all only: set_filter mem_Collect_eq)
      moreover have "x \<in> set ?xs" using that(1) by simp
      ultimately show False using distinct_map_inj [OF d _ _ \<open>s_id y = s_id x\<close>] that(2) by blast
    qed
    then show ?thesis using st assms(6) by (auto simp: eq filter_filter intro!: filter_cong)
  qed
  moreover have "map_option r_last_sequence (find_run run s') = Some q"
  proof -
    have "find_run run s' = find_run run (upd_run run (count_step now q) s)" by (simp add: find_run_def runs)
    then show ?thesis using assms(2) run_table.find_upd [of run "count_step now q" s] by (simp add: count_step_def)
  qed
  ultimately show ?thesis using q R(2) ls(4) st(3) by (intro conjI ballI bexI [of _ st]) simp_all
qed

section \<open>A question is claimed once\<close>

lemma dict_get_set [simp]: "dict_get (dict_set k v d) k' = (if k' = k then Some v else dict_get d k')"
  by (simp add: dict_get_def dict_set_def update_conv')

lemma get_str_or_get: "get_str_or d k dflt = (case dict_get d k of None \<Rightarrow> dflt | Some v \<Rightarrow> if truthy v then py_str v else dflt)"
  by (simp add: get_str_or_def dict_get_def)

lemma claim_loop_unique:
  assumes "x \<in> set rs" and "\<forall>r \<in> set rs. pending_question qid r \<noteq> None \<longrightarrow> r = x"
    and "pending_question qid x = Some p"
  shows "claim_loop now qid answer rs s =
    (if claim_in_progress x then (Some \<lparr>qc_run = x, qc_pending = p, qc_claimed = False\<rparr>, s)
     else if r_status x \<noteq> RAwaitingUser then (None, s)
     else (Some \<lparr>qc_run = mark_claimed now (answered now answer p) x, qc_pending = answered now answer p, qc_claimed = True\<rparr>,
           upd_run (r_id x) (mark_claimed now (answered now answer p)) s))"
  using assms
proof (induction rs)
  case (Cons r rs)
  show ?case
  proof (cases "x \<in> set rs")
    case True
    note ih = Cons.IH [OF True _ Cons.prems(3)]
    have un: "\<forall>r \<in> set rs. pending_question qid r \<noteq> None \<longrightarrow> r = x" using Cons.prems(2) by simp
    show ?thesis
    proof (cases "pending_question qid r")
      case None
      then show ?thesis by (simp only: claim_loop.simps option.case ih [OF un])
    next
      case (Some p')
      then have "r = x" using Cons.prems(2) by (metis list.set_intros(1) option.distinct(1))
      then show ?thesis using Cons.prems(3) ih [OF un] by (simp add: Let_def)
    qed
  next
    case False
    have "claim_loop now qid answer rs s = (None, s)" if "\<forall>r \<in> set rs. pending_question qid r = None" for rs
      using that by (induction rs) simp_all
    moreover have "r = x" "\<forall>r \<in> set rs. pending_question qid r = None" using Cons.prems False by auto
    ultimately show ?thesis using Cons.prems(3) by (simp add: Let_def)
  qed
qed simp

lemma claim_loop_claimed:
  assumes "claim_loop now qid answer rs s = (Some c, s')" and "qc_claimed c"
  shows "\<exists>x p. x \<in> set rs \<and> pending_question qid x = Some p \<and> r_status x = RAwaitingUser \<and>
    qc_run c = mark_claimed now (answered now answer p) x \<and> qc_pending c = answered now answer p \<and>
    s' = upd_run (r_id x) (mark_claimed now (answered now answer p)) s"
  using assms
  by (induction now qid answer rs s rule: claim_loop.induct)
    (auto simp: Let_def split: option.splits if_splits)

lemma mark_claimed_pending:
  assumes "pending_question qid x = Some p"
  shows "pending_question qid (mark_claimed now (answered now answer p) x) = Some (answered now answer p)"
    and "claim_in_progress (mark_claimed now (answered now answer p) x)"
  using assms
  by (auto simp: pending_question_def pending_in_def mark_claimed_def answered_def claim_in_progress_def get_str_or_get
      split: option.splits json.splits if_splits)


section \<open>An approval is decided once\<close>

lemma first_filter_unique:
  assumes "x \<in> set xs" and "P x" and "\<forall>y \<in> set xs. P y \<longrightarrow> y = x"
  shows "first_row (filter P xs) = Some x"
proof -
  have "filter P xs \<noteq> []" using assms(1,2) by (auto simp: filter_empty_conv)
  then obtain y where y: "first_row (filter P xs) = Some y" by (cases "filter P xs") auto
  then have "y \<in> set xs" "P y" using first_row_in by fastforce+
  with assms(3) y show ?thesis by simp
qed

definition approval_candidate :: "scope \<Rightarrow> agent_run \<Rightarrow> bool" where
  "approval_candidate sc r = (r_scope r = sc \<and> r_status r \<in> {RAwaitingApproval, RRunning, RBlocked})"

lemma get_run_for_approval_unique:
  assumes "x \<in> set (runs s)" and "approval_candidate sc x" and "pending_approval aid x \<noteq> None"
    and "\<forall>r \<in> set (runs s). approval_candidate sc r \<and> pending_approval aid r \<noteq> None \<longrightarrow> r = x"
    and "length (filter (approval_candidate sc) (runs s)) \<le> 25"
  shows "get_run_for_approval sc aid s = Some x"
proof -
  let ?N = "newest_runs (\<lambda>r. r_scope r = sc \<and> r_status r \<in> {RAwaitingApproval, RRunning, RBlocked}) s"
  have "length ?N \<le> 25" using assms(5) by (simp add: newest_runs_def order_by_def approval_candidate_def [abs_def])
  then have "take 25 ?N = ?N" by simp
  moreover have "first_row (filter (\<lambda>r. pending_approval aid r \<noteq> None) ?N) = Some x"
  proof (rule first_filter_unique)
    show "x \<in> set ?N" using assms(1,2) by (simp add: approval_candidate_def)
    show "pending_approval aid x \<noteq> None" by (rule assms(3))
    show "\<forall>y \<in> set ?N. pending_approval aid y \<noteq> None \<longrightarrow> y = x"
    proof (intro ballI impI)
      fix y assume "y \<in> set ?N" and "pending_approval aid y \<noteq> None"
      then have "y \<in> set (runs s)" "approval_candidate sc y"
        by (simp_all only: in_newest_runs approval_candidate_def)
      then show "y = x" using assms(4) \<open>pending_approval aid y \<noteq> None\<close> by blast
    qed
  qed
  ultimately show ?thesis by (simp add: get_run_for_approval_def)
qed

lemma get_run_for_approval_in:
  assumes "get_run_for_approval sc aid s = Some r"
  shows "r \<in> set (runs s)" "approval_candidate sc r" "pending_approval aid r \<noteq> None"
  using first_row_in [OF assms [unfolded get_run_for_approval_def]]
  by (auto simp: approval_candidate_def dest!: in_set_takeD)

lemma decide_approval_pending:
  assumes "pending_approval aid r = Some p" and "decision \<in> {''approved'', ''denied''}"
  shows "\<exists>p'. pending_approval aid (decide_approval now decision
      (dict_set ''resolved_at'' t (dict_set ''decision'' (JStr decision) p)) r) = Some p' \<and>
      p' = dict_set ''resolved_at'' t (dict_set ''decision'' (JStr decision) p) \<and> get_str_or p' ''decision'' [] = decision"
  using assms
  by (auto simp: pending_approval_def pending_in_def decide_approval_def get_str_or_get
      split: option.splits json.splits if_splits)

text \<open>An approval decision is final: when one run of the conversation holds the approval (and at most 25
  runs are candidates, the window the query looks at), a decision that was stored makes every later
  \<open>resolve_approval\<close>, with either decision, report the stored one as already resolved and change
  nothing; an approved run is running again and a denied one blocked.\<close>

theorem resolve_approval_final:
  assumes "resolve_approval now sc aid decision s = Inr (Some p, s')" and "s' \<noteq> s"
    and "distinct (map r_id (runs s))" and "length (filter (approval_candidate sc) (runs s)) \<le> 25"
    and "\<forall>r \<in> set (runs s). \<forall>r' \<in> set (runs s). approval_candidate sc r \<and> approval_candidate sc r' \<and>
           pending_approval aid r \<noteq> None \<and> pending_approval aid r' \<noteq> None \<longrightarrow> r = r'"
    and "decision' \<in> {''approved'', ''denied''}"
  shows "resolve_approval later sc aid decision' s' = Inr (Some (dict_set ''status'' (JStr ''already_resolved'') p), s') \<and>
    get_str_or p ''decision'' [] = decision \<and>
    map_option r_status (get_run_for_approval sc aid s') = Some (if decision = ''approved'' then RRunning else RBlocked)"
proof -
  have dec: "decision \<in> {''approved'', ''denied''}" using assms(1) by (auto simp: resolve_approval_def split: if_splits)
  obtain r where r: "get_run_for_approval sc aid s = Some r"
    using assms(1) dec by (auto simp: resolve_approval_def split: option.splits)
  obtain p0 where p0: "pending_approval aid r = Some p0" using get_run_for_approval_in(3) [OF r] by blast
  let ?f = "decide_approval now decision p"
  have p: "p = dict_set ''resolved_at'' (JStr (isoformat now)) (dict_set ''decision'' (JStr decision) p0)"
    and s': "s' = upd_run (r_id r) ?f s"
    using assms(1,2) dec r p0 by (auto simp: resolve_approval_def Let_def or_else_def split: if_splits)
  have fr: "pending_approval aid (?f r) = Some p" "get_str_or p ''decision'' [] = decision"
    using decide_approval_pending [OF p0 dec, of now "JStr (isoformat now)"] p by simp_all
  have cand: "approval_candidate sc (?f y) \<longleftrightarrow> r_scope y = sc" for y by (simp add: approval_candidate_def decide_approval_def)
  have rin: "r \<in> set (runs s)" "approval_candidate sc r" using get_run_for_approval_in [OF r] by simp_all
  have same: "y = r" if "y \<in> set (runs s)" "r_id y = r_id r" for y
    using that rin(1) assms(3) distinct_map_inj by metis
  have "get_run_for_approval sc aid s' = Some (?f r)"
  proof (rule get_run_for_approval_unique)
    show "?f r \<in> set (runs s')" using rin by (auto simp: s' in_upd_where intro!: bexI [of _ r])
    show "approval_candidate sc (?f r)" using rin(2) cand by (simp add: approval_candidate_def)
    show "pending_approval aid (?f r) \<noteq> None" using fr by simp
    show "\<forall>y \<in> set (runs s'). approval_candidate sc y \<and> pending_approval aid y \<noteq> None \<longrightarrow> y = ?f r"
    proof (intro ballI impI)
      fix y assume y: "y \<in> set (runs s')" "approval_candidate sc y \<and> pending_approval aid y \<noteq> None"
      then obtain z where z: "z \<in> set (runs s)" "y = (if r_id z = r_id r then ?f z else z)"
        unfolding s' upd_run_frame in_upd_where by blast
      show "y = ?f r"
      proof (cases "r_id z = r_id r")
        case True
        with z same [OF z(1)] show ?thesis by simp
      next
        case False
        then have "y = z" using z(2) by simp
        then have "z = r" using assms(5) z(1) rin y(2) p0 by blast
        with False show ?thesis by simp
      qed
    qed
    have "length (filter (approval_candidate sc) (runs s')) = length (filter (approval_candidate sc) (runs s))"
      unfolding s' upd_run_frame
      by (rule length_filter_upd_where_eq) (use same rin(2) cand in \<open>auto simp: approval_candidate_def\<close>)
    with assms(4) show "length (filter (approval_candidate sc) (runs s')) \<le> 25" by simp
  qed
  then show ?thesis
    using fr assms(6) dec by (auto simp: resolve_approval_def Let_def or_else_def decide_approval_def)
qed

section \<open>Cancellation closes every run\<close>

text \<open>Cancelling a conversation silences and then closes its runs: after \<open>request_cancel\<close> no run of the
  conversation counts as a live worker run and no heartbeat of such a run is accepted; once the worker
  acknowledges with \<open>finish_requested_cancellations\<close>, no run of the conversation is active any more,
  at least as many rows are closed as were active, and the runs of other conversations are unchanged.\<close>

theorem cancellation_closes_runs:
  assumes "request_run_cancel now sc s = (b, s1)" and "finish_requested_cancellations now' sc s1 = (n, s2)"
  shows "b = (\<exists>r \<in> set (runs s). cancellable sc r) \<and>
    (\<forall>r \<in> set (runs s1). \<not> live_worker t stale sc r) \<and>
    (\<forall>r \<in> set (runs s1). r_scope r = sc \<longrightarrow> \<not> beats k r) \<and>
    (\<forall>r \<in> set (runs s2). r_scope r = sc \<longrightarrow> r_status r \<notin> set active_run_statuses) \<and>
    length (filter (cancellable sc) (runs s)) \<le> n \<and>
    filter (\<lambda>r. r_scope r \<noteq> sc) (runs s2) = filter (\<lambda>r. r_scope r \<noteq> sc) (runs s)"
proof -
  let ?f = "\<lambda>r :: agent_run. r\<lparr>r_cancel := True, r_status := RCancelling, r_updated := now\<rparr>"
  let ?g = "\<lambda>r :: agent_run. r\<lparr>r_status := RCancelled, r_heartbeat := None, r_updated := now', r_error := Some ''user_cancelled''\<rparr>"
  have s1: "runs s1 = upd_where (cancellable sc) ?f (runs s)" and b: "b = (\<exists>r \<in> set (runs s). cancellable sc r)"
    using assms(1) by (auto simp: request_run_cancel_def)
  have s2: "runs s2 = upd_where (cancel_acknowledged sc) ?g (runs s1)"
    and n: "n = length (filter (cancel_acknowledged sc) (runs s1))"
    using assms(2) by (auto simp: finish_requested_cancellations_def)
  have one: "r_status r \<in> set active_run_statuses \<longrightarrow> r_status r = RCancelling \<and> r_cancel r"
    if h: "r \<in> set (runs s1)" "r_scope r = sc" for r
  proof -
    obtain y where "y \<in> set (runs s)" and y: "r = (if cancellable sc y then ?f y else y)"
      using h(1) unfolding s1 in_upd_where by blast
    show ?thesis
    proof (cases "cancellable sc y")
      case True
      then show ?thesis using y by simp
    next
      case False
      then have "r = y" using y by simp
      with False h(2) show ?thesis by (simp add: cancellable_def)
    qed
  qed
  have workers: "set worker_run_statuses \<subseteq> set active_run_statuses"
    by (simp add: worker_run_statuses_def active_run_statuses_def)
  have "r_status r \<notin> set active_run_statuses" if r: "r \<in> set (runs s2)" "r_scope r = sc" for r
  proof -
    obtain y where y: "y \<in> set (runs s1)" "r = (if cancel_acknowledged sc y then ?g y else y)"
      using r(1) unfolding s2 in_upd_where by blast
    show ?thesis
    proof (cases "cancel_acknowledged sc y")
      case True
      then show ?thesis using y(2) by (simp add: active_run_statuses_def)
    next
      case False
      then have "r = y" using y(2) by simp
      then show ?thesis using False one [OF y(1)] r(2) by (auto simp: cancel_acknowledged_def)
    qed
  qed
  moreover have "length (filter (cancellable sc) (runs s)) \<le> n"
    unfolding n s1 by (rule length_filter_upd_where_into) (simp add: cancellable_def cancel_acknowledged_def)
  moreover have "filter (\<lambda>r. r_scope r \<noteq> sc) (runs s2) = filter (\<lambda>r. r_scope r \<noteq> sc) (runs s1)"
    unfolding s2 by (rule filter_upd_where_disjoint) (simp add: cancel_acknowledged_def)
  moreover have "filter (\<lambda>r. r_scope r \<noteq> sc) (runs s1) = filter (\<lambda>r. r_scope r \<noteq> sc) (runs s)"
    unfolding s1 by (rule filter_upd_where_disjoint) (simp add: cancellable_def)
  moreover have "\<not> live_worker t stale sc r" if "r \<in> set (runs s1)" for r
    using one [OF that] workers by (auto simp: live_worker_def)
  moreover have "\<not> beats k r" if "r \<in> set (runs s1)" "r_scope r = sc" for r
    using one [OF that] workers by (auto simp: beats_def)
  ultimately show ?thesis using b by simp
qed

section \<open>A worker's outcome closes its run\<close>

lemma closing_metadata_closed:
  "dict_get (closing_metadata target err d) ''runtime_active'' = Some (JBool False)"
  "dict_get (closing_metadata target err d) ''status'' \<noteq> Some (JStr ''streaming'')"
proof -
  have sd: "dict_get (dict_setdefault k v d) k' = (if k' = k \<and> dict_get d k = None then Some v else dict_get d k')" for k v d k'
    by (simp add: dict_setdefault_def dict_get_def update_conv')
  show "dict_get (closing_metadata target err d) ''runtime_active'' = Some (JBool False)"
    by (simp add: closing_metadata_def Let_def sd split: option.split)
  show "dict_get (closing_metadata target err d) ''status'' \<noteq> Some (JStr ''streaming'')"
    by (simp add: closing_metadata_def Let_def sd split: option.split)
qed

text \<open>A terminal outcome always closes the run it belongs to: \<open>finish_for_request\<close> succeeds exactly for the
  five terminal statuses when the request has a run; then the most recently updated run of the request
  is not active any more, its assistant message is marked inactive and no longer \<open>streaming\<close>, and the
  other runs are unchanged.\<close>

theorem finish_for_request_closes:
  assumes "finish_for_request now sc rid status err s = (ok, s')" and "distinct (map r_id (runs s))"
    and "mine = newest_runs (\<lambda>r. r_scope r = sc \<and> rid \<in> set (run_requests sc r s)) s"
  shows "ok = (status \<in> {''ready'', ''completed'', ''failed'', ''cancelled'', ''blocked''} \<and> mine \<noteq> []) \<and>
    (ok \<longrightarrow> (\<forall>r' \<in> set (runs s'). r_id r' = r_id (hd mine) \<longrightarrow> r_status r' \<notin> set active_run_statuses) \<and>
       (\<forall>m \<in> set (messages s'). assistant_of sc (hd mine) m \<longrightarrow>
          dict_get (m_meta m) ''runtime_active'' = Some (JBool False) \<and>
          dict_get (m_meta m) ''status'' \<noteq> Some (JStr ''streaming'')) \<and>
       filter (\<lambda>r. r_id r \<noteq> r_id (hd mine)) (runs s') = filter (\<lambda>r. r_id r \<noteq> r_id (hd mine)) (runs s))"
proof (cases "status \<in> {''ready'', ''completed'', ''failed'', ''cancelled'', ''blocked''} \<and> mine \<noteq> []")
  case False
  then have "ok = False"
    using assms(1,3) by (auto simp: finish_for_request_def Let_def split: if_splits option.splits)
  with False show ?thesis by simp
next
  case True
  then obtain r rest where r: "mine = r # rest" by (cases mine) auto
  define target where "target = (if status = ''completed'' then ''ready'' else status)"
  define g :: "agent_run \<Rightarrow> agent_run" where "g = (\<lambda>r. r\<lparr>r_status := run_status_of target, r_updated := now, r_heartbeat := None,
                                r_error := opt_trunc err (r_error r)\<rparr>)"
  define s1 where "s1 = (if r_status r \<in> set active_run_statuses
                      then run_activity now sc ''run_finished'' (estimate_bytes [py_opt err]) (upd_run (r_id r) g s) else s)"
  have e: "(ok, s') = (True, s1\<lparr>messages := upd_where (assistant_of sc r)
                           (\<lambda>m. m\<lparr>m_meta := closing_metadata target err (m_meta m)\<rparr>) (messages s1)\<rparr>)"
    using assms(1) True unfolding finish_for_request_def assms(3) [symmetric] r first_row_Cons option.case Let_def
      target_def [symmetric] g_def [symmetric] s1_def [symmetric] by (simp split: if_splits)
  have rin: "r \<in> set (runs s)" using r assms(3) by (metis in_newest_runs list.set_intros(1))
  have tgt: "run_status_of target \<notin> set active_run_statuses"
    using True by (auto simp: target_def run_status_of_def active_run_statuses_def)
  have runs: "runs s' = (if r_status r \<in> set active_run_statuses then upd_where (\<lambda>x. r_id x = r_id r) g (runs s) else runs s)"
    using e by (simp add: s1_def)
  have "r_status x \<notin> set active_run_statuses" if "x \<in> set (runs s')" "r_id x = r_id r" for x
  proof (cases "r_status r \<in> set active_run_statuses")
    case True
    then obtain y where "x = (if r_id y = r_id r then g y else y)"
      using \<open>x \<in> set (runs s')\<close> by (auto simp: runs in_upd_where)
    then have "x = g y" using that(2) by (simp split: if_splits)
    then show ?thesis using tgt by (simp add: g_def)
  next
    case False
    then have "x = r" using that rin assms(2) runs distinct_map_inj by (metis (full_types))
    with False show ?thesis by simp
  qed
  moreover have "filter (\<lambda>x. r_id x \<noteq> r_id r) (runs s') = filter (\<lambda>x. r_id x \<noteq> r_id r) (runs s)"
    unfolding runs by (simp, rule impI, rule filter_upd_where_disjoint) (simp add: g_def)
  moreover have "dict_get (m_meta m) ''runtime_active'' = Some (JBool False) \<and>
      dict_get (m_meta m) ''status'' \<noteq> Some (JStr ''streaming'')"
    if h: "m \<in> set (messages s')" "assistant_of sc r m" for m
  proof -
    obtain m0 where "m = (if assistant_of sc r m0 then m0\<lparr>m_meta := closing_metadata target err (m_meta m0)\<rparr> else m0)"
      using h(1) e by (auto simp: in_upd_where)
    then have "m = m0\<lparr>m_meta := closing_metadata target err (m_meta m0)\<rparr>" using h(2) by (simp split: if_splits)
    then show ?thesis by (simp add: closing_metadata_closed)
  qed
  ultimately show ?thesis using True e by (simp add: r)
qed

section \<open>The properties at concrete inputs\<close>

definition sample_run :: agent_run where
  "sample_run = \<lparr>r_id = 4, r_scope = (1, 7, 9), r_message = Some 6, r_status = RAwaitingUser, r_cancel = False,
     r_steps = 1, r_last_sequence = 1,
     r_checkpoint = JObj [(''pending_user_question'', JObj [(''question_id'', JStr ''q1'')]),
                        (''pending_approval'', JObj [(''approval_id'', JStr ''a1'')])],
     r_error = None, r_created = 0, r_updated = 10, r_heartbeat = Some 10\<rparr>"

definition run_db :: db where
  "run_db = quota_db\<lparr>runs := [sample_run], messages :=
       [\<lparr>m_id = 6, m_conversation = 9, m_role = ''assistant'',
         m_meta = [(''client_request_id'', JStr ''req''), (''status'', JStr ''streaming'')]\<rparr>],
     steps := [\<lparr>s_id = 5, s_run = 4, s_scope = (1, 7, 9), s_sequence = 1, s_type = ''tool_start'', s_tool = None,
       s_call = None, s_status = ''running'', s_input = [], s_result = [], s_created = 0\<rparr>]\<rparr>"

theorem record_step_retains_newest_witness:
  "case record_step 20 1 4 (1, 7, 9) ''tool_result'' ''completed'' (Some ''find'') (Some ''c1'') None None (run_db\<lparr>tenants := []\<rparr>) of
     Inl _ \<Rightarrow> False
   | Inr (q, s') \<Rightarrow> q = 2 \<and> map_option r_last_sequence (find_run 4 s') = Some q \<and>
       length (filter (\<lambda>st. s_run st = 4) (steps s')) = 2"
proof (rule case_ok)
  let ?s = "run_db\<lparr>tenants := []\<rparr>"
  have r: "find_run 4 ?s = Some sample_run" by (simp add: find_run_def run_db_def sample_run_def)
  then show "\<not> isl (record_step 20 1 4 (1, 7, 9) ''tool_result'' ''completed'' (Some ''find'') (Some ''c1'') None None ?s)"
    by (simp add: record_step_def Let_def run_capacity_def ensure_capacity_if_supported_def)
  fix q s'
  assume a: "record_step 20 1 4 (1, 7, 9) ''tool_result'' ''completed'' (Some ''find'') (Some ''c1'') None None ?s = Inr (q, s')"
  have st: "steps ?s = [\<lparr>s_id = 5, s_run = 4, s_scope = (1, 7, 9), s_sequence = 1, s_type = ''tool_start'', s_tool = None,
       s_call = None, s_status = ''running'', s_input = [], s_result = [], s_created = 0\<rparr>]"
    by (simp add: run_db_def)
  have "distinct (map s_id (steps ?s))" "\<forall>st \<in> set (steps ?s). s_id st < next_id ?s"
    "\<forall>st \<in> set (steps ?s). s_run st = 4 \<longrightarrow> s_sequence st \<le> r_last_sequence sample_run"
    unfolding st by (simp_all add: run_db_def quota_db_def sample_run_def)
  note w = record_step_retains_newest [OF a r this refl]
  have "retained_steps 1 = 100" "r_last_sequence sample_run = 1"
    by (simp_all add: retained_steps_def default_retained_steps_def sample_run_def)
  with w show "q = 2 \<and> map_option r_last_sequence (find_run 4 s') = Some q \<and>
       length (filter (\<lambda>st. s_run st = 4) (steps s')) = 2" by (auto simp add: st)
qed

lemma run_db_single: "r \<in> set (runs run_db) \<Longrightarrow> r = sample_run"
  by (simp add: run_db_def)


theorem resolve_approval_final_witness:
  "\<exists>p s'. resolve_approval 20 (1, 7, 9) ''a1'' ''denied'' (upd_run 4 (\<lambda>r. r\<lparr>r_status := RAwaitingApproval\<rparr>) run_db) = Inr (Some p, s') \<and>
    resolve_approval 30 (1, 7, 9) ''a1'' ''approved'' s' = Inr (Some (dict_set ''status'' (JStr ''already_resolved'') p), s') \<and>
    map_option r_status (get_run_for_approval (1, 7, 9) ''a1'' s') = Some RBlocked"
proof -
  let ?s = "upd_run 4 (\<lambda>r. r\<lparr>r_status := RAwaitingApproval\<rparr>) run_db"
  have "case resolve_approval 20 (1, 7, 9) ''a1'' ''denied'' ?s of Inl _ \<Rightarrow> False
    | Inr (p, s') \<Rightarrow> \<not> Option.is_none p \<and> map r_status (runs s') = [RBlocked]" by code_simp
  then obtain p s' where a: "resolve_approval 20 (1, 7, 9) ''a1'' ''denied'' ?s = Inr (Some p, s')" "map r_status (runs s') = [RBlocked]"
    by (auto split: sum.splits simp: Option.is_none_def)
  have "map r_status (runs ?s) = [RAwaitingApproval]" by code_simp
  then have ne: "s' \<noteq> ?s" using a(2) by auto
  have "distinct (map r_id (runs ?s))" "length (filter (approval_candidate (1, 7, 9)) (runs ?s)) \<le> 25" by code_simp+
  moreover have "\<forall>r \<in> set (runs ?s). \<forall>r' \<in> set (runs ?s). approval_candidate (1, 7, 9) r \<and> approval_candidate (1, 7, 9) r' \<and>
           pending_approval ''a1'' r \<noteq> None \<and> pending_approval ''a1'' r' \<noteq> None \<longrightarrow> r = r'"
    by (auto simp: run_db_def)
  ultimately show ?thesis
    using resolve_approval_final [OF a(1) ne, of "''approved''" 30] a(1) by auto
qed

theorem cancellation_closes_runs_witness:
  "\<exists>b s1 n s2. request_run_cancel 20 (1, 7, 9) run_db = (b, s1) \<and> finish_requested_cancellations 21 (1, 7, 9) s1 = (n, s2) \<and>
    (\<forall>r \<in> set (runs s2). r_scope r = (1, 7, 9) \<longrightarrow> r_status r \<notin> set active_run_statuses)"
proof -
  obtain b s1 where a: "request_run_cancel 20 (1, 7, 9) run_db = (b, s1)" by force
  obtain n s2 where f: "finish_requested_cancellations 21 (1, 7, 9) s1 = (n, s2)" by force
  show ?thesis using cancellation_closes_runs [OF a f] a f by blast
qed

theorem finish_for_request_closes_witness:
  "\<exists>s'. finish_for_request 30 (1, 7, 9) ''req'' ''completed'' None run_db = (True, s') \<and>
     (\<forall>r' \<in> set (runs s'). r_id r' = 4 \<longrightarrow> r_status r' \<notin> set active_run_statuses)"
proof -
  obtain ok s' where a: "finish_for_request 30 (1, 7, 9) ''req'' ''completed'' None run_db = (ok, s')" by force
  have "distinct (map r_id (runs run_db))" by code_simp
  note w = finish_for_request_closes [OF a this refl]
  have "length (newest_runs (\<lambda>r. r_scope r = (1, 7, 9) \<and> ''req'' \<in> set (run_requests (1, 7, 9) r run_db)) run_db) = 1"
    "r_id (hd (newest_runs (\<lambda>r. r_scope r = (1, 7, 9) \<and> ''req'' \<in> set (run_requests (1, 7, 9) r run_db)) run_db)) = 4"
    by code_simp+
  then have ne: "newest_runs (\<lambda>r. r_scope r = (1, 7, 9) \<and> ''req'' \<in> set (run_requests (1, 7, 9) r run_db)) run_db \<noteq> []"
    and hd: "r_id (hd (newest_runs (\<lambda>r. r_scope r = (1, 7, 9) \<and> ''req'' \<in> set (run_requests (1, 7, 9) r run_db)) run_db)) = 4"
    by (auto simp only: list.size)
  from w ne have ok by simp
  with w a hd show ?thesis by auto
qed

end
