(* ===== verification/Turn_Queue.thy ===== *)
theory Turn_Queue
  imports Runtime_Store "HOL-Library.List_Lexorder"
begin

text \<open>
  The durable turn queue of a conversation (\<open>deepspace/services/turn_queue.py\<close>): enqueue and retry,
  editing, cancelling and promoting a pending turn, pausing the queue, the claim of the next turn by a
  dispatcher, the end of a turn, and the recovery of claims whose dispatcher or worker died.

  The session runs with \<open>autoflush=False\<close>: the queries of one transaction see the rows as they were at
  the last flush, while attributes are read from the objects already changed.  The recovery loop is the
  one operation where this shows, and its definition keeps the two apart.
\<close>

section \<open>Statuses and lookups\<close>

definition queueable_statuses :: "turn_status list" where
  "queueable_statuses = [Queued, Running, Cancelling, AwaitingUser, AwaitingApproval]"

definition queue_visible_statuses :: "turn_status list" where
  "queue_visible_statuses = [Queued, AwaitingUser, AwaitingApproval, Failed]"

definition active_queue_statuses :: "turn_status list" where
  "active_queue_statuses = [Running, Cancelling, AwaitingUser, AwaitingApproval]"

definition terminal_queue_statuses :: "turn_status list" where
  "terminal_queue_statuses = [Completed, Cancelled, Failed]"

definition paused_queue_statuses :: "turn_status list" where
  "paused_queue_statuses = [AwaitingUser, AwaitingApproval]"

definition max_turns_per_conversation :: nat where "max_turns_per_conversation = 100"

definition stale_dispatch_after :: int where "stale_dispatch_after = 10 * 60"

definition queueable :: "turn \<Rightarrow> bool" where
  "queueable t = (t_status t \<in> set queueable_statuses)"

definition turn_active :: "turn \<Rightarrow> bool" where
  "turn_active t = (t_status t \<in> set active_queue_statuses)"

definition turns_of :: "scope \<Rightarrow> (turn \<Rightarrow> bool) \<Rightarrow> db \<Rightarrow> turn list" where
  "turns_of sc P s = filter (\<lambda>t. t_scope t = sc \<and> P t) (turns s)"

text \<open>Scope and request id are unique (\<open>uq_deepspace_queued_turn_request\<close>).\<close>

definition find_turn :: "scope \<Rightarrow> string \<Rightarrow> db \<Rightarrow> turn option" where
  "find_turn sc rid s = first_row (turns_of sc (\<lambda>t. t_request t = rid) s)"

definition get_turn :: "nat \<Rightarrow> db \<Rightarrow> turn option" where
  "get_turn k s = first_row (filter (\<lambda>t. t_id t = k) (turns s))"

definition upd_turn :: "nat \<Rightarrow> (turn \<Rightarrow> turn) \<Rightarrow> db \<Rightarrow> db" where
  "upd_turn k f s = s\<lparr>turns := upd_where (\<lambda>t. t_id t = k) f (turns s)\<rparr>"

definition find_control :: "scope \<Rightarrow> db \<Rightarrow> control option" where
  "find_control sc s = first_row (filter (\<lambda>c. c_scope c = sc) (controls s))"

text \<open>The lookup of \<open>_conversation_for_update\<close>.\<close>

definition has_conversation :: "scope \<Rightarrow> db \<Rightarrow> bool" where
  "has_conversation sc s = (\<exists>v \<in> set (conversations s). v_scope v = sc \<and> v_kind v = ''deepspace'')"

definition no_conversation :: app_error where
  "no_conversation = ValueErr ''DeepSpace conversation not found''"

section \<open>Pause state and announcements\<close>

record queue_state =
  qs_paused :: bool
  qs_reason :: "string option"
  qs_failed_request :: "string option"
  qs_paused_at :: "int option"

definition state :: "scope \<Rightarrow> db \<Rightarrow> queue_state" where
  "state sc s = (case find_control sc s of
     None \<Rightarrow> \<lparr>qs_paused = False, qs_reason = None, qs_failed_request = None, qs_paused_at = None\<rparr>
   | Some c \<Rightarrow> \<lparr>qs_paused = c_paused c, qs_reason = c_reason c, qs_failed_request = c_failed_request c,
                qs_paused_at = c_paused_at c\<rparr>)"

definition visible_count :: "scope \<Rightarrow> db \<Rightarrow> nat" where
  "visible_count sc s = length (turns_of sc (\<lambda>t. t_status t \<in> set queue_visible_statuses) s)"

text \<open>Advisory, after the commit; a Redis that does not answer is ignored.\<close>

definition publish_queue_event :: "scope \<Rightarrow> db \<Rightarrow> db" where
  "publish_queue_event sc s = (case sc of (tn, user, conv) \<Rightarrow>
     if redis_up s then s\<lparr>realtime := realtime s @
       [\<lparr>x_tenant = tn, x_user = user, x_type = ''queue.changed'', x_resource = ''queues'',
         x_data = [(''conversation_id'', JStr (uuid_str conv)), (''paused'', JBool (qs_paused (state sc s))),
           (''reason'', opt_str (qs_reason (state sc s))),
           (''failed_request_id'', opt_str (qs_failed_request (state sc s))),
           (''visible_count'', JInt (int (visible_count sc s)))]\<rparr>]\<rparr>
     else s)"

definition queue_activity :: "int \<Rightarrow> scope \<Rightarrow> string \<Rightarrow> int \<Rightarrow> db \<Rightarrow> db" where
  "queue_activity now sc kind bytes s = (case sc of (tn, user, conv) \<Rightarrow>
     record_activity now tn ''queues_and_tasks'' ''conversation'' (uuid_str conv)
       \<lparr>ac_kind = kind, ac_size = bytes, ac_owner = Some user, ac_group = None, ac_until = None, ac_reason = None,
        ac_replace = False\<rparr> s)"

text \<open>The primary key of a control row is the conversation alone.\<close>

definition set_paused_locked :: "int \<Rightarrow> scope \<Rightarrow> bool \<Rightarrow> string option \<Rightarrow> string option \<Rightarrow> db \<Rightarrow> app_error + db" where
  "set_paused_locked now sc paused reason failed s =
     (let kept_reason = nonempty_trunc 2000 reason; at = (if paused then Some now else None) in
      if find_control sc s = None
      then (if \<exists>c \<in> set (controls s). snd (snd (c_scope c)) = snd (snd sc) then Inl IntegrityError
            else Inr (s\<lparr>controls := controls s @ [\<lparr>c_scope = sc, c_paused = paused, c_reason = kept_reason,
                         c_failed_request = failed, c_paused_at = at\<rparr>]\<rparr>))
      else Inr (s\<lparr>controls := upd_where (\<lambda>c. c_scope c = sc)
                    (\<lambda>c. c\<lparr>c_paused := paused, c_reason := kept_reason, c_failed_request := failed, c_paused_at := at\<rparr>)
                    (controls s)\<rparr>))"

definition pause :: "int \<Rightarrow> scope \<Rightarrow> string \<Rightarrow> string option \<Rightarrow> db \<Rightarrow> queue_state tx" where
  "pause now sc reason failed s =
     (if \<not> has_conversation sc s then Inl no_conversation
      else (case set_paused_locked now sc True (Some reason) failed s of
         Inl err \<Rightarrow> Inl err
       | Inr s1 \<Rightarrow> (let s2 = publish_queue_event sc (queue_activity now sc ''queue_paused'' 0 s1)
                   in Inr (state sc s2, s2))))"

definition resume :: "int \<Rightarrow> scope \<Rightarrow> db \<Rightarrow> queue_state tx" where
  "resume now sc s =
     (if \<not> has_conversation sc s then Inl no_conversation
      else (case set_paused_locked now sc False None None s of
         Inl err \<Rightarrow> Inl err
       | Inr s1 \<Rightarrow> (let s2 = publish_queue_event sc (queue_activity now sc ''queue_resumed'' 0 s1)
                   in Inr (state sc s2, s2))))"

definition failure_pause :: "scope \<Rightarrow> control \<Rightarrow> bool" where
  "failure_pause sc c = (c_scope c = sc \<and> c_paused c \<and> c_failed_request c \<noteq> None)"

definition clear_control :: "control \<Rightarrow> control" where
  "clear_control c = c\<lparr>c_paused := False, c_reason := None, c_failed_request := None, c_paused_at := None\<rparr>"

definition resume_after_failure :: "scope \<Rightarrow> db \<Rightarrow> bool tx" where
  "resume_after_failure sc s =
     (if filter (failure_pause sc) (controls s) = [] then Inr (False, s)
      else if \<not> has_conversation sc s then Inl no_conversation
      else Inr (True, publish_queue_event sc
             (s\<lparr>controls := upd_where (failure_pause sc) clear_control (controls s)\<rparr>)))"

section \<open>Adding turns\<close>

record turn_request =
  rq_request :: string
  rq_prompt :: string
  rq_regenerate :: "nat option"
  rq_thinking :: bool
  rq_effort :: "string option"
  rq_roles :: "string list"
  rq_permissions :: "string list"
  rq_files :: "string list"
  rq_steer :: bool
  rq_resume_from :: "string option"

definition next_turn_sequence :: "scope \<Rightarrow> db \<Rightarrow> int" where
  "next_turn_sequence sc s =
     (let ts = turns_of sc (\<lambda>_. True) s in (if ts = [] then 0 else Max (set (map t_sequence ts))) + 1)"

definition queue_full :: "scope \<Rightarrow> db \<Rightarrow> bool" where
  "queue_full sc s = (max_turns_per_conversation \<le> length (turns_of sc queueable s))"

definition full_error :: app_error where
  "full_error = OverflowErr ''DeepSpace queue is full for this conversation''"

text \<open>\<open>sorted({...})\<close>: strings by code points, without repetition.\<close>

definition sorted_unique :: "string list \<Rightarrow> string list" where
  "sorted_unique xs = sort_key (map code) (dict_unique xs)"

definition turn_bytes :: "string \<Rightarrow> turn \<Rightarrow> int" where
  "turn_bytes prompt t =
     estimate_bytes [PStr prompt, py_strings (t_roles t), py_strings (t_permissions t), py_strings (t_files t)]"

definition turn_capacity :: "int \<Rightarrow> scope \<Rightarrow> int \<Rightarrow> int \<Rightarrow> db \<Rightarrow> storage_usage tx" where
  "turn_capacity now sc additional replacing s =
     ensure_capacity now (fst sc) [] (Some (fst (snd sc))) additional replacing s"

text \<open>What \<open>enqueue\<close> and \<open>retry_failed\<close> do with a new row: the capacity check, the insert under the
  unique index, the activity row, the commit and the announcement.  The id is taken after the rows the
  capacity check inserts.\<close>

definition insert_turn :: "int \<Rightarrow> string \<Rightarrow> turn \<Rightarrow> db \<Rightarrow> turn tx" where
  "insert_turn now kind t s =
     (let sc = t_scope t; bytes = turn_bytes (t_prompt t) t in
      case turn_capacity now sc bytes 0 s of
        Inl err \<Rightarrow> Inl err
      | Inr (_, s1) \<Rightarrow>
          (if find_turn sc (t_request t) s1 \<noteq> None then Inl IntegrityError
           else (let t1 = t\<lparr>t_id := next_id s1\<rparr>
                 in Inr (t1, publish_queue_event sc (queue_activity now sc kind bytes
                          (s1\<lparr>turns := turns s1 @ [t1], next_id := Suc (next_id s1)\<rparr>))))))"

definition new_turn :: "scope \<Rightarrow> turn_request \<Rightarrow> int \<Rightarrow> turn" where
  "new_turn sc rq q =
     \<lparr>t_id = 0, t_scope = sc, t_request = trunc 255 (rq_request rq), t_regenerate = rq_regenerate rq,
      t_resume_from = nonempty_trunc 255 (rq_resume_from rq), t_prompt = trunc 4000 (rq_prompt rq),
      t_priority = (if rq_steer rq then 1 else 0), t_sequence = q, t_thinking = rq_thinking rq,
      t_effort = rq_effort rq, t_roles = sorted_unique (rq_roles rq),
      t_permissions = sorted_unique (rq_permissions rq), t_files = dict_unique (rq_files rq),
      t_status = Queued, t_error = None, t_started = None, t_completed = None\<rparr>"

definition enqueue :: "int \<Rightarrow> scope \<Rightarrow> turn_request \<Rightarrow> db \<Rightarrow> turn tx" where
  "enqueue now sc rq s =
     (if \<not> has_conversation sc s then Inl no_conversation
      else (case find_turn sc (rq_request rq) s of
         Some t \<Rightarrow> Inr (t, s)
       | None \<Rightarrow> if queue_full sc s then Inl full_error
                 else insert_turn now ''queue_turn_added'' (new_turn sc rq (next_turn_sequence sc s)) s))"

definition edit_turn :: "int \<Rightarrow> scope \<Rightarrow> string \<Rightarrow> turn \<Rightarrow> db \<Rightarrow> turn option tx" where
  "edit_turn now sc prompt t s =
     (let updated = turn_bytes (trunc 4000 prompt) t in
      case turn_capacity now sc updated (turn_bytes (t_prompt t) t) s of
        Inl err \<Rightarrow> Inl err
      | Inr (_, s1) \<Rightarrow>
          Inr (Some (t\<lparr>t_prompt := trunc 4000 prompt\<rparr>),
            publish_queue_event sc (queue_activity now sc ''queue_turn_edited'' updated
              (upd_turn (t_id t) (\<lambda>t. t\<lparr>t_prompt := trunc 4000 prompt\<rparr>) s1))))"

definition update_queued_prompt :: "int \<Rightarrow> scope \<Rightarrow> string \<Rightarrow> string \<Rightarrow> string \<Rightarrow> db \<Rightarrow> turn option tx" where
  "update_queued_prompt now sc rid expected prompt s =
     (if \<not> has_conversation sc s then Inl no_conversation
      else (case find_turn sc rid s of
         None \<Rightarrow> Inr (None, s)
       | Some t \<Rightarrow>
           (if t_status t \<noteq> Queued
            then Inl (NotEditable ''This prompt has already started or is no longer pending.'')
            else if t_regenerate t \<noteq> None
            then Inl (NotEditable
              ''A queued regeneration can be canceled or retried, but its saved prompt cannot be edited.'')
            else if t_prompt t \<noteq> expected
            then Inl (EditConflict ''This prompt was changed elsewhere. Refresh the queue and try again.'')
            else edit_turn now sc prompt t s)))"

definition retry_turn :: "turn \<Rightarrow> string \<Rightarrow> string \<Rightarrow> int \<Rightarrow> turn" where
  "retry_turn failed failed_request rid q =
     \<lparr>t_id = 0, t_scope = t_scope failed, t_request = rid, t_regenerate = t_regenerate failed,
      t_resume_from = Some failed_request, t_prompt = t_prompt failed,
      t_priority = max 1 (t_priority failed + 1), t_sequence = q, t_thinking = t_thinking failed,
      t_effort = t_effort failed, t_roles = t_roles failed, t_permissions = t_permissions failed,
      t_files = t_files failed, t_status = Queued, t_error = None, t_started = None, t_completed = None\<rparr>"

text \<open>The pending or completed retries of a failed turn, newest first.\<close>

definition existing_retries :: "scope \<Rightarrow> string \<Rightarrow> db \<Rightarrow> turn list" where
  "existing_retries sc failed_request s =
     order_by (\<lambda>t. - t_sequence t)
       (turns_of sc (\<lambda>t. t_resume_from t = Some failed_request \<and> (queueable t \<or> t_status t = Completed)) s)"

text \<open>\<open>client_request_id or uuid.uuid4()\<close>: without an id of its own the retry takes a new UUID.\<close>

definition retry_failed :: "int \<Rightarrow> scope \<Rightarrow> string \<Rightarrow> string option \<Rightarrow> db \<Rightarrow> turn tx" where
  "retry_failed now sc failed_request client s =
     (if \<not> has_conversation sc s then Inl no_conversation
      else (case first_row (turns_of sc (\<lambda>t. t_request t = failed_request \<and> t_status t = Failed) s) of
         None \<Rightarrow> Inl (ValueErr ''Failed DeepSpace queue item not found'')
       | Some failed \<Rightarrow>
           (let drawn = (client = None \<or> client = Some []);
                rid = (if drawn then uuid_str (next_id s) else trunc 255 (or_else client []));
                s1 = (if drawn then s\<lparr>next_id := Suc (next_id s)\<rparr> else s)
            in case find_turn sc rid s of
                 Some t \<Rightarrow> Inr (t, s1)
               | None \<Rightarrow>
                 (case first_row (existing_retries sc failed_request s) of
                    Some t \<Rightarrow> Inr (t, s1)
                  | None \<Rightarrow>
                      (if queue_full sc s then Inl full_error
                       else insert_turn now ''queue_turn_retried''
                              (retry_turn failed failed_request rid (next_turn_sequence sc s)) s1)))))"

section \<open>Listing, cancelling and promoting\<close>

text \<open>The status change of a cancel: work no worker owns ends at once, a running turn is asked to stop.\<close>

definition cancel_turn :: "int \<Rightarrow> turn \<Rightarrow> turn" where
  "cancel_turn now t =
     (if t_status t = Queued \<or> t_status t \<in> set paused_queue_statuses
      then t\<lparr>t_status := Cancelled, t_completed := Some now\<rparr>
      else t\<lparr>t_status := Cancelling\<rparr>)"

definition request_cancel :: "int \<Rightarrow> scope \<Rightarrow> string \<Rightarrow> db \<Rightarrow> bool \<times> db" where
  "request_cancel now sc rid s =
     (case first_row (turns_of sc (\<lambda>t. t_request t = rid \<and> queueable t) s) of
        None \<Rightarrow> (False, s)
      | Some t \<Rightarrow> (True, publish_queue_event sc (upd_turn (t_id t) (cancel_turn now) s)))"

text \<open>Without a conversation the request id need not be unique.\<close>

definition cancellable_turns :: "nat \<Rightarrow> nat \<Rightarrow> string \<Rightarrow> db \<Rightarrow> turn list" where
  "cancellable_turns tn user rid s =
     filter (\<lambda>t. fst (t_scope t) = tn \<and> fst (snd (t_scope t)) = user \<and> t_request t = rid \<and> queueable t) (turns s)"

definition request_cancel_by_request_id :: "int \<Rightarrow> nat \<Rightarrow> nat \<Rightarrow> string \<Rightarrow> db \<Rightarrow> bool tx" where
  "request_cancel_by_request_id now tn user rid s =
     (case one_or_none (cancellable_turns tn user rid s) of
        Inl err \<Rightarrow> Inl err
      | Inr None \<Rightarrow> Inr (False, s)
      | Inr (Some t) \<Rightarrow>
          Inr (True, publish_queue_event (tn, user, snd (snd (t_scope t))) (upd_turn (t_id t) (cancel_turn now) s)))"

definition conversation_id_for_request_id :: "nat \<Rightarrow> nat \<Rightarrow> string \<Rightarrow> db \<Rightarrow> nat option" where
  "conversation_id_for_request_id tn user rid s =
     map_option (\<lambda>t. snd (snd (t_scope t))) (first_row (cancellable_turns tn user rid s))"

definition cancel_all_for_conversation :: "int \<Rightarrow> scope \<Rightarrow> bool \<Rightarrow> db \<Rightarrow> nat \<times> db" where
  "cancel_all_for_conversation now sc commit s =
     (let ts = turns_of sc queueable s;
          s1 = s\<lparr>turns := upd_where (\<lambda>t. t_scope t = sc \<and> queueable t) (cancel_turn now) (turns s)\<rparr>
      in if ts = [] then (0, s) else (length ts, if commit then publish_queue_event sc s1 else s1))"

definition clear_turn :: "int \<Rightarrow> turn \<Rightarrow> turn" where
  "clear_turn now t =
     (if turn_active t then t\<lparr>t_status := Cancelling\<rparr> else t\<lparr>t_status := Cancelled, t_completed := Some now\<rparr>)"

definition clear_for_conversation :: "int \<Rightarrow> scope \<Rightarrow> bool \<Rightarrow> db \<Rightarrow> nat \<times> db" where
  "clear_for_conversation now sc commit s =
     (let cleared = (\<lambda>t. t_scope t = sc \<and> (queueable t \<or> t_status t = Failed));
          s1 = s\<lparr>turns := upd_where cleared (clear_turn now) (turns s),
                 controls := upd_where (\<lambda>c. c_scope c = sc) clear_control (controls s)\<rparr>
      in (length (filter cleared (turns s)), if commit then publish_queue_event sc s1 else s1))"

definition promote :: "scope \<Rightarrow> string \<Rightarrow> db \<Rightarrow> turn option \<times> db" where
  "promote sc rid s =
     (case first_row (turns_of sc (\<lambda>t. t_request t = rid \<and> t_status t = Queued) s) of
        None \<Rightarrow> (None, s)
      | Some t \<Rightarrow>
          (let p = Max (set (map t_priority (turns_of sc (\<lambda>t. t_status t = Queued) s))) + 1
           in (Some (t\<lparr>t_priority := p\<rparr>),
               publish_queue_event sc (upd_turn (t_id t) (\<lambda>t. t\<lparr>t_priority := p\<rparr>) s))))"

definition release_claim :: "scope \<Rightarrow> string \<Rightarrow> db \<Rightarrow> bool \<times> db" where
  "release_claim sc rid s =
     (case first_row (turns_of sc (\<lambda>t. t_request t = rid \<and> t_status t = Running) s) of
        None \<Rightarrow> (False, s)
      | Some t \<Rightarrow> (True, publish_queue_event sc
                     (upd_turn (t_id t) (\<lambda>t. t\<lparr>t_status := Queued, t_started := None\<rparr>) s)))"

section \<open>Closing the stream of an expired worker\<close>

definition lease_expired_text :: string where
  "lease_expired_text =
     ''The DeepSpace worker stopped before this response finished. The saved prompt is available to retry.''"

definition terminal_event_of :: "scope \<Rightarrow> string \<Rightarrow> run_event \<Rightarrow> bool" where
  "terminal_event_of sc rid e = (e_scope e = sc \<and> e_request e = rid \<and> e_name e \<in> {''done'', ''error''})"

definition expired_metadata :: "bool \<Rightarrow> jdict \<Rightarrow> jdict" where
  "expired_metadata cancelled meta =
     (if dict_get meta ''status'' \<noteq> Some (JStr ''streaming'') then meta
      else (let m = dict_set ''runtime_active'' (JBool False)
                      (dict_set ''status'' (JStr (if cancelled then ''ready'' else ''error'')) meta)
            in if cancelled then m
               else dict_set ''error_message'' (JStr lease_expired_text)
                      (dict_set ''error_code'' (JStr ''DEEPSPACE_WORKER_LEASE_EXPIRED'') m)))"

definition expired_frame :: "bool \<Rightarrow> scope \<Rightarrow> string" where
  "expired_frame cancelled sc =
     (if cancelled
      then sse ''done'' [(''conversation_id'', JStr (uuid_str (snd (snd sc)))), (''status'', JStr ''cancelled'')]
      else sse ''error'' [(''code'', JStr ''DEEPSPACE_WORKER_LEASE_EXPIRED''), (''message'', JStr lease_expired_text),
             (''error_category'', JStr ''runtime'')])"

text \<open>An append that fails is logged; the metadata is committed before it.\<close>

definition close_expired_worker_stream :: "int \<Rightarrow> scope \<Rightarrow> string \<Rightarrow> agent_run \<Rightarrow> db \<Rightarrow> db" where
  "close_expired_worker_stream now sc rid r s =
     (let cancelled = (r_error r = Some ''cancelled_after_worker_lease_expired'') in
      if \<not> cancelled \<and> r_error r \<noteq> Some ''worker_lease_expired'' then s
      else if \<exists>e \<in> set (events s). terminal_event_of sc rid e then s
      else (let s1 = s\<lparr>messages := upd_where (assistant_of sc r)
                         (\<lambda>m. m\<lparr>m_meta := expired_metadata cancelled (m_meta m)\<rparr>) (messages s)\<rparr>
            in case append_event now sc rid (expired_frame cancelled sc) (Some (r_id r)) s1 of
                 Inl _ \<Rightarrow> s1 | Inr (_, s2) \<Rightarrow> s2))"

section \<open>Recovery\<close>

text \<open>
  \<open>_recover_stale_runs_for_terminal_turns\<close>.  \<open>s0\<close> is the committed store the queries of the loop read,
  \<open>s\<close> the session with the changes of the earlier iterations.
\<close>

definition reported_status :: "string \<Rightarrow> app_error + string" where
  "reported_status frame =
     (case split_once ''data:'' frame of
        None \<Rightarrow> Inr ''ready''
      | Some (_, rest) \<Rightarrow> (case json_loads (strip rest) of
          None \<Rightarrow> Inr ''ready''
        | Some (JObj d) \<Rightarrow> Inr (get_str_or d ''status'' ''ready'')
        | Some _ \<Rightarrow> Inl (AttributeErr ''get'')))"

definition reconciled_run_status :: "string \<Rightarrow> run_status" where
  "reconciled_run_status reported =
     (let st = run_status_of (if reported = ''completed'' then ''ready'' else reported)
      in if st \<in> {RReady, RCancelled, RFailed, RBlocked, RAwaitingUser, RAwaitingApproval} then st else RReady)"

definition reconciled_turn_status :: "run_status \<Rightarrow> turn_status" where
  "reconciled_turn_status st =
     (if st = RCancelled then Cancelled else if st \<in> {RFailed, RBlocked} then Failed
      else if st = RAwaitingUser then AwaitingUser else if st = RAwaitingApproval then AwaitingApproval
      else Completed)"

definition interrupted_text :: string where
  "interrupted_text =
     ''DeepSpace stopped before this response finished. The saved prompt is available to retry.''"

definition filled :: "string option \<Rightarrow> string \<Rightarrow> string" where
  "filled v dflt = (case v of None \<Rightarrow> dflt | Some x \<Rightarrow> if x = [] then dflt else x)"

text \<open>What an iteration writes: the turn, the run's status and error, the assistant's metadata (if it is
  written), and whether the stream still has to be closed.\<close>

record reconciliation =
  rc_turn :: turn
  rc_status :: run_status
  rc_error :: "string option"
  rc_meta :: "jdict option"
  rc_interrupted :: bool

definition streaming_to :: "string \<Rightarrow> jdict \<Rightarrow> jdict" where
  "streaming_to status meta =
     (if dict_get meta ''status'' = Some (JStr ''streaming'') then dict_set ''status'' (JStr status) meta else meta)"

definition reconcile_interrupted :: "int \<Rightarrow> agent_run \<Rightarrow> turn \<Rightarrow> reconciliation" where
  "reconcile_interrupted now r t =
     (let cancelled = (r_cancel r \<or> t_status t = Cancelled) in
      \<lparr>rc_turn = (if cancelled then t\<lparr>t_status := Cancelled, t_error := None, t_completed := Some now\<rparr>
                  else t\<lparr>t_status := Failed, t_error := Some interrupted_text, t_completed := Some now\<rparr>),
       rc_status = (if cancelled then RCancelled else RFailed),
       rc_error = Some (if cancelled then ''cancelled_after_worker_lease_expired'' else ''worker_lease_expired''),
       rc_meta = None, rc_interrupted = True\<rparr>)"

definition reconcile_error :: "int \<Rightarrow> agent_run \<Rightarrow> turn \<Rightarrow> jdict \<Rightarrow> reconciliation" where
  "reconcile_error now r t meta =
     (let err = filled (t_error t) ''DeepSpace could not complete this response.'';
          m = (if dict_get meta ''status'' = Some (JStr ''streaming'')
               then dict_set ''error_message'' (JStr err) (dict_set ''error_code'' (JStr ''DEEPSPACE_WORKER_FAILED'')
                      (dict_set ''status'' (JStr ''error'') meta))
               else meta)
      in \<lparr>rc_turn = t\<lparr>t_status := Failed, t_error := Some err, t_completed := Some now\<rparr>, rc_status = RFailed,
          rc_error = Some (filled (r_error r) ''terminal_error_event_persisted''),
          rc_meta = Some (dict_set ''runtime_active'' (JBool False) m), rc_interrupted = False\<rparr>)"

definition reconcile_done :: "int \<Rightarrow> agent_run \<Rightarrow> turn \<Rightarrow> jdict \<Rightarrow> string \<Rightarrow> reconciliation" where
  "reconcile_done now r t meta reported =
     (let st = reconciled_run_status reported; ts = reconciled_turn_status st;
          m = streaming_to (if st = RFailed then ''error'' else if st = RBlocked then ''blocked'' else ''ready'') meta
      in \<lparr>rc_turn = t\<lparr>t_status := ts, t_completed := (if ts \<in> set terminal_queue_statuses then Some now else None)\<rparr>,
          rc_status = st, rc_error = r_error r,
          rc_meta = Some (dict_set ''runtime_active'' (JBool (st \<in> {RAwaitingUser, RAwaitingApproval})) m),
          rc_interrupted = False\<rparr>)"

definition reconcile :: "int \<Rightarrow> agent_run \<Rightarrow> turn \<Rightarrow> jdict \<Rightarrow> run_event option \<Rightarrow> app_error + reconciliation" where
  "reconcile now r t meta ev =
     (case ev of
        None \<Rightarrow> Inr (reconcile_interrupted now r t)
      | Some e \<Rightarrow>
          (if e_name e = ''error'' then Inr (reconcile_error now r t meta)
           else (case reported_status (e_frame e) of
               Inl err \<Rightarrow> Inl err
             | Inr reported \<Rightarrow> Inr (reconcile_done now r t meta reported))))"

definition apply_reconciliation :: "int \<Rightarrow> nat \<Rightarrow> nat \<Rightarrow> reconciliation \<Rightarrow> db \<Rightarrow> db" where
  "apply_reconciliation now run msg rc s =
     (let s1 = upd_turn (t_id (rc_turn rc)) (\<lambda>_. rc_turn rc) s;
          s2 = upd_run run (\<lambda>r. r\<lparr>r_status := rc_status rc, r_error := rc_error rc, r_updated := now,
                               r_heartbeat := None\<rparr>) s1
      in case rc_meta rc of
           None \<Rightarrow> s2
         | Some meta \<Rightarrow> s2\<lparr>messages := upd_where (\<lambda>m. m_id m = msg) (\<lambda>m. m\<lparr>m_meta := meta\<rparr>) (messages s2)\<rparr>)"

text \<open>The terminal turn of the request, as the query of the loop selects it.\<close>

definition ended_before :: "int \<Rightarrow> string \<Rightarrow> turn \<Rightarrow> bool" where
  "ended_before cutoff rid t =
     (t_request t = rid \<and> t_status t \<in> set terminal_queue_statuses \<and>
      (case t_completed t of None \<Rightarrow> False | Some c \<Rightarrow> c < cutoff))"

definition reconcile_request ::
  "int \<Rightarrow> scope \<Rightarrow> int \<Rightarrow> db \<Rightarrow> agent_run \<Rightarrow> message \<Rightarrow> string \<Rightarrow> db \<Rightarrow> app_error + reconciliation option" where
  "reconcile_request now sc cutoff s0 r m rid s =
     (case first_row (turns_of sc (ended_before cutoff rid) s0) of
        None \<Rightarrow> Inr None
      | Some t0 \<Rightarrow>
          (let t = or_else (get_turn (t_id t0) s) t0;
               ev = first_row (order_by (\<lambda>e. - e_created e) (filter (terminal_event_of sc rid) (events s0)))
           in map_sum id Some (reconcile now r t (m_meta m) ev)))"

definition recover_run ::
  "int \<Rightarrow> scope \<Rightarrow> int \<Rightarrow> db \<Rightarrow> agent_run \<Rightarrow> db \<times> nat \<times> (string \<times> agent_run) list \<Rightarrow>
     app_error + (db \<times> nat \<times> (string \<times> agent_run) list)" where
  "recover_run now sc cutoff s0 r acc = (case acc of (s, n, closing) \<Rightarrow>
     (case first_row (filter (assistant_of sc r) (messages s)) of
        None \<Rightarrow> Inr acc
      | Some m \<Rightarrow>
          (let rid = strip (get_str_or (m_meta m) ''client_request_id'' []) in
           if rid = [] then Inr acc
           else (case reconcile_request now sc cutoff s0 r m rid s of
                Inl err \<Rightarrow> Inl err
              | Inr None \<Rightarrow> Inr acc
              | Inr (Some rc) \<Rightarrow> Inr (apply_reconciliation now (r_id r) (m_id m) rc s, Suc n,
                  closing @ (if rc_interrupted rc then [(rid, r\<lparr>r_error := rc_error rc\<rparr>)] else []))))))"

fun recover_runs ::
  "int \<Rightarrow> scope \<Rightarrow> int \<Rightarrow> db \<Rightarrow> agent_run list \<Rightarrow> db \<times> nat \<times> (string \<times> agent_run) list \<Rightarrow>
     app_error + (db \<times> nat \<times> (string \<times> agent_run) list)" where
  "recover_runs now sc cutoff s0 [] acc = Inr acc"
| "recover_runs now sc cutoff s0 (r # rs) acc =
     (case recover_run now sc cutoff s0 r acc of
        Inl err \<Rightarrow> Inl err | Inr acc' \<Rightarrow> recover_runs now sc cutoff s0 rs acc')"

definition lease_expired :: "int \<Rightarrow> scope \<Rightarrow> agent_run \<Rightarrow> bool" where
  "lease_expired cutoff sc r =
     (r_scope r = sc \<and> r_status r \<in> set worker_run_statuses \<and>
      (case r_heartbeat r of None \<Rightarrow> True | Some h \<Rightarrow> h < cutoff))"

definition close_streams :: "int \<Rightarrow> scope \<Rightarrow> (string \<times> agent_run) list \<Rightarrow> db \<Rightarrow> db" where
  "close_streams now sc closing s = fold (\<lambda>(rid, r). close_expired_worker_stream now sc rid r) closing s"

definition recover_terminal_runs :: "int \<Rightarrow> scope \<Rightarrow> int \<Rightarrow> db \<Rightarrow> nat tx" where
  "recover_terminal_runs now sc cutoff s =
     (case recover_runs now sc cutoff s (filter (lease_expired cutoff sc) (runs s)) (s, 0, []) of
        Inl err \<Rightarrow> Inl err
      | Inr (s1, n, closing) \<Rightarrow>
          (if n = 0 then Inr (0, s) else Inr (n, publish_queue_event sc (close_streams now sc closing s1))))"

definition stale_claim :: "int \<Rightarrow> scope \<Rightarrow> turn \<Rightarrow> bool" where
  "stale_claim cutoff sc t =
     (t_scope t = sc \<and> t_status t \<in> {Running, Cancelling} \<and>
      (case t_started t of None \<Rightarrow> False | Some h \<Rightarrow> h < cutoff))"

definition run_of_turn :: "scope \<Rightarrow> db \<Rightarrow> turn \<Rightarrow> agent_run option" where
  "run_of_turn sc s t = first_row (newest_runs (\<lambda>r. r_scope r = sc \<and> t_request t \<in> set (run_requests sc r s)) s)"

text \<open>The outcome a dead dispatcher or worker left for a stale claim.\<close>

definition settle_claim :: "int \<Rightarrow> agent_run option \<Rightarrow> turn \<Rightarrow> turn" where
  "settle_claim now ro t =
     (case ro of
        None \<Rightarrow> t\<lparr>t_status := Queued, t_started := None\<rparr>
      | Some r \<Rightarrow>
          (if r_status r \<in> {RFailed, RBlocked}
           then t\<lparr>t_status := Failed, t_error := Some (trunc 2000 (filled (r_error r) ''DeepSpace agent run failed.'')),
                  t_completed := Some now\<rparr>
           else if r_status r = RCompleted then t\<lparr>t_status := Completed, t_completed := Some now\<rparr>
           else if r_status r = RCancelled then t\<lparr>t_status := Cancelled, t_completed := Some now\<rparr>
           else t\<lparr>t_status := Queued, t_started := None\<rparr>))"

definition expired_run :: "agent_run \<Rightarrow> bool" where
  "expired_run r = (r_status r \<in> {RFailed, RBlocked} \<or>
     (r_status r = RCancelled \<and> r_error r = Some ''cancelled_after_worker_lease_expired''))"

definition run_blocks :: "scope \<Rightarrow> db \<Rightarrow> bool" where
  "run_blocks sc s = (\<exists>r \<in> set (runs s). r_scope r = sc \<and> r_status r \<in> set active_run_statuses)"

definition recover_claims :: "int \<Rightarrow> scope \<Rightarrow> int \<Rightarrow> db \<Rightarrow> nat \<times> db" where
  "recover_claims now sc cutoff s =
     (let ts = filter (stale_claim cutoff sc) (turns s) in
      if ts = [] \<or> run_blocks sc s then (0, s)
      else (let s1 = s\<lparr>turns := upd_where (stale_claim cutoff sc)
                                  (\<lambda>t. settle_claim now (run_of_turn sc s t) t) (turns s)\<rparr>;
                closing = List.map_filter (\<lambda>t. case run_of_turn sc s t of None \<Rightarrow> None
                            | Some r \<Rightarrow> if expired_run r then Some (t_request t, r) else None) ts
            in (length ts, publish_queue_event sc (close_streams now sc closing s1))))"

definition recover_stale_claims :: "int \<Rightarrow> scope \<Rightarrow> int \<Rightarrow> db \<Rightarrow> nat tx" where
  "recover_stale_claims now sc stale_after s =
     (case recover_terminal_runs now sc (now - stale_after) s of
        Inl err \<Rightarrow> Inl err
      | Inr (n, s1) \<Rightarrow> (case recover_claims now sc (now - stale_after) s1 of (k, s2) \<Rightarrow> Inr (k + n, s2)))"

section \<open>Claiming and finishing\<close>

definition resume_paused :: "scope \<Rightarrow> bool \<Rightarrow> db \<Rightarrow> string option \<times> db" where
  "resume_paused sc commit s =
     (if \<not> has_conversation sc s then (None, s)
      else (case first_row (order_by t_sequence (turns_of sc (\<lambda>t. t_status t \<in> set paused_queue_statuses) s)) of
         None \<Rightarrow> (None, s)
       | Some t \<Rightarrow>
           (let s1 = upd_turn (t_id t) (\<lambda>t. t\<lparr>t_status := Running, t_error := None\<rparr>) s
            in (Some (t_request t), if commit then publish_queue_event sc s1 else s1))))"

definition active_turn_request_id :: "scope \<Rightarrow> db \<Rightarrow> string option" where
  "active_turn_request_id sc s = map_option t_request (first_row (order_by t_sequence (turns_of sc turn_active s)))"

text \<open>\<open>ORDER BY priority DESC, sequence ASC\<close> among the queued turns.\<close>

definition queue_order :: "turn \<Rightarrow> int \<times> int" where
  "queue_order t = (- t_priority t, t_sequence t)"

definition pending_turns :: "scope \<Rightarrow> db \<Rightarrow> turn list" where
  "pending_turns sc s = order_by queue_order (turns_of sc (\<lambda>t. t_status t = Queued) s)"

record claimed_turn =
  ct_scope :: scope
  ct_request :: string
  ct_regenerate :: "nat option"
  ct_resume_from :: "string option"
  ct_prompt :: string
  ct_thinking :: bool
  ct_effort :: "string option"
  ct_roles :: "string list"
  ct_permissions :: "string list"
  ct_files :: "string list"

definition claimed_of :: "turn \<Rightarrow> claimed_turn" where
  "claimed_of t = \<lparr>ct_scope = t_scope t, ct_request = t_request t, ct_regenerate = t_regenerate t,
     ct_resume_from = t_resume_from t, ct_prompt = t_prompt t, ct_thinking = t_thinking t, ct_effort = t_effort t,
     ct_roles = t_roles t, ct_permissions = t_permissions t, ct_files = t_files t\<rparr>"

text \<open>The part of \<open>claim_next\<close> under the conversation lock.\<close>

definition claim_locked :: "int \<Rightarrow> scope \<Rightarrow> db \<Rightarrow> claimed_turn option \<times> db" where
  "claim_locked now sc s =
     (if \<not> has_conversation sc s \<or> qs_paused (state sc s) \<or> turns_of sc turn_active s \<noteq> [] \<or> run_blocks sc s
      then (None, s)
      else (case first_row (pending_turns sc s) of
         None \<Rightarrow> (None, s)
       | Some t \<Rightarrow> (Some (claimed_of t), publish_queue_event sc
                      (upd_turn (t_id t) (\<lambda>t. t\<lparr>t_status := Running, t_started := Some now\<rparr>) s))))"

definition claim_next :: "int \<Rightarrow> scope \<Rightarrow> db \<Rightarrow> claimed_turn option session" where
  "claim_next now sc s =
     (case recover_stale_claims now sc stale_dispatch_after s of
        Inl err \<Rightarrow> (Inl err, s)
      | Inr (_, s1) \<Rightarrow>
          (case resume_after_failure sc s1 of
             Inl err \<Rightarrow> (Inl err, s1)
           | Inr (_, s2) \<Rightarrow> (case claim_locked now sc s2 of (c, s3) \<Rightarrow> (Inr c, s3))))"

definition finish_status :: "string \<Rightarrow> turn_status" where
  "finish_status status =
     (if status = ''completed'' then Completed else if status = ''cancelled'' then Cancelled
      else if status = ''awaiting_user'' then AwaitingUser else if status = ''awaiting_approval'' then AwaitingApproval
      else Failed)"

definition finish_turn :: "int \<Rightarrow> string \<Rightarrow> string option \<Rightarrow> turn \<Rightarrow> turn" where
  "finish_turn now status err t =
     t\<lparr>t_status := finish_status status, t_error := nonempty_trunc 2000 err,
       t_completed := (if finish_status status \<in> set terminal_queue_statuses then Some now else None)\<rparr>"

definition finish :: "int \<Rightarrow> scope \<Rightarrow> string \<Rightarrow> string \<Rightarrow> string option \<Rightarrow> db \<Rightarrow> bool \<times> db" where
  "finish now sc rid status err s =
     (case find_turn sc rid s of
        None \<Rightarrow> (False, s)
      | Some t \<Rightarrow> (True, publish_queue_event sc (upd_turn (t_id t) (finish_turn now status err) s)))"

definition next_queued_request_id :: "scope \<Rightarrow> db \<Rightarrow> string option" where
  "next_queued_request_id sc s = map_option t_request (first_row (pending_turns sc s))"

text \<open>\<open>case((status == 'failed', 1), else_=0)\<close>, then the queue order.\<close>

definition listing_order :: "turn \<Rightarrow> int \<times> int \<times> int" where
  "listing_order t = (if t_status t = Failed then 1 else 0, queue_order t)"

definition retry_parents :: "turn list \<Rightarrow> string list" where
  "retry_parents rows = filter (\<lambda>rid. rid \<noteq> []) (List.map_filter t_resume_from rows)"

definition open_turns :: "scope \<Rightarrow> db \<Rightarrow> turn list" where
  "open_turns sc s =
     (let rows = order_by listing_order
                   (turns_of sc (\<lambda>t. t_status t \<in> set queue_visible_statuses \<or> t_status t = Completed) s)
      in filter (\<lambda>t. t_status t \<in> set queue_visible_statuses \<and>
                     (t_status t \<noteq> Failed \<or> t_request t \<notin> set (retry_parents rows))) rows)"

definition list_open :: "int \<Rightarrow> scope \<Rightarrow> db \<Rightarrow> turn list tx" where
  "list_open now sc s =
     (case recover_stale_claims now sc stale_dispatch_after s of
        Inl err \<Rightarrow> Inl err
      | Inr (_, s1) \<Rightarrow> Inr (open_turns sc s1, s1))"

section \<open>What the services beside the queue leave alone\<close>

interpretation announce: neutral_service "publish_queue_event sc" for sc
  by unfold_locales (auto simp: publish_queue_event_def split: prod.split)

interpretation queue_act: neutral_service "queue_activity now sc kind bytes" for now sc kind bytes
  by unfold_locales (auto simp: queue_activity_def activity.core activity.ids split: prod.split)

interpretation turn_guard: neutral_guard "turn_capacity now sc additional replacing" for now sc additional replacing
  by unfold_locales (auto simp: turn_capacity_def capacity.guard_core capacity.guard_ids)

interpretation turn_table: keyed_table t_id turns get_turn upd_turn
  by unfold_locales (simp_all add: get_turn_def upd_turn_def)

lemmas announce_frame [simp] = announce.frame
lemmas queue_act_frame [simp] = queue_act.frame

lemma publish_queue_event_ids [simp]: "next_id (publish_queue_event sc s) = next_id s"
  by (simp add: publish_queue_event_def split: prod.split)

lemma upd_turn_frame [simp]:
  "turns (upd_turn k f s) = upd_where (\<lambda>t. t_id t = k) f (turns s)" "controls (upd_turn k f s) = controls s"
  "conversations (upd_turn k f s) = conversations s" "runs (upd_turn k f s) = runs s"
  "events (upd_turn k f s) = events s" "messages (upd_turn k f s) = messages s" "next_id (upd_turn k f s) = next_id s"
  by (simp_all add: upd_turn_def)

lemma in_turns_of [simp]: "t \<in> set (turns_of sc P s) \<longleftrightarrow> t \<in> set (turns s) \<and> t_scope t = sc \<and> P t"
  by (auto simp: turns_of_def)

lemma first_turn_of: "first_row (turns_of sc P s) = Some t \<Longrightarrow> t \<in> set (turns s) \<and> t_scope t = sc \<and> P t"
  using first_row_in by fastforce

lemmas find_turn_in = first_turn_of [where P = "\<lambda>t. t_request t = rid" for rid, folded find_turn_def]

lemma find_control_in: "find_control sc s = Some c \<Longrightarrow> c \<in> set (controls s) \<and> c_scope c = sc"
  using first_row_in by (fastforce simp: find_control_def)

text \<open>Closing a stream touches the messages and the event log only.\<close>

lemma close_stream_frame:
  "turns (close_expired_worker_stream now sc rid r s) = turns s"
  "controls (close_expired_worker_stream now sc rid r s) = controls s"
  "conversations (close_expired_worker_stream now sc rid r s) = conversations s"
  "runs (close_expired_worker_stream now sc rid r s) = runs s"
  "next_id s \<le> next_id (close_expired_worker_stream now sc rid r s)"
proof -
  let ?c = "close_expired_worker_stream now sc rid r s"
  let ?cn = "r_error r = Some ''cancelled_after_worker_lease_expired''"
  let ?s1 = "s\<lparr>messages := upd_where (assistant_of sc r) (\<lambda>m. m\<lparr>m_meta := expired_metadata ?cn (m_meta m)\<rparr>) (messages s)\<rparr>"
  have "?c = s \<or> ?c = ?s1 \<or> (\<exists>a. append_event now sc rid (expired_frame ?cn sc) (Some (r_id r)) ?s1 = Inr (a, ?c))"
    unfolding close_expired_worker_stream_def Let_def by (simp split: sum.split prod.split)
  then consider (same) "?c = s" | (meta) "?c = ?s1"
    | (event) a where "append_event now sc rid (expired_frame ?cn sc) (Some (r_id r)) ?s1 = Inr (a, ?c)" by blast
  then have "turns ?c = turns s \<and> controls ?c = controls s \<and> conversations ?c = conversations s \<and> runs ?c = runs s \<and>
      next_id s \<le> next_id ?c"
  proof cases
    case event
    show ?thesis by (rule append_event_rows [OF event]) (auto dest: log_core_fields)
  qed simp_all
  then show "turns ?c = turns s" "controls ?c = controls s" "conversations ?c = conversations s" "runs ?c = runs s"
    "next_id s \<le> next_id ?c" by simp_all
qed

lemma close_streams_frame [simp]:
  "turns (close_streams now sc closing s) = turns s" "controls (close_streams now sc closing s) = controls s"
  "conversations (close_streams now sc closing s) = conversations s" "runs (close_streams now sc closing s) = runs s"
  by (induction closing arbitrary: s) (auto simp: close_streams_def close_stream_frame)

lemma close_streams_ids: "next_id s \<le> next_id (close_streams now sc closing s)"
proof (induction closing arbitrary: s)
  case (Cons p closing)
  then show ?case
    using order_trans [OF close_stream_frame(5) Cons.IH] by (auto simp: close_streams_def split: prod.split)
qed (simp add: close_streams_def)

section \<open>Well-formed queues\<close>

text \<open>
  Ids are unique and below the next one, request ids and sequences are unique in their conversation, at
  most one turn of a conversation is active, and at most 100 are unfinished.
\<close>

definition queue_wf :: "db \<Rightarrow> bool" where
  "queue_wf s =
     (distinct (map t_id (turns s)) \<and> (\<forall>t \<in> set (turns s). t_id t < next_id s) \<and>
      distinct (map (\<lambda>t. (t_scope t, t_request t)) (turns s)) \<and>
      distinct (map (\<lambda>t. (t_scope t, t_sequence t)) (turns s)) \<and>
      (\<forall>sc. length (turns_of sc turn_active s) \<le> 1 \<and>
            length (turns_of sc queueable s) \<le> max_turns_per_conversation))"

lemma queue_wf_bounds:
  assumes "queue_wf s"
  shows "length (turns_of sc turn_active s) \<le> 1" "length (turns_of sc queueable s) \<le> max_turns_per_conversation"
    and "distinct (map t_id (turns s))" and "\<forall>t \<in> set (turns s). t_id t < next_id s"
    and "distinct (map (\<lambda>t. (t_scope t, t_request t)) (turns s))"
    and "distinct (map (\<lambda>t. (t_scope t, t_sequence t)) (turns s))"
  using assms unfolding queue_wf_def by blast+

text \<open>Most operations only settle turns: none is added, none becomes active or unfinished again.\<close>

definition settles :: "turn \<Rightarrow> turn \<Rightarrow> bool" where
  "settles t t' =
     (t_id t' = t_id t \<and> t_scope t' = t_scope t \<and> t_request t' = t_request t \<and> t_sequence t' = t_sequence t \<and>
      (turn_active t' \<longrightarrow> turn_active t) \<and> (queueable t' \<longrightarrow> queueable t))"

definition turns_settle :: "db \<Rightarrow> db \<Rightarrow> bool" where
  "turns_settle s s' = list_all2 settles (turns s) (turns s')"

lemma settles_refl [simp]: "settles t t"
  by (simp add: settles_def)

lemma settles_trans: "settles a b \<Longrightarrow> settles b c \<Longrightarrow> settles a c"
  by (simp add: settles_def)

lemma turns_settle_same: "turns s' = turns s \<Longrightarrow> turns_settle s s'"
  by (simp add: turns_settle_def list_all2_refl)

lemma turns_settle_trans: "turns_settle a b \<Longrightarrow> turns_settle b c \<Longrightarrow> turns_settle a c"
  unfolding turns_settle_def using list_all2_trans [of settles settles settles] settles_trans by blast

lemma turns_settle_upd:
  assumes "turns s' = upd_where P f (turns s)" and "\<And>t. t \<in> set (turns s) \<Longrightarrow> P t \<Longrightarrow> settles t (f t)"
  shows "turns_settle s s'"
  using assms(2) unfolding turns_settle_def assms(1) by (auto simp: upd_where_def list_all2_map2 intro!: list_all2_refl list.rel_refl_strong)

lemma turns_settle_one:
  assumes "turns s' = upd_where (\<lambda>x. t_id x = t_id t) f (turns s)" and "distinct (map t_id (turns s))"
    and "t \<in> set (turns s)" and "settles t (f t)"
  shows "turns_settle s s'"
  by (rule turns_settle_upd [OF assms(1)]) (use assms distinct_map_inj [of t_id "turns s"] in auto)

lemma list_all2_length_filter:
  assumes "list_all2 R xs ys" and "\<And>x y. R x y \<Longrightarrow> Q y \<Longrightarrow> P x"
  shows "length (filter Q ys) \<le> length (filter P xs)"
  using assms(1) by (induction rule: list_all2_induct) (auto dest: assms(2) intro: le_SucI)

lemma list_all2_map_same:
  assumes "list_all2 R xs ys" and "\<And>x y. R x y \<Longrightarrow> g y = g x"
  shows "map g ys = map g xs"
  using assms(1) by (induction rule: list_all2_induct) (auto dest: assms(2))

lemma turns_settle_wf:
  assumes "turns_settle s s'" and "next_id s \<le> next_id s'" and "queue_wf s"
  shows "queue_wf s'"
proof -
  note l = assms(1) [unfolded turns_settle_def]
  note same = list_all2_map_same [OF l]
  have ids: "map t_id (turns s') = map t_id (turns s)" by (rule same) (simp add: settles_def)
  have "map (\<lambda>t. (t_scope t, t_request t)) (turns s') = map (\<lambda>t. (t_scope t, t_request t)) (turns s)"
    "map (\<lambda>t. (t_scope t, t_sequence t)) (turns s') = map (\<lambda>t. (t_scope t, t_sequence t)) (turns s)"
    by (rule same; simp add: settles_def)+
  moreover have "t_id t < next_id s'" if "t \<in> set (turns s')" for t
  proof -
    have "t_id t \<in> set (map t_id (turns s))" using that ids by (metis image_eqI list.set_map)
    then show ?thesis using assms(2,3) by (auto simp: queue_wf_def)
  qed
  moreover have "length (turns_of sc turn_active s') \<le> length (turns_of sc turn_active s)"
    "length (turns_of sc queueable s') \<le> length (turns_of sc queueable s)" for sc
    unfolding turns_of_def by (rule list_all2_length_filter [OF l]; simp add: settles_def)+
  then have "length (turns_of sc turn_active s') \<le> 1 \<and> length (turns_of sc queueable s') \<le> max_turns_per_conversation" for sc
    using assms(3) unfolding queue_wf_def by (meson order_trans)
  ultimately show ?thesis using assms(3) ids by (simp add: queue_wf_def)
qed

text \<open>The contract of a settling operation, as the step relation below uses it.\<close>

locale settling =
  fixes serve :: "db \<Rightarrow> db"
  assumes settle: "queue_wf s \<Longrightarrow> turns_settle s (serve s)"
    and settle_ids: "next_id s \<le> next_id (serve s)"
begin

lemma keeps_wf: "queue_wf s \<Longrightarrow> queue_wf (serve s)"
  using turns_settle_wf settle settle_ids by blast

lemma keeps_keys:
  assumes "queue_wf s"
  shows "map t_request (turns (serve s)) = map t_request (turns s)"
  by (rule list_all2_map_same [OF settle [OF assms, unfolded turns_settle_def]]) (simp add: settles_def)

end

definition after :: "'a tx \<Rightarrow> db \<Rightarrow> db" where
  "after r s = (case r of Inl _ \<Rightarrow> s | Inr (_, s') \<Rightarrow> s')"

lemma after_Inl [simp]: "after (Inl e) s = s"
  by (simp add: after_def)

lemma after_Inr [simp]: "after (Inr (x, s')) s = s'"
  by (simp add: after_def)

section \<open>Operations that settle turns\<close>

lemma set_paused_frame:
  assumes "set_paused_locked now sc paused reason failed s = Inr s'"
  shows "turns s' = turns s" "conversations s' = conversations s" "runs s' = runs s" "next_id s' = next_id s"
  using assms by (auto simp: set_paused_locked_def Let_def split: if_splits)

lemma cancel_settles: "queueable t \<Longrightarrow> settles t (cancel_turn now t)"
  by (auto simp: settles_def cancel_turn_def queueable_def turn_active_def queueable_statuses_def
      active_queue_statuses_def paused_queue_statuses_def)

lemma clear_settles: "queueable t \<or> t_status t = Failed \<Longrightarrow> settles t (clear_turn now t)"
  by (auto simp: settles_def clear_turn_def queueable_def turn_active_def queueable_statuses_def active_queue_statuses_def)

lemma claim_settles: "stale_claim cutoff sc t \<Longrightarrow> settles t (settle_claim now ro t)"
  by (auto simp: settles_def stale_claim_def settle_claim_def queueable_def turn_active_def queueable_statuses_def
      active_queue_statuses_def split: option.split)

lemma settle_found:
  assumes "queue_wf s" and "first_row (turns_of sc P s) = Some t" and "settles t (f t)"
    and "turns s' = upd_where (\<lambda>x. t_id x = t_id t) f (turns s)"
  shows "turns_settle s s'"
  using turns_settle_one [OF assms(4) _ _ assms(3)] first_turn_of [OF assms(2)] assms(1) by (simp add: queue_wf_def)

interpretation pause_op: settling "\<lambda>s. after (pause now sc reason failed s) s" for now sc reason failed
  by unfold_locales (auto simp: pause_def after_def Let_def turns_settle_same set_paused_frame
      intro: order_trans [OF eq_refl queue_act.ids] split: sum.split)

interpretation resume_op: settling "\<lambda>s. after (resume now sc s) s" for now sc
  by unfold_locales (auto simp: resume_def after_def Let_def turns_settle_same set_paused_frame
      intro: order_trans [OF eq_refl queue_act.ids] split: sum.split)

interpretation resume_failure_op: settling "\<lambda>s. after (resume_after_failure sc s) s" for sc
  by unfold_locales (auto simp: resume_after_failure_def after_def turns_settle_same split: sum.split)

interpretation release_op: settling "\<lambda>s. snd (release_claim sc rid s)" for sc rid
proof unfold_locales
  fix s assume wf: "queue_wf s"
  show "turns_settle s (snd (release_claim sc rid s))"
  proof (cases "first_row (turns_of sc (\<lambda>t. t_request t = rid \<and> t_status t = Running) s)")
    case (Some t)
    then have "t_status t = Running" using first_turn_of by blast
    then show ?thesis using Some
      by (intro settle_found [OF wf Some, of "\<lambda>t. t\<lparr>t_status := Queued, t_started := None\<rparr>"])
        (auto simp: release_claim_def settles_def turn_active_def queueable_def active_queue_statuses_def queueable_statuses_def)
  qed (simp add: release_claim_def turns_settle_same)
qed (auto simp: release_claim_def split: option.split)

interpretation cancel_op: settling "\<lambda>s. snd (request_cancel now sc rid s)" for now sc rid
proof unfold_locales
  fix s assume wf: "queue_wf s"
  show "turns_settle s (snd (request_cancel now sc rid s))"
  proof (cases "first_row (turns_of sc (\<lambda>t. t_request t = rid \<and> queueable t) s)")
    case (Some t)
    then have "queueable t" using first_turn_of by blast
    with Some show ?thesis
      by (intro settle_found [OF wf Some, of "cancel_turn now"]) (auto simp: request_cancel_def cancel_settles)
  qed (simp add: request_cancel_def turns_settle_same)
qed (auto simp: request_cancel_def split: option.split)

interpretation cancel_by_id_op: settling "\<lambda>s. after (request_cancel_by_request_id now tn user rid s) s" for now tn user rid
proof unfold_locales
  fix s assume wf: "queue_wf s"
  show "turns_settle s (after (request_cancel_by_request_id now tn user rid s) s)"
  proof (cases "\<exists>t. one_or_none (cancellable_turns tn user rid s) = Inr (Some t)")
    case True
    then obtain t where t: "one_or_none (cancellable_turns tn user rid s) = Inr (Some t)" by blast
    then have "t \<in> set (cancellable_turns tn user rid s)" by (simp add: one_or_none_Some)
    then have "t \<in> set (turns s)" "queueable t" by (auto simp: cancellable_turns_def)
    with t wf show ?thesis
      by (intro turns_settle_one [of _ t "cancel_turn now"])
        (auto simp: request_cancel_by_request_id_def queue_wf_def cancel_settles)
  qed (auto simp: request_cancel_by_request_id_def turns_settle_same after_def split: sum.split option.split)
qed (auto simp: request_cancel_by_request_id_def after_def split: sum.split option.split)

interpretation cancel_all_op: settling "\<lambda>s. snd (cancel_all_for_conversation now sc commit s)" for now sc commit
proof unfold_locales
  fix s
  show "turns_settle s (snd (cancel_all_for_conversation now sc commit s))"
  proof (cases "turns_of sc queueable s = []")
    case False
    then show ?thesis
      by (intro turns_settle_upd [where P = "\<lambda>t. t_scope t = sc \<and> queueable t" and f = "cancel_turn now"])
        (auto simp: cancel_all_for_conversation_def Let_def cancel_settles)
  qed (simp add: cancel_all_for_conversation_def turns_settle_same)
qed (auto simp: cancel_all_for_conversation_def Let_def)

interpretation clear_op: settling "\<lambda>s. snd (clear_for_conversation now sc commit s)" for now sc commit
proof unfold_locales
  fix s
  show "turns_settle s (snd (clear_for_conversation now sc commit s))"
    by (intro turns_settle_upd [where P = "\<lambda>t. t_scope t = sc \<and> (queueable t \<or> t_status t = Failed)" and f = "clear_turn now"])
      (auto simp: clear_for_conversation_def Let_def clear_settles)
qed (auto simp: clear_for_conversation_def Let_def)

interpretation promote_op: settling "\<lambda>s. snd (promote sc rid s)" for sc rid
  by unfold_locales
    (auto simp: promote_def Let_def turns_settle_same settles_def turn_active_def queueable_def split: option.split
      intro!: turns_settle_upd [where P = "\<lambda>x. t_id x = k" and f = "\<lambda>t. t\<lparr>t_priority := p\<rparr>" for k p])

interpretation resume_paused_op: settling "\<lambda>s. snd (resume_paused sc commit s)" for sc commit
proof unfold_locales
  fix s assume wf: "queue_wf s"
  let ?o = "first_row (order_by t_sequence (turns_of sc (\<lambda>t. t_status t \<in> set paused_queue_statuses) s))"
  show "turns_settle s (snd (resume_paused sc commit s))"
  proof (cases "has_conversation sc s \<and> ?o \<noteq> None")
    case True
    then obtain t where t: "?o = Some t" by blast
    then have "t \<in> set (turns s)" "t_status t \<in> set paused_queue_statuses"
      using first_order_by_in [OF t] by simp_all
    with t True wf show ?thesis
      by (intro turns_settle_one [of _ t "\<lambda>t. t\<lparr>t_status := Running, t_error := None\<rparr>"])
        (auto simp: resume_paused_def Let_def queue_wf_def settles_def turn_active_def queueable_def
          active_queue_statuses_def queueable_statuses_def paused_queue_statuses_def)
  next
    case False
    then show ?thesis by (auto simp: resume_paused_def turns_settle_same simp del: first_row_None)
  qed
qed (auto simp: resume_paused_def Let_def split: option.split)

interpretation recover_claims_op: settling "\<lambda>s. snd (recover_claims now sc cutoff s)" for now sc cutoff
proof unfold_locales
  fix s
  show "turns_settle s (snd (recover_claims now sc cutoff s))"
  proof (cases "filter (stale_claim cutoff sc) (turns s) = [] \<or> run_blocks sc s")
    case False
    then have "turns (snd (recover_claims now sc cutoff s)) =
        upd_where (stale_claim cutoff sc) (\<lambda>t. settle_claim now (run_of_turn sc s t) t) (turns s)"
      by (auto simp: recover_claims_def Let_def)
    then show ?thesis by (rule turns_settle_upd) (rule claim_settles)
  qed (auto simp: recover_claims_def Let_def turns_settle_same)
  show "next_id s \<le> next_id (snd (recover_claims now sc cutoff s))"
    by (auto simp: recover_claims_def Let_def intro: order_trans [OF eq_refl close_streams_ids])
qed

lemma edit_turn_cases:
  assumes "edit_turn now sc prompt t s = Inr (o', s')"
  obtains u s1 where "turn_capacity now sc (turn_bytes (trunc 4000 prompt) t) (turn_bytes (t_prompt t) t) s = Inr (u, s1)"
    and "o' = Some (t\<lparr>t_prompt := trunc 4000 prompt\<rparr>)"
    and "s' = publish_queue_event sc (queue_activity now sc ''queue_turn_edited'' (turn_bytes (trunc 4000 prompt) t)
           (upd_turn (t_id t) (\<lambda>t. t\<lparr>t_prompt := trunc 4000 prompt\<rparr>) s1))"
  using assms by (auto simp: edit_turn_def Let_def split: sum.splits)

lemma edit_turn_settles:
  assumes "edit_turn now sc prompt t s = Inr (o', s')"
  shows "turns_settle s s' \<and> next_id s \<le> next_id s'"
  using assms
proof (rule edit_turn_cases)
  fix u s1
  assume c: "turn_capacity now sc (turn_bytes (trunc 4000 prompt) t) (turn_bytes (t_prompt t) t) s = Inr (u, s1)"
    and s': "s' = publish_queue_event sc (queue_activity now sc ''queue_turn_edited'' (turn_bytes (trunc 4000 prompt) t)
           (upd_turn (t_id t) (\<lambda>t. t\<lparr>t_prompt := trunc 4000 prompt\<rparr>) s1))"
  have "turns_settle s s'"
    by (rule turns_settle_upd [where P = "\<lambda>x. t_id x = t_id t" and f = "\<lambda>t. t\<lparr>t_prompt := trunc 4000 prompt\<rparr>"])
      (simp_all add: s' turn_guard.guard_frame [OF c] settles_def turn_active_def queueable_def)
  moreover have "next_id s1 \<le> next_id s'"
    using queue_act.ids [of "upd_turn (t_id t) (\<lambda>t. t\<lparr>t_prompt := trunc 4000 prompt\<rparr>) s1"] by (simp add: s')
  ultimately show ?thesis using turn_guard.guard_ids [OF c] by simp
qed

lemma update_prompt_after:
  "after (update_queued_prompt now sc rid expected prompt s) s = s \<or>
   (\<exists>t o'. find_turn sc rid s = Some t \<and>
      edit_turn now sc prompt t s = Inr (o', after (update_queued_prompt now sc rid expected prompt s) s))"
proof (cases "find_turn sc rid s")
  case (Some t)
  show ?thesis
  proof (cases "edit_turn now sc prompt t s")
    case (Inr p)
    then show ?thesis using Some by (cases p) (simp add: update_queued_prompt_def)
  qed (simp add: update_queued_prompt_def Some)
qed (simp add: update_queued_prompt_def)

interpretation edit_op: settling "\<lambda>s. after (update_queued_prompt now sc rid expected prompt s) s"
  for now sc rid expected prompt
  by unfold_locales
    (metis update_prompt_after edit_turn_settles turns_settle_same, metis update_prompt_after edit_turn_settles order_refl)

section \<open>Recovery and the end of a turn\<close>

text \<open>
  A finished turn could only become active again if the last terminal frame of its stream reported a
  pause.  The worker that pauses a run also pauses its turn, so the two agree: \<open>pauses_settled\<close>.
\<close>

definition last_terminal_event :: "scope \<Rightarrow> string \<Rightarrow> db \<Rightarrow> run_event option" where
  "last_terminal_event sc rid s = first_row (order_by (\<lambda>e. - e_created e) (filter (terminal_event_of sc rid) (events s)))"

definition reports_pause :: "run_event \<Rightarrow> bool" where
  "reports_pause e = (e_name e \<noteq> ''error'' \<and> (case reported_status (e_frame e) of Inl _ \<Rightarrow> False
     | Inr st \<Rightarrow> reconciled_turn_status (reconciled_run_status st) \<in> set paused_queue_statuses))"

definition pauses_settled :: "scope \<Rightarrow> db \<Rightarrow> bool" where
  "pauses_settled sc s = (\<forall>t \<in> set (turns s). t_scope t = sc \<and> t_status t \<in> set terminal_queue_statuses \<longrightarrow>
     (case last_terminal_event sc (t_request t) s of None \<Rightarrow> True | Some e \<Rightarrow> \<not> reports_pause e))"

lemma reconciled_turn_cases:
  "reconciled_turn_status st \<notin> set paused_queue_statuses \<Longrightarrow> reconciled_turn_status st \<in> set terminal_queue_statuses"
  by (auto simp: reconciled_turn_status_def paused_queue_statuses_def terminal_queue_statuses_def split: if_splits)

lemma terminal_idle: "t_status t \<in> set terminal_queue_statuses \<Longrightarrow> \<not> turn_active t \<and> \<not> queueable t"
  by (auto simp: turn_active_def queueable_def terminal_queue_statuses_def active_queue_statuses_def queueable_statuses_def)

lemma settles_terminal:
  assumes "t_id t' = t_id t" "t_scope t' = t_scope t" "t_request t' = t_request t" "t_sequence t' = t_sequence t"
    and "t_status t' \<in> set terminal_queue_statuses"
  shows "settles t t'"
  using assms terminal_idle [of t'] by (simp add: settles_def)

lemma reconcile_settles:
  assumes "reconcile now r t meta ev = Inr rc" and "\<And>e. ev = Some e \<Longrightarrow> \<not> reports_pause e"
  shows "settles t (rc_turn rc)"
proof (cases ev)
  case None
  then show ?thesis using assms(1)
    by (auto simp: reconcile_def reconcile_interrupted_def Let_def terminal_queue_statuses_def intro!: settles_terminal)
next
  case (Some e)
  show ?thesis
  proof (cases "e_name e = ''error''")
    case True
    then show ?thesis using assms(1) Some
      by (auto simp: reconcile_def reconcile_error_def Let_def terminal_queue_statuses_def intro!: settles_terminal)
  next
    case False
    then obtain st where st: "reported_status (e_frame e) = Inr st" "rc = reconcile_done now r t meta st"
      using assms(1) Some by (auto simp: reconcile_def split: sum.splits)
    then have "reconciled_turn_status (reconciled_run_status st) \<in> set terminal_queue_statuses"
      using assms(2) [OF Some] False reconciled_turn_cases by (auto simp: reports_pause_def)
    then show ?thesis using st by (auto simp: reconcile_done_def Let_def intro!: settles_terminal)
  qed
qed

lemma apply_reconciliation_frame [simp]:
  "turns (apply_reconciliation now run msg rc s) = upd_where (\<lambda>t. t_id t = t_id (rc_turn rc)) (\<lambda>_. rc_turn rc) (turns s)"
  "controls (apply_reconciliation now run msg rc s) = controls s"
  "conversations (apply_reconciliation now run msg rc s) = conversations s"
  "next_id (apply_reconciliation now run msg rc s) = next_id s"
  by (simp_all add: apply_reconciliation_def Let_def upd_run_def upd_turn_def split: option.split)

lemma recover_run_settles:
  assumes r: "recover_run now sc cutoff s0 r (s, n, cl) = Inr (s', n', cl')"
    and wf: "queue_wf s0" and ps: "pauses_settled sc s0" and st: "turns_settle s0 s" and id: "next_id s = next_id s0"
  shows "turns_settle s0 s' \<and> next_id s' = next_id s0 \<and> controls s' = controls s \<and> conversations s' = conversations s"
proof (cases "s' = s")
  case False
  then obtain m rc where rc: "reconcile_request now sc cutoff s0 r m (strip (get_str_or (m_meta m) ''client_request_id'' [])) s = Inr (Some rc)"
    and s': "s' = apply_reconciliation now (r_id r) (m_id m) rc s"
    using r by (auto simp: recover_run_def Let_def split: option.splits if_splits sum.splits)
  let ?rid = "strip (get_str_or (m_meta m) ''client_request_id'' [])"
  obtain t0 where t0: "first_row (turns_of sc (ended_before cutoff ?rid) s0) = Some t0"
    and rec: "reconcile now r (or_else (get_turn (t_id t0) s) t0) (m_meta m) (last_terminal_event sc ?rid s0) = Inr rc"
  proof (cases "first_row (turns_of sc (ended_before cutoff ?rid) s0)")
    case None then show ?thesis using rc by (simp add: reconcile_request_def)
  next
    case (Some t0)
    moreover from this rc have "map_sum id Some (reconcile now r (or_else (get_turn (t_id t0) s) t0) (m_meta m)
        (last_terminal_event sc ?rid s0)) = (Inr (Some rc) :: app_error + reconciliation option)"
      by (simp add: reconcile_request_def Let_def last_terminal_event_def)
    then have "reconcile now r (or_else (get_turn (t_id t0) s) t0) (m_meta m) (last_terminal_event sc ?rid s0) = Inr rc"
      by (auto simp: map_sum_def split: sum.splits)
    ultimately show ?thesis by (rule that)
  qed
  have in0: "t0 \<in> set (turns s0)" "t_scope t0 = sc" "t_request t0 = ?rid" "t_status t0 \<in> set terminal_queue_statuses"
    using first_turn_of [OF t0] by (auto simp: ended_before_def)
  have wfs: "queue_wf s" using turns_settle_wf [OF st _ wf] id by simp
  have "map t_id (turns s) = map t_id (turns s0)"
    by (rule list_all2_map_same [OF st [unfolded turns_settle_def]]) (simp add: settles_def)
  then have "t_id t0 \<in> t_id ` set (turns s)" using in0(1) by (metis image_eqI list.set_map)
  then obtain t where t: "get_turn (t_id t0) s = Some t" using turn_table.find_None by fastforce
  have tin: "t \<in> set (turns s)" "t_id t = t_id t0" using turn_table.find_in [OF t] turn_table.find_key [OF t] by auto
  have "case last_terminal_event sc ?rid s0 of None \<Rightarrow> True | Some e \<Rightarrow> \<not> reports_pause e"
    using bspec [OF ps [unfolded pauses_settled_def] in0(1)] in0 by simp
  then have se: "settles t (rc_turn rc)"
    by (intro reconcile_settles [OF rec [unfolded t or_else_def option.case]]) auto
  then have "t_id (rc_turn rc) = t_id t" by (simp add: settles_def)
  then have "turns_settle s s'" using wfs tin(1) se
    by (intro turns_settle_one [of _ t "\<lambda>_. rc_turn rc"]) (simp_all add: s' queue_wf_def)
  then show ?thesis using turns_settle_trans [OF st] id by (simp add: s')
qed (use st id in simp)

lemma recover_runs_settles:
  assumes "recover_runs now sc cutoff s0 rs (s, n, cl) = Inr (s', n', cl')"
    and "queue_wf s0" and "pauses_settled sc s0" and "turns_settle s0 s" and "next_id s = next_id s0"
  shows "turns_settle s0 s' \<and> next_id s' = next_id s0 \<and> controls s' = controls s \<and> conversations s' = conversations s"
  using assms(1,4,5)
proof (induction rs arbitrary: s n cl)
  case (Cons r rs)
  then obtain s1 n1 cl1 where a: "recover_run now sc cutoff s0 r (s, n, cl) = Inr (s1, n1, cl1)"
    and b: "recover_runs now sc cutoff s0 rs (s1, n1, cl1) = Inr (s', n', cl')"
    by (auto split: sum.splits)
  then show ?case using recover_run_settles [OF a assms(2,3) Cons.prems(2,3)] Cons.IH [OF b] by simp
qed simp

lemma recover_terminal_settles:
  assumes "recover_terminal_runs now sc cutoff s = Inr (n, s')" and "queue_wf s" and "pauses_settled sc s"
  shows "turns_settle s s' \<and> next_id s \<le> next_id s' \<and> controls s' = controls s \<and> conversations s' = conversations s"
proof -
  obtain s1 k cl where r: "recover_runs now sc cutoff s (filter (lease_expired cutoff sc) (runs s)) (s, 0, []) = Inr (s1, k, cl)"
    and s': "s' = s \<or> s' = publish_queue_event sc (close_streams now sc cl s1)"
    using assms(1) by (auto simp: recover_terminal_runs_def split: sum.splits if_splits)
  have "turns_settle s s1 \<and> next_id s1 = next_id s \<and> controls s1 = controls s \<and> conversations s1 = conversations s"
    by (rule recover_runs_settles [OF r assms(2,3)]) (simp_all add: turns_settle_same)
  then show ?thesis using s' close_streams_ids [of s1 now sc cl]
    by (auto simp: turns_settle_same turns_settle_def list_all2_refl)
qed

lemma recover_stale_settles:
  assumes "recover_stale_claims now sc stale s = Inr (n, s')" and "queue_wf s" and "pauses_settled sc s"
  shows "turns_settle s s' \<and> next_id s \<le> next_id s' \<and> controls s' = controls s \<and> conversations s' = conversations s"
proof -
  obtain k s1 where r: "recover_terminal_runs now sc (now - stale) s = Inr (k, s1)"
    and s': "s' = snd (recover_claims now sc (now - stale) s1)"
    using assms(1) by (auto simp: recover_stale_claims_def split: sum.splits prod.splits)
  note a = recover_terminal_settles [OF r assms(2,3)]
  then have wf: "queue_wf s1" using turns_settle_wf assms(2) by blast
  moreover have "controls s' = controls s1" "conversations s' = conversations s1"
    by (auto simp: s' recover_claims_def Let_def)
  ultimately show ?thesis
    using a turns_settle_trans recover_claims_op.settle [OF wf] recover_claims_op.settle_ids order_trans
    unfolding s' by (metis (no_types, lifting))
qed

lemma finish_settles:
  assumes "finish now sc rid status err s = (ok, s')" and "queue_wf s"
    and "\<And>t. find_turn sc rid s = Some t \<Longrightarrow> turn_active t \<or> finish_status status \<in> set terminal_queue_statuses"
  shows "turns_settle s s' \<and> next_id s' = next_id s"
proof (cases "find_turn sc rid s")
  case (Some t)
  have "settles t (finish_turn now status err t)"
    using assms(3) [OF Some] terminal_idle
    by (auto simp: settles_def finish_turn_def turn_active_def queueable_def terminal_queue_statuses_def
        active_queue_statuses_def queueable_statuses_def)
  then show ?thesis using assms(1) Some
    by (auto simp: finish_def intro!: settle_found [OF assms(2) Some [unfolded find_turn_def]])
qed (use assms(1) in \<open>simp add: finish_def turns_settle_same\<close>)

section \<open>New turns and claims\<close>

lemma insert_turn_effect:
  assumes "insert_turn now kind t s = Inr (t1, s')"
  obtains k where "t1 = t\<lparr>t_id := k\<rparr>" "turns s' = turns s @ [t1]" "next_id s \<le> k" "k < next_id s'"
    and "find_turn (t_scope t) (t_request t) s = None" "controls s' = controls s" "conversations s' = conversations s"
    and "runs s' = runs s"
proof -
  obtain u s1 where c: "turn_capacity now (t_scope t) (turn_bytes (t_prompt t) t) 0 s = Inr (u, s1)"
    and n: "find_turn (t_scope t) (t_request t) s1 = None" and t1: "t1 = t\<lparr>t_id := next_id s1\<rparr>"
    and s': "s' = publish_queue_event (t_scope t) (queue_activity now (t_scope t) kind (turn_bytes (t_prompt t) t)
          (s1\<lparr>turns := turns s1 @ [t1], next_id := Suc (next_id s1)\<rparr>))"
    using assms by (auto simp: insert_turn_def Let_def split: sum.splits if_splits)
  note f = turn_guard.guard_frame [OF c] and g = turn_guard.guard_ids [OF c]
  have "next_id s1 < next_id s'"
    unfolding s' publish_queue_event_ids by (rule less_le_trans [OF _ queue_act.ids]) simp
  moreover have "find_turn (t_scope t) (t_request t) s = None" using n f(1) by (simp add: find_turn_def turns_of_def)
  ultimately show thesis using that [of "next_id s1"] f g t1 by (simp add: s')
qed

lemma sequence_below: "t \<in> set (turns s) \<Longrightarrow> t_sequence t < next_turn_sequence (t_scope t) s"
proof -
  assume t: "t \<in> set (turns s)"
  then have "turns_of (t_scope t) (\<lambda>_. True) s \<noteq> []" by (auto simp: turns_of_def filter_empty_conv)
  moreover have "t_sequence t \<le> Max (set (map t_sequence (turns_of (t_scope t) (\<lambda>_. True) s)))"
    using t by (intro Max_ge) auto
  ultimately show ?thesis by (simp add: next_turn_sequence_def Let_def)
qed

lemma find_turn_None: "find_turn sc rid s = None \<longleftrightarrow> (\<forall>t \<in> set (turns s). t_scope t = sc \<longrightarrow> t_request t \<noteq> rid)"
  by (auto simp: find_turn_def turns_of_def filter_empty_conv)

lemma turns_of_append:
  "turns s' = turns s @ [t] \<Longrightarrow> turns_of sc P s' = turns_of sc P s @ (if t_scope t = sc \<and> P t then [t] else [])"
  by (simp add: turns_of_def)

lemma insert_turn_wf:
  assumes r: "insert_turn now kind t s = Inr (t1, s')" and wf: "queue_wf s" and nf: "\<not> queue_full (t_scope t) s"
    and q: "t_status t = Queued" "t_sequence t = next_turn_sequence (t_scope t) s"
  shows "queue_wf s'"
  using r
proof (rule insert_turn_effect)
  fix k assume e: "t1 = t\<lparr>t_id := k\<rparr>" "turns s' = turns s @ [t1]" "next_id s \<le> k" "k < next_id s'"
    and fresh: "find_turn (t_scope t) (t_request t) s = None"
  have old: "t_id x < k" "t_id x < next_id s'" if "x \<in> set (turns s)" for x
    using wf that e(3,4) by (fastforce simp: queue_wf_def)+
  have "(t_scope t, t_request t) \<notin> (\<lambda>t. (t_scope t, t_request t)) ` set (turns s)"
    using fresh by (auto simp: find_turn_None)
  moreover have "(t_scope t, t_sequence t) \<notin> (\<lambda>t. (t_scope t, t_sequence t)) ` set (turns s)"
    using sequence_below by (fastforce simp: q(2))
  moreover have "k \<notin> t_id ` set (turns s)" using old by force
  moreover have "\<not> turn_active t1" "length (turns_of (t_scope t) queueable s) < max_turns_per_conversation"
    using nf by (simp_all add: e(1) q turn_active_def active_queue_statuses_def queue_full_def)
  ultimately show ?thesis
    using wf old e(4) unfolding queue_wf_def turns_of_append [OF e(2)] by (auto simp: e(1,2))
qed

lemma enqueue_cases:
  assumes "enqueue now sc rq s = Inr (t, s')"
  obtains (known) "find_turn sc (rq_request rq) s = Some t" "s' = s"
  | (new) "find_turn sc (rq_request rq) s = None" "\<not> queue_full sc s"
      "insert_turn now ''queue_turn_added'' (new_turn sc rq (next_turn_sequence sc s)) s = Inr (t, s')"
  using assms by (auto simp: enqueue_def split: if_splits option.splits)

lemma retry_cases:
  assumes "retry_failed now sc failed_request client s = Inr (t, s')"
  obtains (known) "t \<in> set (turns s)" "t_scope t = sc" "turns s' = turns s" "controls s' = controls s"
      "conversations s' = conversations s" "next_id s \<le> next_id s'"
  | (new) failed rid s1 where "failed \<in> set (turns s)" "t_scope failed = sc" "t_request failed = failed_request"
      "t_status failed = Failed" "find_turn sc rid s = None" "existing_retries sc failed_request s = []"
      "\<not> queue_full sc s" "s1 = s \<or> s1 = s\<lparr>next_id := Suc (next_id s)\<rparr>"
      "insert_turn now ''queue_turn_retried'' (retry_turn failed failed_request rid (next_turn_sequence sc s)) s1 = Inr (t, s')"
proof -
  define drawn where "drawn = (client = None \<or> client = Some [])"
  define rid where "rid = (if drawn then uuid_str (next_id s) else trunc 255 (or_else client []))"
  define s1 where "s1 = (if drawn then s\<lparr>next_id := Suc (next_id s)\<rparr> else s)"
  have s1: "s1 = s \<or> s1 = s\<lparr>next_id := Suc (next_id s)\<rparr>" by (simp add: s1_def)
  then have frame: "turns s1 = turns s" "controls s1 = controls s" "conversations s1 = conversations s" "next_id s \<le> next_id s1"
    by auto
  obtain failed where f: "first_row (turns_of sc (\<lambda>t. t_request t = failed_request \<and> t_status t = Failed) s) = Some failed"
    and c: "has_conversation sc s"
    using assms by (auto simp: retry_failed_def split: if_splits option.splits)
  note fi = first_turn_of [OF f]
  have r: "(case find_turn sc rid s of Some t \<Rightarrow> Inr (t, s1)
      | None \<Rightarrow> (case first_row (existing_retries sc failed_request s) of Some t \<Rightarrow> Inr (t, s1)
         | None \<Rightarrow> if queue_full sc s then Inl full_error else insert_turn now ''queue_turn_retried''
              (retry_turn failed failed_request rid (next_turn_sequence sc s)) s1)) = Inr (t, s')"
    using assms unfolding retry_failed_def Let_def f option.case
    by (simp only: c drawn_def rid_def s1_def not_True_eq_False if_False)
  show thesis
  proof (cases "find_turn sc rid s")
    case (Some t')
    then have "t = t'" "s' = s1" using r by simp_all
    with find_turn_in [OF Some] frame show thesis by (intro known) auto
  next
    case None
    show thesis
    proof (cases "first_row (existing_retries sc failed_request s)")
      case (Some t')
      then have "t = t'" "s' = s1" using r None by simp_all
      moreover have "t' \<in> set (turns s)" "t_scope t' = sc"
        using first_order_by_in [OF Some [unfolded existing_retries_def]] by simp_all
      ultimately show thesis using frame by (intro known) auto
    next
      case n: None
      then have "\<not> queue_full sc s"
        "insert_turn now ''queue_turn_retried'' (retry_turn failed failed_request rid (next_turn_sequence sc s)) s1 = Inr (t, s')"
        using r None by (simp_all split: if_splits)
      with fi None n s1 show thesis by (intro new [of failed rid s1]) auto
    qed
  qed
qed

lemma next_sequence_same: "turns s' = turns s \<Longrightarrow> next_turn_sequence sc s' = next_turn_sequence sc s \<and> queue_full sc s' = queue_full sc s"
  by (simp add: next_turn_sequence_def queue_full_def turns_of_def)

lemma queue_wf_ids: "queue_wf s \<Longrightarrow> next_id s \<le> n \<Longrightarrow> queue_wf (s\<lparr>next_id := n\<rparr>)"
  by (rule turns_settle_wf [of s]) (simp_all add: turns_settle_same)

lemma enqueue_wf:
  assumes "enqueue now sc rq s = Inr (t, s')" and "queue_wf s"
  shows "queue_wf s'"
  using assms(1)
proof (cases rule: enqueue_cases)
  case new
  then show ?thesis using assms(2) by (intro insert_turn_wf [OF new(3)]) (simp_all add: new_turn_def)
qed (use assms(2) in simp)

lemma retry_wf:
  assumes "retry_failed now sc failed_request client s = Inr (t, s')" and "queue_wf s"
  shows "queue_wf s'"
  using assms(1)
proof (cases rule: retry_cases)
  case known
  then show ?thesis using turns_settle_wf [OF turns_settle_same] assms(2) by blast
next
  case (new failed rid s1)
  have "turns s1 = turns s" "queue_wf s1" using new(8) assms(2) queue_wf_ids [of s "Suc (next_id s)"] by auto
  then show ?thesis using new(2,7) next_sequence_same [of s1 s]
    by (intro insert_turn_wf [OF new(9)]) (simp_all add: retry_turn_def)
qed

lemma pending_first:
  assumes "first_row (pending_turns sc s) = Some t"
  shows "t \<in> set (turns s)" "t_scope t = sc" "t_status t = Queued"
    and "\<And>x. x \<in> set (turns s) \<Longrightarrow> t_scope x = sc \<Longrightarrow> t_status x = Queued \<Longrightarrow> queue_order t \<le> queue_order x"
proof -
  have "t \<in> set (turns_of sc (\<lambda>t. t_status t = Queued) s)"
    using assms unfolding pending_turns_def by (rule first_order_by_in)
  then show "t \<in> set (turns s)" "t_scope t = sc" "t_status t = Queued" by simp_all
  show "queue_order t \<le> queue_order x" if "x \<in> set (turns s)" "t_scope x = sc" "t_status x = Queued" for x
    using assms that unfolding pending_turns_def by (auto intro: first_order_by_least)
qed

lemma state_same: "controls s' = controls s \<Longrightarrow> state sc s' = state sc s"
  by (simp add: state_def find_control_def)

lemma run_blocks_same: "runs s' = runs s \<Longrightarrow> run_blocks sc s' = run_blocks sc s"
  by (simp add: run_blocks_def)

lemma has_conversation_same: "conversations s' = conversations s \<Longrightarrow> has_conversation sc s' = has_conversation sc s"
  by (simp add: has_conversation_def)

lemma claim_locked_cases:
  assumes "claim_locked now sc s = (c, s')"
  obtains (idle) "c = None" "s' = s"
  | (claimed) t where "first_row (pending_turns sc s) = Some t" "c = Some (claimed_of t)"
      "turns s' = upd_where (\<lambda>x. t_id x = t_id t) (\<lambda>t. t\<lparr>t_status := Running, t_started := Some now\<rparr>) (turns s)"
      "has_conversation sc s" "\<not> qs_paused (state sc s)" "turns_of sc turn_active s = []" "\<not> run_blocks sc s"
      "controls s' = controls s" "runs s' = runs s" "conversations s' = conversations s" "next_id s' = next_id s"
      "messages s' = messages s" "events s' = events s"
  using assms by (auto simp: claim_locked_def split: if_splits option.splits)

lemma active_Cons: "turn_active (t\<lparr>t_status := Running, t_started := x\<rparr>)"
  by (simp add: turn_active_def active_queue_statuses_def)

lemma queued_after_claim:
  assumes "turns s' = upd_where (\<lambda>x. t_id x = k) (\<lambda>t. t\<lparr>t_status := Running, t_started := Some now\<rparr>) (turns s)"
    and "x \<in> set (turns s')" and "t_status x = Queued"
  shows "x \<in> set (turns s) \<and> t_id x \<noteq> k"
proof -
  obtain y where y: "y \<in> set (turns s)" "x = (if t_id y = k then y\<lparr>t_status := Running, t_started := Some now\<rparr> else y)"
    using assms(2) unfolding assms(1) in_upd_where by blast
  then have "t_id y \<noteq> k" using assms(3) by (cases "t_id y = k") simp_all
  with y show ?thesis by simp
qed

lemma claim_active:
  assumes "distinct (map t_id (turns s))" and "t \<in> set (turns s)" and "t_scope t = sc" and "turns_of sc turn_active s = []"
    and "turns s' = upd_where (\<lambda>x. t_id x = t_id t) g (turns s)" and "turn_active (g t)" and "t_scope (g t) = t_scope t"
  shows "turns_of sc turn_active s' = [g t]"
proof -
  have "filter (\<lambda>x. t_scope x = sc \<and> turn_active x) (upd_where (\<lambda>x. t_id x = t_id t) g ts) = [g t]"
    if "distinct (map t_id ts)" "t \<in> set ts" "filter (\<lambda>x. t_scope x = sc \<and> turn_active x) ts = []" for ts
    using that
  proof (induction ts)
    case (Cons x ts)
    show ?case
    proof (cases "x = t")
      case True
      then have "\<forall>y \<in> set ts. t_id y \<noteq> t_id t" using Cons.prems(1) by (metis distinct.simps(2) image_eqI list.map(2) list.set_map)
      then have "upd_where (\<lambda>x. t_id x = t_id t) g ts = ts" by (intro upd_where_none) auto
      moreover have "filter (\<lambda>x. t_scope x = sc \<and> turn_active x) ts = []" using Cons.prems(3) by (simp split: if_splits)
      ultimately show ?thesis using True assms(3,6,7) by simp
    next
      case False
      then have "t \<in> set ts" "t_id x \<noteq> t_id t" using Cons.prems by auto
      then show ?thesis using Cons by (auto split: if_splits)
    qed
  qed simp
  from this [OF assms(1,2)] assms(4) show ?thesis by (simp add: turns_of_def assms(5))
qed

lemma turns_of_other_scope:
  assumes "turns s' = upd_where (\<lambda>x. t_id x = k) g (turns s)" and "\<And>x. t_scope (g x) = t_scope x"
    and "\<And>x. x \<in> set (turns s) \<Longrightarrow> t_id x = k \<Longrightarrow> t_scope x \<noteq> sc"
  shows "turns_of sc P s' = turns_of sc P s"
  unfolding turns_of_def assms(1) by (rule filter_upd_where_disjoint) (use assms(2,3) in auto)

lemma claim_locked_wf:
  assumes "claim_locked now sc s = (c, s')" and wf: "queue_wf s"
  shows "queue_wf s'"
  using assms(1)
proof (cases rule: claim_locked_cases)
  case (claimed t)
  note p = pending_first [OF claimed(1)]
  let ?g = "\<lambda>t. t\<lparr>t_status := Running, t_started := Some now\<rparr>"
  have d: "distinct (map t_id (turns s))" using wf by (simp add: queue_wf_def)
  have same: "map h (turns s') = map h (turns s)" if "\<And>x. h (?g x) = h x" for h :: "turn \<Rightarrow> 'x"
    unfolding claimed(3) by (rule map_upd_where_same) (rule that)
  have same1: "map t_id (turns s') = map t_id (turns s)"
    "map (\<lambda>t. (t_scope t, t_request t)) (turns s') = map (\<lambda>t. (t_scope t, t_request t)) (turns s)"
    "map (\<lambda>t. (t_scope t, t_sequence t)) (turns s') = map (\<lambda>t. (t_scope t, t_sequence t)) (turns s)"
    by (rule same; simp)+
  have active: "turns_of sc turn_active s' = [?g t]"
    by (rule claim_active [OF d p(1,2) claimed(6,3)]) (simp_all add: active_Cons)
  have own: "x = t" if "x \<in> set (turns s)" "t_id x = t_id t" for x
    using distinct_map_inj [OF d that(1) p(1) that(2)] .
  have "length (turns_of sc' turn_active s') \<le> 1 \<and> length (turns_of sc' queueable s') \<le> max_turns_per_conversation" for sc'
  proof (cases "sc' = sc")
    case True
    have "length (turns_of sc queueable s') \<le> length (turns_of sc queueable s)"
      unfolding turns_of_def claimed(3)
      by (rule length_filter_upd_where_le) (use own p in \<open>auto simp: queueable_def queueable_statuses_def\<close>)
    then show ?thesis using active True queue_wf_bounds(2) [OF wf, of sc] by simp
  next
    case False
    have "turns_of sc' P s' = turns_of sc' P s" for P
      by (rule turns_of_other_scope [OF claimed(3)]) (use own p(2) False in auto)
    then show ?thesis using queue_wf_bounds(1,2) [OF wf, of sc'] by simp
  qed
  moreover have "\<forall>x \<in> set (turns s'). t_id x < next_id s'"
  proof
    fix x assume "x \<in> set (turns s')"
    then have "t_id x \<in> set (map t_id (turns s'))" by simp
    then obtain y where "y \<in> set (turns s)" "t_id x = t_id y" unfolding same1 by auto
    then show "t_id x < next_id s'" using queue_wf_bounds(4) [OF wf] by (simp add: claimed(11))
  qed
  ultimately show ?thesis
    unfolding queue_wf_def same1 by (intro conjI queue_wf_bounds(3,5,6) [OF wf]) simp_all
qed (use wf in simp)

lemma claim_next_cases:
  assumes "claim_next now sc s = (r, s')" and "queue_wf s" and "pauses_settled sc s"
  obtains (failed) err where "r = Inl err" "queue_wf s'" "controls s' = controls s"
  | (ok) c s2 where "r = Inr c" "claim_locked now sc s2 = (c, s')" "queue_wf s2" "turns_settle s s2"
      "controls s2 = upd_where (failure_pause sc) clear_control (controls s)" "conversations s2 = conversations s"
proof (cases "recover_stale_claims now sc stale_dispatch_after s")
  case (Inl err)
  then show ?thesis using assms(1,2) by (intro failed) (auto simp: claim_next_def)
next
  case (Inr p)
  obtain n s1 where a: "recover_stale_claims now sc stale_dispatch_after s = Inr (n, s1)" using Inr by (cases p) auto
  have st: "turns_settle s s1" "next_id s \<le> next_id s1" "controls s1 = controls s" "conversations s1 = conversations s"
    using recover_stale_settles [OF a assms(2,3)] by simp_all
  have wf1: "queue_wf s1" using turns_settle_wf [OF st(1,2) assms(2)] .
  show ?thesis
  proof (cases "resume_after_failure sc s1")
    case (Inl err)
    then show ?thesis using assms(1) a wf1 st(3) by (intro failed) (auto simp: claim_next_def)
  next
    case (Inr q)
    then obtain b s2 where b: "resume_after_failure sc s1 = Inr (b, s2)" by (cases q) auto
    have f: "turns s2 = turns s1" "conversations s2 = conversations s1" "next_id s2 = next_id s1"
      "controls s2 = upd_where (failure_pause sc) clear_control (controls s1)"
      using b by (auto simp: resume_after_failure_def filter_empty_conv upd_where_none split: if_splits)
    obtain c where c: "claim_locked now sc s2 = (c, s')" "r = Inr c"
      using assms(1) a b by (auto simp: claim_next_def split: prod.splits)
    have "queue_wf s2" using turns_settle_wf [OF turns_settle_same, of s2 s1] f wf1 by simp
    moreover have "turns_settle s s2" using st(1) by (simp add: turns_settle_def f(1))
    ultimately show ?thesis by (intro ok [OF c(2,1)]) (simp_all add: f st)
  qed
qed

lemma claim_next_wf:
  assumes "claim_next now sc s = (r, s')" and "queue_wf s" and "pauses_settled sc s"
  shows "queue_wf s'"
  by (rule claim_next_cases [OF assms]) (auto intro: claim_locked_wf)

section \<open>The queue as a state machine\<close>

text \<open>
  One step is one committed operation of any request or worker, for any conversation, in any order.
  The two guards are the discipline of the callers: recovery meets only streams whose pauses are settled,
  and a worker that finishes a turn either owns it or ends it.  \<open>elsewhere\<close> is every operation of
  another component: it may write any table but the turns.
\<close>

inductive queue_step :: "db \<Rightarrow> db \<Rightarrow> bool" where
  add: "enqueue now sc rq s = Inr (t, s') \<Longrightarrow> queue_step s s'"
| edit: "update_queued_prompt now sc rid expected prompt s = Inr (t', s') \<Longrightarrow> queue_step s s'"
| retry: "retry_failed now sc rid client s = Inr (t, s') \<Longrightarrow> queue_step s s'"
| cancel: "request_cancel now sc rid s = (b, s') \<Longrightarrow> queue_step s s'"
| cancel_by_id: "request_cancel_by_request_id now tn user rid s = Inr (b, s') \<Longrightarrow> queue_step s s'"
| cancel_all: "cancel_all_for_conversation now sc commit s = (n, s') \<Longrightarrow> queue_step s s'"
| clear: "clear_for_conversation now sc commit s = (n, s') \<Longrightarrow> queue_step s s'"
| promote: "promote sc rid s = (t', s') \<Longrightarrow> queue_step s s'"
| pause: "pause now sc reason failed s = Inr (q, s') \<Longrightarrow> queue_step s s'"
| resume: "resume now sc s = Inr (q, s') \<Longrightarrow> queue_step s s'"
| resume_failure: "resume_after_failure sc s = Inr (b, s') \<Longrightarrow> queue_step s s'"
| recover: "recover_stale_claims now sc stale s = Inr (n, s') \<Longrightarrow> pauses_settled sc s \<Longrightarrow> queue_step s s'"
| claim: "claim_next now sc s = (r, s') \<Longrightarrow> pauses_settled sc s \<Longrightarrow> queue_step s s'"
| release: "release_claim sc rid s = (b, s') \<Longrightarrow> queue_step s s'"
| resume_turn: "resume_paused sc commit s = (rid', s') \<Longrightarrow> queue_step s s'"
| finish: "finish now sc rid status err s = (b, s') \<Longrightarrow>
     (\<And>t. find_turn sc rid s = Some t \<Longrightarrow> turn_active t \<or> finish_status status \<in> set terminal_queue_statuses) \<Longrightarrow>
     queue_step s s'"
| elsewhere: "turns s' = turns s \<Longrightarrow> next_id s \<le> next_id s' \<Longrightarrow> queue_step s s'"

inductive queue_reachable :: "db \<Rightarrow> bool" where
  start: "turns s = [] \<Longrightarrow> queue_reachable s"
| step: "queue_reachable s \<Longrightarrow> queue_step s s' \<Longrightarrow> queue_reachable s'"

inductive_cases queue_stepE: "queue_step s s'"

lemma queue_step_wf: "queue_step s s' \<Longrightarrow> queue_wf s \<Longrightarrow> queue_wf s'"
proof (induction rule: queue_step.induct)
  case (edit now sc rid expected prompt s t' s')
  then show ?case using edit_op.keeps_wf [of s now sc rid expected prompt] by simp
next
  case (cancel now sc rid s b s')
  then show ?case using cancel_op.keeps_wf [of s now sc rid] by simp
next
  case (cancel_by_id now tn user rid s b s')
  then show ?case using cancel_by_id_op.keeps_wf [of s now tn user rid] by simp
next
  case (cancel_all now sc commit s n s')
  then show ?case using cancel_all_op.keeps_wf [of s now sc commit] by simp
next
  case (clear now sc commit s n s')
  then show ?case using clear_op.keeps_wf [of s now sc commit] by simp
next
  case (promote sc rid s t' s')
  then show ?case using promote_op.keeps_wf [of s sc rid] by simp
next
  case (pause now sc reason failed s q s')
  then show ?case using pause_op.keeps_wf [of s now sc reason failed] by simp
next
  case (resume now sc s q s')
  then show ?case using resume_op.keeps_wf [of s now sc] by simp
next
  case (resume_failure sc s b s')
  then show ?case using resume_failure_op.keeps_wf [of s sc] by simp
next
  case (recover now sc stale s n s')
  then show ?case using recover_stale_settles turns_settle_wf by blast
next
  case (release sc rid s b s')
  then show ?case using release_op.keeps_wf [of s sc rid] by simp
next
  case (resume_turn sc commit s rid' s')
  then show ?case using resume_paused_op.keeps_wf [of s sc commit] by simp
next
  case (finish now sc rid status err s b s')
  then show ?case using finish_settles [OF finish(1)] turns_settle_wf by (metis order_refl)
next
  case (elsewhere s' s)
  then show ?case using turns_settle_wf [OF turns_settle_same] by blast
qed (simp_all add: enqueue_wf retry_wf claim_next_wf)


section \<open>Claims\<close>

text \<open>C1. The claim of the next turn: it is a queued turn of the conversation that goes first by
  (priority descending, sequence ascending), strictly before every other queued one; it is running from
  now on and the only active turn of its conversation; the queue is not paused and no run is in
  progress; and the worker gets exactly the turn's stored request.\<close>

theorem claim_next_exact:
  assumes "claim_next now sc s = (Inr (Some c), s')" and "queue_wf s" and "pauses_settled sc s"
  shows "\<exists>t. turns_of sc turn_active s' = [t] \<and> c = claimed_of t \<and> t_status t = Running \<and> t_started t = Some now \<and>
      (\<forall>x \<in> set (turns s'). t_scope x = sc \<and> t_status x = Queued \<longrightarrow>
         t_priority x < t_priority t \<or> (t_priority x = t_priority t \<and> t_sequence t < t_sequence x)) \<and>
      \<not> qs_paused (state sc s') \<and> \<not> run_blocks sc s'"
proof -
  obtain s2 where l: "claim_locked now sc s2 = (Some c, s')" and wf: "queue_wf s2"
    by (rule claim_next_cases [OF assms]) auto
  from l show ?thesis
  proof (cases rule: claim_locked_cases)
    case (claimed t)
    let ?t = "t\<lparr>t_status := Running, t_started := Some now\<rparr>"
    note p = pending_first [OF claimed(1)]
    have d: "distinct (map t_id (turns s2))" using queue_wf_bounds [OF wf] by simp
    have active: "turns_of sc turn_active s' = [?t]"
      by (rule claim_active [OF d p(1,2) claimed(6,3)]) (simp_all add: active_Cons)
    have "t_priority x < t_priority t \<or> (t_priority x = t_priority t \<and> t_sequence t < t_sequence x)"
      if x: "x \<in> set (turns s')" "t_scope x = sc" "t_status x = Queued" for x
    proof -
      have x2: "x \<in> set (turns s2)" "x \<noteq> t" using queued_after_claim [OF claimed(3) x(1,3)] by auto
      note queue_wf_bounds(6) [OF wf]
      then have "t_sequence x \<noteq> t_sequence t"
        using distinct_map_inj [of "\<lambda>t. (t_scope t, t_sequence t)" "turns s2" x t] p(1,2) x(2) x2 by auto
      then show ?thesis using p(4) [OF x2(1) x(2,3)] by (auto simp: queue_order_def less_eq_prod_simp)
    qed
    then show ?thesis using active claimed state_same [OF claimed(8)] run_blocks_same [OF claimed(9)]
      unfolding claimed_of_def by (intro exI [of _ ?t]) simp
  qed simp
qed

lemma pending_first_least:
  assumes "t \<in> set (turns s)" "t_scope t = sc" "t_status t = Queued"
    and "\<And>x. x \<in> set (turns s) \<Longrightarrow> t_scope x = sc \<Longrightarrow> t_status x = Queued \<Longrightarrow> x \<noteq> t \<Longrightarrow> \<not> queue_order x \<le> queue_order t"
  shows "first_row (pending_turns sc s) = Some t"
proof -
  have t: "t \<in> set (turns_of sc (\<lambda>t. t_status t = Queued) s)" using assms(1-3) by simp
  then have "turns_of sc (\<lambda>t. t_status t = Queued) s \<noteq> []" by fastforce
  then obtain y where y: "first_row (pending_turns sc s) = Some y"
    using first_order_by_ex unfolding pending_turns_def by blast
  from pending_first [OF y] assms show ?thesis using y by blast
qed

lemma state_clear:
  assumes "controls s' = upd_where (failure_pause sc) clear_control (controls s)"
  shows "qs_paused (state sc s') \<longleftrightarrow> qs_paused (state sc s) \<and> qs_failed_request (state sc s) = None"
proof -
  have "filter (\<lambda>c. c_scope c = sc) (controls s') = upd_where (failure_pause sc) clear_control (filter (\<lambda>c. c_scope c = sc) (controls s))"
    unfolding assms by (rule filter_upd_where_same) (simp add: clear_control_def)
  then have f: "find_control sc s' = map_option (\<lambda>c. if failure_pause sc c then clear_control c else c) (find_control sc s)"
    by (simp add: find_control_def first_row_upd_where)
  show ?thesis
  proof (cases "find_control sc s")
    case (Some c)
    then show ?thesis using f find_control_in [OF Some]
      by (auto simp: state_def failure_pause_def clear_control_def)
  qed (simp add: state_def f)
qed

lemma idle_recovery:
  assumes "\<not> run_blocks sc s"
  shows "recover_stale_claims now sc stale s = Inr (recover_claims now sc (now - stale) s)"
proof -
  have "filter (lease_expired (now - stale) sc) (runs s) = []"
    using assms by (auto simp: filter_empty_conv run_blocks_def lease_expired_def worker_run_statuses_def active_run_statuses_def)
  then have "recover_terminal_runs now sc (now - stale) s = Inr (0, s)" by (simp add: recover_terminal_runs_def)
  then show ?thesis by (simp add: recover_stale_claims_def split: prod.split)
qed

lemma resume_after_failure_ok:
  assumes "has_conversation sc s"
  obtains b s' where "resume_after_failure sc s = Inr (b, s')" "turns s' = turns s" "runs s' = runs s"
    "conversations s' = conversations s" "controls s' = upd_where (failure_pause sc) clear_control (controls s)"
proof -
  have "upd_where (failure_pause sc) clear_control (controls s) = controls s" if "filter (failure_pause sc) (controls s) = []"
    using that by (auto simp: filter_empty_conv intro!: upd_where_none)
  then show thesis using that assms by (cases "filter (failure_pause sc) (controls s) = []") (auto simp: resume_after_failure_def)
qed

text \<open>A claimed turn that goes back to the queue is the next one to be claimed again.\<close>

lemma requeued_is_claimed:
  assumes l: "claim_locked now sc s0 = (Some c, s1)" and wf0: "queue_wf s0" and t0: "first_row (pending_turns sc s0) = Some t"
    and t2: "turns s2 = map (\<lambda>x. if x = t\<lparr>t_status := Running, t_started := Some now\<rparr>
                                then t\<lparr>t_status := Queued, t_started := None\<rparr> else x) (turns s1)"
    and f2: "controls s2 = controls s1" "runs s2 = runs s1" "conversations s2 = conversations s1"
  obtains b s3 s4 where "resume_after_failure sc s2 = Inr (b, s3)" "claim_locked now' sc s3 = (Some c, s4)"
  using l
proof (cases rule: claim_locked_cases)
  case (claimed t')
  have tt: "t' = t" using claimed(1) t0 by simp
  note claimed = claimed [unfolded tt]
  let ?t = "t\<lparr>t_status := Running, t_started := Some now\<rparr>" and ?q = "t\<lparr>t_status := Queued, t_started := None\<rparr>"
  note p = pending_first [OF claimed(1)]
  have active: "turns_of sc turn_active s1 = [?t]"
    by (rule claim_active [OF queue_wf_bounds(3) [OF wf0] p(1,2) claimed(6,3)]) (simp_all add: active_Cons)
  have nb: "\<not> run_blocks sc s1" using claimed(7) run_blocks_same [OF claimed(9)] by simp
  have in1: "?t \<in> set (turns s1)" using active in_turns_of [of ?t sc turn_active s1] by simp
  have hc: "has_conversation sc s2" using claimed(4,10) f2(3) by (simp add: has_conversation_def)
  obtain b s3 where r3: "resume_after_failure sc s2 = Inr (b, s3)" and f3: "turns s3 = turns s2" "runs s3 = runs s2"
    "conversations s3 = conversations s2" "controls s3 = upd_where (failure_pause sc) clear_control (controls s2)"
    by (rule resume_after_failure_ok [OF hc])
  have q3: "?q \<in> set (turns s3)" using in1 by (auto simp: f3 t2 image_iff)
  have "turns_of sc turn_active s3 = []"
  proof -
    have "\<not> turn_active x" if "x \<in> set (turns s3)" "t_scope x = sc" for x
    proof -
      obtain y where y: "y \<in> set (turns s1)" "x = (if y = ?t then ?q else y)" using \<open>x \<in> set (turns s3)\<close> by (auto simp: f3 t2)
      show ?thesis
      proof (cases "y = ?t")
        case False
        then have "y \<notin> set (turns_of sc turn_active s1)" by (simp add: active)
        then show ?thesis using y that False by simp
      qed (use y in \<open>simp add: turn_active_def active_queue_statuses_def\<close>)
    qed
    then show ?thesis by (auto simp: turns_of_def filter_empty_conv)
  qed
  moreover have "\<not> run_blocks sc s3" using nb f2 f3 by (simp add: run_blocks_def)
  moreover have "\<not> qs_paused (state sc s3)"
    using claimed(5) state_same [OF claimed(8)] state_same [OF f2(1)] state_clear [OF f3(4)] by simp
  moreover have "has_conversation sc s3" using hc f3(3) by (simp add: has_conversation_def)
  moreover have "first_row (pending_turns sc s3) = Some ?q"
  proof (rule pending_first_least [OF q3])
    fix x assume x: "x \<in> set (turns s3)" "t_scope x = sc" "t_status x = Queued" "x \<noteq> ?q"
    then have "x \<in> set (turns s1)" "x \<noteq> ?t" by (auto simp: f3 t2 split: if_splits)
    moreover from this have x0: "x \<in> set (turns s0)" "t_id x \<noteq> t_id t"
      using queued_after_claim [OF claimed(3) _ x(3)] by auto
    then have "t_sequence x \<noteq> t_sequence t"
      using distinct_map_inj [OF queue_wf_bounds(6) [OF wf0], of x t] p(1,2) x(2) by auto
    ultimately show "\<not> queue_order x \<le> queue_order ?q"
      using p(4) [OF x0(1) x(2,3)] by (auto simp: queue_order_def less_eq_prod_simp)
  qed (use p in simp_all)
  ultimately have "fst (claim_locked now' sc s3) = Some (claimed_of ?q)" by (simp add: claim_locked_def)
  moreover have "claimed_of ?q = c" using claimed(2) by (simp add: claimed_of_def)
  ultimately show thesis using that r3 by (cases "claim_locked now' sc s3") auto
qed simp

text \<open>C9. A dispatcher that dies between its claim and the hand-over to a worker loses nothing: ten
  minutes later, with no run recorded for the request, the next claim returns the same turn with the
  same stored request.\<close>

theorem dispatcher_crash_recovers:
  assumes c: "claim_next now sc s = (Inr (Some c), s1)" and wf: "queue_wf s" and ps: "pauses_settled sc s"
    and no_run: "\<forall>r \<in> set (runs s1). r_scope r = sc \<longrightarrow> ct_request c \<notin> set (run_requests sc r s1)"
    and late: "now + stale_dispatch_after < now'"
  shows "\<exists>s2. claim_next now' sc s1 = (Inr (Some c), s2)"
proof -
  obtain s0 where l: "claim_locked now sc s0 = (Some c, s1)" and wf0: "queue_wf s0"
    by (rule claim_next_cases [OF c wf ps]) auto
  from l show ?thesis
  proof (cases rule: claim_locked_cases)
    case (claimed t)
    let ?t = "t\<lparr>t_status := Running, t_started := Some now\<rparr>" and ?cut = "now' - stale_dispatch_after"
    let ?q = "t\<lparr>t_status := Queued, t_started := None\<rparr>"
    note p = pending_first [OF claimed(1)]
    have wf1: "queue_wf s1" using claim_locked_wf [OF l wf0] .
    have active: "turns_of sc turn_active s1 = [?t]"
      by (rule claim_active [OF queue_wf_bounds(3) [OF wf0] p(1,2) claimed(6,3)]) (simp_all add: active_Cons)
    have nb: "\<not> run_blocks sc s1" using claimed(7) run_blocks_same [OF claimed(9)] by simp
    have in1: "?t \<in> set (turns s1)" using active in_turns_of [of ?t sc turn_active s1] by simp
    have stale: "stale_claim ?cut sc x \<longleftrightarrow> x = ?t" if "x \<in> set (turns s1)" for x
    proof
      assume "stale_claim ?cut sc x"
      then have "x \<in> set (turns_of sc turn_active s1)"
        using that by (auto simp: stale_claim_def turn_active_def active_queue_statuses_def)
      then show "x = ?t" by (simp add: active)
    qed (use late p(2) in \<open>simp add: stale_claim_def\<close>)
    have "ct_request c = t_request t" using claimed(2) by (simp add: claimed_of_def)
    then have none: "run_of_turn sc s1 ?t = None"
      using no_run by (auto simp: run_of_turn_def newest_runs_def filter_empty_conv)
    have st: "filter (stale_claim ?cut sc) (turns s1) \<noteq> []" using in1 stale by (auto simp: filter_empty_conv)
    obtain k s2 where rec: "recover_claims now' sc ?cut s1 = (k, s2)" by force
    have "turns s2 = upd_where (stale_claim ?cut sc) (\<lambda>x. settle_claim now' (run_of_turn sc s1 x) x) (turns s1)"
      and f2: "controls s2 = controls s1" "runs s2 = runs s1" "conversations s2 = conversations s1"
      using rec st nb by (auto simp: recover_claims_def Let_def)
    then have t2: "turns s2 = map (\<lambda>x. if x = ?t then ?q else x) (turns s1)"
      using stale none by (auto simp: upd_where_def settle_claim_def)
    obtain b s3 s4 where "resume_after_failure sc s2 = Inr (b, s3)" "claim_locked now' sc s3 = (Some c, s4)"
      by (rule requeued_is_claimed [OF l wf0 claimed(1) t2 f2])
    then show ?thesis by (simp add: claim_next_def idle_recovery [OF nb] rec)
  qed simp
qed

section \<open>Pausing, adding, retrying, promoting, clearing\<close>

lemma set_paused_state:
  assumes "set_paused_locked now sc paused reason failed s = Inr s'"
  shows "state sc s' = \<lparr>qs_paused = paused, qs_reason = nonempty_trunc 2000 reason, qs_failed_request = failed,
           qs_paused_at = (if paused then Some now else None)\<rparr>"
proof (cases "find_control sc s")
  case None
  then have "filter (\<lambda>c. c_scope c = sc) (controls s) = []" by (simp add: find_control_def)
  then show ?thesis using assms None
    by (auto simp: set_paused_locked_def Let_def state_def find_control_def split: if_splits)
next
  case (Some c)
  let ?g = "\<lambda>c. c\<lparr>c_paused := paused, c_reason := nonempty_trunc 2000 reason, c_failed_request := failed,
       c_paused_at := (if paused then Some now else None)\<rparr>"
  have "filter (\<lambda>c. c_scope c = sc) (controls s') = upd_where (\<lambda>c. c_scope c = sc) ?g (filter (\<lambda>c. c_scope c = sc) (controls s))"
    using assms Some by (auto simp: set_paused_locked_def Let_def intro!: filter_upd_where_same)
  then have "find_control sc s' = Some (?g c)"
    using Some find_control_in [OF Some] by (simp add: find_control_def first_row_upd_where)
  then show ?thesis by (simp add: state_def)
qed

lemma pause_cases:
  assumes "pause now sc reason failed s = Inr (q, s')"
  obtains s1 where "set_paused_locked now sc True (Some reason) failed s = Inr s1" "q = state sc s'" "controls s' = controls s1"
    "turns s' = turns s" "next_id s \<le> next_id s'" "runs s' = runs s" "conversations s' = conversations s"
proof -
  obtain s1 where s1: "set_paused_locked now sc True (Some reason) failed s = Inr s1"
    and e: "s' = publish_queue_event sc (queue_activity now sc ''queue_paused'' 0 s1)" "q = state sc s'"
    using assms by (auto simp: pause_def Let_def split: if_splits sum.splits)
  have "next_id s \<le> next_id s'"
    using queue_act.ids [of s1 now sc "''queue_paused''" 0] set_paused_frame(4) [OF s1] by (simp add: e(1))
  then show thesis using that [OF s1] e set_paused_frame [OF s1] by simp
qed

text \<open>A user's pause holds: until it is resumed no claim hands out a turn and the queue stays paused,
  whatever recovery does in between; a pause that only records a failed request (the older automatic
  pause) is lifted by the next claim.\<close>

theorem pause_blocks_claims:
  assumes p: "pause now sc reason failed s = Inr (q, s1)" and c: "claim_next now' sc s1 = (r, s2)"
    and wf: "queue_wf s" and ps: "pauses_settled sc s1"
  shows "qs_paused q \<and> (failed = None \<longrightarrow> (\<forall>c. r \<noteq> Inr (Some c)) \<and> qs_paused (state sc s2)) \<and>
    (failed \<noteq> None \<and> \<not> isl r \<longrightarrow> \<not> qs_paused (state sc s2))"
proof -
  obtain s0 where s0: "set_paused_locked now sc True (Some reason) failed s = Inr s0" and q: "q = state sc s1"
    and f: "controls s1 = controls s0" "turns s1 = turns s" "next_id s \<le> next_id s1"
    by (rule pause_cases [OF p])
  have st: "qs_paused (state sc s1)" "qs_failed_request (state sc s1) = failed"
    using set_paused_state [OF s0] state_same [OF f(1)] by simp_all
  have wf1: "queue_wf s1" using turns_settle_wf [OF turns_settle_same f(3) wf] f(2) by simp
  from c wf1 ps show ?thesis
  proof (cases rule: claim_next_cases)
    case failed
    then show ?thesis using st q state_same [OF failed(3)] by simp
  next
    case (ok c s3)
    have "qs_paused (state sc s3) \<longleftrightarrow> failed = None" using state_clear [OF ok(5)] st by simp
    moreover from ok(2) have "state sc s2 = state sc s3 \<and> (qs_paused (state sc s3) \<longrightarrow> c = None)"
    proof (cases rule: claim_locked_cases)
      case (claimed t)
      show ?thesis using state_same [OF claimed(8)] claimed(5) by simp
    qed simp
    ultimately show ?thesis using ok(1) st q by (cases failed) simp_all
  qed
qed

lemma find_turn_added:
  "turns s' = turns s @ [t] \<Longrightarrow> t_scope t = sc \<Longrightarrow> find_turn sc (t_request t) s = None \<Longrightarrow> find_turn sc (t_request t) s' = Some t"
  by (simp add: find_turn_def turns_of_append)

text \<open>Enqueueing is idempotent in the request id: the stored turn is found under that id, repeating the
  request returns it and changes nothing, whatever else the repetition carries.  A new turn is queued
  behind all others: it is appended with a sequence above every earlier one, priority 0 or 1, and a
  prompt of at most 4000 characters.\<close>

theorem enqueue_idempotent:
  assumes e: "enqueue now sc rq s = Inr (t, s')" and short: "length (rq_request rq) \<le> 255"
    and again: "rq_request rq' = rq_request rq"
  shows "find_turn sc (rq_request rq) s' = Some t \<and> enqueue now' sc rq' s' = Inr (t, s') \<and>
    (s' = s \<or> turns s' = turns s @ [t] \<and> t_status t = Queued \<and> t_priority t = (if rq_steer rq then 1 else 0) \<and>
       length (t_prompt t) \<le> 4000 \<and> (\<forall>x \<in> set (turns s). t_scope x = sc \<longrightarrow> t_sequence x < t_sequence t))"
proof -
  have hc: "has_conversation sc s" using e by (auto simp: enqueue_def split: if_splits)
  from e show ?thesis
  proof (cases rule: enqueue_cases)
    case known
    then show ?thesis using hc again by (simp add: enqueue_def)
  next
    case new
    let ?n = "new_turn sc rq (next_turn_sequence sc s)"
    from new(3) show ?thesis
    proof (rule insert_turn_effect)
      fix k assume k: "t = ?n\<lparr>t_id := k\<rparr>" "turns s' = turns s @ [t]" "conversations s' = conversations s"
      have t: "t_scope t = sc" "t_request t = rq_request rq" "t_status t = Queued" "length (t_prompt t) \<le> 4000"
        "t_priority t = (if rq_steer rq then 1 else 0)" "t_sequence t = next_turn_sequence sc s"
        using short by (simp_all add: k(1) new_turn_def)
      have "find_turn sc (rq_request rq) s' = Some t"
        using find_turn_added [OF k(2) t(1)] new(1) t(2) by simp
      moreover have "has_conversation sc s'" using hc k(3) by (simp add: has_conversation_def)
      moreover have "\<forall>x \<in> set (turns s). t_scope x = sc \<longrightarrow> t_sequence x < next_turn_sequence sc s"
        using sequence_below by blast
      ultimately show ?thesis using again t k(2) by (simp add: enqueue_def)
    qed
  qed
qed

text \<open>A promoted turn is the next one to be claimed.\<close>

theorem promote_is_next:
  assumes p: "promote sc rid s = (Some t, s')" and wf: "queue_wf s"
  shows "next_queued_request_id sc s' = Some rid \<and> t_request t = rid \<and> first_row (pending_turns sc s') = Some t"
proof -
  obtain t0 where t0: "first_row (turns_of sc (\<lambda>t. t_request t = rid \<and> t_status t = Queued) s) = Some t0"
    using p by (auto simp: promote_def split: option.splits)
  note i = first_turn_of [OF t0]
  define m where "m = Max (set (map t_priority (turns_of sc (\<lambda>t. t_status t = Queued) s)))"
  have t: "t = t0\<lparr>t_priority := m + 1\<rparr>"
    and s': "turns s' = upd_where (\<lambda>x. t_id x = t_id t0) (\<lambda>t. t\<lparr>t_priority := m + 1\<rparr>) (turns s)"
    using p t0 by (auto simp: promote_def Let_def m_def)
  have own: "x = t0" if "x \<in> set (turns s)" "t_id x = t_id t0" for x
    using distinct_map_inj [OF queue_wf_bounds(3) [OF wf]] that i by blast
  have "first_row (pending_turns sc s') = Some t"
  proof (rule pending_first_least)
    show "t \<in> set (turns s')" using i t by (auto simp: s' in_upd_where intro!: bexI [of _ t0])
    fix x assume x: "x \<in> set (turns s')" "t_scope x = sc" "t_status x = Queued" "x \<noteq> t"
    then have "x \<in> set (turns s)" using own t by (auto simp: s' in_upd_where split: if_splits)
    then have "t_priority x \<le> m" unfolding m_def using x by (intro Max_ge) auto
    then show "\<not> queue_order x \<le> queue_order t" by (simp add: t queue_order_def less_eq_prod_simp)
  qed (use i t in simp_all)
  then show ?thesis using i t by (simp add: next_queued_request_id_def)
qed

text \<open>What the queue list shows: the unfinished and failed turns of the conversation that are not
  running, without a failed turn that a listed or completed turn retries; failed ones last, the others
  in the order in which they will be claimed.\<close>

theorem open_turns_exact:
  "(t \<in> set (open_turns sc s) \<longleftrightarrow>
      t \<in> set (turns s) \<and> t_scope t = sc \<and> t_status t \<in> set queue_visible_statuses \<and>
      (t_status t = Failed \<longrightarrow> t_request t = [] \<or>
         \<not> (\<exists>x \<in> set (turns s). t_scope x = sc \<and> (t_status x \<in> set queue_visible_statuses \<or> t_status x = Completed) \<and>
              t_resume_from x = Some (t_request t)))) \<and>
   sorted (map listing_order (open_turns sc s)) \<and>
   filter (\<lambda>t. t_status t = Queued) (open_turns sc s) = pending_turns sc s"
proof -
  let ?listed = "\<lambda>t. t_status t \<in> set queue_visible_statuses \<or> t_status t = Completed"
  let ?rows = "order_by listing_order (turns_of sc ?listed s)"
  have parents: "set (retry_parents ?rows) = {rid. rid \<noteq> [] \<and> (\<exists>x \<in> set (turns s). t_scope x = sc \<and> ?listed x \<and> t_resume_from x = Some rid)}"
    by (auto simp: retry_parents_def List.map_filter_def intro: rev_image_eqI)
  have sorted: "sorted (map listing_order ?rows)" by (simp add: order_by_def)
  have "sort_key listing_order xs = sort_key queue_order xs" if "\<forall>x \<in> set xs. t_status x = Queued" for xs
    using that
  proof (induction xs)
    case (Cons x xs)
    have "insort_key listing_order x ys = insort_key queue_order x ys" if "\<forall>y \<in> set ys. t_status y = Queued" for ys
      using that Cons.prems by (induction ys) (auto simp: listing_order_def less_eq_prod_simp)
    then show ?case using Cons by simp
  qed simp
  moreover have "filter (\<lambda>t. t_status t = Queued) (turns_of sc ?listed s) = turns_of sc (\<lambda>t. t_status t = Queued) s"
    by (auto simp: turns_of_def queue_visible_statuses_def intro!: filter_cong)
  ultimately have "filter (\<lambda>t. t_status t = Queued) ?rows = pending_turns sc s"
    by (simp add: order_by_def pending_turns_def filter_sort)
  moreover have "filter (\<lambda>t. t_status t = Queued) (open_turns sc s) = filter (\<lambda>t. t_status t = Queued) ?rows"
    by (auto simp: open_turns_def Let_def queue_visible_statuses_def intro!: filter_cong)
  ultimately show ?thesis
    using sorted_filter [OF sorted] parents by (auto simp: open_turns_def Let_def)
qed

text \<open>A retry is one durable attempt: a new turn with the failed turn's request, linked to it and one
  priority above it, appended behind all others; while it is unfinished every further retry of the same
  turn returns it and adds nothing, and the queue list shows the retry in place of the failed turn.\<close>

theorem retry_failed_once:
  assumes r: "retry_failed now sc rid client s = Inr (t, s')" and new: "t \<notin> set (turns s)" and rid: "rid \<noteq> []"
    and again: "client' \<noteq> []" "find_turn sc (trunc 255 client') s' \<in> {None, Some t}"
  shows "(\<exists>failed \<in> set (turns s). t_scope failed = sc \<and> t_request failed = rid \<and> t_status failed = Failed \<and>
        t_prompt t = t_prompt failed \<and> t_roles t = t_roles failed \<and> t_permissions t = t_permissions failed \<and>
        t_files t = t_files failed \<and> t_regenerate t = t_regenerate failed \<and>
        t_priority t = max 1 (t_priority failed + 1) \<and> failed \<notin> set (open_turns sc s')) \<and>
    turns s' = turns s @ [t] \<and> t_status t = Queued \<and> t_resume_from t = Some rid \<and> t \<in> set (open_turns sc s') \<and>
    retry_failed now' sc rid (Some client') s' = Inr (t, s')"
  using r
proof (cases rule: retry_cases)
  case known
  then show ?thesis using new by simp
next
  case (new failed rid' s1)
  have s1: "turns s1 = turns s" "conversations s1 = conversations s" using new(8) by auto
  let ?n = "retry_turn failed rid rid' (next_turn_sequence sc s)"
  from new(9) show ?thesis
  proof (rule insert_turn_effect)
    fix k assume k: "t = ?n\<lparr>t_id := k\<rparr>" "turns s' = turns s1 @ [t]" "conversations s' = conversations s1"
    have hc: "has_conversation sc s" using r by (auto simp: retry_failed_def split: if_splits)
    have t: "t_scope t = sc" "t_status t = Queued" "t_resume_from t = Some rid" "t_sequence t = next_turn_sequence sc s"
      using new(2) by (simp_all add: k(1) retry_turn_def)
    have ts: "turns s' = turns s @ [t]" using k(2) s1(1) by simp
    have "first_row (turns_of sc (\<lambda>t. t_request t = rid \<and> t_status t = Failed) s') =
        first_row (turns_of sc (\<lambda>t. t_request t = rid \<and> t_status t = Failed) s)"
      by (simp add: turns_of_append [OF ts] t)
    moreover have "turns_of sc (\<lambda>t. t_request t = rid \<and> t_status t = Failed) s \<noteq> []"
      using new(1-4) by (auto simp: turns_of_def filter_empty_conv)
    ultimately obtain f where f: "first_row (turns_of sc (\<lambda>t. t_request t = rid \<and> t_status t = Failed) s') = Some f"
      by (metis first_row_None option.exhaust)
    have none: "turns_of sc (\<lambda>t. t_resume_from t = Some rid \<and> (queueable t \<or> t_status t = Completed)) s = []"
      using new(6) by (simp add: existing_retries_def)
    have e: "existing_retries sc rid s' = [t]"
      unfolding existing_retries_def turns_of_append [OF ts] none
      by (simp add: t queueable_def queueable_statuses_def order_by_def)
    have "has_conversation sc s'" using hc k(3) s1(2) by (simp add: has_conversation_def)
    then have "retry_failed now' sc rid (Some client') s' = Inr (t, s')"
      using again f e by (auto simp: retry_failed_def or_else_def split: option.split)
    moreover have "t \<in> set (open_turns sc s')"
      unfolding open_turns_def Let_def by (simp add: ts t queue_visible_statuses_def)
    moreover have "failed \<notin> set (open_turns sc s')"
      using new(1-4) rid ts t unfolding open_turns_def Let_def
      by (auto simp: retry_parents_def List.map_filter_def queue_visible_statuses_def intro!: image_eqI [of _ _ t])
    ultimately show ?thesis using new(1-4) ts t by (auto simp: k(1) retry_turn_def)
  qed
qed

text \<open>Clearing a queue leaves nothing to claim and no pause: no turn is queued, waiting or failed, the
  queue list is empty, and the finished turns and other conversations are untouched.  Every turn that
  was active stays active as \<open>cancelling\<close>, a waiting one without a worker too, so that no claim hands
  out a turn until a worker or recovery has ended it.\<close>

theorem clear_empties_queue:
  assumes c: "clear_for_conversation now sc commit s = (n, s')"
  shows "open_turns sc s' = [] \<and> next_queued_request_id sc s' = None \<and> \<not> qs_paused (state sc s') \<and>
    n = length (turns_of sc (\<lambda>t. queueable t \<or> t_status t = Failed) s) \<and>
    (\<forall>t \<in> set (turns s). t_scope t \<noteq> sc \<or> t_status t \<in> {Completed, Cancelled} \<longrightarrow> t \<in> set (turns s')) \<and>
    map t_id (turns_of sc turn_active s') = map t_id (turns_of sc turn_active s) \<and>
    (\<forall>t \<in> set (turns_of sc turn_active s'). t_status t = Cancelling) \<and>
    (turns_of sc turn_active s \<noteq> [] \<longrightarrow> claim_locked now' sc s' = (None, s'))"
proof -
  let ?P = "\<lambda>t. t_scope t = sc \<and> (queueable t \<or> t_status t = Failed)"
  have ts: "turns s' = upd_where ?P (clear_turn now) (turns s)"
    and cs: "controls s' = upd_where (\<lambda>c. c_scope c = sc) clear_control (controls s)"
    and n: "n = length (filter ?P (turns s))"
    using c by (auto simp: clear_for_conversation_def Let_def)
  have st: "t_status t \<in> {Cancelling, Cancelled, Completed}" if t: "t \<in> set (turns s')" "t_scope t = sc" for t
  proof -
    obtain y where y: "y \<in> set (turns s)" "t = (if ?P y then clear_turn now y else y)"
      using t(1) unfolding ts in_upd_where by blast
    show ?thesis
    proof (cases "?P y")
      case False
      then show ?thesis using y(2) t(2) by (cases "t_status y") (auto simp: queueable_def queueable_statuses_def)
    qed (use y(2) in \<open>simp add: clear_turn_def\<close>)
  qed
  have empty: "turns_of sc P s' = []" if "\<And>t. t_status t \<in> {Cancelling, Cancelled, Completed} \<Longrightarrow> \<not> P t" for P
    using st that by (fastforce simp: turns_of_def filter_empty_conv)
  have "t_status t \<notin> set queue_visible_statuses" if "t \<in> set (turns s')" "t_scope t = sc" for t
    using st [OF that] by (auto simp: queue_visible_statuses_def)
  then have "open_turns sc s' = []" by (auto simp: open_turns_def Let_def filter_empty_conv)
  moreover have "next_queued_request_id sc s' = None"
  proof -
    have "turns_of sc (\<lambda>t. t_status t = Queued) s' = []" by (rule empty) auto
    then show ?thesis by (simp add: next_queued_request_id_def pending_turns_def)
  qed
  moreover have "\<not> qs_paused (state sc s')"
  proof (cases "find_control sc s'")
    case (Some c')
    then have "c' \<in> set (controls s')" "c_scope c' = sc" using find_control_in by blast+
    then obtain c0 where "c' = (if c_scope c0 = sc then clear_control c0 else c0)" unfolding cs in_upd_where by blast
    then have "\<not> c_paused c'" using \<open>c_scope c' = sc\<close> by (auto simp: clear_control_def)
    then show ?thesis using Some by (simp add: state_def)
  qed (simp add: state_def)
  moreover have active: "turns_of sc turn_active s' = map (clear_turn now) (turns_of sc turn_active s)"
  proof -
    have "filter (\<lambda>t. t_scope t = sc \<and> turn_active t) (upd_where ?P (clear_turn now) xs) =
        map (clear_turn now) (filter (\<lambda>t. t_scope t = sc \<and> turn_active t) xs)" for xs
      by (induction xs) (auto simp: clear_turn_def turn_active_def queueable_def active_queue_statuses_def queueable_statuses_def)
    then show ?thesis by (simp add: turns_of_def ts)
  qed
  moreover have "t_status t = Cancelling" if "t \<in> set (turns_of sc turn_active s')" for t
    using that active by (auto simp: clear_turn_def)
  moreover have "t \<in> set (turns s')" if "t \<in> set (turns s)" "t_scope t \<noteq> sc \<or> t_status t \<in> {Completed, Cancelled}" for t
    using that unfolding ts in_upd_where by (intro bexI [of _ t]) (auto simp: queueable_def queueable_statuses_def)
  moreover have "map t_id (map (clear_turn now) xs) = map t_id xs" for xs by (simp add: clear_turn_def)
  ultimately show ?thesis using n by (auto simp: turns_of_def claim_locked_def)
qed

section \<open>The properties at concrete inputs\<close>

definition sample_turn :: "nat \<Rightarrow> string \<Rightarrow> int \<Rightarrow> int \<Rightarrow> turn" where
  "sample_turn k rid prio q =
     \<lparr>t_id = k, t_scope = (1, 7, 9), t_request = rid, t_regenerate = None, t_resume_from = None, t_prompt = ''hello'',
      t_priority = prio, t_sequence = q, t_thinking = False, t_effort = None, t_roles = [''editor''],
      t_permissions = [], t_files = [], t_status = Queued, t_error = None, t_started = None, t_completed = None\<rparr>"

definition sample_request :: turn_request where
  "sample_request = \<lparr>rq_request = ''a'', rq_prompt = ''hello'', rq_regenerate = None, rq_thinking = False, rq_effort = None,
     rq_roles = [''editor'', ''admin'', ''editor''], rq_permissions = [], rq_files = [], rq_steer = True,
     rq_resume_from = None\<rparr>"

text \<open>Two queued turns, the second with the higher priority, and a Redis that does not answer.\<close>

definition queue_db :: db where
  "queue_db = quota_db\<lparr>conversations := [\<lparr>v_scope = (1, 7, 9), v_kind = ''deepspace''\<rparr>],
     turns := [sample_turn 1 ''r1'' 0 1, sample_turn 2 ''r2'' 1 2], next_id := 50, redis_up := False\<rparr>"

lemma queue_db_wf: "queue_wf queue_db"
proof -
  have ts: "turns queue_db = [sample_turn 1 ''r1'' 0 1, sample_turn 2 ''r2'' 1 2]" "next_id queue_db = 50"
    by (simp_all add: queue_db_def)
  have "length (turns_of sc turn_active queue_db) \<le> 1" "length (turns_of sc queueable queue_db) \<le> max_turns_per_conversation" for sc
    by (simp_all add: turns_of_def ts turn_active_def sample_turn_def active_queue_statuses_def max_turns_per_conversation_def)
  then show ?thesis unfolding queue_wf_def ts by (simp add: sample_turn_def)
qed

lemma queue_db_pauses: "pauses_settled sc queue_db"
  by (simp add: pauses_settled_def queue_db_def sample_turn_def terminal_queue_statuses_def)

lemma queue_db_claim:
  "case fst (claim_next 100 (1, 7, 9) queue_db) of Inl _ \<Rightarrow> False | Inr c \<Rightarrow> map_option ct_request c = Some ''r2''"
  by code_simp

lemma insert_turn_ok:
  assumes "\<not> isl (turn_capacity now (t_scope t) (turn_bytes (t_prompt t) t) 0 s)" and "find_turn (t_scope t) (t_request t) s = None"
  shows "\<exists>t' s'. insert_turn now kind t s = Inr (t', s')"
proof -
  obtain u s1 where c: "turn_capacity now (t_scope t) (turn_bytes (t_prompt t) t) 0 s = Inr (u, s1)"
    using assms(1) by (cases "turn_capacity now (t_scope t) (turn_bytes (t_prompt t) t) 0 s") auto
  then have "find_turn (t_scope t) (t_request t) s1 = None"
    using assms(2) turn_guard.guard_frame(1) [OF c] by (simp add: find_turn_def turns_of_def)
  with c show ?thesis by (simp add: insert_turn_def Let_def)
qed

lemma queue_db_enqueue: "\<exists>t s'. enqueue 100 (1, 7, 9) sample_request queue_db = Inr (t, s')"
proof -
  let ?n = "new_turn (1, 7, 9) sample_request (next_turn_sequence (1, 7, 9) queue_db)"
  have "\<not> isl (turn_capacity 100 (t_scope ?n) (turn_bytes (t_prompt ?n) ?n) 0 queue_db)"
    "find_turn (t_scope ?n) (t_request ?n) queue_db = None" by code_simp+
  then obtain t s' where "insert_turn 100 ''queue_turn_added'' ?n queue_db = Inr (t, s')" using insert_turn_ok by blast
  moreover have "has_conversation (1, 7, 9) queue_db" "find_turn (1, 7, 9) (rq_request sample_request) queue_db = None"
    "\<not> queue_full (1, 7, 9) queue_db" by code_simp+
  ultimately show ?thesis by (simp add: enqueue_def)
qed

lemma empty_enqueue:
  "\<exists>t s'. enqueue 100 (1, 7, 9) sample_request (queue_db\<lparr>turns := []\<rparr>) = Inr (t, s') \<and> turns s' = [t] \<and> t_request t = ''a''"
proof -
  let ?s = "queue_db\<lparr>turns := []\<rparr>"
  let ?n = "new_turn (1, 7, 9) sample_request (next_turn_sequence (1, 7, 9) ?s)"
  have "\<not> isl (turn_capacity 100 (t_scope ?n) (turn_bytes (t_prompt ?n) ?n) 0 ?s)"
    "find_turn (t_scope ?n) (t_request ?n) ?s = None" by code_simp+
  then obtain t s' where i: "insert_turn 100 ''queue_turn_added'' ?n ?s = Inr (t, s')" using insert_turn_ok by blast
  moreover have "has_conversation (1, 7, 9) ?s" "find_turn (1, 7, 9) (rq_request sample_request) ?s = None"
    "\<not> queue_full (1, 7, 9) ?s" by code_simp+
  moreover have "turns s' = [t] \<and> t_request t = ''a''"
    using i by (rule insert_turn_effect) (simp add: new_turn_def sample_request_def)
  ultimately show ?thesis by (simp add: enqueue_def)
qed

lemma queue_db_reachable: "queue_reachable (queue_db\<lparr>turns := []\<rparr>)"
  by (rule queue_reachable.start) simp

lemma queue_db_pause: "\<exists>q s'. pause 100 (1, 7, 9) ''stop'' None queue_db = Inr (q, s')"
proof -
  have "has_conversation (1, 7, 9) queue_db" "find_control (1, 7, 9) queue_db = None" by code_simp+
  moreover have "controls queue_db = []" by (simp add: queue_db_def quota_db_def empty_db_def)
  ultimately show ?thesis by (simp add: pause_def set_paused_locked_def Let_def)
qed

lemma claimed_witness: obtains c s' where "claim_next 100 (1, 7, 9) queue_db = (Inr (Some c), s')" "ct_request c = ''r2''"
  using queue_db_claim by (cases "claim_next 100 (1, 7, 9) queue_db") (auto split: sum.splits)


theorem claim_next_exact_witness:
  "\<exists>c s' t. claim_next 100 (1, 7, 9) queue_db = (Inr (Some c), s') \<and> turns_of (1, 7, 9) turn_active s' = [t] \<and> c = claimed_of t"
proof -
  obtain c s' where c: "claim_next 100 (1, 7, 9) queue_db = (Inr (Some c), s')" by (rule claimed_witness)
  with claim_next_exact [OF c queue_db_wf queue_db_pauses] show ?thesis by blast
qed

theorem dispatcher_crash_recovers_witness:
  "\<exists>c s1 s2. claim_next 100 (1, 7, 9) queue_db = (Inr (Some c), s1) \<and> claim_next 1000 (1, 7, 9) s1 = (Inr (Some c), s2) \<and>
     ct_request c = ''r2''"
proof -
  obtain c s1 where c: "claim_next 100 (1, 7, 9) queue_db = (Inr (Some c), s1)" "ct_request c = ''r2''" by (rule claimed_witness)
  have "runs (snd (claim_next 100 (1, 7, 9) queue_db)) = []" by code_simp
  then have "\<forall>r \<in> set (runs s1). r_scope r = (1, 7, 9) \<longrightarrow> ct_request c \<notin> set (run_requests (1, 7, 9) r s1)"
    unfolding c(1) snd_conv by simp
  with dispatcher_crash_recovers [OF c(1) queue_db_wf queue_db_pauses this, of 1000] c show ?thesis
    by (auto simp: stale_dispatch_after_def)
qed

theorem pause_blocks_claims_witness:
  "\<exists>q s1. pause 100 (1, 7, 9) ''stop'' None queue_db = Inr (q, s1) \<and> (\<forall>c. fst (claim_next 1000 (1, 7, 9) s1) \<noteq> Inr (Some c))"
proof -
  obtain q s1 where p: "pause 100 (1, 7, 9) ''stop'' None queue_db = Inr (q, s1)" using queue_db_pause by blast
  obtain r s2 where c: "claim_next 1000 (1, 7, 9) s1 = (r, s2)" by force
  have "turns s1 = turns queue_db" by (rule pause_cases [OF p])
  then have "pauses_settled (1, 7, 9) s1"
    by (simp add: pauses_settled_def queue_db_def sample_turn_def terminal_queue_statuses_def)
  then show ?thesis using pause_blocks_claims [OF p c queue_db_wf] p c by auto
qed

theorem enqueue_idempotent_witness:
  "\<exists>t s'. enqueue 100 (1, 7, 9) sample_request queue_db = Inr (t, s') \<and>
     enqueue 200 (1, 7, 9) (sample_request\<lparr>rq_prompt := ''other''\<rparr>) s' = Inr (t, s')"
proof -
  obtain t s' where e: "enqueue 100 (1, 7, 9) sample_request queue_db = Inr (t, s')" using queue_db_enqueue by blast
  have "length (rq_request sample_request) \<le> 255" by (simp add: sample_request_def)
  from enqueue_idempotent [OF e this, of "sample_request\<lparr>rq_prompt := ''other''\<rparr>" 200] e show ?thesis by auto
qed

theorem promote_is_next_witness:
  "next_queued_request_id (1, 7, 9) queue_db = Some ''r2'' \<and>
   next_queued_request_id (1, 7, 9) (snd (promote (1, 7, 9) ''r1'' queue_db)) = Some ''r1''"
proof
  show "next_queued_request_id (1, 7, 9) queue_db = Some ''r2''" by code_simp
  have "fst (promote (1, 7, 9) ''r1'' queue_db) \<noteq> None" by code_simp
  then obtain t s' where p: "promote (1, 7, 9) ''r1'' queue_db = (Some t, s')"
    by (cases "promote (1, 7, 9) ''r1'' queue_db") auto
  show "next_queued_request_id (1, 7, 9) (snd (promote (1, 7, 9) ''r1'' queue_db)) = Some ''r1''"
    using promote_is_next [OF p queue_db_wf] unfolding p snd_conv by blast
qed

definition failed_db :: db where
  "failed_db = queue_db\<lparr>turns := [(sample_turn 1 ''r1'' 0 1)\<lparr>t_status := Failed, t_completed := Some 50\<rparr>]\<rparr>"

lemma failed_db_retry: "\<exists>t s'. retry_failed 100 (1, 7, 9) ''r1'' (Some ''c1'') failed_db = Inr (t, s') \<and> t_request t = ''c1'' \<and>
    t_scope t = (1, 7, 9) \<and> turns s' = turns failed_db @ [t]"
proof -
  let ?f = "(sample_turn 1 ''r1'' 0 1)\<lparr>t_status := Failed, t_completed := Some 50\<rparr>"
  let ?n = "retry_turn ?f ''r1'' ''c1'' (next_turn_sequence (1, 7, 9) failed_db)"
  have "\<not> isl (turn_capacity 100 (t_scope ?n) (turn_bytes (t_prompt ?n) ?n) 0 failed_db)"
    "find_turn (t_scope ?n) (t_request ?n) failed_db = None" by code_simp+
  then obtain t s' where i: "insert_turn 100 ''queue_turn_retried'' ?n failed_db = Inr (t, s')" using insert_turn_ok by blast
  then have t: "t_request t = ''c1'' \<and> t_scope t = (1, 7, 9) \<and> turns s' = turns failed_db @ [t]"
    by (rule insert_turn_effect) (simp add: retry_turn_def sample_turn_def)
  have "turns failed_db = [?f]" by (simp add: failed_db_def)
  then have "first_row (turns_of (1, 7, 9) (\<lambda>t. t_request t = ''r1'' \<and> t_status t = Failed) failed_db) = Some ?f"
    "find_turn (1, 7, 9) (trunc 255 ''c1'') failed_db = None" "existing_retries (1, 7, 9) ''r1'' failed_db = []"
    by (simp_all add: turns_of_def sample_turn_def find_turn_def existing_retries_def)
  moreover have "has_conversation (1, 7, 9) failed_db" "\<not> queue_full (1, 7, 9) failed_db" by code_simp+
  ultimately show ?thesis using i t by (simp add: retry_failed_def Let_def or_else_def trunc_def)
qed

theorem retry_failed_once_witness:
  "\<exists>t s'. retry_failed 100 (1, 7, 9) ''r1'' (Some ''c1'') failed_db = Inr (t, s') \<and>
     retry_failed 200 (1, 7, 9) ''r1'' (Some ''c1'') s' = Inr (t, s') \<and> t \<in> set (open_turns (1, 7, 9) s')"
proof -
  obtain t s' where r: "retry_failed 100 (1, 7, 9) ''r1'' (Some ''c1'') failed_db = Inr (t, s')"
    and t: "t_request t = ''c1''" "t_scope t = (1, 7, 9)" "turns s' = turns failed_db @ [t]" using failed_db_retry by blast
  have f: "turns failed_db = [(sample_turn 1 ''r1'' 0 1)\<lparr>t_status := Failed, t_completed := Some 50\<rparr>]" by (simp add: failed_db_def)
  then have "t \<notin> set (turns failed_db)" using t(1) by (auto simp: sample_turn_def)
  moreover have "find_turn (1, 7, 9) (t_request t) failed_db = None"
    by (simp add: find_turn_None f t(1) sample_turn_def)
  then have "find_turn (1, 7, 9) (t_request t) s' = Some t" using find_turn_added [OF t(3,2)] by blast
  then have "find_turn (1, 7, 9) (trunc 255 ''c1'') s' \<in> {None, Some t}" by (simp add: t(1))
  ultimately show ?thesis using retry_failed_once [OF r, of "''c1''" 200] r by blast
qed

theorem clear_empties_queue_witness:
  "fst (clear_for_conversation 100 (1, 7, 9) False queue_db) = 2 \<and>
   open_turns (1, 7, 9) (snd (clear_for_conversation 100 (1, 7, 9) False queue_db)) = []"
proof
  obtain n s' where c: "clear_for_conversation 100 (1, 7, 9) False queue_db = (n, s')" by force
  show "open_turns (1, 7, 9) (snd (clear_for_conversation 100 (1, 7, 9) False queue_db)) = []"
    using clear_empties_queue [OF c] unfolding c snd_conv by blast
  show "fst (clear_for_conversation 100 (1, 7, 9) False queue_db) = 2" by code_simp
qed

theorem open_turns_exact_witness:
  "sample_turn 1 ''r1'' 0 1 \<in> set (open_turns (1, 7, 9) queue_db) \<and>
   filter (\<lambda>t. t_status t = Queued) (open_turns (1, 7, 9) queue_db) = pending_turns (1, 7, 9) queue_db"
proof -
  have "sample_turn 1 ''r1'' 0 1 \<in> set (turns queue_db)" "t_scope (sample_turn 1 ''r1'' 0 1) = (1, 7, 9)"
    "t_status (sample_turn 1 ''r1'' 0 1) = Queued"
    by (simp_all add: queue_db_def sample_turn_def)
  then show ?thesis using open_turns_exact [of "sample_turn 1 ''r1'' 0 1" "(1, 7, 9)" queue_db]
    by (simp add: queue_visible_statuses_def)
qed

end
