(* ===== verification/Stream_Delivery.thy ===== *)
theory Stream_Delivery
  imports Turn_Queue
begin

text \<open>
  The path of a frame from the worker to the browser.

  \<open>AsyncRunEventFanout\<close> (\<open>deepspace/services/run_events.py\<close>) is a step relation of three tasks of one event
  loop: the producer inside \<open>submit\<close> and \<open>close\<close>, the writer (\<open>_persist_loop\<close>) and the publisher
  (\<open>_publish_loop\<close>).  A rule is the code between two suspension points.  The client loop of
  \<open>deepspace/api/chats.py\<close> is a function over what it reads: a replay of the log or a live message.
\<close>

section \<open>The fan-out\<close>

definition max_batch_size :: nat where "max_batch_size = 64"

definition fanout_queue_size :: nat where "fanout_queue_size = 512"

text \<open>Where each task is suspended.  A batch is collected and then written in a thread; \<open>True\<close> when the
  stop sentinel was met behind it.\<close>

datatype writer = WIdle | WCollecting "pending_event list" | WWriting "pending_event list" bool | WStopped

text \<open>The producer: in \<open>put\<close> of the durable queue, in \<open>join\<close> before a terminal frame goes live, in \<open>put\<close> of
  the live queue; and the phases of \<open>close\<close>.\<close>

datatype producer = PIdle | PPut pending_event | PJoin pending_event | PLive pending_event | PRaised
  | PClose | PCloseWriter | PCloseLive | PClosePublisher | PClosed

text \<open>\<open>None\<close> in a queue is the stop sentinel.  \<open>fo_unfinished\<close> is the counter behind \<open>task_done\<close> and \<open>join\<close>
  of the durable queue.  \<open>fo_submitted\<close>, \<open>fo_stored\<close> and \<open>fo_published\<close> record the history: the frames that
  got a sequence, those committed, and those Redis took.\<close>

record fanout =
  fo_scope :: scope
  fo_request :: string
  fo_next :: int
  fo_queue :: "pending_event option list"
  fo_unfinished :: nat
  fo_writer :: writer
  fo_failed :: bool
  fo_live :: "pending_event option list"
  fo_publishing :: bool
  fo_producer :: producer
  fo_db :: db
  fo_submitted :: "pending_event list"
  fo_stored :: "pending_event list"
  fo_published :: "pending_event list"

definition fanout_start :: "scope \<Rightarrow> string \<Rightarrow> int \<Rightarrow> db \<Rightarrow> fanout" where
  "fanout_start sc rid initial s =
     \<lparr>fo_scope = sc, fo_request = strip rid, fo_next = max 0 initial + 1, fo_queue = [], fo_unfinished = 0,
      fo_writer = WIdle, fo_failed = False, fo_live = [], fo_publishing = True, fo_producer = PIdle, fo_db = s,
      fo_submitted = [], fo_stored = [], fo_published = []\<rparr>"

definition terminal_frame :: "string \<Rightarrow> bool" where
  "terminal_frame frame = is_terminal_event (event_name_from_frame frame)"

definition next_event :: "string \<Rightarrow> nat option \<Rightarrow> fanout \<Rightarrow> pending_event \<times> fanout" where
  "next_event frame run f =
     (let ev = \<lparr>pe_sequence = fo_next f, pe_frame = frame, pe_run = run\<rparr>
      in (ev, f\<lparr>fo_next := fo_next f + 1, fo_submitted := fo_submitted f @ [ev]\<rparr>))"

text \<open>\<open>submit\<close> up to its first suspension, and after \<open>put\<close> of the durable queue and after \<open>join\<close>.\<close>

definition submit_begin :: "string \<Rightarrow> nat option \<Rightarrow> fanout \<Rightarrow> fanout" where
  "submit_begin frame run f =
     (if fo_failed f then f\<lparr>fo_producer := PRaised\<rparr>
      else (case next_event frame run f of (ev, f1) \<Rightarrow> f1\<lparr>fo_producer := PPut ev\<rparr>))"

definition submit_put :: "pending_event \<Rightarrow> fanout \<Rightarrow> fanout" where
  "submit_put ev f = f\<lparr>fo_queue := fo_queue f @ [Some ev], fo_unfinished := Suc (fo_unfinished f),
     fo_producer := (if fo_failed f then PRaised else if terminal_frame (pe_frame ev) then PJoin ev else PLive ev)\<rparr>"

definition submit_joined :: "pending_event \<Rightarrow> fanout \<Rightarrow> fanout" where
  "submit_joined ev f = f\<lparr>fo_producer := (if fo_failed f then PRaised else PLive ev)\<rparr>"

definition submit_live :: "pending_event \<Rightarrow> fanout \<Rightarrow> fanout" where
  "submit_live ev f = f\<lparr>fo_live := fo_live f @ [Some ev], fo_producer := PIdle\<rparr>"

text \<open>The end of \<open>to_thread(_persist_batch)\<close>: every event of the batch is done, or the error is kept and
  both the batch and the rest of the queue are dropped.\<close>

definition batch_stored :: "pending_event list \<Rightarrow> bool \<Rightarrow> db \<Rightarrow> fanout \<Rightarrow> fanout" where
  "batch_stored b stop s f = f\<lparr>fo_db := s, fo_unfinished := fo_unfinished f - length b,
     fo_writer := (if stop then WStopped else WIdle), fo_stored := fo_stored f @ b\<rparr>"

definition batch_failed :: "pending_event list \<Rightarrow> fanout \<Rightarrow> fanout" where
  "batch_failed b f = f\<lparr>fo_failed := True, fo_unfinished := fo_unfinished f - length b - length (fo_queue f),
     fo_queue := [], fo_writer := WStopped\<rparr>"

definition publish :: "pending_event \<Rightarrow> fanout \<Rightarrow> fanout" where
  "publish ev f = f\<lparr>fo_db := publish_live_event (fo_request f) ev (fo_db f),
     fo_published := fo_published f @ (if redis_up (fo_db f) then [ev] else [])\<rparr>"

text \<open>The frames of the request as the log holds them.\<close>

definition stored_frames :: "scope \<Rightarrow> string \<Rightarrow> db \<Rightarrow> (int \<times> string) list" where
  "stored_frames sc rid s = map (\<lambda>e. (e_sequence e, e_frame e)) (filter (of_request sc rid) (events s))"

text \<open>
  The writer may stop collecting at any time (the flush deadline) and must at 64; a batch may fail for a
  reason outside the store too.  \<open>elsewhere\<close>: other components and Redis change at any time; only this
  worker, which holds the request's lock, appends to the request's stream.
\<close>

inductive fanout_step :: "fanout \<Rightarrow> fanout \<Rightarrow> bool" where
  submit: "fo_producer f = PIdle \<Longrightarrow> fanout_step f (submit_begin frame run f)"
| put: "fo_producer f = PPut ev \<Longrightarrow> length (fo_queue f) < fanout_queue_size \<Longrightarrow> fanout_step f (submit_put ev f)"
| joined: "fo_producer f = PJoin ev \<Longrightarrow> fo_unfinished f = 0 \<Longrightarrow> fanout_step f (submit_joined ev f)"
| live: "fo_producer f = PLive ev \<Longrightarrow> length (fo_live f) < fanout_queue_size \<Longrightarrow> fanout_step f (submit_live ev f)"
| close: "fo_producer f \<in> {PIdle, PRaised} \<Longrightarrow> fanout_step f (f\<lparr>fo_producer := PClose\<rparr>)"
| close_put: "fo_producer f = PClose \<Longrightarrow> fo_unfinished f = 0 \<Longrightarrow> length (fo_queue f) < fanout_queue_size \<Longrightarrow>
     fanout_step f (f\<lparr>fo_queue := fo_queue f @ [None], fo_unfinished := Suc (fo_unfinished f), fo_producer := PCloseWriter\<rparr>)"
| close_writer: "fo_producer f = PCloseWriter \<Longrightarrow> fo_writer f = WStopped \<Longrightarrow>
     fanout_step f (f\<lparr>fo_producer := PCloseLive\<rparr>)"
| close_live: "fo_producer f = PCloseLive \<Longrightarrow> fo_live f = [] \<Longrightarrow>
     fanout_step f (f\<lparr>fo_live := [None], fo_producer := PClosePublisher\<rparr>)"
| close_done: "fo_producer f = PClosePublisher \<Longrightarrow> \<not> fo_publishing f \<Longrightarrow> fanout_step f (f\<lparr>fo_producer := PClosed\<rparr>)"
| take_first: "fo_writer f = WIdle \<Longrightarrow> fo_queue f = Some ev # q \<Longrightarrow>
     fanout_step f (f\<lparr>fo_queue := q, fo_writer := WCollecting [ev]\<rparr>)"
| take_stop: "fo_writer f = WIdle \<Longrightarrow> fo_queue f = None # q \<Longrightarrow>
     fanout_step f (f\<lparr>fo_queue := q, fo_unfinished := fo_unfinished f - 1, fo_writer := WStopped\<rparr>)"
| take_more: "fo_writer f = WCollecting b \<Longrightarrow> length b < max_batch_size \<Longrightarrow> fo_queue f = Some ev # q \<Longrightarrow>
     fanout_step f (f\<lparr>fo_queue := q, fo_writer := WCollecting (b @ [ev])\<rparr>)"
| take_last: "fo_writer f = WCollecting b \<Longrightarrow> length b < max_batch_size \<Longrightarrow> fo_queue f = None # q \<Longrightarrow>
     fanout_step f (f\<lparr>fo_queue := q, fo_unfinished := fo_unfinished f - 1, fo_writer := WWriting b True\<rparr>)"
| flush: "fo_writer f = WCollecting b \<Longrightarrow> fanout_step f (f\<lparr>fo_writer := WWriting b False\<rparr>)"
| stored: "fo_writer f = WWriting b stop \<Longrightarrow>
     append_event_batch now (fo_scope f) (fo_request f) b (fo_db f) = Inr (rows, s) \<Longrightarrow>
     fanout_step f (batch_stored b stop s f)"
| failed: "fo_writer f = WWriting b stop \<Longrightarrow> fanout_step f (batch_failed b f)"
| published: "fo_publishing f \<Longrightarrow> fo_live f = Some ev # l \<Longrightarrow> fanout_step f (publish ev (f\<lparr>fo_live := l\<rparr>))"
| publish_stop: "fo_publishing f \<Longrightarrow> fo_live f = None # l \<Longrightarrow> fanout_step f (f\<lparr>fo_live := l, fo_publishing := False\<rparr>)"
| elsewhere: "stored_frames (fo_scope f) (fo_request f) s = stored_frames (fo_scope f) (fo_request f) (fo_db f) \<Longrightarrow>
     fanout_step f (f\<lparr>fo_db := s\<rparr>)"

inductive fanout_reachable :: "fanout \<Rightarrow> fanout \<Rightarrow> bool" for f0 where
  start: "fanout_reachable f0 f0"
| step: "fanout_reachable f0 f \<Longrightarrow> fanout_step f g \<Longrightarrow> fanout_reachable f0 g"

section \<open>The client\<close>

text \<open>\<open>cl_sent\<close> is what the iterator has yielded with a sequence; keep-alive comments are left out.\<close>

record client =
  cl_last :: int
  cl_sent :: "(int \<times> string) list"
  cl_done :: bool

definition client_start :: "int \<Rightarrow> client" where
  "client_start after_sequence = \<lparr>cl_last = after_sequence, cl_sent = [], cl_done = False\<rparr>"

definition emit :: "int \<Rightarrow> string \<Rightarrow> client \<Rightarrow> client" where
  "emit q frame c = c\<lparr>cl_last := q, cl_sent := cl_sent c @ [(q, frame)], cl_done := terminal_frame frame\<rparr>"

fun deliver :: "(int \<times> string) list \<Rightarrow> client \<Rightarrow> client" where
  "deliver [] c = c"
| "deliver ((q, frame) # fs) c = (let c' = emit q frame c in if cl_done c' then c' else deliver fs c')"

text \<open>\<open>read_replay\<close>: nothing without a conversation.\<close>

definition read_replay :: "scope option \<Rightarrow> string \<Rightarrow> db \<Rightarrow> client \<Rightarrow> (int \<times> string) list" where
  "read_replay sco rid s c = (case sco of None \<Rightarrow> []
     | Some sc \<Rightarrow> frames_after (load_events sc rid (cl_last c) s) (cl_last c))"

definition on_message :: "scope option \<Rightarrow> string \<Rightarrow> db \<Rightarrow> string \<Rightarrow> client \<Rightarrow> app_error + client" where
  "on_message sco rid s payload c =
     (case decode_live_event payload of
        Inl err \<Rightarrow> Inl err
      | Inr None \<Rightarrow> Inr c
      | Inr (Some (q, frame)) \<Rightarrow>
          (if q \<le> cl_last c then Inr c
           else (let c1 = (if terminal_frame frame then deliver (read_replay sco rid s c) c else c)
                 in Inr (if cl_done c1 then c1 else emit q frame c1))))"

text \<open>One iteration reads the log (the periodic gap check, with the store of that moment) or a message from
  the channel (with the store a terminal message's replay would see); the loop ends after a terminal
  frame.\<close>

datatype client_event = Replay db | Live db string

fun client_loop :: "scope option \<Rightarrow> string \<Rightarrow> client_event list \<Rightarrow> client \<Rightarrow> app_error + client" where
  "client_loop sco rid [] c = Inr c"
| "client_loop sco rid (e # es) c =
     (if cl_done c then Inr c
      else (case e of
          Replay s \<Rightarrow> client_loop sco rid es (deliver (read_replay sco rid s c) c)
        | Live s payload \<Rightarrow> (case on_message sco rid s payload c of
            Inl err \<Rightarrow> Inl err | Inr c' \<Rightarrow> client_loop sco rid es c')))"

section \<open>The fan-out keeps the stream whole\<close>

lemma stored_frames_backfill [simp]: "stored_frames sc rid (backfill_run sc' rid' evs s) = stored_frames sc rid s"
proof -
  have "map h (filter (of_request sc rid) (upd_where P (\<lambda>e. e\<lparr>e_run := x\<rparr>) es)) = map h (filter (of_request sc rid) es)"
    if "\<And>e. h (e\<lparr>e_run := x\<rparr>) = h e" for h :: "run_event \<Rightarrow> int \<times> string" and x es P
    using that by (induction es) (auto simp: of_request_def)
  then show ?thesis by (simp add: stored_frames_def backfill_run_def split: option.split)
qed

lemma stored_frames_append:
  assumes "append_event_batch now sc rid b s = Inr (rows, s')"
  shows "stored_frames sc rid s' = stored_frames sc rid s @ map (\<lambda>ev. (pe_sequence ev, pe_frame ev)) b"
proof (cases "b = []")
  case True
  then show ?thesis using assms by (simp add: append_event_batch_def)
next
  case False
  obtain k where r: "rows = event_rows now sc (strip rid) k b"
    and e: "events s' = events (backfill_run sc (strip rid) b s) @ rows"
    by (rule append_event_batch_cases [OF assms False]) 
  have "map (\<lambda>e. (e_sequence e, e_frame e)) (filter (of_request sc rid) (event_rows now sc (strip rid) k b)) =
      map (\<lambda>ev. (pe_sequence ev, pe_frame ev)) b"
    by (induction b arbitrary: k) (simp_all add: event_row_def of_request_def)
  moreover have "map (\<lambda>e. (e_sequence e, e_frame e)) (filter (of_request sc rid) (events (backfill_run sc (strip rid) b s))) =
      stored_frames sc rid s"
    using stored_frames_backfill [of sc rid sc "strip rid" b s] by (simp add: stored_frames_def)
  ultimately show ?thesis by (simp add: stored_frames_def e r)
qed

lemma stored_frames_strip: "stored_frames sc (strip rid) s = stored_frames sc rid s"
  by (simp add: stored_frames_def)

lemma stored_frames_publish [simp]: "stored_frames sc rid (publish_live_event rid' ev s) = stored_frames sc rid s"
  by (simp add: stored_frames_def publish_live_event_def)

definition writer_batch :: "writer \<Rightarrow> pending_event list" where
  "writer_batch w = (case w of WCollecting b \<Rightarrow> b | WWriting b _ \<Rightarrow> b | _ \<Rightarrow> [])"

definition being_put :: "producer \<Rightarrow> pending_event list" where
  "being_put p = (case p of PPut ev \<Rightarrow> [ev] | _ \<Rightarrow> [])"

definition queued_events :: "pending_event option list \<Rightarrow> pending_event list" where
  "queued_events q = List.map_filter id q"

lemma queued_events_simps [simp]:
  "queued_events [] = []" "queued_events (Some ev # q) = ev # queued_events q" "queued_events (None # q) = queued_events q"
  "queued_events (p @ q) = queued_events p @ queued_events q"
  by (simp_all add: queued_events_def List.map_filter_def)

lemma writer_batch_simps [simp]:
  "writer_batch WIdle = []" "writer_batch WStopped = []" "writer_batch (WCollecting b) = b" "writer_batch (WWriting b stop) = b"
  by (simp_all add: writer_batch_def)

lemma being_put_simps [simp]:
  "being_put (PPut ev) = [ev]" "being_put PIdle = []" "being_put (PJoin ev) = []" "being_put (PLive ev) = []"
  "being_put PRaised = []" "being_put PClose = []" "being_put PCloseWriter = []" "being_put PCloseLive = []"
  "being_put PClosePublisher = []" "being_put PClosed = []"
  by (simp_all add: being_put_def)

text \<open>Every submitted frame is in exactly one place until the writer fails.\<close>

definition in_one_place :: "fanout \<Rightarrow> bool" where
  "in_one_place f = (\<not> fo_failed f \<longrightarrow>
     fo_submitted f = fo_stored f @ writer_batch (fo_writer f) @ queued_events (fo_queue f) @ being_put (fo_producer f) \<and>
     fo_unfinished f = length (fo_queue f) + length (writer_batch (fo_writer f)))"

definition closing :: "producer \<Rightarrow> bool" where
  "closing p = (p \<in> {PCloseWriter, PCloseLive, PClosePublisher, PClosed})"

definition fanout_inv :: "fanout \<Rightarrow> fanout \<Rightarrow> bool" where
  "fanout_inv f0 f =
     (fo_scope f = fo_scope f0 \<and> fo_request f = fo_request f0 \<and>
      map pe_sequence (fo_submitted f) = map (\<lambda>i. fo_next f0 + int i) [0..<length (fo_submitted f)] \<and>
      fo_next f = fo_next f0 + int (length (fo_submitted f)) \<and>
      stored_frames (fo_scope f) (fo_request f) (fo_db f) =
        stored_frames (fo_scope f) (fo_request f) (fo_db f0) @ map (\<lambda>ev. (pe_sequence ev, pe_frame ev)) (fo_stored f) \<and>
      in_one_place f \<and> prefix (fo_stored f) (fo_submitted f) \<and> (fo_failed f \<longrightarrow> fo_writer f = WStopped) \<and>
      (closing (fo_producer f) \<and> \<not> fo_failed f \<longrightarrow> writer_batch (fo_writer f) = [] \<and> queued_events (fo_queue f) = []))"

lemma fanout_inv_step: "fanout_step f g \<Longrightarrow> fanout_inv f0 f \<Longrightarrow> fanout_inv f0 g"
proof (induction rule: fanout_step.induct)
  case (submit f frame run)
  then show ?case
    by (auto simp: fanout_inv_def in_one_place_def submit_begin_def next_event_def Let_def closing_def)
next
  case (put f ev)
  then show ?case by (auto simp: fanout_inv_def in_one_place_def submit_put_def closing_def)
next
  case (joined f ev)
  then show ?case by (auto simp: fanout_inv_def in_one_place_def submit_joined_def closing_def)
next
  case (live f ev)
  then show ?case by (auto simp: fanout_inv_def in_one_place_def submit_live_def closing_def)
next
  case (close f)
  then show ?case by (auto simp: fanout_inv_def in_one_place_def closing_def)
next
  case (close_put f)
  then show ?case by (auto simp: fanout_inv_def in_one_place_def closing_def)
next
  case (close_writer f)
  then show ?case by (auto simp: fanout_inv_def in_one_place_def closing_def)
next
  case (close_live f)
  then show ?case by (auto simp: fanout_inv_def in_one_place_def closing_def)
next
  case (close_done f)
  then show ?case by (auto simp: fanout_inv_def in_one_place_def closing_def)
next
  case (take_first f ev q)
  then show ?case by (auto simp: fanout_inv_def in_one_place_def)
next
  case (take_stop f q)
  then show ?case by (auto simp: fanout_inv_def in_one_place_def)
next
  case (take_more f b ev q)
  then show ?case by (auto simp: fanout_inv_def in_one_place_def)
next
  case (take_last f b q)
  then show ?case by (auto simp: fanout_inv_def in_one_place_def)
next
  case (flush f b)
  then show ?case by (auto simp: fanout_inv_def in_one_place_def)
next
  case (stored f b stop now rows s)
  then show ?case using stored_frames_append [OF stored(2)]
    by (auto simp: fanout_inv_def in_one_place_def batch_stored_def closing_def)
next
  case (failed f b stop)
  then show ?case by (auto simp: fanout_inv_def in_one_place_def batch_failed_def)
next
  case (published f ev l)
  then show ?case by (auto simp: fanout_inv_def in_one_place_def publish_def)
next
  case (publish_stop f l)
  then show ?case by (auto simp: fanout_inv_def in_one_place_def)
next
  case (elsewhere f s)
  then show ?case by (auto simp: fanout_inv_def in_one_place_def)
qed

lemma fanout_inv_reachable:
  assumes "fanout_reachable f0 f" and "f0 = fanout_start sc rid initial s"
  shows "fanout_inv f0 f"
  using assms(1)
proof (induction rule: fanout_reachable.induct)
  case start
  show ?case by (simp add: fanout_inv_def in_one_place_def assms(2) fanout_start_def closing_def)
next
  case (step f g)
  then show ?case using fanout_inv_step by blast
qed

section \<open>What goes live\<close>

definition going :: "producer \<Rightarrow> pending_event list" where
  "going p = (case p of PPut ev \<Rightarrow> [ev] | PJoin ev \<Rightarrow> [ev] | PLive ev \<Rightarrow> [ev] | _ \<Rightarrow> [])"

lemma going_simps [simp]:
  "going (PPut ev) = [ev]" "going (PJoin ev) = [ev]" "going (PLive ev) = [ev]" "going PIdle = []"
  "going PRaised = []" "going PClose = []" "going PCloseWriter = []" "going PCloseLive = []"
  "going PClosePublisher = []" "going PClosed = []"
  by (simp_all add: going_def)

definition live_path :: "fanout \<Rightarrow> pending_event list" where
  "live_path f = fo_published f @ queued_events (fo_live f) @ going (fo_producer f)"

text \<open>Past the join: handed to the publisher or about to be.\<close>

definition released :: "fanout \<Rightarrow> pending_event list" where
  "released f = fo_published f @ queued_events (fo_live f) @ (case fo_producer f of PLive ev \<Rightarrow> [ev] | _ \<Rightarrow> [])"

definition durable_up_to :: "pending_event \<Rightarrow> fanout \<Rightarrow> bool" where
  "durable_up_to ev f = (\<forall>x \<in> set (fo_submitted f). pe_sequence x \<le> pe_sequence ev \<longrightarrow> x \<in> set (fo_stored f))"

definition live_inv :: "fanout \<Rightarrow> bool" where
  "live_inv f = (subseq (live_path f) (fo_submitted f) \<and>
     (\<forall>ev \<in> set (released f). terminal_frame (pe_frame ev) \<longrightarrow> durable_up_to ev f))"

lemma submitted_below:
  assumes "fanout_inv f0 f" and "ev \<in> set (fo_submitted f)"
  shows "pe_sequence ev < fo_next f"
proof -
  have "pe_sequence ev \<in> set (map pe_sequence (fo_submitted f))" using assms(2) by simp
  then have "pe_sequence ev \<in> set (map (\<lambda>i. fo_next f0 + int i) [0..<length (fo_submitted f)])"
    using assms(1) unfolding fanout_inv_def by metis
  then show ?thesis using assms(1) by (auto simp: fanout_inv_def)
qed

lemma subseq_in: "subseq xs ys \<Longrightarrow> x \<in> set xs \<Longrightarrow> x \<in> set ys"
  by (auto elim: list_emb_set)

lemma released_in_path: "ev \<in> set (released f) \<Longrightarrow> ev \<in> set (live_path f)"
  by (auto simp: released_def live_path_def going_def split: producer.splits)

lemma live_inv_keep:
  assumes "live_inv f" and "live_path g = live_path f" and "set (released g) \<subseteq> set (released f)"
    and "fo_submitted g = fo_submitted f" and "set (fo_stored f) \<subseteq> set (fo_stored g)"
  shows "live_inv g"
  using assms by (auto simp: live_inv_def durable_up_to_def)

lemma live_inv_drop:
  assumes "live_inv f" and "subseq (live_path g) (live_path f)"
    and "\<And>ev. ev \<in> set (released g) \<Longrightarrow> terminal_frame (pe_frame ev) \<Longrightarrow> ev \<in> set (released f)"
    and "fo_submitted g = fo_submitted f" and "fo_stored g = fo_stored f"
  shows "live_inv g"
proof -
  have "subseq (live_path g) (fo_submitted g)" using assms(1,2,4) subseq_order.trans by (auto simp: live_inv_def)
  moreover have "durable_up_to ev g" if "ev \<in> set (released g)" "terminal_frame (pe_frame ev)" for ev
    using assms(1) assms(3) [OF that] that(2) by (simp add: live_inv_def durable_up_to_def assms(4,5))
  ultimately show ?thesis by (simp add: live_inv_def)
qed

lemma live_inv_step: "fanout_step f g \<Longrightarrow> fanout_inv f0 f \<Longrightarrow> live_inv f \<Longrightarrow> live_inv g"
proof (induction rule: fanout_step.induct)
  case (submit f frame run)
  show ?case
  proof (cases "fo_failed f")
    case True
    then show ?thesis using submit by (intro live_inv_keep [OF submit(3)]) (auto simp: submit_begin_def live_path_def released_def)
  next
    case False
    let ?ev = "\<lparr>pe_sequence = fo_next f, pe_frame = frame, pe_run = run\<rparr>"
    have g: "live_path (submit_begin frame run f) = live_path f @ [?ev]" "released (submit_begin frame run f) = released f"
      "fo_submitted (submit_begin frame run f) = fo_submitted f @ [?ev]" "fo_stored (submit_begin frame run f) = fo_stored f"
      using False submit(1) by (simp_all add: submit_begin_def next_event_def Let_def live_path_def released_def)
    have "pe_sequence ev < fo_next f" if "ev \<in> set (released f)" for ev
      using submitted_below [OF submit(2)] released_in_path [OF that] submit(3)
      by (auto simp: live_inv_def dest: subseq_in)
    then have "\<forall>ev \<in> set (released f). \<not> fo_next f \<le> pe_sequence ev" by (auto simp: not_le)
    then show ?thesis using submit(3) by (auto simp: live_inv_def durable_up_to_def g)
  qed
next
  case (put f ev)
  then show ?case
    by (intro live_inv_drop [OF put(4)]) (auto simp: submit_put_def live_path_def released_def split: if_splits)
next
  case (joined f ev)
  show ?case
  proof (cases "fo_failed f")
    case True
    then show ?thesis using joined
      by (intro live_inv_drop [OF joined(4)]) (auto simp: submit_joined_def live_path_def released_def)
  next
    case False
    then have "fo_submitted f = fo_stored f" using joined(1-3) by (simp add: fanout_inv_def in_one_place_def)
    then show ?thesis using joined False
      by (auto simp: live_inv_def submit_joined_def live_path_def released_def durable_up_to_def)
  qed
next
  case (live f ev)
  then show ?case by (intro live_inv_keep [OF live(4)]) (auto simp: submit_live_def live_path_def released_def)
next
  case (close f)
  then show ?case by (intro live_inv_keep [OF close(3)]) (auto simp: live_path_def released_def)
next
  case (close_put f)
  then show ?case by (intro live_inv_keep [OF close_put(5)]) (auto simp: live_path_def released_def)
next
  case (close_writer f)
  then show ?case by (intro live_inv_keep [OF close_writer(4)]) (auto simp: live_path_def released_def)
next
  case (close_live f)
  then show ?case by (intro live_inv_keep [OF close_live(4)]) (auto simp: live_path_def released_def)
next
  case (close_done f)
  then show ?case by (intro live_inv_keep [OF close_done(4)]) (auto simp: live_path_def released_def)
next
  case (stored f b stop now rows s)
  then show ?case by (intro live_inv_keep [OF stored(4)]) (auto simp: batch_stored_def live_path_def released_def)
next
  case (failed f b stop)
  then show ?case by (intro live_inv_keep [OF failed(3)]) (auto simp: batch_failed_def live_path_def released_def)
next
  case (published f ev l)
  have "subseq (live_path (publish ev (f\<lparr>fo_live := l\<rparr>))) (live_path f)"
    using published(2) by (auto simp: publish_def live_path_def intro: list_emb_append_mono)
  then show ?case using published
    by (intro live_inv_drop [OF published(4)]) (auto simp: publish_def released_def)
qed (auto elim!: live_inv_keep simp: live_path_def released_def)

lemma live_inv_reachable:
  assumes "fanout_reachable f0 f" and "f0 = fanout_start sc rid initial s"
  shows "live_inv f"
  using assms(1)
proof (induction rule: fanout_reachable.induct)
  case start
  show ?case by (simp add: live_inv_def live_path_def released_def assms(2) fanout_start_def)
next
  case (step f g)
  then show ?case using live_inv_step fanout_inv_reachable [OF step(1) assms(2)] by blast
qed

lemma stored_of_inv:
  assumes i: "fanout_inv (fanout_start sc rid initial s) f"
  shows "stored_frames sc rid (fo_db f) = stored_frames sc rid s @ map (\<lambda>ev. (pe_sequence ev, pe_frame ev)) (fo_stored f)"
proof -
  let ?f0 = "fanout_start sc rid initial s"
  have "fo_scope f = sc" "fo_request f = strip rid" using i by (simp_all add: fanout_inv_def fanout_start_def)
  moreover have "fo_db ?f0 = s" by (simp add: fanout_start_def)
  moreover have "stored_frames (fo_scope f) (fo_request f) (fo_db f) = stored_frames (fo_scope f) (fo_request f) (fo_db ?f0) @
      map (\<lambda>ev. (pe_sequence ev, pe_frame ev)) (fo_stored f)" using i unfolding fanout_inv_def by blast
  ultimately show ?thesis by (simp only: stored_frames_strip)
qed

text \<open>C7. Durable before live.  However submit, the writer, the publisher and the rest of the system
  interleave, and whether or not the writer fails: frames are numbered without a gap from the stream's
  start; what the log gained is a prefix of them, in order; Redis sees a subsequence of them in order;
  and when it sees a terminal frame, that frame and every frame before it are in the log.  A close
  that completes without a writer error has stored every submitted frame.\<close>

theorem fanout_durable_before_live:
  assumes "fanout_reachable (fanout_start sc rid initial s) f"
  shows "map pe_sequence (fo_submitted f) = map (\<lambda>i. max 0 initial + 1 + int i) [0..<length (fo_submitted f)] \<and>
    prefix (fo_stored f) (fo_submitted f) \<and>
    stored_frames sc rid (fo_db f) = stored_frames sc rid s @ map (\<lambda>ev. (pe_sequence ev, pe_frame ev)) (fo_stored f) \<and>
    subseq (fo_published f) (fo_submitted f) \<and>
    (\<forall>ev \<in> set (fo_published f). terminal_frame (pe_frame ev) \<longrightarrow>
       (\<forall>x \<in> set (fo_submitted f). pe_sequence x \<le> pe_sequence ev \<longrightarrow>
          (pe_sequence x, pe_frame x) \<in> set (stored_frames sc rid (fo_db f)))) \<and>
    (fo_producer f = PClosed \<and> \<not> fo_failed f \<longrightarrow> fo_stored f = fo_submitted f)"
proof -
  note i = fanout_inv_reachable [OF assms refl] and l = live_inv_reachable [OF assms refl]
  let ?f0 = "fanout_start sc rid initial s"
  note st = stored_of_inv [OF i]
  have "subseq (fo_published f) (live_path f)" unfolding live_path_def by (rule prefix_imp_subseq) simp
  then have "subseq (fo_published f) (fo_submitted f)" using l subseq_order.trans by (auto simp: live_inv_def)
  moreover have "(pe_sequence x, pe_frame x) \<in> set (stored_frames sc rid (fo_db f))"
    if "ev \<in> set (fo_published f)" "terminal_frame (pe_frame ev)" "x \<in> set (fo_submitted f)" "pe_sequence x \<le> pe_sequence ev" for ev x
  proof -
    have "ev \<in> set (released f)" using that(1) by (simp add: released_def)
    then have "x \<in> set (fo_stored f)" using l that by (auto simp: live_inv_def durable_up_to_def)
    then show ?thesis by (auto simp: st)
  qed
  moreover have "fo_stored f = fo_submitted f" if "fo_producer f = PClosed" "\<not> fo_failed f"
    using i that by (simp add: fanout_inv_def in_one_place_def closing_def)
  moreover have "map pe_sequence (fo_submitted f) = map (\<lambda>i. max 0 initial + 1 + int i) [0..<length (fo_submitted f)]"
    "prefix (fo_stored f) (fo_submitted f)"
    using i by (simp_all add: fanout_inv_def fanout_start_def)
  ultimately show ?thesis using st by blast
qed

section \<open>Bounds\<close>

definition fanout_bounds :: "fanout \<Rightarrow> bool" where
  "fanout_bounds f = (length (fo_queue f) \<le> fanout_queue_size \<and> length (fo_live f) \<le> fanout_queue_size \<and>
     length (writer_batch (fo_writer f)) \<le> max_batch_size)"

lemma fanout_bounds_step: "fanout_step f g \<Longrightarrow> fanout_bounds f \<Longrightarrow> fanout_bounds g"
  by (induction rule: fanout_step.induct)
    (auto simp: fanout_bounds_def submit_begin_def next_event_def Let_def submit_put_def submit_joined_def submit_live_def
      batch_stored_def batch_failed_def publish_def fanout_queue_size_def max_batch_size_def)

lemma length_queued_events: "length (queued_events q) \<le> length q"
proof (induction q)
  case (Cons x q)
  then show ?case by (cases x) simp_all
qed simp

text \<open>The memory of a stream is bounded: neither queue holds more than 512 entries and no batch more
  than 64 frames, so that while the writer works at most 577 frames are submitted and not yet stored.\<close>

theorem fanout_backlog_bounded:
  assumes "fanout_reachable (fanout_start sc rid initial s) f"
  shows "length (fo_queue f) \<le> 512 \<and> length (fo_live f) \<le> 512 \<and> length (writer_batch (fo_writer f)) \<le> 64 \<and>
    (\<not> fo_failed f \<longrightarrow> length (fo_submitted f) \<le> length (fo_stored f) + 577)"
proof -
  have b: "fanout_bounds f"
    using assms
  proof (induction rule: fanout_reachable.induct)
    case (step f g)
    then show ?case using fanout_bounds_step by blast
  qed (simp add: fanout_bounds_def fanout_start_def)
  then have l: "length (fo_queue f) \<le> 512" "length (fo_live f) \<le> 512" "length (writer_batch (fo_writer f)) \<le> 64"
    by (simp_all add: fanout_bounds_def fanout_queue_size_def max_batch_size_def)
  have "length (fo_submitted f) \<le> length (fo_stored f) + 577" if "\<not> fo_failed f"
  proof -
    have "fo_submitted f = fo_stored f @ writer_batch (fo_writer f) @ queued_events (fo_queue f) @ being_put (fo_producer f)"
      using fanout_inv_reachable [OF assms refl] that by (simp add: fanout_inv_def in_one_place_def)
    moreover have "length (being_put (fo_producer f)) \<le> 1" by (simp add: being_put_def split: producer.split)
    ultimately show ?thesis using l length_queued_events [of "fo_queue f"] by simp
  qed
  with l show ?thesis by simp
qed

section \<open>A writer that fails under backpressure\<close>

lemma fanout_reachable_trans: "fanout_reachable g h \<Longrightarrow> fanout_reachable f g \<Longrightarrow> fanout_reachable f h"
  by (induction rule: fanout_reachable.induct) (auto intro: fanout_reachable.step)

text \<open>The state in which \<open>close\<close> waits for a frame no task will take.\<close>

definition abandoned :: "fanout \<Rightarrow> bool" where
  "abandoned f = (fo_producer f = PClose \<and> fo_writer f = WStopped \<and> 0 < fo_unfinished f)"

lemma abandoned_step: "fanout_step f g \<Longrightarrow> abandoned f \<Longrightarrow> abandoned g"
  by (induction rule: fanout_step.induct) (auto simp: abandoned_def publish_def)

lemma abandoned_forever: "fanout_reachable f g \<Longrightarrow> abandoned f \<Longrightarrow> abandoned g"
  by (induction rule: fanout_reachable.induct) (auto intro: abandoned_step)

definition token_frame :: string where "token_frame = ''data: token''"

lemma token_frame_plain: "\<not> terminal_frame token_frame"
  by code_simp

lemma one_more_frame:
  assumes "fo_producer f = PIdle" "\<not> fo_failed f" "length (fo_queue f) < fanout_queue_size" "fo_live f = []" "fo_publishing f"
  shows "\<exists>g ev. fanout_reachable f g \<and> fo_producer g = PIdle \<and> \<not> fo_failed g \<and> fo_queue g = fo_queue f @ [Some ev] \<and>
    fo_live g = [] \<and> fo_publishing g \<and> fo_writer g = fo_writer f \<and> pe_frame ev = token_frame"
proof -
  let ?ev = "\<lparr>pe_sequence = fo_next f, pe_frame = token_frame, pe_run = None\<rparr>"
  let ?f1 = "submit_begin token_frame None f" and ?f2 = "submit_put ?ev (submit_begin token_frame None f)"
  let ?f3 = "submit_live ?ev ?f2"
  have p1: "fo_producer ?f1 = PPut ?ev" "fo_queue ?f1 = fo_queue f" "fo_live ?f1 = []" "\<not> fo_failed ?f1"
    "fo_publishing ?f1" "fo_writer ?f1 = fo_writer f"
    using assms by (simp_all add: submit_begin_def next_event_def Let_def)
  then have p2: "fo_producer ?f2 = PLive ?ev" "fo_queue ?f2 = fo_queue f @ [Some ?ev]" "fo_live ?f2 = []" "\<not> fo_failed ?f2"
    "fo_publishing ?f2" "fo_writer ?f2 = fo_writer f"
    using token_frame_plain by (simp_all add: submit_put_def)
  have s1: "fanout_step f ?f1" using assms(1) by (rule fanout_step.submit)
  have s2: "fanout_step ?f1 ?f2" using p1(1) by (rule fanout_step.put) (simp add: p1 assms)
  have s3: "fanout_step ?f2 ?f3" using p2(1) by (rule fanout_step.live) (simp add: p2 fanout_queue_size_def)
  have s4: "fanout_step ?f3 (publish ?ev (?f3\<lparr>fo_live := []\<rparr>))"
    by (rule fanout_step.published) (simp_all add: submit_live_def p2)
  have "fanout_reachable f (publish ?ev (?f3\<lparr>fo_live := []\<rparr>))"
    by (rule fanout_reachable.step [OF fanout_reachable.step [OF fanout_reachable.step [OF
          fanout_reachable.step [OF fanout_reachable.start s1] s2] s3] s4])
  then show ?thesis
    by (intro exI [of _ "publish ?ev (?f3\<lparr>fo_live := []\<rparr>)"] exI [of _ ?ev]) (simp add: publish_def submit_live_def p2)
qed

text \<open>While the thread writes a first frame, the queue fills up.\<close>

lemma queue_fills:
  assumes "f0 = fanout_start sc rid initial s" and "k \<le> fanout_queue_size"
  shows "\<exists>f b. fanout_reachable f0 f \<and> fo_producer f = PIdle \<and> \<not> fo_failed f \<and> length (fo_queue f) = k \<and>
    fo_live f = [] \<and> fo_publishing f \<and> fo_writer f = WWriting b False"
  using assms(2)
proof (induction k)
  case 0
  have "length (fo_queue f0) < fanout_queue_size" by (simp add: assms(1) fanout_start_def fanout_queue_size_def)
  then obtain g ev where g: "fanout_reachable f0 g" "fo_producer g = PIdle" "\<not> fo_failed g" "fo_queue g = [Some ev]"
    "fo_live g = []" "fo_publishing g" "fo_writer g = WIdle"
    using one_more_frame [of f0] by (force simp: assms(1) fanout_start_def)
  let ?g1 = "g\<lparr>fo_queue := [], fo_writer := WCollecting [ev]\<rparr>"
  have s1: "fanout_step g ?g1" using fanout_step.take_first [of g ev "[]"] g(4,7) by simp
  have s2: "fanout_step ?g1 (?g1\<lparr>fo_writer := WWriting [ev] False\<rparr>)" by (rule fanout_step.flush) simp
  have "fanout_reachable f0 (?g1\<lparr>fo_writer := WWriting [ev] False\<rparr>)"
    by (rule fanout_reachable.step [OF fanout_reachable.step [OF g(1) s1] s2])
  then show ?case using g by (intro exI [of _ "?g1\<lparr>fo_writer := WWriting [ev] False\<rparr>"] exI [of _ "[ev]"]) simp
next
  case (Suc k)
  then obtain f b where f: "fanout_reachable f0 f" "fo_producer f = PIdle" "\<not> fo_failed f" "length (fo_queue f) = k"
    "fo_live f = []" "fo_publishing f" "fo_writer f = WWriting b False" by auto
  then obtain g ev where "fanout_reachable f g" "fo_producer g = PIdle" "\<not> fo_failed g" "fo_queue g = fo_queue f @ [Some ev]"
    "fo_live g = []" "fo_publishing g" "fo_writer g = fo_writer f"
    using one_more_frame [of f] Suc.prems by auto
  then show ?case using f fanout_reachable_trans [of f g f0] by (intro exI [of _ g] exI [of _ b]) simp
qed

text \<open>Closing can wait for ever.  From every start there is a run in which the writer fails while
  \<open>submit\<close> is blocked on the full durable queue: the writer empties the queue and ends, the blocked \<open>put\<close>
  then succeeds and \<open>submit\<close> raises, and \<open>close\<close> joins a queue whose last frame nobody will ever mark
  done.  Whatever happens afterwards, \<open>close\<close> does not get past that join.\<close>

theorem close_can_wait_forever:
  "\<exists>f. fanout_reachable (fanout_start sc rid initial s) f \<and> fo_failed f \<and> fo_producer f = PClose \<and>
     (\<forall>g. fanout_reachable f g \<longrightarrow> fo_producer g = PClose)"
proof -
  let ?f0 = "fanout_start sc rid initial s"
  obtain f b where f: "fanout_reachable ?f0 f" "fo_producer f = PIdle" "\<not> fo_failed f" "length (fo_queue f) = fanout_queue_size"
    "fo_writer f = WWriting b False"
    using queue_fills [OF refl order_refl, of sc rid initial s] by blast
  let ?ev = "\<lparr>pe_sequence = fo_next f, pe_frame = token_frame, pe_run = None\<rparr>"
  let ?f1 = "submit_begin token_frame None f" and ?f2 = "batch_failed b (submit_begin token_frame None f)"
  let ?f3 = "submit_put ?ev ?f2"
  let ?f4 = "?f3\<lparr>fo_producer := PClose\<rparr>"
  have p: "fo_producer ?f1 = PPut ?ev" "fo_writer ?f1 = WWriting b False"
    using f by (simp_all add: submit_begin_def next_event_def Let_def)
  have s1: "fanout_step f ?f1" using f(2) by (rule fanout_step.submit)
  have s2: "fanout_step ?f1 ?f2" using p(2) by (rule fanout_step.failed)
  have s3: "fanout_step ?f2 ?f3"
    by (rule fanout_step.put) (simp_all add: batch_failed_def p fanout_queue_size_def)
  have s4: "fanout_step ?f3 ?f4" by (rule fanout_step.close) (simp add: submit_put_def batch_failed_def)
  have "fanout_reachable ?f0 ?f4"
    by (rule fanout_reachable.step [OF fanout_reachable.step [OF fanout_reachable.step [OF
          fanout_reachable.step [OF f(1) s1] s2] s3] s4])
  moreover have "abandoned ?f4" by (simp add: abandoned_def submit_put_def batch_failed_def)
  then have "\<forall>g. fanout_reachable ?f4 g \<longrightarrow> fo_producer g = PClose"
    using abandoned_forever by (auto simp: abandoned_def)
  ultimately show ?thesis by (intro exI [of _ ?f4]) (simp add: submit_put_def batch_failed_def)
qed

section \<open>What the browser sees\<close>

text \<open>What was sent continues what was sent before, in strictly increasing order, and stops at a terminal frame.\<close>

definition continues :: "client \<Rightarrow> (int \<times> string) list \<Rightarrow> client \<Rightarrow> bool" where
  "continues c new c' = (cl_sent c' = cl_sent c @ new \<and> sorted_wrt (<) (cl_last c # map fst new) \<and>
     cl_last c' = (if new = [] then cl_last c else fst (last new)) \<and>
     cl_done c' = (if new = [] then cl_done c else terminal_frame (snd (last new))) \<and>
     (\<forall>p \<in> set (butlast new). \<not> terminal_frame (snd p)))"

lemma continues_refl [simp]: "continues c [] c"
  by (simp add: continues_def)

lemma continues_emit: "cl_last c < q \<Longrightarrow> continues c [(q, frame)] (emit q frame c)"
  by (simp add: continues_def emit_def)

lemma continues_trans:
  assumes "continues a xs b" and "continues b ys c" and "\<not> cl_done b"
  shows "continues a (xs @ ys) c"
proof (cases "xs = []")
  case False
  have b: "cl_last b = fst (last xs)" "\<not> terminal_frame (snd (last xs))" using assms(1,3) False by (simp_all add: continues_def)
  have "\<forall>p \<in> set xs. \<not> terminal_frame (snd p)"
    using assms(1) b(2) False by (cases xs rule: rev_cases) (auto simp: continues_def)
  moreover have "x < y" if "x \<in> fst ` set xs" "y \<in> fst ` set ys" for x y
  proof -
    have "sorted_wrt (<) (map fst xs)" using assms(1) by (simp add: continues_def)
    then have "x \<le> fst (last xs)"
      using that(1) False by (induction xs rule: rev_induct) (auto simp: sorted_wrt_append)
    moreover have "fst (last xs) < y" using assms(2) that(2) b(1) by (auto simp: continues_def)
    ultimately show ?thesis by simp
  qed
  moreover have "cl_last a < fst p" if "p \<in> set ys" for p
  proof -
    have "last xs \<in> set xs" using False by simp
    then have "cl_last a < fst (last xs)" using assms(1) by (simp add: continues_def)
    then show ?thesis using assms(2) that b(1) by (force simp: continues_def)
  qed
  ultimately show ?thesis using assms False by (auto simp: continues_def sorted_wrt_append butlast_append)
qed (use assms in \<open>auto simp: continues_def\<close>)

lemma deliver_continues:
  assumes "sorted_wrt (<) (cl_last c # map fst fs)" and "\<not> cl_done c"
  shows "\<exists>new. continues c new (deliver fs c) \<and> prefix new fs \<and> (new = fs \<or> cl_done (deliver fs c))"
  using assms
proof (induction fs arbitrary: c)
  case (Cons p fs)
  obtain q frame where p: "p = (q, frame)" by force
  have e: "continues c [(q, frame)] (emit q frame c)" using Cons.prems(1) p by (intro continues_emit) simp
  show ?case
  proof (cases "cl_done (emit q frame c)")
    case True
    then show ?thesis using e p by (intro exI [of _ "[(q, frame)]"]) simp
  next
    case False
    have "sorted_wrt (<) (cl_last (emit q frame c) # map fst fs)" using Cons.prems(1) p by (auto simp: emit_def)
    then obtain new where m: "continues (emit q frame c) new (deliver fs (emit q frame c))" "prefix new fs"
      "new = fs \<or> cl_done (deliver fs (emit q frame c))" using Cons.IH False by blast
    then show ?thesis using continues_trans [OF e m(1)] False p by (intro exI [of _ "p # new"]) (simp add: Let_def)
  qed
qed simp

lemma deliver_done: "\<exists>p \<in> set fs. terminal_frame (snd p) \<Longrightarrow> cl_done (deliver fs c)"
  by (induction fs c rule: deliver.induct) (auto simp: Let_def emit_def)

lemma read_replay_sorted:
  assumes "event_log_ok s"
  shows "sorted_wrt (<) (cl_last c # map fst (read_replay sco rid s c))"
proof (cases sco)
  case (Some sc)
  let ?es = "filter (\<lambda>e. cl_last c < e_sequence e) (load_events sc rid (cl_last c) s)"
  have "sorted_wrt (<) (map e_sequence (load_events sc rid (cl_last c) s))"
    using sorted_load_events distinct_sequences [OF assms] by (simp add: strict_sorted_iff)
  then have "sorted_wrt (<) (map e_sequence ?es)" by (simp add: sorted_wrt_map sorted_wrt_filter)
  moreover have "map fst (read_replay sco rid s c) = map e_sequence ?es"
    by (simp add: Some read_replay_def frames_after_def)
  ultimately show ?thesis by auto
qed (simp add: read_replay_def)

lemma in_read_replay:
  assumes "event_log_ok s"
  shows "p \<in> set (read_replay (Some sc) rid s c) \<longleftrightarrow> p \<in> set (stored_frames sc rid s) \<and> cl_last c < fst p"
  using assms by (fastforce simp: read_replay_def frames_after_def load_events_def stored_frames_def event_log_ok_def image_iff)

text \<open>What the client may rely on: the log keeps its unique index, and a terminal frame on the channel is in
  the log by then.\<close>

definition sound_event :: "scope option \<Rightarrow> string \<Rightarrow> client_event \<Rightarrow> bool" where
  "sound_event sco rid e = (case e of
     Replay s \<Rightarrow> event_log_ok s
   | Live s payload \<Rightarrow> event_log_ok s \<and> (case sco of None \<Rightarrow> True | Some sc \<Rightarrow>
       (case decode_live_event payload of
          Inr (Some (q, frame)) \<Rightarrow> terminal_frame frame \<longrightarrow> (q, frame) \<in> set (stored_frames sc rid s)
        | _ \<Rightarrow> True)))"

lemma on_message_continues:
  assumes "on_message sco rid s payload c = Inr c'" and "sound_event sco rid (Live s payload)" and "\<not> cl_done c"
  shows "\<exists>new. continues c new c'"
proof (cases "\<exists>q frame. decode_live_event payload = Inr (Some (q, frame)) \<and> cl_last c < q")
  case False
  then have "c' = c" using assms(1) by (force simp: on_message_def split: sum.splits option.splits if_splits)
  then show ?thesis using continues_refl by blast
next
  case True
  then obtain q frame where d: "decode_live_event payload = Inr (Some (q, frame))" "cl_last c < q" by blast
  have ok: "event_log_ok s" using assms(2) by (simp add: sound_event_def)
  show ?thesis
  proof (cases "terminal_frame frame")
    case False
    then have "c' = emit q frame c" using assms(1,3) d by (simp add: on_message_def)
    then show ?thesis using continues_emit [OF d(2)] by blast
  next
    case True
    let ?c1 = "deliver (read_replay sco rid s c) c"
    have c': "c' = (if cl_done ?c1 then ?c1 else emit q frame ?c1)" using assms(1) d True by (auto simp: on_message_def Let_def)
    obtain new where m: "continues c new ?c1" using deliver_continues [OF read_replay_sorted [OF ok] assms(3)] by blast
    show ?thesis
    proof (cases sco)
      case None
      then have "?c1 = c" by (simp add: read_replay_def)
      then show ?thesis using c' assms(3) continues_emit [OF d(2)] by auto
    next
      case (Some sc)
      then have "(q, frame) \<in> set (read_replay sco rid s c)"
        using assms(2) d True in_read_replay [OF ok] by (simp add: sound_event_def)
      then have "cl_done ?c1" using True by (intro deliver_done) force
      then show ?thesis using c' m by auto
    qed
  qed
qed

lemma client_loop_continues:
  assumes "client_loop sco rid es c = Inr c'" and "\<forall>e \<in> set es. sound_event sco rid e"
  shows "\<exists>new. continues c new c'"
  using assms
proof (induction es arbitrary: c)
  case (Cons e es)
  show ?case
  proof (cases "cl_done c")
    case False
    have "\<exists>c1 new. continues c new c1 \<and> client_loop sco rid es c1 = Inr c'"
    proof (cases e)
      case (Replay s)
      then have "event_log_ok s" using Cons.prems(2) by (simp add: sound_event_def)
      then show ?thesis using deliver_continues [OF read_replay_sorted False] Cons.prems(1) False Replay by fastforce
    next
      case (Live s payload)
      then obtain c1 where c1: "on_message sco rid s payload c = Inr c1" "client_loop sco rid es c1 = Inr c'"
        using Cons.prems(1) False by (auto split: sum.splits)
      then show ?thesis using on_message_continues [OF c1(1) _ False] Cons.prems(2) Live by auto
    qed
    then obtain c1 new where c1: "continues c new c1" "client_loop sco rid es c1 = Inr c'" by blast
    show ?thesis
    proof (cases "cl_done c1")
      case True
      then have "c' = c1" using c1(2) by (cases es) simp_all
      then show ?thesis using c1(1) by blast
    next
      case False
      then show ?thesis using Cons.IH [OF c1(2)] Cons.prems(2) continues_trans [OF c1(1)] by auto
    qed
  qed (use Cons.prems(1) in \<open>auto intro: exI [of _ "[]"]\<close>)
qed (auto intro: exI [of _ "[]"])

text \<open>C22. The browser's stream is in order: whatever the client reads, and in whatever order replays and live
  messages come, it yields frames with strictly increasing sequences above its cursor, nothing twice and
  nothing after a terminal frame, and it stops exactly when the last frame it sent is terminal.\<close>

theorem client_stream_in_order:
  assumes "client_loop sco rid es (client_start cursor) = Inr c" and "\<forall>e \<in> set es. sound_event sco rid e"
  shows "sorted_wrt (<) (map fst (cl_sent c)) \<and> (\<forall>p \<in> set (cl_sent c). cursor < fst p) \<and>
    cl_done c = (cl_sent c \<noteq> [] \<and> terminal_frame (snd (last (cl_sent c)))) \<and>
    (\<forall>p \<in> set (butlast (cl_sent c)). \<not> terminal_frame (snd p))"
proof -
  obtain new where "continues (client_start cursor) new c" using client_loop_continues [OF assms] by blast
  then show ?thesis by (auto simp: continues_def client_start_def)
qed

section \<open>From the worker to the browser\<close>

lemma decode_published: "decode_live_event (live_event_payload ev) = Inr (Some (pe_sequence ev, pe_frame ev))"
  by (simp add: decode_live_event_def live_event_payload_def json_loads_dumps int_of_json_def del: json_dumps.simps)

lemma prefix_below_last:
  fixes p :: "int \<times> 'f"
  assumes "prefix new rs" "sorted_wrt (<) (map fst rs)" "p \<in> set rs" "fst p \<le> fst (last new)" "new \<noteq> []"
  shows "p \<in> set new"
proof -
  obtain zs where rs: "rs = new @ zs" using assms(1) by (auto simp: prefix_def)
  have later: "fst (last new) < fst x" if "x \<in> set zs" for x
    using assms(2,5) that by (auto simp: rs sorted_wrt_append)
  have "p \<notin> set zs"
  proof
    assume "p \<in> set zs"
    from later [OF this] assms(4) show False by simp
  qed
  then show ?thesis using assms(3) by (simp add: rs)
qed


text \<open>A gap behind a live frame stays: when Redis loses frames and the next live frame is not terminal,
  the client sends that frame and moves its cursor past the gap; no later replay or message, a terminal
  one included, sends a frame of the gap.\<close>

theorem skipped_gap_never_sent:
  assumes m: "on_message sco rid s (live_event_payload ev) c = Inr c1" and ev: "\<not> terminal_frame (pe_frame ev)"
    and c: "cl_last c < pe_sequence ev" "\<not> cl_done c"
    and l: "client_loop sco rid es c1 = Inr c2" and sound: "\<forall>e \<in> set es. sound_event sco rid e"
  shows "\<exists>new. cl_sent c2 = cl_sent c @ (pe_sequence ev, pe_frame ev) # new \<and> (\<forall>p \<in> set new. pe_sequence ev < fst p)"
proof -
  have "c1 = emit (pe_sequence ev) (pe_frame ev) c"
    using m ev c by (simp add: on_message_def decode_published)
  moreover obtain new where "continues c1 new c2" using client_loop_continues [OF l sound] by blast
  ultimately show ?thesis by (intro exI [of _ new]) (auto simp: continues_def emit_def)
qed

section \<open>The properties at concrete inputs\<close>

definition done_frame :: string where "done_frame = sse ''done'' [(''status'', JStr ''ready'')]"

text \<open>A stream of one frame, the terminal one, from submit to Redis.\<close>

definition stream_db :: db where
  "stream_db = queue_db\<lparr>tenants := [], redis_up := True\<rparr>"

definition done_event :: pending_event where
  "done_event = \<lparr>pe_sequence = 1, pe_frame = done_frame, pe_run = None\<rparr>"

lemma done_frame_terminal: "terminal_frame done_frame"
  by code_simp

lemma done_event_stored:
  "\<exists>rows s. append_event_batch 5 (1, 7, 9) ''req'' [done_event] stream_db = Inr (rows, s) \<and> event_log_ok s \<and> redis_up s"
proof -
  have e: "events stream_db = []" "tenants stream_db = []" "redis_up stream_db"
    by (simp_all add: stream_db_def queue_db_def quota_db_def empty_db_def)
  then have "\<exists>rows s. append_event_batch 5 (1, 7, 9) ''req'' [done_event] stream_db = Inr (rows, s)"
    by (simp add: append_event_batch_def Let_def ensure_capacity_if_supported_def backfill_run_def done_event_def)
  then obtain rows s where a: "append_event_batch 5 (1, 7, 9) ''req'' [done_event] stream_db = Inr (rows, s)" by blast
  obtain k where r: "rows = event_rows 5 (1, 7, 9) (strip ''req'') k [done_event]"
    and s: "events s = events (backfill_run (1, 7, 9) (strip ''req'') [done_event] stream_db) @ rows"
    and l: "log_core s = log_core stream_db"
    by (rule append_event_batch_cases [OF a]) simp_all
  have "event_log_ok s" using e by (simp add: event_log_ok_def s r backfill_run_def done_event_def event_row_def)
  then show ?thesis using a e(3) log_core_fields(8) [OF l] by blast
qed

lemma done_stream:
  "\<exists>f. fanout_reachable (fanout_start (1, 7, 9) ''req'' 0 stream_db) f \<and> fo_published f = [done_event] \<and>
     fo_submitted f = [done_event] \<and> fo_stored f = [done_event] \<and> event_log_ok (fo_db f)"
proof -
  obtain rows s where a: "append_event_batch 5 (1, 7, 9) ''req'' [done_event] stream_db = Inr (rows, s)"
    "event_log_ok s" "redis_up s" using done_event_stored by blast
  define f0 where "f0 = fanout_start (1, 7, 9) ''req'' 0 stream_db"
  define f1 where "f1 = submit_begin done_frame None f0"
  define f2 where "f2 = submit_put done_event f1"
  define f3 where "f3 = f2\<lparr>fo_queue := [], fo_writer := WCollecting [done_event]\<rparr>"
  define f4 where "f4 = f3\<lparr>fo_writer := WWriting [done_event] False\<rparr>"
  define f5 where "f5 = batch_stored [done_event] False s f4"
  define f6 where "f6 = submit_joined done_event f5"
  define f7 where "f7 = submit_live done_event f6"
  define f8 where "f8 = publish done_event (f7\<lparr>fo_live := []\<rparr>)"
  have rid: "strip ''req'' = ''req''" by code_simp
  have p1: "fo_producer f1 = PPut done_event" "fo_queue f1 = []" "fo_unfinished f1 = 0" "fo_writer f1 = WIdle" "\<not> fo_failed f1"
    "fo_live f1 = []" "fo_publishing f1" "fo_db f1 = stream_db" "fo_submitted f1 = [done_event]" "fo_stored f1 = []"
    "fo_published f1 = []" "fo_scope f1 = (1, 7, 9)" "fo_request f1 = ''req''"
    by (simp_all add: f1_def f0_def fanout_start_def submit_begin_def next_event_def Let_def done_event_def rid)
  have p5: "fo_producer f5 = PJoin done_event" "fo_unfinished f5 = 0" "fo_live f5 = []" "fo_publishing f5" "\<not> fo_failed f5"
    "fo_db f5 = s" "fo_submitted f5 = [done_event]" "fo_stored f5 = [done_event]" "fo_published f5 = []"
    using p1 done_frame_terminal
    by (simp_all add: f5_def f4_def f3_def f2_def batch_stored_def submit_put_def done_event_def)
  have s1: "fanout_step f0 f1" unfolding f1_def by (rule fanout_step.submit) (simp add: f0_def fanout_start_def)
  have s2: "fanout_step f1 f2" unfolding f2_def by (rule fanout_step.put) (simp_all add: p1 fanout_queue_size_def)
  have s3: "fanout_step f2 f3" unfolding f3_def by (rule fanout_step.take_first) (simp_all add: f2_def submit_put_def p1)
  have s4: "fanout_step f3 f4" unfolding f4_def by (rule fanout_step.flush) (simp add: f3_def)
  have s5: "fanout_step f4 f5" unfolding f5_def
    by (rule fanout_step.stored [where now = 5 and rows = rows])
      (simp_all add: f4_def f3_def f2_def submit_put_def p1 a(1) del: One_nat_def)
  have s6: "fanout_step f5 f6" unfolding f6_def by (rule fanout_step.joined) (simp_all add: p5)
  have s7: "fanout_step f6 f7" unfolding f7_def
    by (rule fanout_step.live) (simp_all add: f6_def submit_joined_def p5 fanout_queue_size_def)
  have s8: "fanout_step f7 f8" unfolding f8_def
    by (rule fanout_step.published) (simp_all add: f7_def f6_def submit_live_def submit_joined_def p5)
  have "fanout_reachable f0 f8"
    using fanout_reachable.step [OF fanout_reachable.step [OF fanout_reachable.step [OF fanout_reachable.step [OF
      fanout_reachable.step [OF fanout_reachable.step [OF fanout_reachable.step [OF fanout_reachable.step [OF
      fanout_reachable.start s1] s2] s3] s4] s5] s6] s7] s8] .
  moreover have "fo_published f8 = [done_event] \<and> fo_submitted f8 = [done_event] \<and> fo_stored f8 = [done_event] \<and>
      events (fo_db f8) = events s"
    using a(3) by (simp add: f8_def f7_def f6_def publish_def submit_live_def submit_joined_def p5 publish_live_event_def)
  ultimately show ?thesis using a(2) by (auto simp: f0_def event_log_ok_def)
qed

theorem fanout_durable_before_live_witness:
  "\<exists>f. fanout_reachable (fanout_start (1, 7, 9) ''req'' 0 stream_db) f \<and> fo_published f = [done_event] \<and>
     (1, done_frame) \<in> set (stored_frames (1, 7, 9) ''req'' (fo_db f))"
proof -
  obtain f where f: "fanout_reachable (fanout_start (1, 7, 9) ''req'' 0 stream_db) f" "fo_published f = [done_event]"
    "fo_submitted f = [done_event]" using done_stream by blast
  have d: "pe_sequence done_event = 1" "pe_frame done_event = done_frame" by (simp_all add: done_event_def)
  have "\<forall>ev \<in> set (fo_published f). terminal_frame (pe_frame ev) \<longrightarrow>
       (\<forall>x \<in> set (fo_submitted f). pe_sequence x \<le> pe_sequence ev \<longrightarrow>
          (pe_sequence x, pe_frame x) \<in> set (stored_frames (1, 7, 9) ''req'' (fo_db f)))"
    using fanout_durable_before_live [OF f(1)] by blast
  then have "(pe_sequence done_event, pe_frame done_event) \<in> set (stored_frames (1, 7, 9) ''req'' (fo_db f))"
    unfolding f(2,3) using done_frame_terminal d by auto
  then show ?thesis using f unfolding d by blast
qed

theorem fanout_backlog_bounded_witness:
  "\<exists>f. fanout_reachable (fanout_start (1, 7, 9) ''req'' 0 stream_db) f \<and> fo_submitted f = [done_event] \<and> length (fo_live f) \<le> 512"
proof -
  obtain f where f: "fanout_reachable (fanout_start (1, 7, 9) ''req'' 0 stream_db) f" "fo_submitted f = [done_event]"
    using done_stream by blast
  with fanout_backlog_bounded [OF f(1)] show ?thesis by blast
qed

theorem close_can_wait_forever_witness:
  "\<exists>f. fanout_reachable (fanout_start (1, 7, 9) ''req'' 0 stream_db) f \<and> fo_failed f \<and> fo_producer f = PClose"
  using close_can_wait_forever [of "(1, 7, 9)" "''req''" 0 stream_db] by blast

theorem client_stream_in_order_witness:
  "\<exists>c. client_loop (Some (1, 7, 9)) ''req'' [Replay event_db, Replay event_db] (client_start 0) = Inr c \<and>
     sorted_wrt (<) (map fst (cl_sent c))"
proof -
  have "\<exists>c. client_loop (Some (1, 7, 9)) ''req'' [Replay event_db, Replay event_db] (client_start 0) = Inr c"
    by simp
  then obtain c where c: "client_loop (Some (1, 7, 9)) ''req'' [Replay event_db, Replay event_db] (client_start 0) = Inr c" ..
  have "\<forall>e \<in> set [Replay event_db, Replay event_db]. sound_event (Some (1, 7, 9)) ''req'' e"
    using event_db_ok by (simp add: sound_event_def)
  with client_stream_in_order [OF c] c show ?thesis by blast
qed


theorem skipped_gap_never_sent_witness:
  "\<exists>c1 c2. on_message (Some (1, 7, 9)) ''req'' stream_db (live_event_payload \<lparr>pe_sequence = 5, pe_frame = token_frame, pe_run = None\<rparr>)
       (client_start 0) = Inr c1 \<and>
     client_loop (Some (1, 7, 9)) ''req'' [Replay event_db] c1 = Inr c2 \<and> \<not> (\<exists>p \<in> set (cl_sent c2). fst p < 5)"
proof -
  let ?ev = "\<lparr>pe_sequence = 5, pe_frame = token_frame, pe_run = None\<rparr>"
  have c0: "cl_last (client_start 0) < pe_sequence ?ev" "\<not> cl_done (client_start 0)" by (simp_all add: client_start_def)
  obtain c1 where m: "on_message (Some (1, 7, 9)) ''req'' stream_db (live_event_payload ?ev) (client_start 0) = Inr c1"
    using token_frame_plain c0 by (simp add: on_message_def decode_published)
  obtain c2 where l: "client_loop (Some (1, 7, 9)) ''req'' [Replay event_db] c1 = Inr c2" by (cases "cl_done c1") simp_all
  have "\<forall>e \<in> set [Replay event_db]. sound_event (Some (1, 7, 9)) ''req'' e" using event_db_ok by (simp add: sound_event_def)
  with skipped_gap_never_sent [OF m _ c0 l] token_frame_plain obtain new where
    "cl_sent c2 = cl_sent (client_start 0) @ (5, token_frame) # new" "\<forall>p \<in> set new. 5 < fst p" by auto
  then show ?thesis using m l by (force simp: client_start_def)
qed

end
