(* ===== verification/Redis.thy ===== *)
theory Redis
  imports Py_Text
begin

text \<open>
  The commands of the Redis server the services use, on a map from keys to a value and an expiry time.
  A key whose expiry time has come is gone.  Times are seconds of the server's clock.
\<close>

type_synonym redis = "string \<Rightarrow> (string \<times> int option) option"

definition live_entry :: "int \<Rightarrow> (string \<times> int option) option \<Rightarrow> (string \<times> int option) option" where
  "live_entry now e = (case e of
     None \<Rightarrow> None
   | Some (v, None) \<Rightarrow> Some (v, None)
   | Some (v, Some t) \<Rightarrow> if now < t then Some (v, Some t) else None)"

definition redis_get :: "int \<Rightarrow> string \<Rightarrow> redis \<Rightarrow> string option" where
  "redis_get now k r = map_option fst (live_entry now (r k))"

text \<open>\<open>SETEX\<close> and \<open>SET key value NX EX ttl\<close>.\<close>

definition redis_setex :: "int \<Rightarrow> string \<Rightarrow> int \<Rightarrow> string \<Rightarrow> redis \<Rightarrow> redis" where
  "redis_setex now k ttl v r = r(k := Some (v, Some (now + ttl)))"

definition redis_set_nx :: "int \<Rightarrow> string \<Rightarrow> string \<Rightarrow> int \<Rightarrow> redis \<Rightarrow> bool \<times> redis" where
  "redis_set_nx now k v ttl r =
     (if redis_get now k r = None then (True, redis_setex now k ttl v r) else (False, r))"

definition redis_del :: "string list \<Rightarrow> redis \<Rightarrow> redis" where
  "redis_del ks r = (\<lambda>k. if k \<in> set ks then None else r k)"

text \<open>\<open>INCR\<close>: a missing key counts from zero and gets no expiry.  The counters hold what \<open>INCR\<close> wrote.\<close>

definition redis_incr :: "int \<Rightarrow> string \<Rightarrow> redis \<Rightarrow> int \<times> redis" where
  "redis_incr now k r = (case live_entry now (r k) of
     None \<Rightarrow> (1, r(k := Some (str_int 1, None)))
   | Some (v, t) \<Rightarrow> (let n = int (nat_of_digits v) + 1 in (n, r(k := Some (str_int n, t)))))"

text \<open>\<open>EXPIRE key ttl\<close> and \<open>EXPIRE key ttl NX\<close>, which leaves an expiry alone; \<open>TTL\<close>.\<close>

definition redis_expire :: "int \<Rightarrow> string \<Rightarrow> int \<Rightarrow> redis \<Rightarrow> redis" where
  "redis_expire now k ttl r = (case live_entry now (r k) of
     None \<Rightarrow> r | Some (v, _) \<Rightarrow> r(k := Some (v, Some (now + ttl))))"

definition redis_expire_nx :: "int \<Rightarrow> string \<Rightarrow> int \<Rightarrow> redis \<Rightarrow> redis" where
  "redis_expire_nx now k ttl r = (case live_entry now (r k) of
     Some (v, None) \<Rightarrow> r(k := Some (v, Some (now + ttl))) | _ \<Rightarrow> r)"

definition redis_ttl :: "int \<Rightarrow> string \<Rightarrow> redis \<Rightarrow> int" where
  "redis_ttl now k r = (case live_entry now (r k) of
     None \<Rightarrow> -2 | Some (_, None) \<Rightarrow> -1 | Some (_, Some t) \<Rightarrow> t - now)"

lemma live_entry_simps [simp]:
  "live_entry now None = None" "live_entry now (Some (v, None)) = Some (v, None)"
  "live_entry now (Some (v, Some t)) = (if now < t then Some (v, Some t) else None)"
  by (simp_all add: live_entry_def)

lemma redis_get_set: "redis_get now' k (redis_setex now k ttl v r) = (if now' < now + ttl then Some v else None)"
  by (simp add: redis_get_def redis_setex_def)

lemma redis_get_del: "redis_get now k (redis_del ks r) = (if k \<in> set ks then None else redis_get now k r)"
  by (simp add: redis_get_def redis_del_def)

lemma redis_get_other [simp]:
  "k \<noteq> k' \<Longrightarrow> redis_get now k (redis_setex now' k' ttl v r) = redis_get now k r"
  by (simp add: redis_get_def redis_setex_def)

section \<open>Locks with an owner token\<close>

text \<open>
  What a component relies on when it guards its work with a key that holds the owner's token: the lock
  is granted only when nobody holds it, from then on the owner holds it until the lease ends, and only
  the owner's release removes it.
\<close>

locale owner_lock =
  fixes acquire :: "int \<Rightarrow> string \<Rightarrow> redis \<Rightarrow> bool \<times> redis"
    and release :: "int \<Rightarrow> string \<Rightarrow> redis \<Rightarrow> redis"
    and holder :: "int \<Rightarrow> redis \<Rightarrow> string option"
    and lease :: int
  assumes granted: "acquire now tok r = (True, r') \<Longrightarrow> holder now r = None \<and> (\<forall>t. t < now + lease \<longrightarrow> holder t r' = Some tok)"
    and refused: "acquire now tok r = (False, r') \<Longrightarrow> r' = r \<and> holder now r \<noteq> None"
    and released: "holder now (release now tok r) = (if holder now r = Some tok then None else holder now r)"
begin

lemma exclusive:
  assumes "acquire now tok r = (True, r')" and "now' < now + lease"
  shows "acquire now' tok' r' = (False, r')"
proof (cases "acquire now' tok' r'")
  case (Pair b r'')
  have h: "holder now' r' = Some tok" using granted [OF assms(1)] assms(2) by blast
  show ?thesis
  proof (cases b)
    case True
    then show ?thesis using granted [of now' tok' r' r''] Pair h by simp
  next
    case False
    then show ?thesis using refused [of now' tok' r' r''] Pair by simp
  qed
qed

lemma foreign_release: "holder now r = Some tok \<Longrightarrow> tok' \<noteq> tok \<Longrightarrow> holder now (release now tok' r) = Some tok"
  by (simp add: released)

end

end
