(* ===== verification/Worker.thy ===== *)
theory Worker
  imports Stream_Delivery Redis
begin

text \<open>
  The Celery tasks of a queued turn (\<open>deepspace/workers/tasks.py\<close>): \<open>dispatch_deepspace_turn_queue\<close>
  claims a turn and hands it to \<open>run_deepspace_task\<close>, which holds the request's Redis lock, follows the
  frames of the chat service, and settles the run and the turn however the stream ends.  The chat
  service is a parameter: what it yields, and the stores it leaves behind.
\<close>

section \<open>State\<close>

record job =
  j_tenant :: nat
  j_user :: nat
  j_conversation :: "nat option"
  j_request :: string
  j_token :: string

text \<open>The variables the nested functions share; \<open>w_fanout\<close>: an \<open>AsyncRunEventFanout\<close> was started.\<close>

record progress =
  w_conversation :: "nat option"
  w_run :: "nat option"
  w_status :: "string option"
  w_run_status :: "string option"
  w_seen :: bool
  w_error :: "string option"
  w_fanout :: bool

text \<open>What the worker reads from the chat service: a frame, and whether the fan-out's \<open>submit\<close> accepts it, or
  an exception; and whether the fan-out closes without an error.\<close>

datatype stream_item = Frame string bool | StreamRaised

record stream =
  st_items :: "stream_item list"
  st_closed :: bool

record task_result =
  tr_returned :: "string option"
  tr_dispatched :: bool

definition job_id :: "job \<Rightarrow> string" where
  "job_id j = strip (j_request j)"

definition job_scope :: "job \<Rightarrow> nat \<Rightarrow> scope" where
  "job_scope j conv = (j_tenant j, j_user j, conv)"

definition lock_key :: "job \<Rightarrow> string" where
  "lock_key j = ''deepspace:worker-lock:'' @ job_id j"

definition lock_lease :: int where "lock_lease = 60 * 60 * 24"

definition progress_start :: "job \<Rightarrow> progress" where
  "progress_start j = \<lparr>w_conversation = j_conversation j, w_run = None, w_status = None, w_run_status = None,
     w_seen = False, w_error = None, w_fanout = False\<rparr>"

section \<open>Following the stream\<close>

definition contains :: "string \<Rightarrow> string \<Rightarrow> bool" where
  "contains needle hay = (split_once needle hay \<noteq> None)"

definition data_line :: "string \<Rightarrow> string" where
  "data_line frame = (case first_field ''data:'' (splitlines frame) of None \<Rightarrow> [] | Some v \<Rightarrow> v)"

definition json_id :: "jdict \<Rightarrow> string \<Rightarrow> (nat option) option" where
  "json_id d k = (case map_of d k of
     None \<Rightarrow> Some None
   | Some v \<Rightarrow> if truthy v then map_option Some (parse_uuid (py_str v)) else Some None)"

text \<open>The identifiers of a frame; a conversation id that is no UUID ends the \<open>try\<close> block before the run id.\<close>

definition read_ids :: "string \<Rightarrow> progress \<Rightarrow> progress" where
  "read_ids frame p =
     (case json_loads (data_line frame) of
        Some (JObj d) \<Rightarrow>
          (case (if w_conversation p = None then json_id d ''conversation_id'' else Some None) of
             None \<Rightarrow> p
           | Some c \<Rightarrow>
               (let p1 = (case c of None \<Rightarrow> p | Some k \<Rightarrow> p\<lparr>w_conversation := Some k\<rparr>)
                in case json_id d ''run_id'' of Some (Some k) \<Rightarrow> p1\<lparr>w_run := Some k\<rparr> | _ \<Rightarrow> p1))
      | _ \<Rightarrow> p)"

definition note_done :: "string \<Rightarrow> progress \<Rightarrow> app_error + progress" where
  "note_done frame p =
     (case json_loads (data_line frame) of
        None \<Rightarrow> Inr (p\<lparr>w_seen := True, w_run_status := Some ''ready'', w_status := Some ''completed''\<rparr>)
      | Some (JObj d) \<Rightarrow>
          (let reported = get_str_or d ''status'' ''ready''
           in Inr (p\<lparr>w_seen := True, w_run_status := Some (if reported = ''completed'' then ''ready'' else reported),
                     w_status := Some reported\<rparr>))
      | Some _ \<Rightarrow> Inl (AttributeErr ''get''))"

definition note_error :: "string \<Rightarrow> progress \<Rightarrow> app_error + progress" where
  "note_error frame p =
     (let p1 = p\<lparr>w_seen := True, w_status := Some ''failed'', w_run_status := Some ''failed''\<rparr>
      in case json_loads (data_line frame) of
        None \<Rightarrow> Inr (p1\<lparr>w_error := Some ''DeepSpace stream returned an error''\<rparr>)
      | Some (JObj d) \<Rightarrow>
          Inr (p1\<lparr>w_error := Some (trunc 2000 (get_str_or d ''message'' ''DeepSpace stream returned an error''))\<rparr>)
      | Some _ \<Rightarrow> Inl (AttributeErr ''get''))"

definition note_frame :: "string \<Rightarrow> progress \<Rightarrow> app_error + progress" where
  "note_frame frame p =
     (if contains ''event: done'' frame then note_done frame p
      else if contains ''event: error'' frame then note_error frame p
      else Inr p)"

text \<open>The loop of \<open>execute\<close>; \<open>True\<close> when it raises.\<close>

fun follow :: "stream_item list \<Rightarrow> progress \<Rightarrow> bool \<times> progress" where
  "follow [] p = (False, p)"
| "follow (StreamRaised # items) p = (True, p)"
| "follow (Frame frame accepted # items) p =
     (let p1 = read_ids frame p; p2 = (if w_conversation p1 = None then p1 else p1\<lparr>w_fanout := True\<rparr>)
      in if w_conversation p1 \<noteq> None \<and> \<not> accepted then (True, p2)
         else (case note_frame frame p2 of Inl _ \<Rightarrow> (True, p2) | Inr p3 \<Rightarrow> follow items p3))"

definition execute :: "stream \<Rightarrow> progress \<Rightarrow> bool \<times> progress" where
  "execute st p = (case follow (st_items st) p of
     (raised, p1) \<Rightarrow> (raised \<or> (w_fanout p1 \<and> \<not> st_closed st), p1))"

section \<open>Settling the turn\<close>

definition schedule_row :: "job \<Rightarrow> schedule_run \<Rightarrow> bool" where
  "schedule_row j h = (h_request h = job_id j \<and> h_tenant h = j_tenant j \<and> h_user h = j_user j)"

definition update_schedule_run :: "int \<Rightarrow> job \<Rightarrow> string \<Rightarrow> string option \<Rightarrow> db \<Rightarrow> unit tx" where
  "update_schedule_run now j status err s =
     (if \<not> prefix ''schedule-'' (job_id j) then Inr ((), s)
      else (case one_or_none (filter (schedule_row j) (schedule_runs s)) of
         Inl e \<Rightarrow> Inl e
       | Inr None \<Rightarrow> Inr ((), s)
       | Inr (Some _) \<Rightarrow> Inr ((), s\<lparr>schedule_runs := upd_where (schedule_row j)
            (\<lambda>h. h\<lparr>h_status := status, h_error := nonempty_trunc 2000 err,
               h_started := (if status = ''running'' then Some now else h_started h),
               h_completed := (if status \<in> {''completed'', ''failed'', ''cancelled''} then Some now else h_completed h)\<rparr>)
            (schedule_runs s)\<rparr>)))"

definition failure_frame :: "string \<Rightarrow> string" where
  "failure_frame msg = sse ''error'' [(''code'', JStr ''DEEPSPACE_WORKER_FAILED''), (''message'', JStr msg)]"

definition publish_failure :: "int \<Rightarrow> job \<Rightarrow> nat option \<Rightarrow> nat option \<Rightarrow> string \<Rightarrow> db \<Rightarrow> unit tx" where
  "publish_failure now j conv run msg s =
     (case conv of
        None \<Rightarrow> Inr ((), s)
      | Some c \<Rightarrow> (case append_event now (job_scope j c) (job_id j) (failure_frame msg) run s of
          Inl e \<Rightarrow> Inl e | Inr (_, s1) \<Rightarrow> Inr ((), s1)))"

text \<open>The worker's own statuses of a turn; anything else a stream reports counts as completed.\<close>

definition queue_outcomes :: "string list" where
  "queue_outcomes = [''completed'', ''cancelled'', ''failed'', ''awaiting_user'', ''awaiting_approval'']"

text \<open>After a stream that ended: close one that vanished, then normalise the status.\<close>

definition vanished :: "progress \<Rightarrow> progress" where
  "vanished p = p\<lparr>w_status := Some ''failed'', w_run_status := Some ''failed'',
     w_error := Some ''DeepSpace stream ended without a terminal event.''\<rparr>"

definition normalise :: "progress \<Rightarrow> progress" where
  "normalise p =
     (let p1 = (if w_status p = None
                then p\<lparr>w_status := Some ''failed'',
                       w_run_status := (case w_run_status p of None \<Rightarrow> Some ''failed'' | Some [] \<Rightarrow> Some ''failed'' | x \<Rightarrow> x)\<rparr>
                else p)
      in if the (w_status p1) \<notin> set queue_outcomes then p1\<lparr>w_status := Some ''completed''\<rparr> else p1)"

definition ended :: "int \<Rightarrow> job \<Rightarrow> progress \<Rightarrow> db \<Rightarrow> progress \<times> unit session" where
  "ended now j p s =
     (if w_seen p then (normalise p, run_tx (update_schedule_run now j (the (w_status (normalise p))) None s) s)
      else (case publish_failure now j (w_conversation p) (w_run p)
               ''DeepSpace stopped before finishing this response. The saved prompt is available to retry.'' s of
         Inl e \<Rightarrow> (vanished p, Inl e, s)
       | Inr (_, s1) \<Rightarrow> (vanished p, run_tx (update_schedule_run now j ''failed'' None s1) s1)))"

text \<open>The handler of an exception; both of its writes may fail and are then left out.\<close>

definition failed_progress :: "progress \<Rightarrow> progress" where
  "failed_progress p = p\<lparr>w_status := Some ''failed'', w_run_status := Some ''failed'', w_error := Some ''DeepSpace run failed''\<rparr>"

definition kept :: "'a tx \<Rightarrow> db \<Rightarrow> db" where
  "kept r s = (case r of Inl _ \<Rightarrow> s | Inr (_, s1) \<Rightarrow> s1)"

definition handle_exception :: "int \<Rightarrow> job \<Rightarrow> progress \<Rightarrow> db \<Rightarrow> db" where
  "handle_exception now j p s =
     (let s1 = kept (update_schedule_run now j ''failed'' (Some ''DeepSpace run failed'') s) s
      in kept (publish_failure now j (j_conversation j) (w_run p)
                 ''DeepSpace could not complete this response. Please retry.'' s1) s1)"

text \<open>The \<open>finally\<close> block: close the run, settle the turn, and wake the dispatcher unless the turn waits or
  the queue is paused.\<close>

definition finalize :: "int \<Rightarrow> job \<Rightarrow> progress \<Rightarrow> db \<Rightarrow> bool \<times> db" where
  "finalize now j p s =
     (case w_conversation p of
        None \<Rightarrow> (False, s)
      | Some c \<Rightarrow>
          (let sc = job_scope j c;
               final = (case w_status p of None \<Rightarrow> ''failed'' | Some [] \<Rightarrow> ''failed'' | Some st \<Rightarrow> st);
               s1 = (case w_run_status p of None \<Rightarrow> s
                     | Some st \<Rightarrow> snd (finish_for_request now sc (job_id j) st (w_error p) s));
               s2 = snd (finish now sc (job_id j) final (w_error p) s1)
           in (final \<notin> {''awaiting_user'', ''awaiting_approval''} \<and> \<not> qs_paused (state sc s2), s2)))"

definition release_lock :: "int \<Rightarrow> job \<Rightarrow> bool \<Rightarrow> redis \<Rightarrow> redis" where
  "release_lock now j up r = (if up \<and> redis_get now (lock_key j) r = Some (j_token j) then redis_del [lock_key j] r else r)"

section \<open>The task\<close>

text \<open>\<open>wrap_up\<close> leaves the \<open>try\<close> with a result, or through the handler when \<open>None\<close>.\<close>

definition wrap_up :: "int \<Rightarrow> job \<Rightarrow> string option \<Rightarrow> progress \<Rightarrow> redis \<Rightarrow> db \<Rightarrow> task_result \<times> redis \<times> db" where
  "wrap_up now j result p r s =
     (let (p1, s1) = (if result = None then (failed_progress p, handle_exception now j p s) else (p, s));
          (woken, s2) = finalize now j p1 s1
      in (\<lparr>tr_returned = result, tr_dispatched = woken\<rparr>, release_lock now j (redis_up s2) r, s2))"

text \<open>A turn of the queue that is neither running nor cancelling has its result already.\<close>

definition already_settled :: "job \<Rightarrow> db \<Rightarrow> turn option" where
  "already_settled j s =
     (case j_conversation j of
        None \<Rightarrow> None
      | Some c \<Rightarrow> (case find_turn (job_scope j c) (job_id j) s of
          None \<Rightarrow> None | Some t \<Rightarrow> if t_status t \<in> {Running, Cancelling} then None else Some t))"

definition cancelled_frame :: "nat \<Rightarrow> string" where
  "cancelled_frame c = sse ''done'' [(''conversation_id'', JStr (uuid_str c)), (''status'', JStr ''cancelled'')]"

definition cancelled_progress :: "job \<Rightarrow> progress" where
  "cancelled_progress j = (progress_start j)\<lparr>w_status := Some ''cancelled'', w_run_status := Some ''cancelled'',
     w_error := Some ''user_cancelled''\<rparr>"

definition cancel_early :: "int \<Rightarrow> job \<Rightarrow> db \<Rightarrow> unit session" where
  "cancel_early now j s =
     (case (case j_conversation j of None \<Rightarrow> Inr ((), s)
            | Some c \<Rightarrow> (case append_event now (job_scope j c) (job_id j) (cancelled_frame c) None s of
                Inl e \<Rightarrow> Inl e | Inr (_, s1) \<Rightarrow> Inr ((), s1))) of
        Inl e \<Rightarrow> (Inl e, s)
      | Inr (_, s1) \<Rightarrow> (case update_schedule_run now j ''cancelled'' None s1 of
          Inl e \<Rightarrow> (Inl e, s1)
        | Inr (_, s2) \<Rightarrow> (Inr (), case j_conversation j of None \<Rightarrow> s2
            | Some c \<Rightarrow> snd (finish now (job_scope j c) (job_id j) ''cancelled'' None
                               (snd (finish_requested_cancellations now (job_scope j c) s2))))))"

definition cancel_requested :: "int \<Rightarrow> job \<Rightarrow> redis \<Rightarrow> bool" where
  "cancel_requested now j r =
     (case redis_get now (cancellation_key (j_tenant j) (j_user j) (job_id j)) r of None \<Rightarrow> False | Some v \<Rightarrow> v \<noteq> [])"

text \<open>The body once the lock is held and the turn is to run: \<open>later\<close> is the time the stream ends.\<close>

definition run_turn ::
  "int \<Rightarrow> int \<Rightarrow> job \<Rightarrow> (redis \<Rightarrow> db \<Rightarrow> stream \<times> redis \<times> db) \<Rightarrow> redis \<Rightarrow> db \<Rightarrow> task_result \<times> redis \<times> db" where
  "run_turn now later j serve r s =
     (case update_schedule_run now j ''running'' None s of
        Inl _ \<Rightarrow> wrap_up now j None (progress_start j) r s
      | Inr (_, s1) \<Rightarrow>
          (if cancel_requested now j r
           then (case cancel_early now j s1 of
                   (Inl _, s2) \<Rightarrow> wrap_up now j None (cancelled_progress j) r s2
                 | (Inr _, s2) \<Rightarrow> wrap_up now j (Some ''cancelled'') (cancelled_progress j) r s2)
           else (case serve r s1 of (st, r2, s2) \<Rightarrow>
                  (case execute st (progress_start j) of
                     (True, p) \<Rightarrow> wrap_up later j None p r2 s2
                   | (False, p) \<Rightarrow>
                       (case ended later j p s2 of
                          (p1, result, s3) \<Rightarrow> wrap_up later j (if isl result then None else w_status p1) p1 r2 s3)))))"

definition run_task ::
  "int \<Rightarrow> int \<Rightarrow> job \<Rightarrow> (redis \<Rightarrow> db \<Rightarrow> stream \<times> redis \<times> db) \<Rightarrow> redis \<Rightarrow> db \<Rightarrow> task_result \<times> redis \<times> db" where
  "run_task now later j serve r s =
     (if \<not> redis_up s
      then (\<lparr>tr_returned = None, tr_dispatched = False\<rparr>, r, handle_exception now j (progress_start j) s)
      else (case redis_set_nx now (lock_key j) (j_token j) lock_lease r of
         (False, _) \<Rightarrow> (\<lparr>tr_returned = Some ''already-running'', tr_dispatched = False\<rparr>, r, s)
       | (True, r1) \<Rightarrow>
           (case already_settled j s of
              Some t \<Rightarrow> (\<lparr>tr_returned = Some (''already-'' @ turn_status_str (t_status t)), tr_dispatched = False\<rparr>,
                         release_lock now j True r1, s)
            | None \<Rightarrow> run_turn now later j serve r1 s)))"

section \<open>The dispatcher\<close>

text \<open>\<open>broker\<close>: the task queue accepts the worker's task.  The result is the claimed turn that was handed
  over, and an error when the claim failed or the hand-over did.\<close>

datatype dispatch_result = Idle | Dispatched claimed_turn | ClaimFailed app_error | BrokerFailed

definition dispatch :: "int \<Rightarrow> bool \<Rightarrow> scope \<Rightarrow> db \<Rightarrow> dispatch_result \<times> db" where
  "dispatch now broker sc s =
     (case claim_next now sc s of
        (Inl e, s1) \<Rightarrow> (ClaimFailed e, s1)
      | (Inr None, s1) \<Rightarrow> (Idle, s1)
      | (Inr (Some c), s1) \<Rightarrow>
          (if broker then (Dispatched c, s1) else (BrokerFailed, snd (release_claim (ct_scope c) (ct_request c) s1))))"

definition claimed_job :: "claimed_turn \<Rightarrow> string \<Rightarrow> job" where
  "claimed_job c tok = (case ct_scope c of (tn, user, conv) \<Rightarrow>
     \<lparr>j_tenant = tn, j_user = user, j_conversation = Some conv, j_request = ct_request c, j_token = tok\<rparr>)"

section \<open>What the steps leave alone\<close>

text \<open>Everything but the event log, the accounting beside it and the schedule rows.\<close>

definition same_queue :: "db \<Rightarrow> db \<Rightarrow> bool" where
  "same_queue s s' = (turns s' = turns s \<and> controls s' = controls s \<and> runs s' = runs s \<and> messages s' = messages s \<and>
     conversations s' = conversations s \<and> next_id s \<le> next_id s')"

lemma same_queue_refl [simp]: "same_queue s s"
  by (simp add: same_queue_def)

lemma same_queue_trans: "same_queue s s1 \<Longrightarrow> same_queue s1 s2 \<Longrightarrow> same_queue s s2"
  by (simp add: same_queue_def)

lemma same_queue_find: "same_queue s s' \<Longrightarrow> find_turn sc rid s' = find_turn sc rid s"
  by (simp add: same_queue_def find_turn_def turns_of_def)

lemma schedule_same:
  assumes "update_schedule_run now j st err s = Inr (u, s')"
  shows "same_queue s s' \<and> redis_up s' = redis_up s \<and> events s' = events s"
proof (cases "prefix ''schedule-'' (job_id j)")
  case True
  then show ?thesis using assms
    by (cases "one_or_none (filter (schedule_row j) (schedule_runs s))")
       (auto simp: update_schedule_run_def same_queue_def split: option.splits)
qed (use assms in \<open>simp add: update_schedule_run_def\<close>)

lemma append_same:
  assumes "append_event now sc rid frame run s = Inr (e, s')"
  shows "same_queue s s' \<and> redis_up s' = redis_up s"
proof -
  obtain k where "log_core s' = log_core s" "next_id s \<le> k" "k < next_id s'" by (rule append_event_rows [OF assms])
  with log_core_fields [OF this(1)] show ?thesis by (simp add: same_queue_def)
qed

lemma publish_failure_same:
  assumes "publish_failure now j conv run msg s = Inr (u, s')"
  shows "same_queue s s' \<and> redis_up s' = redis_up s"
proof (cases conv)
  case None
  then show ?thesis using assms by (simp add: publish_failure_def)
next
  case (Some c)
  then obtain e where "append_event now (job_scope j c) (job_id j) (failure_frame msg) run s = Inr (e, s')"
    using assms by (auto simp: publish_failure_def split: sum.splits)
  then show ?thesis by (rule append_same)
qed

lemma kept_same:
  assumes "\<And>u s'. r = Inr (u, s') \<Longrightarrow> same_queue s s' \<and> redis_up s' = redis_up s"
  shows "same_queue s (kept r s) \<and> redis_up (kept r s) = redis_up s"
  using assms by (auto simp: kept_def split: sum.split)

lemma handle_exception_same: "same_queue s (handle_exception now j p s) \<and> redis_up (handle_exception now j p s) = redis_up s"
proof -
  let ?s1 = "kept (update_schedule_run now j ''failed'' (Some ''DeepSpace run failed'') s) s"
  let ?msg = "''DeepSpace could not complete this response. Please retry.''"
  let ?s2 = "kept (publish_failure now j (j_conversation j) (w_run p) ?msg ?s1) ?s1"
  have e: "handle_exception now j p s = ?s2" by (simp only: handle_exception_def Let_def)
  have 1: "same_queue s ?s1 \<and> redis_up ?s1 = redis_up s" by (rule kept_same) (use schedule_same in blast)
  have 2: "same_queue ?s1 ?s2 \<and> redis_up ?s2 = redis_up ?s1" by (rule kept_same) (rule publish_failure_same)
  show ?thesis unfolding e using 1 2 same_queue_trans [of s ?s1 ?s2] by simp
qed

lemma finish_for_request_queue [simp]:
  "turns (snd (finish_for_request now sc rid st err s)) = turns s"
  "controls (snd (finish_for_request now sc rid st err s)) = controls s"
proof -
  let ?s' = "snd (finish_for_request now sc rid st err s)"
  have "turns ?s' = turns s \<and> controls ?s' = controls s"
  proof (cases "first_row (newest_runs (\<lambda>r. r_scope r = sc \<and> rid \<in> set (run_requests sc r s)) s)")
    case None
    then show ?thesis by (simp add: finish_for_request_def)
  next
    case (Some r)
    then show ?thesis by (simp add: finish_for_request_def Let_def)
  qed
  then show "turns ?s' = turns s" "controls ?s' = controls s" by simp_all
qed

lemma finish_found:
  assumes "find_turn sc rid s = Some t"
  shows "find_turn sc rid (snd (finish now sc rid st err s)) = Some (finish_turn now st err t)"
    and "controls (snd (finish now sc rid st err s)) = controls s"
proof -
  let ?P = "\<lambda>t. t_scope t = sc \<and> t_request t = rid"
  have keep: "?P (finish_turn now st err x) = ?P x" for x by (simp add: finish_turn_def)
  have "filter ?P (upd_where (\<lambda>x. t_id x = t_id t) (finish_turn now st err) ts) =
      upd_where (\<lambda>x. t_id x = t_id t) (finish_turn now st err) (filter ?P ts)" for ts
    by (rule filter_upd_where_same) (rule keep)
  then show "find_turn sc rid (snd (finish now sc rid st err s)) = Some (finish_turn now st err t)"
    using assms by (simp add: finish_def find_turn_def turns_of_def first_row_upd_where)
  show "controls (snd (finish now sc rid st err s)) = controls s" using assms by (simp add: finish_def)
qed

section \<open>However the stream ends\<close>

lemma read_ids_keeps [simp]:
  "w_status (read_ids frame p) = w_status p" "w_run_status (read_ids frame p) = w_run_status p"
  "w_seen (read_ids frame p) = w_seen p" "w_error (read_ids frame p) = w_error p" "w_fanout (read_ids frame p) = w_fanout p"
  by (auto simp: read_ids_def Let_def split: option.split json.split)

lemma read_ids_conversation: "w_conversation p = Some c \<Longrightarrow> w_conversation (read_ids frame p) = Some c"
  by (auto simp: read_ids_def Let_def split: option.split json.split)

lemma note_frame_keeps:
  assumes "note_frame frame p = Inr p'"
  shows "w_conversation p' = w_conversation p \<and> w_run p' = w_run p \<and> w_fanout p' = w_fanout p \<and>
    (w_seen p' \<longrightarrow> w_status p' \<noteq> None \<or> w_seen p \<and> w_status p' = w_status p)"
  using assms
  by (auto simp: note_frame_def note_done_def note_error_def Let_def split: if_splits option.splits json.splits)

lemma follow_keeps:
  assumes "follow items p = (b, p')" and "w_conversation p = Some c" and "w_seen p \<longrightarrow> w_status p \<noteq> None"
  shows "w_conversation p' = Some c \<and> (w_seen p' \<longrightarrow> w_status p' \<noteq> None)"
  using assms
proof (induction items p arbitrary: b p' rule: follow.induct)
  case (3 frame accepted items p)
  let ?p1 = "read_ids frame p"
  let ?p2 = "?p1\<lparr>w_fanout := True\<rparr>"
  have c: "w_conversation ?p1 = Some c" using read_ids_conversation [OF 3(3)] .
  show ?case
  proof (cases "accepted \<and> \<not> isl (note_frame frame ?p2)")
    case True
    then obtain p3 where p3: "note_frame frame ?p2 = Inr p3" by (cases "note_frame frame ?p2") auto
    then have "follow items p3 = (b, p')" using 3(2) True c by (simp add: Let_def)
    moreover have "w_conversation p3 = Some c" "w_seen p3 \<longrightarrow> w_status p3 \<noteq> None"
      using note_frame_keeps [OF p3] c 3(4) by auto
    moreover have "\<not> (w_conversation ?p1 \<noteq> None \<and> \<not> accepted)" using True by simp
    ultimately show ?thesis using 3(1) [of ?p1 ?p2 p3 b p'] c p3 by (simp del: follow.simps)
  next
    case False
    then have "p' = ?p2" using 3(2) c by (auto simp: Let_def split: if_splits sum.splits)
    then show ?thesis using c 3(4) by simp
  qed
qed simp_all

lemma execute_keeps:
  assumes "execute st (progress_start j) = (b, p)" and "j_conversation j = Some c"
  shows "w_conversation p = Some c \<and> (w_seen p \<longrightarrow> w_status p \<noteq> None)"
proof -
  obtain b' where "follow (st_items st) (progress_start j) = (b', p)"
    using assms(1) by (auto simp: execute_def split: prod.splits)
  from follow_keeps [OF this] assms(2) show ?thesis by (simp add: progress_start_def)
qed

definition waiting :: "turn_status \<Rightarrow> bool" where
  "waiting st = (st \<in> {AwaitingUser, AwaitingApproval})"

lemma finish_status_waiting: "waiting (finish_status st) \<longleftrightarrow> st \<in> {''awaiting_user'', ''awaiting_approval''}"
  by (simp add: waiting_def finish_status_def)

lemma finalize_settles:
  assumes f: "finalize now j p s = (d, s')" and c: "w_conversation p = Some c"
    and t: "find_turn (job_scope j c) (job_id j) s = Some t" and st: "w_status p = Some st"
  shows "\<exists>t'. find_turn (job_scope j c) (job_id j) s' = Some t' \<and> t_status t' = finish_status st \<and>
    d = (\<not> waiting (t_status t') \<and> \<not> qs_paused (state (job_scope j c) s'))"
proof -
  let ?sc = "job_scope j c"
  define final where "final = (if st = [] then ''failed'' else st)"
  define s1 where "s1 = (case w_run_status p of None \<Rightarrow> s
    | Some st \<Rightarrow> snd (finish_for_request now ?sc (job_id j) st (w_error p) s))"
  have final: "(case w_status p of None \<Rightarrow> ''failed'' | Some [] \<Rightarrow> ''failed'' | Some st \<Rightarrow> st) = final"
    by (cases st) (simp_all add: st final_def)
  have e: "s' = snd (finish now ?sc (job_id j) final (w_error p) s1)"
    "d = (final \<notin> {''awaiting_user'', ''awaiting_approval''} \<and> \<not> qs_paused (state ?sc s'))"
    using f unfolding finalize_def c option.case(2) Let_def final s1_def [symmetric] by auto
  have "turns s1 = turns s" by (simp add: s1_def split: option.split)
  then have "find_turn ?sc (job_id j) s1 = Some t" using t by (simp add: find_turn_def turns_of_def)
  from finish_found(1) [OF this, of now final "w_error p"]
  have "find_turn ?sc (job_id j) s' = Some (finish_turn now final (w_error p) t)" by (simp add: e(1))
  moreover have "finish_status final = finish_status st" by (simp add: final_def finish_status_def)
  ultimately show ?thesis using e(2) finish_status_waiting [of final] by (simp add: finish_turn_def)
qed

text \<open>The result the task reports and the status its turn gets.\<close>

definition settled_as :: "string option \<Rightarrow> turn_status" where
  "settled_as result = (case result of None \<Rightarrow> Failed | Some st \<Rightarrow> finish_status st)"

definition settles_turn :: "job \<Rightarrow> nat \<Rightarrow> task_result \<Rightarrow> db \<Rightarrow> bool" where
  "settles_turn j c res s =
     (\<exists>t. find_turn (job_scope j c) (job_id j) s = Some t \<and> t_status t = settled_as (tr_returned res) \<and>
        tr_returned res \<in> insert None (Some ` set queue_outcomes) \<and>
        tr_dispatched res = (\<not> waiting (t_status t) \<and> \<not> qs_paused (state (job_scope j c) s)))"

lemma wrap_up_settles:
  assumes w: "wrap_up now j result p r s = (res, r', s')" and c: "w_conversation p = Some c"
    and t: "find_turn (job_scope j c) (job_id j) s = Some t"
    and st: "result \<noteq> None \<Longrightarrow> w_status p = result \<and> the result \<in> set queue_outcomes"
  shows "settles_turn j c res s'"
proof -
  define p1 where "p1 = (if result = None then failed_progress p else p)"
  define s1 where "s1 = (if result = None then handle_exception now j p s else s)"
  define st where "st = (case result of None \<Rightarrow> ''failed'' | Some st \<Rightarrow> st)"
  obtain d where f: "finalize now j p1 s1 = (d, s')" and res: "res = \<lparr>tr_returned = result, tr_dispatched = d\<rparr>"
    using w by (auto simp: wrap_up_def p1_def s1_def split: prod.splits if_splits)
  have "w_conversation p1 = Some c" using c by (simp add: p1_def failed_progress_def)
  moreover have "find_turn (job_scope j c) (job_id j) s1 = Some t"
    using t handle_exception_same [of s now j p] same_queue_find [of s s1] by (simp add: s1_def)
  moreover have "w_status p1 = Some st"
    using assms(4) by (cases result) (auto simp: p1_def failed_progress_def st_def)
  ultimately obtain t' where t': "find_turn (job_scope j c) (job_id j) s' = Some t'" "t_status t' = finish_status st"
    "d = (\<not> waiting (t_status t') \<and> \<not> qs_paused (state (job_scope j c) s'))"
    using finalize_settles [OF f] by blast
  moreover have "finish_status st = settled_as result"
    by (cases result) (simp_all add: st_def settled_as_def finish_status_def)
  moreover have "result \<in> insert None (Some ` set queue_outcomes)" using assms(4) by (cases result) auto
  ultimately show ?thesis by (auto simp: settles_turn_def res)
qed

lemma normalise_outcome: "\<exists>st. w_status (normalise p) = Some st \<and> st \<in> set queue_outcomes"
  by (auto simp: normalise_def Let_def queue_outcomes_def)

lemma normalise_conversation [simp]: "w_conversation (normalise p) = w_conversation p"
  by (simp add: normalise_def Let_def)

lemma ended_keeps:
  assumes "ended now j p s = (p1, result, s1)"
  shows "same_queue s s1 \<and> redis_up s1 = redis_up s \<and> w_conversation p1 = w_conversation p \<and>
    (\<exists>st. w_status p1 = Some st \<and> st \<in> set queue_outcomes)"
proof -
  have upd: "same_queue s (snd (run_tx (update_schedule_run now j st None s) s)) \<and>
      redis_up (snd (run_tx (update_schedule_run now j st None s) s)) = redis_up s" for st s
    using schedule_same by (auto simp: run_tx_def split: sum.split prod.split)
  show ?thesis
  proof (cases "w_seen p")
    case True
    then have "p1 = normalise p" "s1 = snd (run_tx (update_schedule_run now j (the (w_status (normalise p))) None s) s)"
      using assms by (auto simp: ended_def)
    then show ?thesis using upd normalise_outcome by simp
  next
    case False
    let ?pub = "publish_failure now j (w_conversation p) (w_run p)
      ''DeepSpace stopped before finishing this response. The saved prompt is available to retry.'' s"
    have v: "p1 = vanished p" using assms False by (auto simp: ended_def split: sum.splits)
    have "same_queue s s1 \<and> redis_up s1 = redis_up s"
    proof (cases ?pub)
      case (Inl e)
      then show ?thesis using assms False by (simp add: ended_def)
    next
      case (Inr q)
      then obtain u s2 where q: "?pub = Inr (u, s2)" by (cases q) auto
      then have "s1 = snd (run_tx (update_schedule_run now j ''failed'' None s2) s2)"
        using assms False by (auto simp: ended_def)
      then show ?thesis using upd [of s2 "''failed''"] publish_failure_same [OF q] same_queue_trans [of s s2 s1] by simp
    qed
    then show ?thesis by (simp add: v vanished_def queue_outcomes_def)
  qed
qed

lemma cancel_early_keeps:
  assumes e: "cancel_early now j s = (res, s')" and c: "j_conversation j = Some c"
    and t: "find_turn (job_scope j c) (job_id j) s = Some t"
  shows "\<exists>t'. find_turn (job_scope j c) (job_id j) s' = Some t'"
proof (cases "append_event now (job_scope j c) (job_id j) (cancelled_frame c) None s")
  case (Inl err)
  then show ?thesis using e t by (simp add: cancel_early_def c)
next
  case (Inr q)
  then obtain u s1 where a: "append_event now (job_scope j c) (job_id j) (cancelled_frame c) None s = Inr (u, s1)"
    by (cases q) auto
  have t1: "find_turn (job_scope j c) (job_id j) s1 = Some t" using same_queue_find [of s s1] append_same [OF a] t by simp
  show ?thesis
  proof (cases "update_schedule_run now j ''cancelled'' None s1")
    case (Inl err)
    then show ?thesis using e t1 a by (simp add: cancel_early_def c)
  next
    case (Inr q2)
    then obtain u2 s2 where b: "update_schedule_run now j ''cancelled'' None s1 = Inr (u2, s2)" by (cases q2) auto
    let ?s3 = "snd (finish_requested_cancellations now (job_scope j c) s2)"
    have "find_turn (job_scope j c) (job_id j) s2 = Some t" using same_queue_find [of s1 s2] schedule_same [OF b] t1 by simp
    then have "find_turn (job_scope j c) (job_id j) ?s3 = Some t"
      by (simp add: finish_requested_cancellations_def find_turn_def turns_of_def)
    from finish_found(1) [OF this] show ?thesis using e a b by (auto simp: cancel_early_def c)
  qed
qed

lemma run_turn_settles:
  assumes r: "run_turn now later j serve r s = (res, r', s')" and c: "j_conversation j = Some c"
    and t: "find_turn (job_scope j c) (job_id j) s = Some t"
    and serve: "\<And>r s. find_turn (job_scope j c) (job_id j) s \<noteq> None \<Longrightarrow> find_turn (job_scope j c) (job_id j) (snd (snd (serve r s))) \<noteq> None"
  shows "settles_turn j c res s'"
proof -
  have c0: "w_conversation (progress_start j) = Some c" "w_conversation (cancelled_progress j) = Some c"
    by (simp_all add: progress_start_def cancelled_progress_def c)
  show ?thesis
  proof (cases "update_schedule_run now j ''running'' None s")
    case (Inl err)
    then have "wrap_up now j None (progress_start j) r s = (res, r', s')" using r by (simp add: run_turn_def)
    from wrap_up_settles [OF this c0(1) t] show ?thesis by simp
  next
    case (Inr q)
    then obtain u s1 where u: "update_schedule_run now j ''running'' None s = Inr (u, s1)" by (cases q) auto
    have t1: "find_turn (job_scope j c) (job_id j) s1 = Some t" using same_queue_find [of s s1] schedule_same [OF u] t by simp
    show ?thesis
    proof (cases "cancel_requested now j r")
      case True
      obtain e s2 where e: "cancel_early now j s1 = (e, s2)" by force
      obtain t2 where t2: "find_turn (job_scope j c) (job_id j) s2 = Some t2" using cancel_early_keeps [OF e c t1] by blast
      have "wrap_up now j (if isl e then None else Some ''cancelled'') (cancelled_progress j) r s2 = (res, r', s')"
        using r u True e by (cases e) (simp_all add: run_turn_def)
      from wrap_up_settles [OF this c0(2) t2] show ?thesis
        by (cases e) (simp_all add: cancelled_progress_def queue_outcomes_def)
    next
      case False
      obtain st r2 s2 where sv: "serve r s1 = (st, r2, s2)" using prod_cases3 by blast
      obtain b p where x: "execute st (progress_start j) = (b, p)" by force
      note k = execute_keeps [OF x c]
      have "find_turn (job_scope j c) (job_id j) s2 \<noteq> None" using serve [of s1 r] t1 sv by simp
      then obtain t2 where t2: "find_turn (job_scope j c) (job_id j) s2 = Some t2" by blast
      show ?thesis
      proof (cases b)
        case True
        then have "wrap_up later j None p r2 s2 = (res, r', s')"
          using r u \<open>\<not> cancel_requested now j r\<close> sv x by (simp add: run_turn_def)
        from wrap_up_settles [OF this conjunct1 [OF k] t2] show ?thesis by simp
      next
        case False
        obtain p1 e s3 where d: "ended later j p s2 = (p1, e, s3)" using prod_cases3 by blast
        note ek = ended_keeps [OF d]
        have "wrap_up later j (if isl e then None else w_status p1) p1 r2 s3 = (res, r', s')"
          using r u \<open>\<not> cancel_requested now j r\<close> sv x False d by (simp add: run_turn_def)
        moreover have "w_conversation p1 = Some c" using ek k by simp
        moreover have "find_turn (job_scope j c) (job_id j) s3 = Some t2" using ek same_queue_find [of s2 s3] t2 by simp
        moreover have "(if isl e then None else w_status p1) \<noteq> None \<Longrightarrow>
            w_status p1 = (if isl e then None else w_status p1) \<and> the (if isl e then None else w_status p1) \<in> set queue_outcomes"
          using ek by (auto split: if_splits)
        ultimately show ?thesis by (rule wrap_up_settles)
      qed
    qed
  qed
qed

lemma run_task_settles:
  assumes "run_task now later j serve r s = (res, r', s')" and "j_conversation j = Some c"
    and "redis_up s" and "redis_get now (lock_key j) r = None"
    and "find_turn (job_scope j c) (job_id j) s = Some t" and "t_status t \<in> {Running, Cancelling}"
    and "\<And>r s. find_turn (job_scope j c) (job_id j) s \<noteq> None \<Longrightarrow> find_turn (job_scope j c) (job_id j) (snd (snd (serve r s))) \<noteq> None"
  shows "settles_turn j c res s'"
proof -
  have "run_turn now later j serve (redis_setex now (lock_key j) lock_lease (j_token j) r) s = (res, r', s')"
    using assms(1-6) by (simp add: run_task_def redis_set_nx_def already_settled_def)
  from run_turn_settles [OF this assms(2,5,7)] show ?thesis .
qed

section \<open>The properties of the worker\<close>

text \<open>C4. Whatever the stream does, the turn is settled.  A worker that takes a running or cancelling turn leaves
  it completed, cancelled, failed or waiting for the user, exactly as the result it reports (failed when
  the task raises): also when the chat service raises, the event writer fails, the stream vanishes
  without a terminal frame or the user had cancelled before the start.  The dispatcher is woken exactly
  when the turn does not wait and the queue is not paused.\<close>

theorem worker_settles_turn:
  assumes "run_task now later j serve r s = (res, r', s')" and "j_conversation j = Some c"
    and "redis_up s" and "redis_get now (lock_key j) r = None"
    and "find_turn (job_scope j c) (job_id j) s = Some t" and "t_status t \<in> {Running, Cancelling}"
    and "\<And>r s. find_turn (job_scope j c) (job_id j) s \<noteq> None \<Longrightarrow> find_turn (job_scope j c) (job_id j) (snd (snd (serve r s))) \<noteq> None"
  shows "\<exists>t'. find_turn (job_scope j c) (job_id j) s' = Some t' \<and>
    t_status t' = (case tr_returned res of None \<Rightarrow> Failed | Some st \<Rightarrow> finish_status st) \<and>
    t_status t' \<in> {Completed, Cancelled, Failed, AwaitingUser, AwaitingApproval} \<and>
    tr_dispatched res = (t_status t' \<notin> {AwaitingUser, AwaitingApproval} \<and> \<not> qs_paused (state (job_scope j c) s'))"
proof -
  from run_task_settles [OF assms] obtain t' where
    t': "find_turn (job_scope j c) (job_id j) s' = Some t'" "t_status t' = settled_as (tr_returned res)"
    "tr_dispatched res = (\<not> waiting (t_status t') \<and> \<not> qs_paused (state (job_scope j c) s'))"
    unfolding settles_turn_def by blast
  moreover have "settled_as x \<in> {Completed, Cancelled, Failed, AwaitingUser, AwaitingApproval}" for x
    by (cases x) (simp_all add: settled_as_def finish_status_def)
  ultimately show ?thesis unfolding settled_as_def waiting_def by (intro exI [of _ t']) simp
qed

text \<open>The reference for what a stream reports: its last frame that holds the text \<open>event: done\<close> or
  \<open>event: error\<close> decides alone, as a pair of the turn's and the run's status.\<close>

definition reports :: "string \<Rightarrow> bool" where
  "reports frame = (contains ''event: done'' frame \<or> contains ''event: error'' frame)"

definition outcome_of :: "string \<Rightarrow> string \<times> string" where
  "outcome_of frame =
     (if contains ''event: done'' frame
      then (case json_loads (data_line frame) of
              Some (JObj d) \<Rightarrow> (let st = get_str_or d ''status'' ''ready''
                               in (st, if st = ''completed'' then ''ready'' else st))
            | _ \<Rightarrow> (''completed'', ''ready''))
      else (''failed'', ''failed''))"

definition reported_outcome :: "string list \<Rightarrow> (string \<times> string) option" where
  "reported_outcome frames = (if filter reports frames = [] then None else Some (outcome_of (last (filter reports frames))))"

definition readable :: "string \<Rightarrow> bool" where
  "readable frame = (reports frame \<longrightarrow> (case json_loads (data_line frame) of None \<Rightarrow> True | Some v \<Rightarrow> is_dict v))"

lemma reported_Cons:
  "reported_outcome (f # fs) = (case reported_outcome fs of None \<Rightarrow> if reports f then Some (outcome_of f) else None | x \<Rightarrow> x)"
  by (auto simp: reported_outcome_def)

lemma note_readable:
  assumes "readable frame"
  shows "\<exists>p'. note_frame frame p = Inr p' \<and> w_seen p' = (w_seen p \<or> reports frame) \<and>
    w_status p' = (if reports frame then Some (fst (outcome_of frame)) else w_status p) \<and>
    w_run_status p' = (if reports frame then Some (snd (outcome_of frame)) else w_run_status p)"
proof (cases "reports frame")
  case True
  show ?thesis
  proof (cases "json_loads (data_line frame)")
    case None
    then show ?thesis using True
      by (auto simp: note_frame_def note_done_def note_error_def Let_def outcome_of_def reports_def)
  next
    case (Some v)
    then have "is_dict v" using assms True by (simp add: readable_def)
    then obtain d where "v = JObj d" by (cases v) auto
    then show ?thesis using Some True
      by (auto simp: note_frame_def note_done_def note_error_def Let_def outcome_of_def reports_def)
  qed
qed (simp add: note_frame_def reports_def)

lemma follow_reports:
  assumes "\<forall>f \<in> set frames. readable f"
  shows "\<exists>p'. follow (map (\<lambda>f. Frame f True) frames) p = (False, p') \<and> w_seen p' = (w_seen p \<or> reported_outcome frames \<noteq> None) \<and>
    w_status p' = (case reported_outcome frames of None \<Rightarrow> w_status p | Some oc \<Rightarrow> Some (fst oc)) \<and>
    w_run_status p' = (case reported_outcome frames of None \<Rightarrow> w_run_status p | Some oc \<Rightarrow> Some (snd oc))"
  using assms
proof (induction frames arbitrary: p)
  case Nil
  then show ?case by (simp add: reported_outcome_def)
next
  case (Cons f fs)
  let ?p1 = "read_ids f p"
  define p2 where "p2 = (if w_conversation ?p1 = None then ?p1 else ?p1\<lparr>w_fanout := True\<rparr>)"
  have keep: "w_seen p2 = w_seen p" "w_status p2 = w_status p" "w_run_status p2 = w_run_status p" by (simp_all add: p2_def)
  obtain p3 where p3: "note_frame f p2 = Inr p3" "w_seen p3 = (w_seen p \<or> reports f)"
    "w_status p3 = (if reports f then Some (fst (outcome_of f)) else w_status p)"
    "w_run_status p3 = (if reports f then Some (snd (outcome_of f)) else w_run_status p)"
    using note_readable [of f p2] Cons.prems unfolding keep by auto
  have "follow (map (\<lambda>f. Frame f True) (f # fs)) p = follow (map (\<lambda>f. Frame f True) fs) p3"
    using p3(1) by (simp add: Let_def p2_def)
  moreover obtain p' where "follow (map (\<lambda>f. Frame f True) fs) p3 = (False, p')"
    "w_seen p' = (w_seen p3 \<or> reported_outcome fs \<noteq> None)"
    "w_status p' = (case reported_outcome fs of None \<Rightarrow> w_status p3 | Some oc \<Rightarrow> Some (fst oc))"
    "w_run_status p' = (case reported_outcome fs of None \<Rightarrow> w_run_status p3 | Some oc \<Rightarrow> Some (snd oc))"
    using Cons by (metis list.set_intros(2))
  ultimately show ?case using p3 by (auto simp: reported_Cons split: option.split)
qed

text \<open>The worker reads a stream as its last report.  For readable frames (the data of a reporting frame is
  an object, or no JSON) the loop, which overwrites its variables frame by frame, ends with exactly the
  outcome of the last reporting frame, and notices a missing one.\<close>

theorem worker_reads_last_report:
  assumes "\<forall>f \<in> set frames. readable f"
  shows "\<exists>p. follow (map (\<lambda>f. Frame f True) frames) (progress_start j) = (False, p) \<and>
    w_seen p = (reported_outcome frames \<noteq> None) \<and>
    w_status p = map_option fst (reported_outcome frames) \<and> w_run_status p = map_option snd (reported_outcome frames)"
  using follow_reports [OF assms, of "progress_start j"] by (auto simp: progress_start_def split: option.splits)

section \<open>One worker at a time\<close>

interpretation worker_lock: owner_lock "\<lambda>now tok r. redis_set_nx now (lock_key j) tok lock_lease r"
  "\<lambda>now tok r. if redis_get now (lock_key j) r = Some tok then redis_del [lock_key j] r else r"
  "\<lambda>now r. redis_get now (lock_key j) r" lock_lease for j
  by unfold_locales (auto simp: redis_set_nx_def redis_get_set redis_get_del split: if_splits)

text \<open>A redelivered or duplicated task does nothing.  While a worker holds the lock of a request, at most
  a day, every other delivery of that request returns \<open>already-running\<close>; and a delivery of a turn that
  has its result returns it and gives the lock back.  Neither touches the store or wakes the dispatcher.\<close>

theorem redelivery_harmless:
  assumes up: "redis_up s" "redis_up s2" and taken: "redis_set_nx now (lock_key j) (j_token j) lock_lease r = (True, r1)"
    and same: "job_id j2 = job_id j" and t: "now2 < now + lock_lease"
  shows "run_task now2 later2 j2 serve2 r1 s2 = (\<lparr>tr_returned = Some ''already-running'', tr_dispatched = False\<rparr>, r1, s2) \<and>
    (\<forall>c turn. j_conversation j = Some c \<and> find_turn (job_scope j c) (job_id j) s = Some turn \<and>
       t_status turn \<notin> {Running, Cancelling} \<longrightarrow>
       (\<exists>r'. run_task now later j serve r s =
          (\<lparr>tr_returned = Some (''already-'' @ turn_status_str (t_status turn)), tr_dispatched = False\<rparr>, r', s) \<and>
          redis_get now (lock_key j) r' = None))"
proof -
  have k: "lock_key j2 = lock_key j" using same by (simp add: lock_key_def)
  have "redis_set_nx now2 (lock_key j) (j_token j2) lock_lease r1 = (False, r1)"
    by (rule worker_lock.exclusive [OF taken t])
  then have 1: "run_task now2 later2 j2 serve2 r1 s2 = (\<lparr>tr_returned = Some ''already-running'', tr_dispatched = False\<rparr>, r1, s2)"
    using up k by (simp add: run_task_def)
  have h: "redis_get now (lock_key j) r1 = Some (j_token j)"
    using worker_lock.granted [OF taken] by (simp add: lock_lease_def)
  have 2: "\<exists>r'. run_task now later j serve r s =
      (\<lparr>tr_returned = Some (''already-'' @ turn_status_str (t_status turn)), tr_dispatched = False\<rparr>, r', s) \<and>
      redis_get now (lock_key j) r' = None"
    if "j_conversation j = Some c \<and> find_turn (job_scope j c) (job_id j) s = Some turn \<and> t_status turn \<notin> {Running, Cancelling}"
    for c turn
  proof -
    have "already_settled j s = Some turn" using that by (auto simp: already_settled_def)
    then show ?thesis using up taken h
      by (intro exI [of _ "redis_del [lock_key j] r1"]) (simp add: run_task_def release_lock_def redis_get_del)
  qed
  show ?thesis using 1 2 by blast
qed

section \<open>From the queue to the worker and back\<close>

lemma not_active_list:
  assumes "turns_of sc turn_active s = []" shows "filter (stale_claim old sc) (turns s) = []"
proof -
  have "stale_claim old sc x \<Longrightarrow> t_scope x = sc \<and> turn_active x" for x
    by (auto simp: stale_claim_def turn_active_def active_queue_statuses_def)
  then show ?thesis using assms by (auto simp: turns_of_def filter_empty_conv)
qed

lemma idle_claim_next:
  assumes "\<not> run_blocks sc s" and "turns_of sc turn_active s = []"
    and "resume_after_failure sc s = Inr (b, s1)" and "claim_locked now sc s1 = (c, s2)"
  shows "claim_next now sc s = (Inr c, s2)"
proof -
  have "recover_claims now sc (now - stale_dispatch_after) s = (0, s)"
    using not_active_list [OF assms(2)] by (simp add: recover_claims_def)
  then show ?thesis using assms(3,4) by (simp add: claim_next_def idle_recovery [OF assms(1)])
qed

lemma released_turns:
  assumes l: "claim_locked now sc s0 = (Some c, s1)" and wf0: "queue_wf s0"
    and t: "first_row (pending_turns sc s0) = Some t" and rel: "s2 = snd (release_claim (ct_scope c) (ct_request c) s1)"
  shows "turns s2 = map (\<lambda>x. if x = t\<lparr>t_status := Running, t_started := Some now\<rparr>
                              then t\<lparr>t_status := Queued, t_started := None\<rparr> else x) (turns s1)"
    and "controls s2 = controls s1" and "runs s2 = runs s1" and "conversations s2 = conversations s1"
    and "turns_of sc turn_active s1 = [t\<lparr>t_status := Running, t_started := Some now\<rparr>]"
    and "turns_of sc turn_active s2 = []" and "\<not> run_blocks sc s1" and "c = claimed_of t" and "t_scope t = sc"
proof -
  let ?r = "t\<lparr>t_status := Running, t_started := Some now\<rparr>" and ?q = "t\<lparr>t_status := Queued, t_started := None\<rparr>"
  have "turns s2 = map (\<lambda>x. if x = ?r then ?q else x) (turns s1) \<and> controls s2 = controls s1 \<and> runs s2 = runs s1 \<and>
      conversations s2 = conversations s1 \<and> turns_of sc turn_active s1 = [?r] \<and> turns_of sc turn_active s2 = [] \<and>
      \<not> run_blocks sc s1 \<and> c = claimed_of t \<and> t_scope t = sc"
    using l
  proof (cases rule: claim_locked_cases)
    case (claimed t')
    have tt: "t' = t" using claimed(1) t by simp
    note claimed = claimed [unfolded tt]
    let ?t = "t\<lparr>t_status := Running, t_started := Some now\<rparr>" and ?q = "t\<lparr>t_status := Queued, t_started := None\<rparr>"
    note p = pending_first [OF claimed(1)]
    have c: "c = claimed_of t" using claimed(2) by simp
    have active: "turns_of sc turn_active s1 = [?t]"
      by (rule claim_active [OF queue_wf_bounds(3) [OF wf0] p(1,2) claimed(6,3)]) (simp_all add: active_Cons)
    have nb: "\<not> run_blocks sc s1" using claimed(7) run_blocks_same [OF claimed(9)] by simp
    have in1: "?t \<in> set (turns s1)" using active in_turns_of [of ?t sc turn_active s1] by simp
    have wf1: "queue_wf s1" using claim_locked_wf [OF l wf0] .
    have own: "x = ?t" if "x \<in> set (turns s1)" "t_id x = t_id t" for x
      using distinct_map_inj [OF queue_wf_bounds(3) [OF wf1] that(1) in1] that(2) by simp
    have "turns_of sc (\<lambda>x. t_request x = t_request t \<and> t_status x = Running) s1 =
        filter (\<lambda>x. t_request x = t_request t \<and> t_status x = Running) (turns_of sc turn_active s1)"
      by (auto simp: turns_of_def turn_active_def active_queue_statuses_def intro: filter_cong)
    then have "first_row (turns_of sc (\<lambda>x. t_request x = t_request t \<and> t_status x = Running) s1) = Some ?t"
      by (simp add: active)
    then have s2: "s2 = publish_queue_event sc (upd_turn (t_id t) (\<lambda>t. t\<lparr>t_status := Queued, t_started := None\<rparr>) s1)"
      using p(2) by (simp add: rel c claimed_of_def release_claim_def)
    have ts: "turns s2 = map (\<lambda>x. if x = ?t then ?q else x) (turns s1)"
    proof -
      have "(if t_id x = t_id t then x\<lparr>t_status := Queued, t_started := None\<rparr> else x) = (if x = ?t then ?q else x)"
        if "x \<in> set (turns s1)" for x
      proof (cases "t_id x = t_id t")
        case True
        from own [OF that this] show ?thesis by simp
      qed auto
      then show ?thesis by (simp add: s2 upd_turn_def upd_where_def)
    qed
    have "\<not> turn_active x" if "x \<in> set (turns s2)" "t_scope x = sc" for x
    proof -
      obtain y where y: "y \<in> set (turns s1)" "x = (if y = ?t then ?q else y)"  using \<open>x \<in> set (turns s2)\<close> by (auto simp: ts)
      show ?thesis
      proof (cases "y = ?t")
        case False
        then have "y \<notin> set (turns_of sc turn_active s1)" by (simp add: active)
        then show ?thesis using y that False by simp
      qed (use y in \<open>simp add: turn_active_def active_queue_statuses_def\<close>)
    qed
    then have "turns_of sc turn_active s2 = []" by (auto simp: turns_of_def filter_empty_conv)
    then show ?thesis using ts active nb c p(2) by (simp add: s2 upd_turn_def)
  qed simp
  then show "turns s2 = map (\<lambda>x. if x = ?r then ?q else x) (turns s1)" "controls s2 = controls s1" "runs s2 = runs s1"
    "conversations s2 = conversations s1" "turns_of sc turn_active s1 = [?r]" "turns_of sc turn_active s2 = []"
    "\<not> run_blocks sc s1" "c = claimed_of t" "t_scope t = sc"
    by blast+
qed

text \<open>C19. The dispatcher loses no turn.  What it hands over is the claimed turn, which is running and the only
  active one of its conversation; when the broker refuses the task, nothing of the conversation is active
  any more, and the next dispatch, at any time, hands over the same turn with the same request.\<close>

theorem dispatch_loses_nothing:
  assumes d: "dispatch now broker sc s = (res, s')" and wf: "queue_wf s" and ps: "pauses_settled sc s"
  shows "(\<forall>c. res = Dispatched c \<longrightarrow> broker \<and>
            (\<exists>t. turns_of sc turn_active s' = [t] \<and> t_status t = Running \<and> c = claimed_of t)) \<and>
    (res = BrokerFailed \<longrightarrow> \<not> broker \<and> turns_of sc turn_active s' = [] \<and>
       (\<exists>c s1. claim_next now sc s = (Inr (Some c), s1) \<and> (\<forall>now'. \<exists>s''. dispatch now' True sc s' = (Dispatched c, s''))))"
proof (cases "\<exists>c s1. claim_next now sc s = (Inr (Some c), s1)")
  case False
  then have "(\<forall>c. res \<noteq> Dispatched c) \<and> res \<noteq> BrokerFailed"
    using d by (auto simp: dispatch_def split: prod.splits sum.splits option.splits)
  then show ?thesis by simp
next
  case True
  then obtain c s1 where c: "claim_next now sc s = (Inr (Some c), s1)" by blast
  obtain s0 where l: "claim_locked now sc s0 = (Some c, s1)" and wf0: "queue_wf s0"
    by (rule claim_next_cases [OF c wf ps]) auto
  obtain t where t: "first_row (pending_turns sc s0) = Some t" by (rule claim_locked_cases [OF l]) auto
  let ?s2 = "snd (release_claim (ct_scope c) (ct_request c) s1)"
  note rel = released_turns [OF l wf0 t refl]
  show ?thesis
  proof (cases broker)
    case True
    then have "res = Dispatched c" "s' = s1" using d c by (simp_all add: dispatch_def)
    then show ?thesis using True rel(5,8) by (auto simp: claimed_of_def)
  next
    case False
    then have e: "res = BrokerFailed" "s' = ?s2" using d c by (simp_all add: dispatch_def)
    have nb: "\<not> run_blocks sc ?s2" using rel(7) run_blocks_same [OF rel(3)] by simp
    have "\<exists>s''. dispatch now' True sc ?s2 = (Dispatched c, s'')" for now'
    proof -
      obtain b s3 s4 where "resume_after_failure sc ?s2 = Inr (b, s3)" "claim_locked now' sc s3 = (Some c, s4)"
        by (rule requeued_is_claimed [OF l wf0 t rel(1-4)])
      from idle_claim_next [OF nb rel(6) this] show ?thesis by (simp add: dispatch_def)
    qed
    then show ?thesis using False e c rel(6) by blast
  qed
qed

text \<open>The queue moves on.  When a worker has settled its turn and woken the dispatcher, and no other turn or
  run of the conversation is active, the dispatch hands over the first pending turn, whatever the
  stream of the previous one did.\<close>

theorem worker_hands_over:
  assumes task: "run_task now later j serve r s = (res, r', s')" and c: "j_conversation j = Some c" and "sc = job_scope j c"
    and start: "redis_up s" "redis_get now (lock_key j) r = None" "find_turn sc (job_id j) s = Some t" "t_status t \<in> {Running, Cancelling}"
    and serve: "\<And>r s. find_turn sc (job_id j) s \<noteq> None \<Longrightarrow> find_turn sc (job_id j) (snd (snd (serve r s))) \<noteq> None"
    and woken: "tr_dispatched res" and wf: "queue_wf s'" and only: "\<forall>x \<in> set (turns_of sc turn_active s'). t_request x = job_id j"
    and nb: "\<not> run_blocks sc s'" and hc: "has_conversation sc s'" and n: "first_row (pending_turns sc s') = Some n"
  shows "\<exists>s''. dispatch later' True sc s' = (Dispatched (claimed_of n), s'')"
proof -
  note sc = assms(3)
  obtain t' where t': "find_turn sc (job_id j) s' = Some t'" "t_status t' = settled_as (tr_returned res)"
    "\<not> waiting (t_status t')" "\<not> qs_paused (state sc s')"
    using run_task_settles [OF task c start [unfolded sc] serve [unfolded sc]] woken unfolding settles_turn_def sc by blast
  have na: "\<not> turn_active t'"
    using t'(2,3) by (auto simp: turn_active_def active_queue_statuses_def waiting_def settled_as_def finish_status_def split: option.splits)
  have active: "turns_of sc turn_active s' = []"
  proof (rule ccontr)
    assume "turns_of sc turn_active s' \<noteq> []"
    then obtain x where x: "x \<in> set (turns_of sc turn_active s')" using last_in_set by blast
    then have "x \<in> set (turns s')" "t_scope x = sc" "turn_active x" "t_request x = job_id j" using only by auto
    moreover have "t' \<in> set (turns s')" "t_scope t' = sc" "t_request t' = job_id j" using find_turn_in [OF t'(1)] by auto
    ultimately have "x = t'"
      using distinct_map_inj [OF queue_wf_bounds(5) [OF wf], of x t'] by simp
    then show False using na \<open>turn_active x\<close> by simp
  qed
  obtain b s3 where r3: "resume_after_failure sc s' = Inr (b, s3)" and f3: "turns s3 = turns s'" "runs s3 = runs s'"
    "conversations s3 = conversations s'" "controls s3 = upd_where (failure_pause sc) clear_control (controls s')"
    by (rule resume_after_failure_ok [OF hc])
  have "has_conversation sc s3" using hc f3(3) by (simp add: has_conversation_def)
  moreover have "\<not> qs_paused (state sc s3)" using t'(4) state_clear [OF f3(4)] by simp
  moreover have "turns_of sc turn_active s3 = []" using active by (simp add: turns_of_def f3)
  moreover have "\<not> run_blocks sc s3" using nb run_blocks_same [OF f3(2)] by simp
  moreover have "first_row (pending_turns sc s3) = Some n" using n by (simp add: pending_turns_def turns_of_def f3)
  ultimately have "fst (claim_locked later' sc s3) = Some (claimed_of n)" by (simp add: claim_locked_def)
  then obtain s4 where "claim_locked later' sc s3 = (Some (claimed_of n), s4)" by (cases "claim_locked later' sc s3") auto
  from idle_claim_next [OF nb active r3 this] show ?thesis by (simp add: dispatch_def)
qed

lemma finish_for_request_events: "events (snd (finish_for_request now sc rid st err s)) = events s"
proof (cases "first_row (newest_runs (\<lambda>r. r_scope r = sc \<and> rid \<in> set (run_requests sc r s)) s)")
  case None
  then show ?thesis by (simp add: finish_for_request_def)
next
  case (Some r)
  then show ?thesis by (simp add: finish_for_request_def Let_def)
qed

lemma finalize_events: "events (snd (finalize now j p s)) = events s"
proof (cases "w_conversation p")
  case None
  then show ?thesis by (simp add: finalize_def)
next
  case (Some c)
  have "events (snd (finish now sc rid st err s1)) = events s1" for sc rid st err s1
    by (simp add: finish_def upd_turn_def split: option.split)
  moreover have "events (case w_run_status p of None \<Rightarrow> s
      | Some st \<Rightarrow> snd (finish_for_request now sc rid st (w_error p) s)) = events s" for sc rid
    by (simp add: finish_for_request_events split: option.split)
  ultimately show ?thesis by (simp add: finalize_def Some Let_def)
qed

text \<open>A new chat fails in silence.  When the task was started without a conversation and the stream raises,
  the task settles what it can but writes no frame at all: the handler publishes its failure to the
  conversation of the task's arguments, not to the one the stream created, so the event log ends as the
  stream left it, even when that is without a terminal frame.\<close>

theorem new_chat_failure_is_silent:
  assumes "run_task now later j serve r s = (res, r', s')" and "j_conversation j = None" and "redis_up s"
    and "redis_set_nx now (lock_key j) (j_token j) lock_lease r = (True, r1)" and "\<not> prefix ''schedule-'' (job_id j)"
    and "\<not> cancel_requested now j r1" and "serve r1 s = (st, r2, s2)" and "fst (execute st (progress_start j))"
  shows "tr_returned res = None \<and> events s' = events s2"
proof -
  obtain p where p: "execute st (progress_start j) = (True, p)" using assms(8) by (cases "execute st (progress_start j)") auto
  have u: "update_schedule_run now' j st' err s0 = Inr ((), s0)" for now' st' err s0
    using assms(5) by (simp add: update_schedule_run_def)
  have "wrap_up later j None p r2 s2 = (res, r', s')"
    using assms(1-4,6,7) p by (simp add: run_task_def already_settled_def run_turn_def u)
  then have "tr_returned res = None" "s' = snd (finalize later j (failed_progress p) (handle_exception later j p s2))"
    by (auto simp: wrap_up_def split: prod.splits)
  moreover have "handle_exception later j p s2 = s2"
    by (simp add: handle_exception_def u kept_def publish_failure_def assms(2))
  ultimately show ?thesis by (simp add: finalize_events)
qed

section \<open>The properties at concrete inputs\<close>

definition sample_job :: job where
  "sample_job = \<lparr>j_tenant = 1, j_user = 7, j_conversation = Some 9, j_request = ''r1'', j_token = ''w1''\<rparr>"

text \<open>A turn at work and one behind it, and a chat service that raises at once.\<close>

definition worker_db :: db where
  "worker_db = queue_db\<lparr>redis_up := True, turns := [(sample_turn 1 ''r1'' 0 1)\<lparr>t_status := Running, t_started := Some 5\<rparr>,
     sample_turn 2 ''r2'' 0 2]\<rparr>"

definition broken_service :: "redis \<Rightarrow> db \<Rightarrow> stream \<times> redis \<times> db" where
  "broken_service r s = (\<lparr>st_items = [StreamRaised], st_closed = True\<rparr>, r, s)"

lemma sample_id [simp]: "job_id sample_job = ''r1''" "job_scope sample_job 9 = (1, 7, 9)" "j_conversation sample_job = Some 9"
  by (simp_all add: job_id_def sample_job_def job_scope_def strip_def lstrip_def rstrip_def is_space_def)

lemma sample_found:
  "find_turn (1, 7, 9) ''r1'' worker_db = Some ((sample_turn 1 ''r1'' 0 1)\<lparr>t_status := Running, t_started := Some 5\<rparr>)"
  by (simp add: worker_db_def find_turn_def turns_of_def sample_turn_def)

lemma no_key [simp]: "redis_get now k (\<lambda>_. None) = None"
  by (simp add: redis_get_def)

lemma broken_run:
  obtains r' s' where "run_task 10 20 sample_job broken_service (\<lambda>_. None) worker_db =
      (\<lparr>tr_returned = None, tr_dispatched = True\<rparr>, r', s')"
    and "turns s' = [finish_turn 20 ''failed'' (Some ''DeepSpace run failed'')
       ((sample_turn 1 ''r1'' 0 1)\<lparr>t_status := Running, t_started := Some 5\<rparr>), sample_turn 2 ''r2'' 0 2]"
    and "runs s' = []" and "conversations s' = conversations worker_db" and "50 \<le> next_id s'"
proof -
  define r1 where "r1 = redis_setex 10 (lock_key sample_job) lock_lease (j_token sample_job) (\<lambda>_. None)"
  define p where "p = progress_start sample_job"
  define s1 where "s1 = handle_exception 20 sample_job p worker_db"
  define s2 where "s2 = snd (finish 20 (1, 7, 9) ''r1'' ''failed'' (Some ''DeepSpace run failed'') s1)"
  have u: "update_schedule_run now sample_job st err s = Inr ((), s)" for now st err s by (simp add: update_schedule_run_def)
  have "cancellation_key (j_tenant sample_job) (j_user sample_job) (job_id sample_job) \<noteq> lock_key sample_job"
    by (simp add: cancellation_key_def lock_key_def)
  then have nc: "\<not> cancel_requested 10 sample_job r1" by (simp add: cancel_requested_def r1_def)
  have q: "same_queue worker_db s1" using handle_exception_same s1_def by blast
  then have f1: "turns s1 = turns worker_db" "controls s1 = []" "runs s1 = []" "conversations s1 = conversations worker_db"
    "50 \<le> next_id s1"
    by (simp_all add: same_queue_def worker_db_def queue_db_def quota_db_def empty_db_def)
  have t1: "find_turn (1, 7, 9) ''r1'' s1 = Some ((sample_turn 1 ''r1'' 0 1)\<lparr>t_status := Running, t_started := Some 5\<rparr>)"
    using same_queue_find [OF q] sample_found by simp
  then have f2: "turns s2 = [finish_turn 20 ''failed'' (Some ''DeepSpace run failed'')
       ((sample_turn 1 ''r1'' 0 1)\<lparr>t_status := Running, t_started := Some 5\<rparr>), sample_turn 2 ''r2'' 0 2]"
    "controls s2 = []" "runs s2 = []" "conversations s2 = conversations worker_db"
    "50 \<le> next_id s2"
    by (simp_all add: s2_def finish_def upd_turn_def f1) (simp add: worker_db_def sample_turn_def)
  have "snd (finish_for_request 20 (1, 7, 9) ''r1'' ''failed'' (Some ''DeepSpace run failed'') s1) = s1"
    by (simp add: finish_for_request_def newest_runs_def f1(3) order_by_def)
  then have fin: "finalize 20 sample_job (failed_progress p) s1 = (True, s2)"
    by (simp add: finalize_def failed_progress_def p_def progress_start_def Let_def s2_def [symmetric] state_def
        find_control_def f2(2) del: One_nat_def)
  have "run_task 10 20 sample_job broken_service (\<lambda>_. None) worker_db = run_turn 10 20 sample_job broken_service r1 worker_db"
    using sample_found by (simp add: run_task_def redis_set_nx_def r1_def already_settled_def worker_db_def)
  also have "\<dots> = wrap_up 20 sample_job None p r1 worker_db"
    by (simp add: run_turn_def u nc broken_service_def execute_def p_def)
  also have "\<dots> = (\<lparr>tr_returned = None, tr_dispatched = True\<rparr>, release_lock 20 sample_job (redis_up s2) r1, s2)"
    by (simp add: wrap_up_def s1_def [symmetric] fin)
  finally show thesis using that f2 by blast
qed

theorem worker_settles_turn_witness:
  "\<exists>res r' s' t. run_task 10 20 sample_job broken_service (\<lambda>_. None) worker_db = (res, r', s') \<and>
     find_turn (1, 7, 9) ''r1'' s' = Some t \<and> t_status t \<in> {Completed, Cancelled, Failed, AwaitingUser, AwaitingApproval}"
proof -
  obtain res r' s' where r: "run_task 10 20 sample_job broken_service (\<lambda>_. None) worker_db = (res, r', s')" using prod_cases3 by blast
  have up: "redis_up worker_db" by (simp add: worker_db_def)
  have "\<And>r s. find_turn (job_scope sample_job 9) (job_id sample_job) s \<noteq> None \<Longrightarrow>
      find_turn (job_scope sample_job 9) (job_id sample_job) (snd (snd (broken_service r s))) \<noteq> None"
    by (simp add: broken_service_def)
  from worker_settles_turn [OF r sample_id(3) up no_key _ _ this] sample_found show ?thesis using r by auto
qed

theorem worker_reads_last_report_witness:
  "\<exists>p. follow [Frame token_frame True, Frame done_frame True] (progress_start sample_job) = (False, p) \<and> w_status p = Some ''ready''"
proof -
  have r: "\<forall>f \<in> set [token_frame, done_frame]. readable f" by code_simp
  have "map_option fst (reported_outcome [token_frame, done_frame]) = Some ''ready''" by code_simp
  then show ?thesis using worker_reads_last_report [OF r, of sample_job] by auto
qed

theorem redelivery_harmless_witness:
  "\<exists>r1. redis_set_nx 10 (lock_key sample_job) (j_token sample_job) lock_lease (\<lambda>_. None) = (True, r1) \<and>
     run_task 500 900 (sample_job\<lparr>j_token := ''w2''\<rparr>) broken_service r1 worker_db =
       (\<lparr>tr_returned = Some ''already-running'', tr_dispatched = False\<rparr>, r1, worker_db)"
proof -
  have up: "redis_up worker_db" by (simp add: worker_db_def)
  have same: "job_id (sample_job\<lparr>j_token := ''w2''\<rparr>) = job_id sample_job" by (simp add: job_id_def)
  obtain r1 where taken: "redis_set_nx 10 (lock_key sample_job) (j_token sample_job) lock_lease (\<lambda>_. None) = (True, r1)"
    by (simp add: redis_set_nx_def)
  have "500 < 10 + lock_lease" by (simp add: lock_lease_def)
  from redelivery_harmless [OF up up taken same this] taken show ?thesis by blast
qed

theorem dispatch_loses_nothing_witness:
  "\<exists>s'. dispatch 100 False (1, 7, 9) queue_db = (BrokerFailed, s') \<and> (\<exists>c s''. dispatch 300 True (1, 7, 9) s' = (Dispatched c, s''))"
proof -
  obtain c s1 where c: "claim_next 100 (1, 7, 9) queue_db = (Inr (Some c), s1)" by (rule claimed_witness)
  then obtain s' where d: "dispatch 100 False (1, 7, 9) queue_db = (BrokerFailed, s')" by (simp add: dispatch_def)
  from dispatch_loses_nothing [OF d queue_db_wf queue_db_pauses] d show ?thesis by blast
qed

theorem worker_hands_over_witness:
  "\<exists>res r' s' s''. run_task 10 20 sample_job broken_service (\<lambda>_. None) worker_db = (res, r', s') \<and>
     dispatch 21 True (1, 7, 9) s' = (Dispatched (claimed_of (sample_turn 2 ''r2'' 0 2)), s'')"
proof -
  obtain r' s' where r: "run_task 10 20 sample_job broken_service (\<lambda>_. None) worker_db = (\<lparr>tr_returned = None, tr_dispatched = True\<rparr>, r', s')"
    and s': "turns s' = [finish_turn 20 ''failed'' (Some ''DeepSpace run failed'')
       ((sample_turn 1 ''r1'' 0 1)\<lparr>t_status := Running, t_started := Some 5\<rparr>), sample_turn 2 ''r2'' 0 2]"
    "runs s' = []" "conversations s' = conversations worker_db" "50 \<le> next_id s'" by (rule broken_run)
  have up: "redis_up worker_db" by (simp add: worker_db_def)
  have keeps: "\<And>r s. find_turn (1, 7, 9) (job_id sample_job) s \<noteq> None \<Longrightarrow>
      find_turn (1, 7, 9) (job_id sample_job) (snd (snd (broken_service r s))) \<noteq> None"
    by (simp add: broken_service_def)
  let ?t = "(sample_turn 1 ''r1'' 0 1)\<lparr>t_status := Running, t_started := Some 5\<rparr>"
  have f: "find_turn (1, 7, 9) (job_id sample_job) worker_db = Some ?t" "t_status ?t \<in> {Running, Cancelling}"
    using sample_found by simp_all
  have wf: "queue_wf s'"
  proof -
    have "length (turns_of sc turn_active s') \<le> 1" "length (turns_of sc queueable s') \<le> max_turns_per_conversation" for sc
      by (simp_all add: turns_of_def s' turn_active_def sample_turn_def active_queue_statuses_def max_turns_per_conversation_def
          finish_turn_def finish_status_def)
    then show ?thesis using s'(4) unfolding queue_wf_def s'(1) by (simp add: sample_turn_def finish_turn_def)
  qed
  have none: "turns_of (1, 7, 9) turn_active s' = []"
    by (simp add: turns_of_def s' turn_active_def sample_turn_def active_queue_statuses_def finish_turn_def finish_status_def)
  have pend: "first_row (pending_turns (1, 7, 9) s') = Some (sample_turn 2 ''r2'' 0 2)"
    by (simp add: pending_turns_def turns_of_def s' sample_turn_def finish_turn_def finish_status_def order_by_def)
  have hc: "has_conversation (1, 7, 9) s'" by (simp add: has_conversation_def s' worker_db_def queue_db_def)
  have nb: "\<not> run_blocks (1, 7, 9) s'" by (simp add: run_blocks_def s')
  have only: "\<forall>x \<in> set (turns_of (1, 7, 9) turn_active s'). t_request x = job_id sample_job" unfolding none by simp
  have "tr_dispatched \<lparr>tr_returned = None, tr_dispatched = True\<rparr>" by simp
  from worker_hands_over [OF r sample_id(3) sample_id(2) [symmetric] up no_key f keeps this wf only nb hc pend, of 21] r show ?thesis
    by blast
qed

theorem new_chat_failure_is_silent_witness:
  "\<exists>res r' s'. run_task 10 20 (sample_job\<lparr>j_conversation := None\<rparr>) broken_service (\<lambda>_. None) worker_db = (res, r', s') \<and>
     events s' = []"
proof -
  let ?j = "sample_job\<lparr>j_conversation := None\<rparr>"
  obtain res r' s' where r: "run_task 10 20 ?j broken_service (\<lambda>_. None) worker_db = (res, r', s')" using prod_cases3 by blast
  obtain r1 where taken: "redis_set_nx 10 (lock_key ?j) (j_token ?j) lock_lease (\<lambda>_. None) = (True, r1)"
    "r1 = redis_setex 10 (lock_key ?j) lock_lease (j_token ?j) (\<lambda>_. None)"
    by (simp add: redis_set_nx_def)
  have id: "job_id ?j = ''r1''" using sample_id(1) by (simp add: job_id_def)
  have "cancellation_key (j_tenant ?j) (j_user ?j) (job_id ?j) \<noteq> lock_key ?j"
    by (simp add: cancellation_key_def lock_key_def)
  then have nc: "\<not> cancel_requested 10 ?j r1" by (simp add: cancel_requested_def taken(2))
  have "fst (execute \<lparr>st_items = [StreamRaised], st_closed = True\<rparr> (progress_start ?j))" by (simp add: execute_def)
  from new_chat_failure_is_silent [OF r _ _ taken(1) _ nc broken_service_def this] id r show ?thesis
    by (auto simp: worker_db_def queue_db_def quota_db_def empty_db_def)
qed

end
