(* ===== verification/Queue_Refinement.thy ===== *)
theory Queue_Refinement
  imports Turn_Queue
begin

text \<open>
  The turn queue against its abstract specification: the queued turns of a conversation are a line of
  requests with a priority, and each operation of \<open>DeepSpaceTurnQueueStore\<close> is one list operation on it.
\<close>

section \<open>The abstract queue\<close>

type_synonym waiting_line = "(int \<times> string) list"

text \<open>A request of priority \<open>p\<close> goes behind every waiting one of its priority or a higher one.\<close>

definition put :: "int \<Rightarrow> string \<Rightarrow> waiting_line \<Rightarrow> waiting_line" where
  "put p rid q = takeWhile (\<lambda>e. p \<le> fst e) q @ (p, rid) # dropWhile (\<lambda>e. p \<le> fst e) q"

definition drop_request :: "string \<Rightarrow> waiting_line \<Rightarrow> waiting_line" where
  "drop_request rid q = filter (\<lambda>e. snd e \<noteq> rid) q"

definition move_to_front :: "string \<Rightarrow> waiting_line \<Rightarrow> waiting_line" where
  "move_to_front rid q = (Max (fst ` set q) + 1, rid) # drop_request rid q"

text \<open>The abstraction function.\<close>

definition line :: "scope \<Rightarrow> db \<Rightarrow> waiting_line" where
  "line sc s = map (\<lambda>t. (t_priority t, t_request t)) (pending_turns sc s)"

section \<open>The order of the pending turns\<close>

lemma set_pending: "set (pending_turns sc s) = {t \<in> set (turns s). t_scope t = sc \<and> t_status t = Queued}"
  by (auto simp: pending_turns_def)

lemma pending_sorted: "sorted (map queue_order (pending_turns sc s))"
  by (simp add: pending_turns_def order_by_def)

lemma queue_order_inj:
  assumes "queue_wf s"
  shows "inj_on queue_order {t \<in> set (turns s). t_scope t = sc \<and> t_status t = Queued}"
  by (rule inj_onI) (use distinct_map_inj [OF queue_wf_bounds(6) [OF assms]] in \<open>fastforce simp: queue_order_def\<close>)

lemma pending_distinct:
  assumes "queue_wf s"
  shows "distinct (map queue_order (pending_turns sc s))"
proof -
  have "distinct (map t_id (turns s))" using queue_wf_bounds(3) [OF assms] .
  then have "distinct (turns s)" by (rule distinct_map [THEN iffD1, THEN conjunct1])
  then have "distinct (pending_turns sc s)" by (simp add: pending_turns_def order_by_def turns_of_def)
  then show ?thesis using queue_order_inj [OF assms] by (simp add: distinct_map set_pending)
qed

lemma pending_is:
  assumes "queue_wf s" and "set ys = {t \<in> set (turns s). t_scope t = sc \<and> t_status t = Queued}"
    and "sorted (map queue_order ys)" and "distinct (map queue_order ys)"
  shows "pending_turns sc s = ys"
  by (rule map_sorted_distinct_set_unique [of queue_order])
     (use assms queue_order_inj [OF assms(1), of sc] pending_distinct [OF assms(1)] in \<open>simp_all add: set_pending pending_sorted\<close>)

lemma sorted_tail_priority:
  assumes "sorted (map queue_order ys)" and "x \<in> set (dropWhile (\<lambda>t. p \<le> t_priority t) ys)"
  shows "t_priority x < p"
  using assms
proof (induction ys)
  case (Cons y ys)
  show ?case
  proof (cases "p \<le> t_priority y")
    case False
    then have "queue_order y \<le> queue_order x" using Cons.prems by auto
    then show ?thesis using False by (auto simp: queue_order_def less_eq_prod_simp)
  qed (use Cons in auto)
qed simp

lemma pending_append:
  assumes wf: "queue_wf s" "queue_wf s'" and t: "turns s' = turns s @ [t]" "t_scope t = sc" "t_status t = Queued"
    and last: "\<forall>x \<in> set (turns s). t_scope x = sc \<longrightarrow> t_sequence x < t_sequence t"
  shows "pending_turns sc s' = takeWhile (\<lambda>x. t_priority t \<le> t_priority x) (pending_turns sc s) @ t #
           dropWhile (\<lambda>x. t_priority t \<le> t_priority x) (pending_turns sc s)"
proof (rule pending_is [OF wf(2)])
  let ?P = "\<lambda>x. t_priority t \<le> t_priority x"
  let ?a = "takeWhile ?P (pending_turns sc s)" and ?b = "dropWhile ?P (pending_turns sc s)"
  have split: "?a @ ?b = pending_turns sc s" by simp
  have seq: "t_sequence x < t_sequence t" if "x \<in> set (pending_turns sc s)" for x
    using that last by (simp add: set_pending)
  have a: "queue_order x \<le> queue_order t" if "x \<in> set ?a" for x
    using set_takeWhileD [OF that] seq by (auto simp: queue_order_def less_eq_prod_simp less_imp_le)
  have b: "queue_order t \<le> queue_order x" if "x \<in> set ?b" for x
    using sorted_tail_priority [OF pending_sorted that] by (simp add: queue_order_def less_eq_prod_simp)
  have "set (?a @ t # ?b) = insert t (set (?a @ ?b))" by (simp only: set_append list.set Un_insert_right)
  then show set: "set (?a @ t # ?b) = {x \<in> set (turns s'). t_scope x = sc \<and> t_status x = Queued}"
    unfolding split set_pending using t by auto
  have "sorted (map queue_order ?a @ map queue_order ?b)"
    unfolding map_append [symmetric] split by (rule pending_sorted)
  then show "sorted (map queue_order (?a @ t # ?b))" using a b by (auto simp: sorted_append)
  have "t \<notin> set (pending_turns sc s)" using seq by fastforce
  moreover have "set ?a \<inter> set ?b = {}"
    using set_takeWhileD [of _ ?P] sorted_tail_priority [OF pending_sorted] by fastforce
  moreover have "distinct (pending_turns sc s)" using pending_distinct [OF wf(1)] by (rule distinct_map [THEN iffD1, THEN conjunct1])
  moreover have "set ?a \<union> set ?b = set (pending_turns sc s)" unfolding set_append [symmetric] split ..
  ultimately have "distinct (?a @ t # ?b)" by auto
  then show "distinct (map queue_order (?a @ t # ?b))"
    unfolding distinct_map set using queue_order_inj [OF wf(2)] by blast
qed

lemma line_append:
  assumes "queue_wf s" "queue_wf s'" "turns s' = turns s @ [t]" "t_scope t = sc" "t_status t = Queued"
    and "\<forall>x \<in> set (turns s). t_scope x = sc \<longrightarrow> t_sequence x < t_sequence t"
  shows "line sc s' = put (t_priority t) (t_request t) (line sc s)"
  unfolding line_def put_def pending_append [OF assms] takeWhile_map dropWhile_map by (simp add: comp_def)

text \<open>Turns that leave the status \<open>queued\<close>; the others keep their place.\<close>

lemma pending_leave:
  assumes "turns s' = upd_where P f (turns s)" and "\<And>t. t \<in> set (turns s) \<Longrightarrow> P t \<Longrightarrow> t_scope (f t) = sc \<Longrightarrow> t_status (f t) \<noteq> Queued"
  shows "pending_turns sc s' = filter (\<lambda>t. \<not> P t) (pending_turns sc s)"
proof -
  have "filter (\<lambda>t. t_scope t = sc \<and> t_status t = Queued) (upd_where P f ts)
      = filter (\<lambda>t. \<not> P t) (filter (\<lambda>t. t_scope t = sc \<and> t_status t = Queued) ts)"
    if "set ts \<subseteq> set (turns s)" for ts
    using that assms(2) by (induction ts) auto
  then show ?thesis by (simp add: pending_turns_def turns_of_def assms(1) order_by_def filter_sort)
qed

lemma pending_same: "turns s' = turns s \<Longrightarrow> pending_turns sc s' = pending_turns sc s"
  by (simp add: pending_turns_def turns_of_def)

text \<open>One turn leaves: the line without its request.\<close>

lemma pending_requests:
  assumes "queue_wf s" and "t \<in> set (turns s)" "t_scope t = sc" and "x \<in> set (pending_turns sc s)"
  shows "t_id x = t_id t \<longleftrightarrow> t_request x = t_request t"
  using assms distinct_map_inj [OF queue_wf_bounds(3) [OF assms(1)], of x t]
    distinct_map_inj [OF queue_wf_bounds(5) [OF assms(1)], of x t] by (auto simp: set_pending)

lemma line_leave:
  assumes "queue_wf s" and "t \<in> set (turns s)" "t_scope t = sc"
    and "turns s' = upd_where (\<lambda>x. t_id x = t_id t) f (turns s)" and "\<And>x. t_status x = t_status t \<Longrightarrow> t_status (f x) \<noteq> Queued"
  shows "line sc s' = drop_request (t_request t) (line sc s)"
proof -
  have own: "x = t" if "x \<in> set (turns s)" "t_id x = t_id t" for x
    using distinct_map_inj [OF queue_wf_bounds(3) [OF assms(1)]] that assms(2) by blast
  have "pending_turns sc s' = filter (\<lambda>x. t_id x \<noteq> t_id t) (pending_turns sc s)"
    using own assms(5) by (intro pending_leave [OF assms(4)]) blast
  also have "\<dots> = filter (\<lambda>x. t_request x \<noteq> t_request t) (pending_turns sc s)"
    using pending_requests [OF assms(1-3)] by (auto intro: filter_cong)
  finally show ?thesis by (simp add: line_def drop_request_def filter_map comp_def)
qed

section \<open>Operation by operation\<close>

lemma enqueue_line:
  assumes "queue_wf s" and "enqueue now sc rq s = Inr (t, s')" and "find_turn sc (rq_request rq) s = None"
  shows "line sc s' = put (if rq_steer rq then 1 else 0) (t_request t) (line sc s)"
  using assms(2)
proof (cases rule: enqueue_cases)
  case new
  let ?n = "new_turn sc rq (next_turn_sequence sc s)"
  have wf': "queue_wf s'" using enqueue_wf assms(1,2) by blast
  from new(3) show ?thesis
  proof (rule insert_turn_effect)
    fix k assume k: "t = ?n\<lparr>t_id := k\<rparr>" "turns s' = turns s @ [t]"
    have "t_scope t = sc" "t_status t = Queued" "t_priority t = (if rq_steer rq then 1 else 0)"
      "t_sequence t = next_turn_sequence sc s" by (simp_all add: k(1) new_turn_def)
    moreover have "\<forall>x \<in> set (turns s). t_scope x = sc \<longrightarrow> t_sequence x < next_turn_sequence sc s" using sequence_below by blast
    ultimately show ?thesis using line_append [OF assms(1) wf' k(2)] by auto
  qed
qed (use assms(3) in simp)

lemma retry_line:
  assumes "queue_wf s" and "retry_failed now sc failed_request client s = Inr (t, s')" and "turns s' \<noteq> turns s"
  shows "\<exists>p \<ge> 1. line sc s' = put p (t_request t) (line sc s)"
  using assms(2)
proof (cases rule: retry_cases)
  case (new failed rid s1)
  let ?n = "retry_turn failed failed_request rid (next_turn_sequence sc s)"
  have t1: "turns s1 = turns s" using new(8) by auto
  have wf': "queue_wf s'" using retry_wf assms(1,2) by blast
  from new(9) show ?thesis
  proof (rule insert_turn_effect)
    fix k assume k: "t = ?n\<lparr>t_id := k\<rparr>" "turns s' = turns s1 @ [t]"
    have "t_scope t = sc" "t_status t = Queued" "t_sequence t = next_turn_sequence sc s" "1 \<le> t_priority t"
      using new(2) by (simp_all add: k(1) retry_turn_def)
    moreover have "\<forall>x \<in> set (turns s). t_scope x = sc \<longrightarrow> t_sequence x < next_turn_sequence sc s" using sequence_below by blast
    ultimately show ?thesis using line_append [OF assms(1) wf' k(2) [unfolded t1]] by auto
  qed
qed (use assms(3) in simp)

lemma claim_line:
  assumes "queue_wf s" and "claim_locked now sc s = (Some c, s')"
  shows "\<exists>p. line sc s = (p, ct_request c) # line sc s'"
  using assms(2)
proof (cases rule: claim_locked_cases)
  case (claimed t)
  then obtain ts where ts: "pending_turns sc s = t # ts" by (cases "pending_turns sc s") simp_all
  note p = pending_first [OF claimed(1)]
  have "line sc s' = drop_request (t_request t) (line sc s)"
    by (rule line_leave [OF assms(1) p(1,2) claimed(3)]) simp
  moreover have "t_request t \<notin> t_request ` set ts"
  proof
    assume "t_request t \<in> t_request ` set ts"
    then obtain x where x: "x \<in> set ts" "t_request x = t_request t" by auto
    then have "t_id x = t_id t" using pending_requests [OF assms(1) p(1,2), of x] ts by simp
    then have "x = t" using distinct_map_inj [OF queue_wf_bounds(3) [OF assms(1)], of x t] x p ts set_pending [of sc s] by auto
    then show False using x(1) pending_distinct [OF assms(1), of sc] ts by (auto simp: distinct_map)
  qed
  then have "\<forall>x \<in> set ts. t_request x \<noteq> t_request t" by (metis image_eqI)
  then have "drop_request (t_request t) (map (\<lambda>t. (t_priority t, t_request t)) ts) = map (\<lambda>t. (t_priority t, t_request t)) ts"
    unfolding drop_request_def by (intro filter_True) auto
  ultimately have "line sc s' = map (\<lambda>t. (t_priority t, t_request t)) ts"
    by (simp add: line_def ts drop_request_def)
  then show ?thesis using claimed(2) ts by (auto simp: line_def claimed_of_def)
qed simp

lemma cancel_line:
  assumes "queue_wf s" and "request_cancel now sc rid s = (True, s')"
  shows "line sc s' = drop_request rid (line sc s)"
proof -
  obtain t where f: "first_row (turns_of sc (\<lambda>t. t_request t = rid \<and> queueable t) s) = Some t"
    and s': "turns s' = upd_where (\<lambda>x. t_id x = t_id t) (cancel_turn now) (turns s)"
    using assms(2) by (auto simp: request_cancel_def split: option.splits)
  note t = first_turn_of [OF f]
  show ?thesis
    using line_leave [OF assms(1) _ _ s', of sc] t by (auto simp: cancel_turn_def)
qed

lemma finish_line:
  assumes "queue_wf s" and "finish now sc rid status err s = (True, s')"
  shows "line sc s' = drop_request rid (line sc s)"
proof -
  obtain t where f: "find_turn sc rid s = Some t"
    and s': "turns s' = upd_where (\<lambda>x. t_id x = t_id t) (finish_turn now status err) (turns s)"
    using assms(2) by (auto simp: finish_def split: option.splits)
  note t = find_turn_in [OF f]
  show ?thesis
    using line_leave [OF assms(1) _ _ s', of sc] t by (auto simp: finish_turn_def finish_status_def)
qed

lemma all_leave:
  "pending_turns sc s' = filter (\<lambda>t. \<not> P t) (pending_turns sc s) \<Longrightarrow> \<forall>t \<in> set (pending_turns sc s). P t \<Longrightarrow> line sc s' = []"
  by (simp add: line_def)

lemma clear_line: "line sc (snd (clear_for_conversation now sc commit s)) = []"
proof -
  let ?s' = "snd (clear_for_conversation now sc commit s)"
  have "turns ?s' = upd_where (\<lambda>t. t_scope t = sc \<and> (queueable t \<or> t_status t = Failed)) (clear_turn now) (turns s)"
    by (simp add: clear_for_conversation_def Let_def)
  then have "pending_turns sc ?s' = filter (\<lambda>t. \<not> (t_scope t = sc \<and> (queueable t \<or> t_status t = Failed))) (pending_turns sc s)"
    by (rule pending_leave) (simp add: clear_turn_def)
  moreover have "\<forall>t \<in> set (pending_turns sc s). t_scope t = sc \<and> queueable t"
    by (simp add: set_pending queueable_def queueable_statuses_def)
  ultimately show ?thesis by (intro all_leave) auto
qed

lemma cancel_all_line: "line sc (snd (cancel_all_for_conversation now sc commit s)) = []"
proof -
  let ?s' = "snd (cancel_all_for_conversation now sc commit s)"
  have q: "\<forall>t \<in> set (pending_turns sc s). t_scope t = sc \<and> queueable t"
    by (simp add: set_pending queueable_def queueable_statuses_def)
  show ?thesis
  proof (cases "turns_of sc queueable s = []")
    case True
    have "x \<notin> set (pending_turns sc s)" for x
      using True in_turns_of [of x sc queueable s] by (auto simp: set_pending queueable_def queueable_statuses_def)
    then have "pending_turns sc s = []" by (cases "pending_turns sc s") auto
    then show ?thesis using True by (simp add: cancel_all_for_conversation_def line_def Let_def)
  next
    case False
    then have "turns ?s' = upd_where (\<lambda>t. t_scope t = sc \<and> queueable t) (cancel_turn now) (turns s)"
      by (simp add: cancel_all_for_conversation_def Let_def)
    then have "pending_turns sc ?s' = filter (\<lambda>t. \<not> (t_scope t = sc \<and> queueable t)) (pending_turns sc s)"
      by (rule pending_leave) (simp add: cancel_turn_def)
    then show ?thesis using q by (intro all_leave) auto
  qed
qed

lemma promote_line:
  assumes "queue_wf s" and "promote sc rid s = (Some t, s')"
  shows "line sc s' = move_to_front rid (line sc s)"
proof -
  obtain t0 where f: "first_row (turns_of sc (\<lambda>t. t_request t = rid \<and> t_status t = Queued) s) = Some t0"
    using assms(2) by (auto simp: promote_def split: option.splits)
  note i = first_turn_of [OF f]
  define m where "m = Max (set (map t_priority (turns_of sc (\<lambda>t. t_status t = Queued) s)))"
  have t: "t = t0\<lparr>t_priority := m + 1\<rparr>"
    and s': "turns s' = upd_where (\<lambda>x. t_id x = t_id t0) (\<lambda>t. t\<lparr>t_priority := m + 1\<rparr>) (turns s)"
    using assms(2) f by (auto simp: promote_def Let_def m_def)
  have wf': "queue_wf s'"
    using promote_op.keeps_wf [OF assms(1), of sc rid] assms(2) by simp
  have own: "x = t0" if "x \<in> set (turns s)" "t_id x = t_id t0" for x
    using distinct_map_inj [OF queue_wf_bounds(3) [OF assms(1)]] that i by blast
  let ?rest = "filter (\<lambda>x. t_id x \<noteq> t_id t0) (pending_turns sc s)"
  have le: "t_priority x \<le> m" if "x \<in> set (pending_turns sc s)" for x
    unfolding m_def using that by (intro Max_ge) (auto simp: set_pending)
  have set: "set (t # ?rest) = {x \<in> set (turns s'). t_scope x = sc \<and> t_status x = Queued}"
  proof (intro set_eqI iffI)
    fix x assume "x \<in> set (t # ?rest)"
    then show "x \<in> {x \<in> set (turns s'). t_scope x = sc \<and> t_status x = Queued}"
      using i t by (auto simp: s' set_pending in_upd_where intro: bexI [of _ t0] bexI [of _ x])
  next
    fix x assume "x \<in> {x \<in> set (turns s'). t_scope x = sc \<and> t_status x = Queued}"
    then show "x \<in> set (t # ?rest)" using own t by (auto simp: s' set_pending in_upd_where split: if_splits)
  qed
  have sorted: "sorted (map queue_order (t # ?rest))"
  proof -
    have "queue_order t \<le> queue_order x" if "x \<in> set (pending_turns sc s)" for x
      using le [OF that] t by (simp add: queue_order_def less_eq_prod_simp)
    then show ?thesis using pending_sorted [of sc s] by (simp add: sorted_filter)
  qed
  have nt: "t_id t = t_id t0" by (simp add: t)
  have "distinct (pending_turns sc s)" using pending_distinct [OF assms(1)] by (rule distinct_map [THEN iffD1, THEN conjunct1])
  then have "distinct (t # ?rest)" using nt by auto
  then have "distinct (map queue_order (t # ?rest))"
    unfolding distinct_map set using queue_order_inj [OF wf'] by blast
  then have p: "pending_turns sc s' = t # ?rest" by (rule pending_is [OF wf' set sorted])
  have "?rest = filter (\<lambda>x. t_request x \<noteq> rid) (pending_turns sc s)"
    using pending_requests [OF assms(1), of t0 sc] i by (auto intro: filter_cong)
  moreover have "m = Max (fst ` set (line sc s))"
    unfolding m_def line_def by (simp add: set_pending image_image) (simp add: turns_of_def image_def)
  ultimately show ?thesis
    using i t by (simp add: line_def p move_to_front_def drop_request_def filter_map comp_def)
qed

lemma line_same_keys:
  assumes "turns s' = upd_where P f (turns s)"
    and "\<And>t. P t \<Longrightarrow> t_scope (f t) = t_scope t \<and> t_status (f t) = t_status t \<and> t_priority (f t) = t_priority t \<and>
      t_sequence (f t) = t_sequence t \<and> t_request (f t) = t_request t"
  shows "line sc s' = line sc s"
proof -
  have g: "queue_order (if P t then f t else t) = queue_order t" for t using assms(2) by (simp add: queue_order_def)
  have "turns_of sc (\<lambda>t. t_status t = Queued) s' = map (\<lambda>t. if P t then f t else t) (turns_of sc (\<lambda>t. t_status t = Queued) s)"
    unfolding turns_of_def assms(1) upd_where_def filter_map comp_def
    by (intro arg_cong2 [where f = map] refl filter_cong) (use assms(2) in auto)
  then have "pending_turns sc s' = map (\<lambda>t. if P t then f t else t) (pending_turns sc s)"
    unfolding pending_turns_def by (simp only: order_by_map_same g)
  then show ?thesis using assms(2) by (auto simp: line_def)
qed

lemma line_same: "turns s' = turns s \<Longrightarrow> line sc s' = line sc s"
  unfolding line_def by (rule arg_cong [OF pending_same])

lemma edit_line:
  assumes "update_queued_prompt now sc rid expected prompt s = Inr (t, s')"
  shows "line sc s' = line sc s"
proof -
  consider "s' = s" | t0 o' where "edit_turn now sc prompt t0 s = Inr (o', s')"
    using update_prompt_after [of now sc rid expected prompt s] by (auto simp: assms)
  then show ?thesis
  proof cases
    case (2 t0 o')
    then show ?thesis
    proof (rule edit_turn_cases)
      fix u s1
      assume c: "turn_capacity now sc (turn_bytes (trunc 4000 prompt) t0) (turn_bytes (t_prompt t0) t0) s = Inr (u, s1)"
        and s': "s' = publish_queue_event sc (queue_activity now sc ''queue_turn_edited'' (turn_bytes (trunc 4000 prompt) t0)
           (upd_turn (t_id t0) (\<lambda>t. t\<lparr>t_prompt := trunc 4000 prompt\<rparr>) s1))"
      show ?thesis
        by (rule line_same_keys [where P = "\<lambda>x. t_id x = t_id t0" and f = "\<lambda>t. t\<lparr>t_prompt := trunc 4000 prompt\<rparr>"])
          (simp_all add: s' turn_guard.guard_frame [OF c])
    qed
  qed simp
qed

lemma pause_line:
  "pause now sc reason failed s = Inr (q, s') \<Longrightarrow> line sc s' = line sc s"
  "resume now sc s = Inr (q, s') \<Longrightarrow> line sc s' = line sc s"
  "resume_after_failure sc s = Inr (b, s') \<Longrightarrow> line sc s' = line sc s"
  by (auto simp: pause_def resume_def resume_after_failure_def Let_def dest: set_paused_frame intro!: line_same
      split: if_splits sum.splits)

lemma resume_paused_line:
  assumes "queue_wf s"
  shows "line sc (snd (resume_paused sc commit s)) = line sc s"
proof (cases "has_conversation sc s \<and> turns_of sc (\<lambda>t. t_status t \<in> set paused_queue_statuses) s \<noteq> []")
  case True
  then obtain t where t: "first_row (order_by t_sequence (turns_of sc (\<lambda>t. t_status t \<in> set paused_queue_statuses) s)) = Some t"
    using first_order_by_ex by blast
  have i: "t \<in> set (turns s)" "t_status t \<noteq> Queued" using first_order_by_in [OF t] by (auto simp: paused_queue_statuses_def)
  let ?s' = "snd (resume_paused sc commit s)"
  have "turns ?s' = upd_where (\<lambda>x. t_id x = t_id t) (\<lambda>t. t\<lparr>t_status := Running, t_error := None\<rparr>) (turns s)"
    using t True by (simp add: resume_paused_def Let_def)
  then have "pending_turns sc ?s' = filter (\<lambda>x. t_id x \<noteq> t_id t) (pending_turns sc s)"
    by (rule pending_leave) simp
  also have "\<dots> = pending_turns sc s"
    using i distinct_map_inj [OF queue_wf_bounds(3) [OF assms], of _ t]
    by (intro filter_True) (auto simp: set_pending)
  finally show ?thesis by (simp add: line_def)
next
  case False
  then have "snd (resume_paused sc commit s) = s" by (auto simp: resume_paused_def order_by_def)
  then show ?thesis by simp
qed

text \<open>A claim the broker did not take goes back to the place it had.\<close>

lemma release_line:
  assumes wf: "queue_wf s" and c: "claim_locked now sc s = (Some c, s1)" and r: "release_claim sc (ct_request c) s1 = (True, s')"
  shows "line sc s' = line sc s"
  using c
proof (cases rule: claim_locked_cases)
  case (claimed t)
  note p = pending_first [OF claimed(1)]
  have wf1: "queue_wf s1" using claim_locked_wf [OF c wf] .
  have ct: "ct_request c = t_request t" using claimed(2) by (simp add: claimed_of_def)
  obtain x where x: "first_row (turns_of sc (\<lambda>y. t_request y = t_request t \<and> t_status y = Running) s1) = Some x"
    and s': "turns s' = upd_where (\<lambda>y. t_id y = t_id x) (\<lambda>y. y\<lparr>t_status := Queued, t_started := None\<rparr>) (turns s1)"
    using r by (auto simp: release_claim_def ct split: option.splits)
  note xi = first_turn_of [OF x]
  let ?t = "t\<lparr>t_status := Running, t_started := Some now\<rparr>"
  have "?t \<in> set (turns s1)" using p(1) by (auto simp: claimed(3) in_upd_where)
  then have "x = ?t" using distinct_map_inj [OF queue_wf_bounds(5) [OF wf1], of x ?t] xi p(2) by simp
  then have k: "t_id x = t_id t" by simp
  have own: "y = t \<longleftrightarrow> t_id y = t_id t" if "y \<in> set (turns s)" for y
    using distinct_map_inj [OF queue_wf_bounds(3) [OF wf] that p(1)] by blast
  have "turns s' = upd_where (\<lambda>y. y = t) (\<lambda>y. y\<lparr>t_status := Queued, t_started := None\<rparr>) (turns s)"
    unfolding s' k claimed(3) upd_where_def map_map comp_def
    by (rule map_cong [OF refl]) (simp add: own)
  then show ?thesis by (rule line_same_keys) (use p(3) in simp)
qed simp

section \<open>The refinement\<close>

text \<open>C2. The queue implements its specification, a line of requests with priorities.  A new turn and a retry
  are put behind every waiting request of their priority or a higher one; a claim takes exactly the first of
  the line, and giving it back restores the line; promoting moves to the front; cancelling and finishing
  take out exactly their request; clearing and cancelling all empty the line; editing, pausing and resuming
  leave it as it is.\<close>

theorem queue_refines_line:
  assumes "queue_wf s"
  shows "(\<forall>t s'. find_turn sc (rq_request rq) s = None \<and> enqueue now sc rq s = Inr (t, s')
           \<longrightarrow> line sc s' = put (if rq_steer rq then 1 else 0) (t_request t) (line sc s))
    \<and> (\<forall>t s'. retry_failed now sc rid client s = Inr (t, s') \<and> turns s' \<noteq> turns s
           \<longrightarrow> (\<exists>p \<ge> 1. line sc s' = put p (t_request t) (line sc s)))
    \<and> (\<forall>c s'. claim_locked now sc s = (Some c, s') \<longrightarrow> (\<exists>p. line sc s = (p, ct_request c) # line sc s')
           \<and> (\<forall>s''. release_claim sc (ct_request c) s' = (True, s'') \<longrightarrow> line sc s'' = line sc s))
    \<and> (\<forall>t s'. promote sc rid s = (Some t, s') \<longrightarrow> line sc s' = move_to_front rid (line sc s))
    \<and> (\<forall>s'. request_cancel now sc rid s = (True, s') \<or> finish now sc rid status err s = (True, s')
           \<longrightarrow> line sc s' = drop_request rid (line sc s))
    \<and> line sc (snd (clear_for_conversation now sc commit s)) = [] \<and> line sc (snd (cancel_all_for_conversation now sc commit s)) = []
    \<and> (\<forall>t s'. update_queued_prompt now sc rid expected prompt s = Inr (t, s') \<longrightarrow> line sc s' = line sc s)
    \<and> (\<forall>q s'. pause now sc reason failed s = Inr (q, s') \<or> resume now sc s = Inr (q, s') \<longrightarrow> line sc s' = line sc s)
    \<and> line sc (snd (resume_paused sc commit s)) = line sc s"
proof (intro conjI allI impI, goal_cases)
  case (1 t s')
  then show ?case using enqueue_line [OF assms] by blast
next
  case (2 t s')
  then show ?case using retry_line [OF assms] by blast
next
  case (3 c s')
  then show ?case by (rule claim_line [OF assms])
next
  case (4 c s' s'')
  then show ?case by (rule release_line [OF assms])
next
  case (5 t s')
  then show ?case by (rule promote_line [OF assms])
next
  case (6 s')
  then show ?case using cancel_line [OF assms] finish_line [OF assms] by blast
next
  case (9 t s')
  then show ?case by (rule edit_line)
next
  case (10 q s')
  then show ?case using pause_line(1,2) by blast
qed (rule clear_line cancel_all_line resume_paused_line [OF assms])+

theorem queue_refines_line_witness:
  "line (1, 7, 9) queue_db = [(1, ''r2''), (0, ''r1'')]
   \<and> (\<exists>t s'. enqueue 100 (1, 7, 9) sample_request queue_db = Inr (t, s') \<and> line (1, 7, 9) s' = [(1, ''r2''), (1, t_request t), (0, ''r1'')])
   \<and> (\<exists>t s'. promote (1, 7, 9) ''r1'' queue_db = (Some t, s') \<and> line (1, 7, 9) s' = [(2, ''r1''), (1, ''r2'')])"
proof (intro conjI)
  show l: "line (1, 7, 9) queue_db = [(1, ''r2''), (0, ''r1'')]" by code_simp
  note ref = queue_refines_line [OF queue_db_wf, of "(1, 7, 9)" sample_request 100 "''r1''"]
  have n: "find_turn (1, 7, 9) (rq_request sample_request) queue_db = None" "rq_steer sample_request"
    by (code_simp, simp add: sample_request_def)
  obtain t s' where e: "enqueue 100 (1, 7, 9) sample_request queue_db = Inr (t, s')" using queue_db_enqueue by blast
  then have "line (1, 7, 9) s' = put 1 (t_request t) [(1, ''r2''), (0, ''r1'')]" using ref n l by simp
  then show "\<exists>t s'. enqueue 100 (1, 7, 9) sample_request queue_db = Inr (t, s') \<and> line (1, 7, 9) s' = [(1, ''r2''), (1, t_request t), (0, ''r1'')]"
    using e by (auto simp: put_def)
  have "turns_of (1, 7, 9) (\<lambda>t. t_request t = ''r1'' \<and> t_status t = Queued) queue_db = [sample_turn 1 ''r1'' 0 1]"
    by (simp add: turns_of_def queue_db_def sample_turn_def)
  then obtain t2 s2 where p: "promote (1, 7, 9) ''r1'' queue_db = (Some t2, s2)" by (simp add: promote_def Let_def)
  then have "line (1, 7, 9) s2 = move_to_front ''r1'' [(1, ''r2''), (0, ''r1'')]" using ref l by simp
  then show "\<exists>t s'. promote (1, 7, 9) ''r1'' queue_db = (Some t, s') \<and> line (1, 7, 9) s' = [(2, ''r1''), (1, ''r2'')]"
    using p by (auto simp: move_to_front_def drop_request_def)
qed

end
