(* ===== verification/Rate_Limits.thy ===== *)
theory Rate_Limits
  imports Redis Tables "HOL-Library.Log_Nat"
begin

text \<open>
  The guards in front of the services: the fixed-window rate limiter with its Redis counter and its
  in-memory fallback (\<open>system/services/rate_limit_service.py\<close>), the idempotency keys
  (\<open>system/services/idempotency_service.py\<close>) and the provider circuit breaker
  (\<open>deepspace/services/provider_circuit.py\<close>).  Times are whole seconds.
\<close>

section \<open>Counters\<close>

text \<open>\<open>_InMemoryRateStore.increment\<close> and the pipeline \<open>INCR\<close>, \<open>EXPIRE NX\<close>, \<open>TTL\<close>: the count and the
  seconds left of the window.\<close>

type_synonym mem_store = "string \<Rightarrow> (int \<times> int) option"

definition memory_increment :: "int \<Rightarrow> string \<Rightarrow> int \<Rightarrow> mem_store \<Rightarrow> (int \<times> int) \<times> mem_store" where
  "memory_increment now key window m =
     (case m key of
        Some (count, expires) \<Rightarrow>
          (if expires \<le> now then ((1, window), m(key := Some (1, now + window)))
           else ((count + 1, max (expires - now) 0), m(key := Some (count + 1, expires))))
      | None \<Rightarrow> ((1, window), m(key := Some (1, now + window))))"

definition redis_increment :: "int \<Rightarrow> string \<Rightarrow> int \<Rightarrow> redis \<Rightarrow> (int \<times> int) \<times> redis" where
  "redis_increment now key window r =
     (case redis_incr now key r of
        (count, r1) \<Rightarrow> (let r2 = redis_expire_nx now key window r1 in ((count, max (redis_ttl now key r2) 0), r2)))"

record counters =
  redis_counters :: redis
  memory_counters :: mem_store

definition increment_counter :: "bool \<Rightarrow> int \<Rightarrow> string \<Rightarrow> int \<Rightarrow> counters \<Rightarrow> (int \<times> int) \<times> counters" where
  "increment_counter up now key window st =
     (if up then (case redis_increment now key window (redis_counters st) of (x, r) \<Rightarrow> (x, st\<lparr>redis_counters := r\<rparr>))
      else (case memory_increment now key window (memory_counters st) of (x, m) \<Rightarrow> (x, st\<lparr>memory_counters := m\<rparr>)))"

section \<open>Enforcing a limit\<close>

definition safe_key :: "string option \<Rightarrow> string" where
  "safe_key v = (case v of None \<Rightarrow> ''unknown'' | Some s \<Rightarrow> if strip s = [] then ''unknown'' else strip s)"

record limit_decision =
  dc_limit :: int
  dc_remaining :: int
  dc_reset :: int
  dc_scope :: string

text \<open>\<open>RateLimited scope limit window retry_after\<close> is the 429 error, \<open>Overloaded\<close> the 503 of background
  requests.\<close>

datatype limit_error = RateLimited string int int int | Overloaded

definition enforce ::
  "bool \<Rightarrow> int \<Rightarrow> string \<Rightarrow> int \<Rightarrow> int \<Rightarrow> string \<Rightarrow> counters \<Rightarrow> (limit_error + limit_decision) \<times> counters" where
  "enforce up now key limit window scope st =
     (let safe_limit = max limit 1; safe_window = max window 1; safe_scope = safe_key (Some scope)
      in case increment_counter up now (safe_key (Some key)) safe_window st of
           ((count, ttl), st') \<Rightarrow>
             (if safe_limit < count then Inl (RateLimited safe_scope safe_limit safe_window (max ttl 1))
              else Inr \<lparr>dc_limit = safe_limit, dc_remaining = max (safe_limit - count) 0, dc_reset = now + max ttl 0,
                        dc_scope = safe_scope\<rparr>, st'))"

definition enforce_counter ::
  "bool \<Rightarrow> int \<Rightarrow> string \<Rightarrow> int \<Rightarrow> int \<Rightarrow> string \<Rightarrow> counters \<Rightarrow> (limit_error + unit) \<times> counters" where
  "enforce_counter up now key limit window scope st =
     (let safe_limit = max limit 1; safe_window = max window 1
      in case increment_counter up now (safe_key (Some key)) safe_window st of
           ((count, ttl), st') \<Rightarrow>
             (if safe_limit < count then Inl (RateLimited (safe_key (Some scope)) safe_limit safe_window (max ttl 1))
              else Inr (), st'))"

text \<open>Python's \<open>int(n * f)\<close> for a float \<open>f = m / 2 ^ s\<close>: the product is rounded to 53 bits, half to even,
  and then truncated (\<open>n\<close> is not negative).\<close>

definition round53 :: "nat \<Rightarrow> nat" where
  "round53 p =
     (if p < 2 ^ 53 then p
      else (let e = floorlog 2 p - 53; q = p div 2 ^ e; r = p mod 2 ^ e; half = 2 ^ (e - 1)
            in (if half < r \<or> (r = half \<and> odd q) then q + 1 else q) * 2 ^ e))"

definition scaled :: "int \<Rightarrow> nat \<Rightarrow> nat \<Rightarrow> int" where
  "scaled n m s = int (round53 (nat n * m) div 2 ^ s)"

datatype health = Normal | Congested | Critical

datatype priority = PCritical | PBackground | PInteractive

definition has_part :: "string \<Rightarrow> string \<Rightarrow> bool" where
  "has_part part s = (split_once part s \<noteq> None)"

definition resolve_request_priority :: "string \<Rightarrow> priority" where
  "resolve_request_priority p0 =
     (let path = lower p0 in
      if has_part ''/auth/'' path \<or> has_part ''/login'' path \<or> has_part ''/verify'' path then PCritical
      else if has_part ''/chats'' path \<and> \<not> has_part ''/chats/'' path then PBackground
      else if has_part ''/documents'' path \<and> (\<not> has_part ''/documents/'' path \<or> has_part ''/documents/events'' path) then PBackground
      else if has_part ''/overview'' path \<or> has_part ''/notifications'' path then PInteractive
      else if has_part ''/metrics/summary'' path then PInteractive
      else if has_part ''/metrics'' path then PBackground
      else PInteractive)"

text \<open>The adaptive limit; \<open>0.3\<close>, \<open>0.7\<close>, \<open>0.2\<close> and \<open>0.6\<close> as the doubles Python uses.\<close>

definition adaptive_limit :: "health \<Rightarrow> priority \<Rightarrow> int \<Rightarrow> int option" where
  "adaptive_limit h p base =
     (case h of
        Critical \<Rightarrow> (case p of
            PBackground \<Rightarrow> None
          | PInteractive \<Rightarrow> Some (scaled base 5404319552844595 54)
          | PCritical \<Rightarrow> Some (scaled base 3152519739159347 52))
      | Congested \<Rightarrow> (case p of
            PBackground \<Rightarrow> Some (scaled base 3602879701896397 54)
          | PInteractive \<Rightarrow> Some (scaled base 5404319552844595 53)
          | PCritical \<Rightarrow> Some base)
      | Normal \<Rightarrow> Some base)"

definition client_ip :: "string option \<Rightarrow> string" where
  "client_ip host = (case host of None \<Rightarrow> ''unknown''
     | Some h \<Rightarrow> if h = [] \<or> strip h = [] then ''unknown'' else strip h)"

definition enforce_global_ip_limit ::
  "bool \<Rightarrow> int \<Rightarrow> health \<Rightarrow> int \<Rightarrow> string option \<Rightarrow> string \<Rightarrow> counters \<Rightarrow> (limit_error + limit_decision) \<times> counters" where
  "enforce_global_ip_limit up now h base host path st =
     (case adaptive_limit h (resolve_request_priority path) base of
        None \<Rightarrow> (Inl Overloaded, st)
      | Some limit \<Rightarrow> enforce up now (''rate_limit:global_ip:'' @ client_ip host) limit 300 ''global_ip'' st)"

record limit_settings =
  ls_queries :: int
  ls_uploads :: int
  ls_support :: int
  ls_feedback :: int
  ls_refresh :: int
  ls_logout :: int
  ls_login :: int

definition enforce_query_user_limit ::
  "bool \<Rightarrow> int \<Rightarrow> limit_settings \<Rightarrow> string \<Rightarrow> counters \<Rightarrow> (limit_error + limit_decision) \<times> counters" where
  "enforce_query_user_limit up now ls user st =
     enforce up now (''rate_limit:queries_user:'' @ safe_key (Some user)) (ls_queries ls) 60 ''queries_user'' st"

definition enforce_deepspace_user_limit ::
  "bool \<Rightarrow> int \<Rightarrow> limit_settings \<Rightarrow> string \<Rightarrow> counters \<Rightarrow> (limit_error + limit_decision) \<times> counters" where
  "enforce_deepspace_user_limit up now ls user st =
     enforce up now (''rate_limit:deepspace_user:'' @ safe_key (Some user)) (ls_queries ls) 60 ''deepspace_user'' st"

definition enforce_upload_user_limit ::
  "bool \<Rightarrow> int \<Rightarrow> limit_settings \<Rightarrow> string \<Rightarrow> counters \<Rightarrow> (limit_error + limit_decision) \<times> counters" where
  "enforce_upload_user_limit up now ls user st =
     enforce up now (''rate_limit:upload_user:'' @ safe_key (Some user)) (ls_uploads ls) 300 ''upload_user'' st"

definition enforce_support_submission_limit ::
  "bool \<Rightarrow> int \<Rightarrow> limit_settings \<Rightarrow> string \<Rightarrow> string \<Rightarrow> counters \<Rightarrow> (limit_error + unit) \<times> counters" where
  "enforce_support_submission_limit up now ls tenant user st =
     enforce_counter up now (''rate_limit:support_submit:'' @ safe_key (Some tenant) @ '':'' @ safe_key (Some user))
       (ls_support ls) 3600 ''support_submission'' st"

definition enforce_feedback_submission_limit ::
  "bool \<Rightarrow> int \<Rightarrow> limit_settings \<Rightarrow> string \<Rightarrow> string \<Rightarrow> counters \<Rightarrow> (limit_error + unit) \<times> counters" where
  "enforce_feedback_submission_limit up now ls tenant user st =
     enforce_counter up now (''rate_limit:feedback_submit:'' @ safe_key (Some tenant) @ '':'' @ safe_key (Some user))
       (ls_feedback ls) 3600 ''feedback_submission'' st"

definition enforce_auth_refresh_limit ::
  "bool \<Rightarrow> int \<Rightarrow> limit_settings \<Rightarrow> string option \<Rightarrow> counters \<Rightarrow> (limit_error + limit_decision) \<times> counters" where
  "enforce_auth_refresh_limit up now ls host st =
     enforce up now (''rate_limit:auth_refresh_ip:'' @ client_ip host) (ls_refresh ls) 300 ''auth_refresh'' st"

definition enforce_auth_logout_limit ::
  "bool \<Rightarrow> int \<Rightarrow> limit_settings \<Rightarrow> string \<Rightarrow> counters \<Rightarrow> (limit_error + limit_decision) \<times> counters" where
  "enforce_auth_logout_limit up now ls user st =
     enforce up now (''rate_limit:auth_logout_user:'' @ safe_key (Some user)) (ls_logout ls) 300 ''auth_logout'' st"

text \<open>\<open>EMAIL_KEY_SAFE_PATTERN.sub("_", email.strip().lower())\<close>: a run of other characters becomes one underscore.\<close>

definition email_key_char :: "char \<Rightarrow> bool" where
  "email_key_char c = ((97 \<le> code c \<and> code c \<le> 122) \<or> is_digit c \<or> c \<in> set ''_.@-'')"

fun email_key_from :: "bool \<Rightarrow> string \<Rightarrow> string" where
  "email_key_from in_run [] = []"
| "email_key_from in_run (c # cs) =
     (if email_key_char c then c # email_key_from False cs
      else if in_run then email_key_from True cs else CHR ''_'' # email_key_from True cs)"

definition enforce_auth_login_limit ::
  "bool \<Rightarrow> int \<Rightarrow> limit_settings \<Rightarrow> string option \<Rightarrow> string \<Rightarrow> counters \<Rightarrow> (limit_error + limit_decision) \<times> counters" where
  "enforce_auth_login_limit up now ls tenant email st =
     (let e = email_key_from False (lower (strip email)); key = (if e = [] then ''unknown'' else e)
      in enforce up now (''rate_limit:auth_login:'' @ safe_key tenant @ '':'' @ key) (ls_login ls) 300 ''auth_login'' st)"

section \<open>Idempotency keys\<close>

record idempotency_key =
  ik_id :: nat
  ik_tenant :: nat
  ik_key :: string
  ik_fingerprint :: string
  ik_resource_type :: string
  ik_resource :: nat
  ik_status :: int
  ik_body :: jdict

record idempotency_replay =
  rp_status :: int
  rp_body :: jdict

text \<open>\<open>sha\<close> is \<open>hashlib.sha256(...).hexdigest()\<close>; \<open>json.dumps\<close> sorts the keys.\<close>

definition fingerprint_text :: "string \<Rightarrow> string \<Rightarrow> string \<Rightarrow> int \<Rightarrow> string" where
  "fingerprint_text payload_sha filename content_type bytes =
     json_dumps True (JObj [(''content_type'', JStr content_type), (''filename'', JStr filename),
       (''payload_sha256'', JStr payload_sha), (''size_bytes'', JInt (max 0 bytes))])"

definition compute_fingerprint :: "(string \<Rightarrow> string) \<Rightarrow> string \<Rightarrow> string \<Rightarrow> string \<Rightarrow> int \<Rightarrow> string" where
  "compute_fingerprint sha payload_sha filename content_type bytes =
     sha (fingerprint_text payload_sha filename content_type bytes)"

definition idempotency_row :: "nat \<Rightarrow> string \<Rightarrow> idempotency_key list \<Rightarrow> idempotency_key list" where
  "idempotency_row tn key rows = filter (\<lambda>k. ik_tenant k = tn \<and> ik_key k = key) rows"

definition check_replay_or_conflict ::
  "nat \<Rightarrow> string \<Rightarrow> string \<Rightarrow> idempotency_key list \<Rightarrow> app_error + idempotency_replay option" where
  "check_replay_or_conflict tn key fingerprint rows =
     (case one_or_none (idempotency_row tn key rows) of
        Inl e \<Rightarrow> Inl e
      | Inr None \<Rightarrow> Inr None
      | Inr (Some k) \<Rightarrow>
          (if ik_fingerprint k \<noteq> fingerprint then Inl (ApiError ''IDEMPOTENCY_CONFLICT'' 409)
           else Inr (Some \<lparr>rp_status = ik_status k, rp_body = ik_body k\<rparr>)))"

text \<open>The flush checks \<open>uq_idempotency_tenant_key\<close>.\<close>

definition persist_result ::
  "nat \<Rightarrow> string \<Rightarrow> string \<Rightarrow> string \<Rightarrow> nat \<Rightarrow> int \<Rightarrow> jdict \<Rightarrow> nat \<Rightarrow> idempotency_key list \<Rightarrow>
     app_error + idempotency_key list" where
  "persist_result tn key fingerprint kind resource status body fresh rows =
     (if idempotency_row tn key rows \<noteq> [] then Inl IntegrityError
      else Inr (rows @ [\<lparr>ik_id = fresh, ik_tenant = tn, ik_key = key, ik_fingerprint = fingerprint,
                          ik_resource_type = kind, ik_resource = resource, ik_status = status, ik_body = body\<rparr>]))"

section \<open>The provider circuit\<close>

text \<open>\<open>key\<close> is what \<open>_key\<close> builds from the tenant, the provider and the case-folded model name.\<close>

definition failures_key :: "string \<Rightarrow> string" where "failures_key key = key @ '':failures''"

definition open_key :: "string \<Rightarrow> string" where "open_key key = key @ '':open''"

definition circuit_is_open :: "bool \<Rightarrow> int \<Rightarrow> string \<Rightarrow> redis \<Rightarrow> bool" where
  "circuit_is_open up now key r =
     (up \<and> (case redis_get now (open_key key) r of None \<Rightarrow> False | Some v \<Rightarrow> v \<noteq> []))"

definition record_failure :: "bool \<Rightarrow> int \<Rightarrow> string \<Rightarrow> int \<Rightarrow> int \<Rightarrow> redis \<Rightarrow> bool \<times> redis" where
  "record_failure up now key threshold cooldown r =
     (if \<not> up then (False, r)
      else (case redis_incr now (failures_key key) r of
         (failures, r1) \<Rightarrow>
           (let r2 = redis_expire now (failures_key key) (max 1 cooldown) r1
            in if max 1 threshold \<le> failures
               then (True, redis_setex now (open_key key) (max 1 cooldown) ''1'' r2)
               else (False, r2))))"

definition record_success :: "bool \<Rightarrow> string \<Rightarrow> redis \<Rightarrow> redis" where
  "record_success up key r = (if up then redis_del [failures_key key, open_key key] r else r)"

section \<open>A counter per key and window\<close>

text \<open>
  What the limiter relies on: an increment of a key without a live window opens one with count 1, an
  increment within the window counts on and keeps its end, and other keys are left alone.  \<open>window\<close>
  reads the count and the end of the window that is live at a time.
\<close>

fun run_calls :: "(int \<Rightarrow> string \<Rightarrow> int \<Rightarrow> 's \<Rightarrow> 'x \<times> 's) \<Rightarrow> (int \<times> string \<times> int) list \<Rightarrow> 's \<Rightarrow> 'x list" where
  "run_calls f [] s = []"
| "run_calls f ((t, k, w) # cs) s = (case f t k w s of (x, s') \<Rightarrow> x # run_calls f cs s')"

locale rate_store =
  fixes incr :: "int \<Rightarrow> string \<Rightarrow> int \<Rightarrow> 's \<Rightarrow> (int \<times> int) \<times> 's"
    and window :: "int \<Rightarrow> 's \<Rightarrow> string \<Rightarrow> (int \<times> int) option"
    and ok :: "'s \<Rightarrow> bool"
  assumes opens: "ok s \<Longrightarrow> window now s k = None \<Longrightarrow> 0 < w \<Longrightarrow>
      \<exists>s'. incr now k w s = ((1, w), s') \<and> ok s' \<and> (\<forall>t. t < now + w \<longrightarrow> window t s' k = Some (1, now + w))"
    and counts: "ok s \<Longrightarrow> window now s k = Some (n, e) \<Longrightarrow> 0 < w \<Longrightarrow>
      \<exists>s'. incr now k w s = ((n + 1, e - now), s') \<and> ok s' \<and> (\<forall>t. t < e \<longrightarrow> window t s' k = Some (n + 1, e))"
    and others: "ok s \<Longrightarrow> incr now k w s = (x, s') \<Longrightarrow> k' \<noteq> k \<Longrightarrow> window t s' k' = window t s k'"
    and ends: "ok s \<Longrightarrow> window now s k = Some (n, e) \<Longrightarrow> now < e \<and> (\<forall>t \<ge> now. window t s k = (if t < e then Some (n, e) else None))"
    and stays: "ok s \<Longrightarrow> window now s k = None \<Longrightarrow> now \<le> t \<Longrightarrow> window t s k = None"
begin

lemma window_later:
  assumes "ok s" and "now \<le> t"
  shows "window t s k = (case window now s k of None \<Rightarrow> None | Some (n, e) \<Rightarrow> if t < e then Some (n, e) else None)"
proof (cases "window now s k")
  case None
  then show ?thesis using stays [OF assms(1) None assms(2)] by simp
next
  case (Some p)
  then obtain n e where "window now s k = Some (n, e)" by (cases p) auto
  then show ?thesis using ends [OF assms(1)] assms(2) by auto
qed

text \<open>The result of an increment and the windows after it are a function of the windows before it.\<close>

lemma incr_by_window:
  assumes "ok s" and "0 < w"
  shows "\<exists>s'. incr now k w s =
      ((case window now s k of None \<Rightarrow> (1, w) | Some (n, e) \<Rightarrow> (n + 1, e - now)), s') \<and> ok s' \<and>
    (\<forall>t k'. now \<le> t \<longrightarrow> window t s' k' =
       (if k' = k then (case window now s k of None \<Rightarrow> if t < now + w then Some (1, now + w) else None
                        | Some (n, e) \<Rightarrow> if t < e then Some (n + 1, e) else None)
        else window t s k'))"
proof (cases "window now s k")
  case None
  obtain s' where s': "incr now k w s = ((1, w), s')" "ok s'" "\<forall>t. t < now + w \<longrightarrow> window t s' k = Some (1, now + w)"
    using opens [OF assms(1) None assms(2)] by blast
  have now: "window now s' k = Some (1, now + w)" using s'(3) assms(2) by simp
  have "window t s' k = (if t < now + w then Some (1, now + w) else None)" if "now \<le> t" for t
    using ends [OF s'(2) now] that by simp
  then show ?thesis using None s'(1,2) others [OF assms(1) s'(1)] by (intro exI [of _ s']) simp
next
  case (Some p)
  then obtain n e where p: "window now s k = Some (n, e)" by (cases p) auto
  obtain s' where s': "incr now k w s = ((n + 1, e - now), s')" "ok s'" "\<forall>t. t < e \<longrightarrow> window t s' k = Some (n + 1, e)"
    using counts [OF assms(1) p assms(2)] by blast
  have now: "window now s' k = Some (n + 1, e)" using s'(3) ends [OF assms(1) p] by simp
  have "window t s' k = (if t < e then Some (n + 1, e) else None)" if "now \<le> t" for t
    using ends [OF s'(2) now] that by simp
  then show ?thesis using p s'(1,2) others [OF assms(1) s'(1)] by (intro exI [of _ s']) simp
qed

lemma burst_within:
  assumes "ok s" and "0 < w" and "\<forall>t < e. window t s k = Some (n, e)" and "\<forall>x \<in> set ts. x < e"
  shows "run_calls incr (map (\<lambda>x. (x, k, w)) ts) s = map (\<lambda>(i, x). (n + 1 + int i - int m, e - x)) (enumerate m ts)"
  using assms
proof (induction ts arbitrary: s n m)
  case (Cons x ts)
  have "window x s k = Some (n, e)" using Cons.prems by simp
  from counts [OF Cons.prems(1) this Cons.prems(2)] obtain s' where
    s': "incr x k w s = ((n + 1, e - x), s')" "ok s'" "\<forall>t < e. window t s' k = Some (n + 1, e)" by blast
  have "run_calls incr (map (\<lambda>x. (x, k, w)) ts) s' =
      map (\<lambda>(i, x). (n + 1 + 1 + int i - int (Suc m), e - x)) (enumerate (Suc m) ts)"
    by (rule Cons.IH [OF s'(2) Cons.prems(2) s'(3)]) (use Cons.prems(4) in simp)
  also have "\<dots> = map (\<lambda>(i, x). (n + 1 + int i - int m, e - x)) (enumerate (Suc m) ts)"
    by (rule map_cong) auto
  finally show ?case using s'(1) by simp
qed simp

lemma burst:
  assumes "ok s" and "0 < w" and "window t s k = None" and "\<forall>x \<in> set ts. x < t + w"
  shows "run_calls incr (map (\<lambda>x. (x, k, w)) (t # ts)) s = map (\<lambda>(i, x). (int i + 1, t + w - x)) (enumerate 0 (t # ts))"
proof -
  from opens [OF assms(1,3,2)] obtain s' where
    s': "incr t k w s = ((1, w), s')" "ok s'" "\<forall>x < t + w. window x s' k = Some (1, t + w)" by blast
  have "run_calls incr (map (\<lambda>x. (x, k, w)) ts) s' =
      map (\<lambda>(i, x). (1 + 1 + int i - int (Suc 0), t + w - x)) (enumerate (Suc 0) ts)"
    by (rule burst_within [OF s'(2) assms(2) s'(3) assms(4)])
  also have "\<dots> = map (\<lambda>(i, x). (int i + 1, t + w - x)) (enumerate (Suc 0) ts)"
    by (rule map_cong) auto
  finally show ?thesis using s'(1) by simp
qed

end

definition memory_window :: "int \<Rightarrow> mem_store \<Rightarrow> string \<Rightarrow> (int \<times> int) option" where
  "memory_window t m k = (case m k of None \<Rightarrow> None | Some (n, e) \<Rightarrow> if t < e then Some (n, e) else None)"

interpretation memory_store: rate_store memory_increment memory_window "\<lambda>_. True"
  by unfold_locales (auto simp: memory_window_def memory_increment_def split: option.splits if_splits)

text \<open>The counters of the Redis store are written by the pipeline alone, so each has an expiry.\<close>

definition redis_window :: "int \<Rightarrow> redis \<Rightarrow> string \<Rightarrow> (int \<times> int) option" where
  "redis_window t r k = (case live_entry t (r k) of Some (v, Some e) \<Rightarrow> Some (int (nat_of_digits v), e) | _ \<Rightarrow> None)"

definition counters_ok :: "redis \<Rightarrow> bool" where
  "counters_ok r = (\<forall>k v e. r k = Some (v, e) \<longrightarrow> (\<exists>n. v = digits10 n) \<and> e \<noteq> None)"

lemma redis_increment_eq:
  assumes "counters_ok r" and "0 < w"
  shows "redis_increment now k w r =
    (case redis_window now r k of
       None \<Rightarrow> ((1, w), r(k := Some (digits10 1, Some (now + w))))
     | Some (n, e) \<Rightarrow> ((n + 1, e - now), r(k := Some (digits10 (nat (n + 1)), Some e))))"
proof (cases "r k")
  case None
  then show ?thesis using assms(2)
    by (simp add: redis_increment_def redis_incr_def redis_window_def redis_expire_nx_def redis_ttl_def str_int_def)
next
  case (Some p)
  obtain n e where p: "r k = Some (digits10 n, Some e)"
    using Some assms(1) by (cases p) (fastforce simp: counters_ok_def)
  show ?thesis
    using assms(2) p
    by (simp add: redis_increment_def redis_incr_def redis_window_def redis_expire_nx_def redis_ttl_def str_int_def Let_def
        nat_add_distrib)
qed

interpretation redis_store: rate_store redis_increment redis_window counters_ok
proof unfold_locales
  fix s now k and w :: int
  assume ok: "counters_ok s" and w: "0 < w"
  note eq = redis_increment_eq [OF ok w, of now k]
  { assume "redis_window now s k = None"
    then show "\<exists>s'. redis_increment now k w s = ((1, w), s') \<and> counters_ok s' \<and>
        (\<forall>t. t < now + w \<longrightarrow> redis_window t s' k = Some (1, now + w))"
      using eq ok by (auto simp: redis_window_def counters_ok_def) }
  { fix n e assume n: "redis_window now s k = Some (n, e)"
    then have "0 \<le> n" by (auto simp: redis_window_def split: option.splits)
    then show "\<exists>s'. redis_increment now k w s = ((n + 1, e - now), s') \<and> counters_ok s' \<and>
        (\<forall>t. t < e \<longrightarrow> redis_window t s' k = Some (n + 1, e))"
      using eq ok n by (auto simp: redis_window_def counters_ok_def) }
next
  fix s now k k' t and w :: int and x s'
  assume "redis_increment now k w s = (x, s')" and "k' \<noteq> k"
  then show "redis_window t s' k' = redis_window t s k'"
    by (auto simp: redis_increment_def redis_incr_def redis_expire_nx_def redis_window_def Let_def
        split: prod.splits option.splits if_splits)
qed (auto simp: redis_window_def live_entry_def split: option.splits prod.splits if_splits)

section \<open>The fallback counts like Redis\<close>

lemma same_windows_same_calls:
  assumes "counters_ok r" and "\<And>k. redis_window now r k = memory_window now m k"
    and "sorted (now # map fst calls)" and "\<forall>c \<in> set calls. 0 < snd (snd c)"
  shows "run_calls redis_increment calls r = run_calls memory_increment calls m"
  using assms
proof (induction calls arbitrary: now r m)
  case (Cons c calls)
  obtain t k w where c: "c = (t, k, w)" using prod_cases3 by blast
  have t: "now \<le> t" and w: "0 < w" using Cons.prems(3,4) c by auto
  have same: "redis_window t r k' = memory_window t m k'" for k'
    using redis_store.window_later [OF Cons.prems(1) t] memory_store.window_later [OF TrueI t] Cons.prems(2) by simp
  obtain r' where r': "redis_increment t k w r =
      ((case redis_window t r k of None \<Rightarrow> (1, w) | Some (n, e) \<Rightarrow> (n + 1, e - t)), r')" "counters_ok r'"
    "\<forall>x k'. t \<le> x \<longrightarrow> redis_window x r' k' =
       (if k' = k then (case redis_window t r k of None \<Rightarrow> if x < t + w then Some (1, t + w) else None
                        | Some (n, e) \<Rightarrow> if x < e then Some (n + 1, e) else None) else redis_window x r k')"
    using redis_store.incr_by_window [OF Cons.prems(1) w] by blast
  obtain m' where m': "memory_increment t k w m =
      ((case memory_window t m k of None \<Rightarrow> (1, w) | Some (n, e) \<Rightarrow> (n + 1, e - t)), m')"
    "\<forall>x k'. t \<le> x \<longrightarrow> memory_window x m' k' =
       (if k' = k then (case memory_window t m k of None \<Rightarrow> if x < t + w then Some (1, t + w) else None
                        | Some (n, e) \<Rightarrow> if x < e then Some (n + 1, e) else None) else memory_window x m k')"
    using memory_store.incr_by_window [OF TrueI w] by blast
  have "redis_window t r' k' = memory_window t m' k'" for k'
    using r'(3) m'(2) same by simp
  from Cons.IH [OF r'(2) this] have "run_calls redis_increment calls r' = run_calls memory_increment calls m'"
    using Cons.prems(3,4) c by simp
  then show ?case using r'(1) m'(1) same by (simp add: c)
qed simp


section \<open>Limits are exact\<close>

definition live_window :: "bool \<Rightarrow> int \<Rightarrow> counters \<Rightarrow> string \<Rightarrow> (int \<times> int) option" where
  "live_window up t st k = (if up then redis_window t (redis_counters st) k else memory_window t (memory_counters st) k)"

text \<open>A store kept in a field of a larger state is such a store.\<close>

lemma lifted_store:
  assumes base: "rate_store incr window ok" and get: "\<And>r st. get (put r st) = r"
    and ok: "\<And>st. ok' st \<Longrightarrow> ok (get st)" "\<And>r st. ok' st \<Longrightarrow> ok r \<Longrightarrow> ok' (put r st)"
  shows "rate_store (\<lambda>now k w st. case incr now k w (get st) of (x, r) \<Rightarrow> (x, put r st)) (\<lambda>t st. window t (get st)) ok'"
proof unfold_locales
  fix s now k and w :: int assume a: "ok' s" "window now (get s) k = None" "0 < w"
  obtain r where "incr now k w (get s) = ((1, w), r)" "ok r" "\<forall>t < now + w. window t r k = Some (1, now + w)"
    using rate_store.opens [OF base ok(1) [OF a(1)] a(2,3)] by blast
  then show "\<exists>s'. (case incr now k w (get s) of (x, r) \<Rightarrow> (x, put r s)) = ((1, w), s') \<and> ok' s' \<and>
      (\<forall>t < now + w. window t (get s') k = Some (1, now + w))"
    using ok(2) [OF a(1)] by (simp add: get)
next
  fix s now k n e and w :: int assume a: "ok' s" "window now (get s) k = Some (n, e)" "0 < w"
  obtain r where "incr now k w (get s) = ((n + 1, e - now), r)" "ok r" "\<forall>t < e. window t r k = Some (n + 1, e)"
    using rate_store.counts [OF base ok(1) [OF a(1)] a(2,3)] by blast
  then show "\<exists>s'. (case incr now k w (get s) of (x, r) \<Rightarrow> (x, put r s)) = ((n + 1, e - now), s') \<and> ok' s' \<and>
      (\<forall>t < e. window t (get s') k = Some (n + 1, e))"
    using ok(2) [OF a(1)] by (simp add: get)
next
  fix s now k and w :: int and x s' k' t
  assume a: "ok' s" "(case incr now k w (get s) of (x, r) \<Rightarrow> (x, put r s)) = (x, s')" "k' \<noteq> k"
  then obtain r where "incr now k w (get s) = (x, r)" "s' = put r s" by (auto split: prod.splits)
  then show "window t (get s') k' = window t (get s) k'"
    using rate_store.others [OF base ok(1) [OF a(1)] _ a(3)] by (simp add: get)
next
  fix s now k n e assume "ok' s" "window now (get s) k = Some (n, e)"
  then show "now < e \<and> (\<forall>t \<ge> now. window t (get s) k = (if t < e then Some (n, e) else None))"
    by (rule rate_store.ends [OF base ok(1)])
next
  fix s now k t assume "ok' s" "window now (get s) k = None" "now \<le> t"
  then show "window t (get s) k = None" by (rule rate_store.stays [OF base ok(1)])
qed

interpretation limiter: rate_store "increment_counter up" "live_window up" "\<lambda>st. counters_ok (redis_counters st)" for up
proof (cases up)
  case True
  have "rate_store (\<lambda>now k w st. case redis_increment now k w (redis_counters st) of (x, r) \<Rightarrow> (x, st\<lparr>redis_counters := r\<rparr>))
      (\<lambda>t st. redis_window t (redis_counters st)) (\<lambda>st. counters_ok (redis_counters st))"
    by (rule lifted_store [OF redis_store.rate_store_axioms]) simp_all
  then show "rate_store (increment_counter up) (live_window up) (\<lambda>st. counters_ok (redis_counters st))"
    using True by (simp add: increment_counter_def [abs_def] live_window_def [abs_def])
next
  case False
  have "rate_store (\<lambda>now k w st. case memory_increment now k w (memory_counters st) of (x, m) \<Rightarrow> (x, st\<lparr>memory_counters := m\<rparr>))
      (\<lambda>t st. memory_window t (memory_counters st)) (\<lambda>st. counters_ok (redis_counters st))"
    by (rule lifted_store [OF memory_store.rate_store_axioms]) simp_all
  then show "rate_store (increment_counter up) (live_window up) (\<lambda>st. counters_ok (redis_counters st))"
    using False by (simp add: increment_counter_def [abs_def] live_window_def [abs_def])
qed

fun enforce_all ::
  "bool \<Rightarrow> string \<Rightarrow> int \<Rightarrow> int \<Rightarrow> string \<Rightarrow> int list \<Rightarrow> counters \<Rightarrow> (limit_error + limit_decision) list" where
  "enforce_all up key limit w scope [] st = []"
| "enforce_all up key limit w scope (t # ts) st = (case enforce up t key limit w scope st of
     (x, st') \<Rightarrow> x # enforce_all up key limit w scope ts st')"

definition verdict :: "int \<Rightarrow> int \<Rightarrow> string \<Rightarrow> int \<Rightarrow> int \<times> int \<Rightarrow> limit_error + limit_decision" where
  "verdict limit w scope now ct = (case ct of (count, ttl) \<Rightarrow>
     if max limit 1 < count then Inl (RateLimited (safe_key (Some scope)) (max limit 1) (max w 1) (max ttl 1))
     else Inr \<lparr>dc_limit = max limit 1, dc_remaining = max (max limit 1 - count) 0, dc_reset = now + max ttl 0,
               dc_scope = safe_key (Some scope)\<rparr>)"

lemma map2_enumerate: "map2 f xs (map g (enumerate n xs)) = map (\<lambda>(i, x). f x (g (i, x))) (enumerate n xs)"
  by (induction xs arbitrary: n) simp_all

lemma enforce_all_calls:
  "enforce_all up key limit w scope ts st =
     map2 (verdict limit w scope) ts (run_calls (increment_counter up) (map (\<lambda>t. (t, safe_key (Some key), max w 1)) ts) st)"
proof (induction ts arbitrary: st)
  case (Cons t ts)
  obtain ct st' where i: "increment_counter up t (safe_key (Some key)) (max w 1) st = (ct, st')" by (meson surj_pair)
  then have "enforce up t key limit w scope st = (verdict limit w scope t ct, st')"
    by (cases ct) (simp add: enforce_def verdict_def Let_def)
  then show ?case using Cons i by simp
qed simp

text \<open>C35. A limit is exact.  Of the requests of one key in one window (\<open>w\<close> seconds from the first), the first
  \<open>limit\<close> are admitted with the right remaining count and reset time, and every later one is refused
  with the seconds left of the window, whether Redis or the in-memory fallback counts; a limit or window
  below one counts as one.\<close>

theorem rate_limit_exact:
  assumes "counters_ok (redis_counters st)" and "live_window up t st (safe_key (Some key)) = None"
    and "\<forall>x \<in> set ts. x < t + max w 1"
  shows "enforce_all up key limit w scope (t # ts) st =
    map (\<lambda>(i, x). if int i < max limit 1
        then Inr \<lparr>dc_limit = max limit 1, dc_remaining = max limit 1 - int i - 1, dc_reset = t + max w 1, dc_scope = safe_key (Some scope)\<rparr>
        else Inl (RateLimited (safe_key (Some scope)) (max limit 1) (max w 1) (t + max w 1 - x)))
      (enumerate 0 (t # ts))"
proof -
  let ?L = "max limit 1" and ?W = "max w 1" and ?us = "t # ts"
  have "run_calls (increment_counter up) (map (\<lambda>x. (x, safe_key (Some key), ?W)) ?us) st =
      map (\<lambda>(i, x). (int i + 1, t + ?W - x)) (enumerate 0 ?us)"
    by (rule limiter.burst [OF assms(1) _ assms(2,3)]) simp
  then have "enforce_all up key limit w scope ?us st =
      map2 (verdict limit w scope) ?us (map (\<lambda>(i, x). (int i + 1, t + ?W - x)) (enumerate 0 ?us))"
    by (simp only: enforce_all_calls)
  also have "\<dots> = map (\<lambda>(i, x). verdict limit w scope x (int i + 1, t + ?W - x)) (enumerate 0 ?us)"
    by (simp only: map2_enumerate prod.case)
  also have "\<dots> = map (\<lambda>(i, x). if int i < ?L
        then Inr \<lparr>dc_limit = ?L, dc_remaining = ?L - int i - 1, dc_reset = t + ?W, dc_scope = safe_key (Some scope)\<rparr>
        else Inl (RateLimited (safe_key (Some scope)) ?L ?W (t + ?W - x))) (enumerate 0 ?us)"
  proof (rule map_cong [OF refl])
    fix p assume "p \<in> set (enumerate 0 ?us)"
    then have "snd p \<in> set (map snd (enumerate 0 ?us))" unfolding set_map by (rule imageI)
    then have "snd p \<in> set ?us" by (simp only: map_snd_enumerate)
    then obtain i x where p: "p = (i, x)" "x \<in> set ?us" by (cases p) simp
    have "x < t + ?W" using p(2) assms(3) by auto
    then show "(case p of (i, x) \<Rightarrow> verdict limit w scope x (int i + 1, t + ?W - x)) =
      (case p of (i, x) \<Rightarrow> if int i < ?L
        then Inr \<lparr>dc_limit = ?L, dc_remaining = ?L - int i - 1, dc_reset = t + ?W, dc_scope = safe_key (Some scope)\<rparr>
        else Inl (RateLimited (safe_key (Some scope)) ?L ?W (t + ?W - x)))"
      unfolding p(1) verdict_def by auto
  qed
  finally show ?thesis .
qed

section \<open>Idempotency\<close>

lemma fingerprint_text_inj:
  "fingerprint_text p f c n = fingerprint_text p' f' c' n' \<longleftrightarrow> p = p' \<and> f = f' \<and> c = c' \<and> max 0 n = max 0 n'"
proof
  let ?j = "\<lambda>p f c n. JObj [(''content_type'', JStr c), (''filename'', JStr f), (''payload_sha256'', JStr p), (''size_bytes'', JInt (max 0 n))]"
  assume "fingerprint_text p f c n = fingerprint_text p' f' c' n'"
  then have "json_loads (json_dumps True (?j p f c n)) = json_loads (json_dumps True (?j p' f' c' n'))"
    by (simp only: fingerprint_text_def)
  then have "Some (?j p f c n) = Some (?j p' f' c' n')"
    by (subst (asm) (1 2) json_loads_dumps) simp_all
  then show "p = p' \<and> f = f' \<and> c = c' \<and> max 0 n = max 0 n'" by simp
qed (simp only: fingerprint_text_def)

text \<open>An idempotency key replays exactly its request.  Once a result is stored, the same key with the
  same payload, file name, type and size (negative sizes count as zero) returns the stored status and
  body, any other request under that key is the 409 conflict, storing a second result is refused, and
  other keys and tenants are unaffected; provided the hash does not collide on the two texts.\<close>

theorem idempotency_exact:
  assumes p: "persist_result tn key (compute_fingerprint sha pl f c n) kind res status body fresh rows = Inr rows'"
    and sha: "inj_on sha {fingerprint_text pl f c n, fingerprint_text pl' f' c' n'}"
  shows "check_replay_or_conflict tn key (compute_fingerprint sha pl' f' c' n') rows' =
      (if pl' = pl \<and> f' = f \<and> c' = c \<and> max 0 n' = max 0 n then Inr (Some \<lparr>rp_status = status, rp_body = body\<rparr>)
       else Inl (ApiError ''IDEMPOTENCY_CONFLICT'' 409)) \<and>
    persist_result tn key fp kind' res' status' body' fresh' rows' = Inl IntegrityError \<and>
    ((tn', key') \<noteq> (tn, key) \<longrightarrow> check_replay_or_conflict tn' key' fp rows' = check_replay_or_conflict tn' key' fp rows)"
proof -
  let ?fp = "compute_fingerprint sha pl f c n"
  have none: "idempotency_row tn key rows = []"
    and rows': "rows' = rows @ [\<lparr>ik_id = fresh, ik_tenant = tn, ik_key = key, ik_fingerprint = ?fp,
                          ik_resource_type = kind, ik_resource = res, ik_status = status, ik_body = body\<rparr>]"
    using p by (auto simp: persist_result_def split: if_splits)
  have row: "idempotency_row tn key rows' = [\<lparr>ik_id = fresh, ik_tenant = tn, ik_key = key, ik_fingerprint = ?fp,
                          ik_resource_type = kind, ik_resource = res, ik_status = status, ik_body = body\<rparr>]"
    using none by (simp add: idempotency_row_def rows')
  have "?fp = compute_fingerprint sha pl' f' c' n' \<longleftrightarrow> pl' = pl \<and> f' = f \<and> c' = c \<and> max 0 n' = max 0 n"
    using inj_on_eq_iff [OF sha, of "fingerprint_text pl f c n" "fingerprint_text pl' f' c' n'"]
      fingerprint_text_inj [of pl f c n pl' f' c' n'] by (auto simp only: compute_fingerprint_def insert_iff)
  moreover have "idempotency_row tn' key' rows' = idempotency_row tn' key' rows" if "(tn', key') \<noteq> (tn, key)"
    using that by (auto simp: idempotency_row_def rows')
  ultimately show ?thesis
    by (simp add: check_replay_or_conflict_def row one_or_none_def persist_result_def)
qed

section \<open>The circuit\<close>

fun fail_all :: "string \<Rightarrow> int \<Rightarrow> int \<Rightarrow> int list \<Rightarrow> redis \<Rightarrow> bool list \<times> redis" where
  "fail_all key threshold cooldown [] r = ([], r)"
| "fail_all key threshold cooldown (t # ts) r =
     (case record_failure True t key threshold cooldown r of
        (b, r1) \<Rightarrow> (case fail_all key threshold cooldown ts r1 of (bs, r2) \<Rightarrow> (b # bs, r2)))"

text \<open>After \<open>n\<close> failures, the last at \<open>t\<close>.\<close>

definition circuit_after :: "string \<Rightarrow> int \<Rightarrow> int \<Rightarrow> nat \<Rightarrow> int \<Rightarrow> redis \<Rightarrow> bool" where
  "circuit_after key threshold cooldown n t r =
     (r (failures_key key) = Some (digits10 n, Some (t + max 1 cooldown)) \<and>
      (\<forall>x \<ge> t. redis_get x (open_key key) r =
         (if max 1 threshold \<le> int n \<and> x < t + max 1 cooldown then Some ''1'' else None)))"

lemma keys_differ [simp]: "failures_key key \<noteq> open_key key" "open_key key \<noteq> failures_key key"
  by (simp_all add: failures_key_def open_key_def)

lemma redis_get_later: "redis_get now k r = None \<Longrightarrow> now \<le> t \<Longrightarrow> redis_get t k r = None"
  by (auto simp: redis_get_def live_entry_def split: option.splits prod.splits if_splits)

lemma failure_step:
  assumes n: "(case live_entry t (r (failures_key key)) of None \<Rightarrow> 0 | Some (v, _) \<Rightarrow> nat_of_digits v) = n"
    and op: "redis_get t (open_key key) r = None \<or> max 1 threshold \<le> int n"
  shows "\<exists>r'. record_failure True t key threshold cooldown r = (max 1 threshold \<le> int n + 1, r') \<and>
    circuit_after key threshold cooldown (n + 1) t r'"
proof -
  let ?c = "max 1 cooldown" and ?k = "failures_key key"
  have "\<exists>e. redis_incr t ?k r = (int n + 1, r(?k := Some (digits10 (n + 1), e))) \<and> (case e of None \<Rightarrow> True | Some x \<Rightarrow> t < x)"
  proof (cases "live_entry t (r ?k)")
    case None
    then show ?thesis using n by (intro exI [of _ None]) (simp add: redis_incr_def str_int_def)
  next
    case (Some p)
    then obtain v e where p: "live_entry t (r ?k) = Some (v, e)" by (cases p) auto
    then have "case e of None \<Rightarrow> True | Some x \<Rightarrow> t < x"
      by (auto simp: live_entry_def split: option.splits prod.splits if_splits)
    then show ?thesis using n p by (intro exI [of _ e]) (simp add: redis_incr_def Let_def str_int_def nat_add_distrib)
  qed
  then obtain e where incr: "redis_incr t ?k r = (int n + 1, r(?k := Some (digits10 (n + 1), e)))"
    and e: "case e of None \<Rightarrow> True | Some x \<Rightarrow> t < x" by blast
  define r2 where "r2 = r(?k := Some (digits10 (n + 1), Some (t + ?c)))"
  have "redis_expire t ?k ?c (r(?k := Some (digits10 (n + 1), e))) = r2"
    using e by (cases e) (simp_all add: redis_expire_def r2_def)
  then have step: "record_failure True t key threshold cooldown r =
      (if max 1 threshold \<le> int n + 1 then (True, redis_setex t (open_key key) ?c ''1'' r2) else (False, r2))"
    by (simp add: record_failure_def incr)
  have fk: "r2 ?k = Some (digits10 (n + 1), Some (t + ?c))" by (simp add: r2_def)
  show ?thesis
  proof (cases "max 1 threshold \<le> int n + 1")
    case True
    have "circuit_after key threshold cooldown (n + 1) t (redis_setex t (open_key key) ?c ''1'' r2)"
      using True fk unfolding circuit_after_def redis_get_set by (simp add: redis_setex_def)
    then show ?thesis using True step by simp
  next
    case False
    have "redis_get x (open_key key) r2 = None" if "t \<le> x" for x
      using op False redis_get_later [OF _ that] by (simp add: r2_def redis_get_def)
    then have "circuit_after key threshold cooldown (n + 1) t r2"
      using False fk unfolding circuit_after_def by simp
    then show ?thesis using False step by simp
  qed
qed

lemma later_failures:
  assumes "circuit_after key threshold cooldown n t r" and "successively (\<lambda>x y. x \<le> y \<and> y < x + max 1 cooldown) (t # ts)"
  shows "\<exists>r'. fail_all key threshold cooldown ts r =
      (map (\<lambda>i. max 1 threshold \<le> int i) [n + 1..<n + 1 + length ts], r') \<and>
    circuit_after key threshold cooldown (n + length ts) (last (t # ts)) r'"
  using assms
proof (induction ts arbitrary: n t r)
  case (Cons x ts)
  let ?c = "max 1 cooldown"
  have x: "t \<le> x" "x < t + ?c" and s: "successively (\<lambda>x y. x \<le> y \<and> y < x + ?c) (x # ts)" using Cons.prems(2) by simp_all
  have fk: "r (failures_key key) = Some (digits10 n, Some (t + ?c))"
    and op: "redis_get x (open_key key) r = (if max 1 threshold \<le> int n \<and> x < t + ?c then Some ''1'' else None)"
    using Cons.prems(1) x(1) by (simp_all add: circuit_after_def)
  have "(case live_entry x (r (failures_key key)) of None \<Rightarrow> 0 | Some (v, _) \<Rightarrow> nat_of_digits v) = n"
    using fk x(2) by simp
  moreover have "redis_get x (open_key key) r = None \<or> max 1 threshold \<le> int n" using op by auto
  ultimately obtain r1 where r1: "record_failure True x key threshold cooldown r = (max 1 threshold \<le> int n + 1, r1)"
    "circuit_after key threshold cooldown (n + 1) x r1" using failure_step by blast
  obtain r' where r': "fail_all key threshold cooldown ts r1 =
      (map (\<lambda>i. max 1 threshold \<le> int i) [n + 1 + 1..<n + 1 + 1 + length ts], r')"
    "circuit_after key threshold cooldown (n + 1 + length ts) (last (x # ts)) r'" using Cons.IH [OF r1(2) s] by blast
  have "[n + 1..<n + 1 + length (x # ts)] = (n + 1) # [n + 1 + 1..<n + 1 + 1 + length ts]"
    by (simp add: upt_conv_Cons del: upt_Suc)
  then have "fail_all key threshold cooldown (x # ts) r =
      (map (\<lambda>i. max 1 threshold \<le> int i) [n + 1..<n + 1 + length (x # ts)], r')"
    using r1(1) r'(1) by (simp add: add.commute del: upt_Suc)
  then show ?case using r'(2) by (intro exI [of _ r']) simp
qed simp

text \<open>The circuit opens at the threshold and closes by itself.  For failures that follow each other within
  the cooldown, from a closed circuit without counted failures: the report of each tells whether the
  threshold is reached, the circuit is open exactly if it was and the cooldown since the last failure has
  not passed, a success closes it and forgets the failures, and without Redis it is closed.\<close>

theorem circuit_opens_at_threshold:
  assumes f: "fail_all key threshold cooldown (t # ts) r = (reports, r')"
    and fresh: "redis_get t (failures_key key) r = None" "redis_get t (open_key key) r = None"
    and close: "successively (\<lambda>x y. x \<le> y \<and> y < x + max 1 cooldown) (t # ts)"
    and now: "last (t # ts) \<le> now"
  shows "reports = map (\<lambda>i. max 1 threshold \<le> int i) [1..<Suc (Suc (length ts))] \<and>
    circuit_is_open True now key r' =
      (max 1 threshold \<le> int (length (t # ts)) \<and> now < last (t # ts) + max 1 cooldown) \<and>
    \<not> circuit_is_open True now key (record_success True key r') \<and>
    redis_get now (failures_key key) (record_success True key r') = None \<and> \<not> circuit_is_open False now key r'"
proof -
  have "(case live_entry t (r (failures_key key)) of None \<Rightarrow> 0 | Some (v, _) \<Rightarrow> nat_of_digits v) = 0"
    using fresh(1) by (simp add: redis_get_def)
  then obtain r1 where r1: "record_failure True t key threshold cooldown r = (max 1 threshold \<le> int 0 + 1, r1)"
    "circuit_after key threshold cooldown (0 + 1) t r1" using failure_step fresh(2) by blast
  obtain r2 where r2: "fail_all key threshold cooldown ts r1 =
      (map (\<lambda>i. max 1 threshold \<le> int i) [0 + 1 + 1..<0 + 1 + 1 + length ts], r2)"
    "circuit_after key threshold cooldown (0 + 1 + length ts) (last (t # ts)) r2"
    using later_failures [OF r1(2) close] by blast
  have u: "[1..<Suc (Suc (length ts))] = 1 # [0 + 1 + 1..<0 + 1 + 1 + length ts]"
    by (simp add: upt_conv_Cons del: upt_Suc)
  have "reports = (max 1 threshold \<le> int 0 + 1) # map (\<lambda>i. max 1 threshold \<le> int i) [0 + 1 + 1..<0 + 1 + 1 + length ts]"
    and r': "r' = r2" using f r1(1) r2(1) by (auto simp del: upt_Suc)
  then have "reports = map (\<lambda>i. max 1 threshold \<le> int i) [1..<Suc (Suc (length ts))]" unfolding u by simp
  moreover have "redis_get now (open_key key) r' =
      (if max 1 threshold \<le> int (length (t # ts)) \<and> now < last (t # ts) + max 1 cooldown then Some ''1'' else None)"
    using r2(2) now unfolding circuit_after_def r' by simp
  ultimately show ?thesis by (simp add: circuit_is_open_def record_success_def redis_get_del)
qed

section \<open>The properties at concrete inputs\<close>


definition no_counters :: counters where
  "no_counters = \<lparr>redis_counters = (\<lambda>_. None), memory_counters = (\<lambda>_. None)\<rparr>"

theorem rate_limit_exact_witness:
  "map isl (enforce_all True ''k'' 2 60 ''s'' [5, 6, 7] no_counters) = [False, False, True]"
proof -
  have ok: "counters_ok (redis_counters no_counters)" "live_window True 5 no_counters (safe_key (Some ''k'')) = None"
    "\<forall>x \<in> set [6, 7 :: int]. x < 5 + max 60 1"
    by (simp_all add: no_counters_def counters_ok_def live_window_def redis_window_def)
  show ?thesis unfolding rate_limit_exact [OF ok] by simp
qed

theorem idempotency_exact_witness:
  "\<exists>rows'. persist_result 1 ''k'' (compute_fingerprint id ''ab'' ''a.pdf'' ''application/pdf'' 10) ''document'' 4 201 [] 8 [] = Inr rows' \<and>
     check_replay_or_conflict 1 ''k'' (compute_fingerprint id ''ab'' ''a.pdf'' ''application/pdf'' 10) rows' =
       Inr (Some \<lparr>rp_status = 201, rp_body = []\<rparr>) \<and>
     check_replay_or_conflict 1 ''k'' (compute_fingerprint id ''cd'' ''a.pdf'' ''application/pdf'' 10) rows' =
       Inl (ApiError ''IDEMPOTENCY_CONFLICT'' 409)"
proof -
  obtain rows' where p: "persist_result 1 ''k'' (compute_fingerprint id ''ab'' ''a.pdf'' ''application/pdf'' 10) ''document'' 4 201 [] 8 [] = Inr rows'"
    by (simp add: persist_result_def idempotency_row_def)
  show ?thesis
    using idempotency_exact [OF p inj_on_id, of "''ab''" "''a.pdf''" "''application/pdf''" 10]
      idempotency_exact [OF p inj_on_id, of "''cd''" "''a.pdf''" "''application/pdf''" 10] p by auto
qed

theorem circuit_opens_at_threshold_witness:
  "circuit_is_open True 20 ''c'' (snd (fail_all ''c'' 3 30 [5, 10, 15] (\<lambda>_. None))) \<and>
   \<not> circuit_is_open True 45 ''c'' (snd (fail_all ''c'' 3 30 [5, 10, 15] (\<lambda>_. None)))"
proof -
  obtain reports r' where f: "fail_all ''c'' 3 30 [5, 10, 15] (\<lambda>_. None) = (reports, r')" by (meson surj_pair)
  have fresh: "redis_get 5 (failures_key ''c'') (\<lambda>_. None) = None" "redis_get 5 (open_key ''c'') (\<lambda>_. None) = None"
    by (simp_all add: redis_get_def)
  have close: "successively (\<lambda>x y. x \<le> y \<and> y < x + max 1 30) [5, 10, 15 :: int]" by simp
  show ?thesis
    using circuit_opens_at_threshold [OF f fresh close, of 20] circuit_opens_at_threshold [OF f fresh close, of 45]
    unfolding f by simp
qed

end
