(* ===== verification/Sessions.thy ===== *)
theory Sessions
  imports Accounts Redis "HOL-Library.List_Lexorder" "HOL-Library.Char_ord"
begin

text \<open>
  Account sessions: refresh-token rotation with reuse detection, logout, the administrator's lockout, and the
  check of an access token on every request (\<open>auth/services/auth_service.py\<close>,
  \<open>auth/services/admin_user_service.py\<close>, \<open>auth/repositories/*.py\<close>, \<open>auth/dependencies.py\<close>).

  An access token is its claims: signing and verifying them is PyJWT's part.  The keyed hash of refresh
  tokens is a parameter, and a new refresh token's random part is an argument.  The audit log is left out.
\<close>

section \<open>Rows\<close>

record account =
  ac_id :: nat
  ac_tenant :: nat
  ac_email :: string
  ac_active :: bool
  ac_version :: int
  ac_failed :: int
  ac_locked :: "int option"
  ac_last_login :: "int option"

record refresh_token =
  k_id :: nat
  k_tenant :: nat
  k_user :: nat
  k_session :: "nat option"
  k_hash :: string
  k_family :: nat
  k_expires :: int
  k_rotated :: "int option"
  k_revoked :: "int option"
  k_reason :: "string option"

record auth_session =
  z_id :: nat
  z_owner_tenant :: nat
  z_user :: nat
  z_family :: nat
  z_seen :: int
  z_revoked :: "int option"
  z_reason :: "string option"

record denied_token =
  v_tenant :: nat
  v_user :: nat
  v_token :: string
  v_denied_reason :: string
  v_expires :: int

record auth_db =
  accounts :: "account list"
  auth_tenants :: "(nat \<times> bool) list"
  role_rows :: "(nat \<times> nat \<times> string) list"
  refresh_rows :: "refresh_token list"
  session_rows :: "auth_session list"
  denied :: "denied_token list"
  auth_redis :: redis
  auth_redis_up :: bool
  auth_next :: nat

record auth_settings =
  access_minutes :: int
  refresh_days :: int
  token_hash :: "string \<Rightarrow> string"

text \<open>The claims of \<open>_build_access_claims\<close> the request check reads, and what it hands to the handlers.\<close>

record access_claims =
  cm_user :: nat
  cm_tenant :: nat
  cm_roles :: "string list"
  cm_token :: string
  cm_version :: int
  cm_session :: "nat option"
  cm_expires :: int

record auth_context =
  ax_user :: nat
  ax_tenant :: nat
  ax_roles :: "string list"
  ax_permissions :: "string list"
  ax_token :: string
  ax_session :: "nat option"

section \<open>Repositories\<close>

definition find_account :: "nat \<Rightarrow> nat \<Rightarrow> auth_db \<Rightarrow> account option" where
  "find_account tn user s = first_row (filter (\<lambda>a. ac_tenant a = tn \<and> ac_id a = user) (accounts s))"

definition upd_account :: "nat \<Rightarrow> (account \<Rightarrow> account) \<Rightarrow> auth_db \<Rightarrow> auth_db" where
  "upd_account user f s = s\<lparr>accounts := upd_where (\<lambda>a. ac_id a = user) f (accounts s)\<rparr>"

definition role_names_for_user :: "nat \<Rightarrow> nat \<Rightarrow> auth_db \<Rightarrow> string list" where
  "role_names_for_user tn user s =
     remdups (map (\<lambda>(_, _, r). canonicalize_role_name r) (filter (\<lambda>(t, u, _). t = tn \<and> u = user) (role_rows s)))"

definition effective_role_names :: "nat \<Rightarrow> nat \<Rightarrow> auth_db \<Rightarrow> string list" where
  "effective_role_names tn user s = canonicalize_role_names (role_names_for_user tn user s)"

text \<open>\<open>uq_refresh_tokens_tenant_hash\<close> makes the row unique.\<close>

definition get_by_hash :: "nat \<Rightarrow> string \<Rightarrow> auth_db \<Rightarrow> refresh_token option" where
  "get_by_hash tn h s = first_row (filter (\<lambda>k. k_tenant k = tn \<and> k_hash k = h) (refresh_rows s))"

definition close_sessions :: "int \<Rightarrow> string \<Rightarrow> (auth_session \<Rightarrow> bool) \<Rightarrow> auth_db \<Rightarrow> auth_db" where
  "close_sessions now reason P s = s\<lparr>session_rows := upd_where (\<lambda>z. P z \<and> z_revoked z = None)
     (\<lambda>z. z\<lparr>z_revoked := Some now, z_reason := Some reason\<rparr>) (session_rows s)\<rparr>"

definition revoke_tokens :: "int \<Rightarrow> string \<Rightarrow> (refresh_token \<Rightarrow> bool) \<Rightarrow> auth_db \<Rightarrow> auth_db" where
  "revoke_tokens now reason P s = s\<lparr>refresh_rows := upd_where (\<lambda>k. P k \<and> k_revoked k = None)
     (\<lambda>k. k\<lparr>k_revoked := Some now, k_reason := Some reason\<rparr>) (refresh_rows s)\<rparr>"

definition revoke_token :: "int \<Rightarrow> nat \<Rightarrow> refresh_token \<Rightarrow> string \<Rightarrow> auth_db \<Rightarrow> auth_db" where
  "revoke_token now tn k reason s =
     (let s1 = s\<lparr>refresh_rows := upd_where (\<lambda>x. k_id x = k_id k)
                  (\<lambda>x. x\<lparr>k_revoked := (case k_revoked x of None \<Rightarrow> Some now | t \<Rightarrow> t), k_reason := Some reason\<rparr>) (refresh_rows s)\<rparr>
      in case k_session k of None \<Rightarrow> s1
         | Some sid \<Rightarrow> close_sessions now reason (\<lambda>z. z_id z = sid \<and> z_owner_tenant z = tn) s1)"

definition mark_rotated :: "int \<Rightarrow> refresh_token \<Rightarrow> auth_db \<Rightarrow> auth_db" where
  "mark_rotated now k s = s\<lparr>refresh_rows := upd_where (\<lambda>x. k_id x = k_id k)
     (\<lambda>x. x\<lparr>k_rotated := Some now, k_revoked := Some now, k_reason := Some ''rotated''\<rparr>) (refresh_rows s)\<rparr>"

definition revoke_family :: "int \<Rightarrow> nat \<Rightarrow> nat \<Rightarrow> string \<Rightarrow> auth_db \<Rightarrow> auth_db" where
  "revoke_family now tn fam reason s =
     close_sessions now reason (\<lambda>z. z_owner_tenant z = tn \<and> z_family z = fam)
       (revoke_tokens now reason (\<lambda>k. k_tenant k = tn \<and> k_family k = fam) s)"

definition revoke_all_for_user :: "int \<Rightarrow> nat \<Rightarrow> nat \<Rightarrow> string \<Rightarrow> auth_db \<Rightarrow> auth_db" where
  "revoke_all_for_user now tn user reason s =
     close_sessions now reason (\<lambda>z. z_owner_tenant z = tn \<and> z_user z = user)
       (revoke_tokens now reason (\<lambda>k. k_tenant k = tn \<and> k_user k = user) s)"

definition token_denied :: "int \<Rightarrow> nat \<Rightarrow> string \<Rightarrow> auth_db \<Rightarrow> bool" where
  "token_denied now tn tok s = (\<exists>v \<in> set (denied s). v_tenant v = tn \<and> v_token v = tok \<and> now < v_expires v)"

section \<open>Issuing tokens\<close>

definition access_token :: "auth_settings \<Rightarrow> int \<Rightarrow> account \<Rightarrow> string list \<Rightarrow> nat option \<Rightarrow> string \<Rightarrow> access_claims" where
  "access_token cfg now a roles sid jti =
     \<lparr>cm_user = ac_id a, cm_tenant = ac_tenant a,
      cm_roles = sort (remdups (map canonicalize_role_name (filter (\<lambda>r. strip r \<noteq> []) roles))),
      cm_token = jti, cm_version = ac_version a, cm_session = sid, cm_expires = now + access_minutes cfg * 60\<rparr>"

definition mint_refresh_token :: "nat \<Rightarrow> string \<Rightarrow> string" where
  "mint_refresh_token tn opaque = uuid_str tn @ ''.'' @ opaque"

definition refresh_row ::
  "auth_settings \<Rightarrow> int \<Rightarrow> nat \<Rightarrow> nat \<Rightarrow> nat \<Rightarrow> nat \<Rightarrow> nat option \<Rightarrow> string \<Rightarrow> refresh_token" where
  "refresh_row cfg now k tn user fam sid raw =
     \<lparr>k_id = k, k_tenant = tn, k_user = user, k_session = sid, k_hash = token_hash cfg raw, k_family = fam,
      k_expires = now + refresh_days cfg * 86400, k_rotated = None, k_revoked = None, k_reason = None\<rparr>"

text \<open>The commit rejects a second row with the same tenant and hash.\<close>

definition store_refresh :: "refresh_token \<Rightarrow> auth_db \<Rightarrow> app_error + auth_db" where
  "store_refresh k s = (if get_by_hash (k_tenant k) (k_hash k) s \<noteq> None then Inl IntegrityError
     else Inr (s\<lparr>refresh_rows := refresh_rows s @ [k]\<rparr>))"

text \<open>The end of \<open>login\<close>, once password and roles are checked and no second factor is due: the session with
  its token family, the access token and the first refresh token.\<close>

definition complete_login ::
  "auth_settings \<Rightarrow> int \<Rightarrow> string \<Rightarrow> account \<Rightarrow> auth_db \<Rightarrow> (app_error + access_claims \<times> string) \<times> auth_db" where
  "complete_login cfg now opaque a s =
     (let n = auth_next s; sid = n; fam = n + 1; raw = mint_refresh_token (ac_tenant a) opaque;
          s1 = upd_account (ac_id a) (\<lambda>a. a\<lparr>ac_failed := 0, ac_locked := None, ac_last_login := Some now\<rparr>) s;
          s2 = s1\<lparr>session_rows := session_rows s1 @ [\<lparr>z_id = sid, z_owner_tenant = ac_tenant a, z_user = ac_id a, z_family = fam,
                    z_seen = now, z_revoked = None, z_reason = None\<rparr>], auth_next := n + 4\<rparr>;
          claims = access_token cfg now a (effective_role_names (ac_tenant a) (ac_id a) s) (Some sid) (uuid_str (n + 2))
      in case store_refresh (refresh_row cfg now (n + 3) (ac_tenant a) (ac_id a) fam (Some sid) raw) s2 of
           Inl e \<Rightarrow> (Inl e, s) | Inr s3 \<Rightarrow> (Inr (claims, raw), s3))"

section \<open>Refreshing\<close>

definition invalid_refresh :: app_error where
  "invalid_refresh = ApiError ''INVALID_REFRESH_TOKEN'' 401"

definition extract_tenant :: "string \<Rightarrow> app_error + nat" where
  "extract_tenant raw = (case split_once ''.'' raw of
     None \<Rightarrow> Inl invalid_refresh
   | Some (tenant_part, opaque) \<Rightarrow>
       (if length opaque < 32 then Inl invalid_refresh
        else (case parse_uuid tenant_part of None \<Rightarrow> Inl invalid_refresh | Some tn \<Rightarrow> Inr tn)))"

definition find_session :: "nat \<Rightarrow> nat \<Rightarrow> nat \<Rightarrow> auth_db \<Rightarrow> auth_session option" where
  "find_session sid tn user s =
     first_row (filter (\<lambda>z. z_id z = sid \<and> z_owner_tenant z = tn \<and> z_user z = user) (session_rows s))"

definition touch_session :: "int \<Rightarrow> nat \<Rightarrow> auth_db \<Rightarrow> auth_db" where
  "touch_session now sid s = s\<lparr>session_rows := upd_where (\<lambda>z. z_id z = sid) (\<lambda>z. z\<lparr>z_seen := now\<rparr>) (session_rows s)\<rparr>"

text \<open>From the check of the account on; \<open>k\<close> is the row of the presented token.\<close>

definition rotate_token ::
  "auth_settings \<Rightarrow> int \<Rightarrow> string \<Rightarrow> nat \<Rightarrow> refresh_token \<Rightarrow> auth_db \<Rightarrow> auth_db \<Rightarrow>
     (app_error + access_claims \<times> string) \<times> auth_db" where
  "rotate_token cfg now opaque tn k s s1 =
     (case find_account tn (k_user k) s1 of
        None \<Rightarrow> (Inl (ApiError ''AUTH_USER_NOT_ACTIVE'' 401), revoke_family now tn (k_family k) ''user_inactive_or_deleted'' s1)
      | Some a \<Rightarrow>
          (if \<not> ac_active a
           then (Inl (ApiError ''AUTH_USER_NOT_ACTIVE'' 401), revoke_family now tn (k_family k) ''user_inactive_or_deleted'' s1)
           else if effective_role_names tn (ac_id a) s1 = [] then (Inl (ApiError ''ROLE_ASSIGNMENT_REQUIRED'' 403), s)
           else (let n = auth_next s1; raw = mint_refresh_token tn opaque;
                     s2 = (mark_rotated now k s1)\<lparr>auth_next := n + 2\<rparr>;
                     claims = access_token cfg now a (effective_role_names tn (ac_id a) s1) (k_session k) (uuid_str (n + 1))
                 in case store_refresh (refresh_row cfg now n tn (ac_id a) (k_family k) (k_session k) raw) s2 of
                      Inl e \<Rightarrow> (Inl e, s) | Inr s3 \<Rightarrow> (Inr (claims, raw), s3))))"

definition refresh ::
  "auth_settings \<Rightarrow> int \<Rightarrow> string \<Rightarrow> string \<Rightarrow> auth_db \<Rightarrow> (app_error + access_claims \<times> string) \<times> auth_db" where
  "refresh cfg now opaque raw s =
     (case extract_tenant raw of
        Inl e \<Rightarrow> (Inl e, s)
      | Inr tn \<Rightarrow> (case get_by_hash tn (token_hash cfg raw) s of
          None \<Rightarrow> (Inl invalid_refresh, s)
        | Some k \<Rightarrow>
            (if k_rotated k \<noteq> None
             then (Inl (ApiError ''REFRESH_TOKEN_REUSED'' 401), revoke_family now tn (k_family k) ''token_reuse_detected'' s)
             else if k_revoked k \<noteq> None then (Inl (ApiError ''REFRESH_TOKEN_REVOKED'' 401), s)
             else (case k_session k of
                 None \<Rightarrow>
                   (if k_expires k \<le> now then (Inl (ApiError ''REFRESH_TOKEN_EXPIRED'' 401), revoke_token now tn k ''expired'' s)
                    else rotate_token cfg now opaque tn k s s)
               | Some sid \<Rightarrow> (case find_session sid tn (k_user k) s of
                   None \<Rightarrow> (Inl (ApiError ''SESSION_REVOKED'' 401), s)
                 | Some z \<Rightarrow>
                     (if z_revoked z \<noteq> None then (Inl (ApiError ''SESSION_REVOKED'' 401), s)
                      else (let s1 = touch_session now sid s
                            in if k_expires k \<le> now
                               then (Inl (ApiError ''REFRESH_TOKEN_EXPIRED'' 401), revoke_token now tn k ''expired'' s1)
                               else rotate_token cfg now opaque tn k s s1)))))))"

section \<open>Ending sessions\<close>

definition deny_key :: "string \<Rightarrow> string" where "deny_key tok = ''jwt:deny:'' @ tok"

definition revoke_access_token :: "auth_settings \<Rightarrow> int \<Rightarrow> auth_context \<Rightarrow> string \<Rightarrow> auth_db \<Rightarrow> auth_db" where
  "revoke_access_token cfg now ax reason s =
     (let s1 = (if token_denied now (ax_tenant ax) (ax_token ax) s then s
                else s\<lparr>denied := denied s @ [\<lparr>v_tenant = ax_tenant ax, v_user = ax_user ax, v_token = ax_token ax,
                         v_denied_reason = reason, v_expires = now + access_minutes cfg * 60 + 30\<rparr>]\<rparr>)
      in if auth_redis_up s1
         then s1\<lparr>auth_redis := redis_setex now (deny_key (ax_token ax)) (access_minutes cfg * 60 + 30) ''1'' (auth_redis s1)\<rparr>
         else s1)"

text \<open>Without a session in the context, an error leaves the transaction to be rolled back; the Redis entry
  stays.  \<open>logout\<close> without a session and without a refresh token returns before any commit.\<close>

definition redis_only :: "auth_db \<Rightarrow> auth_db \<Rightarrow> auth_db" where
  "redis_only s s1 = s\<lparr>auth_redis := auth_redis s1\<rparr>"

definition logout ::
  "auth_settings \<Rightarrow> int \<Rightarrow> auth_context \<Rightarrow> string option \<Rightarrow> auth_db \<Rightarrow> (app_error + unit) \<times> auth_db" where
  "logout cfg now ax raw s =
     (let s1 = revoke_access_token cfg now ax ''logout'' s
      in case ax_session ax of
        Some sid \<Rightarrow>
          (case find_session sid (ax_tenant ax) (ax_user ax) s1 of
             None \<Rightarrow> (Inr (), s1)
           | Some z \<Rightarrow> (Inr (), if z_revoked z = None then revoke_family now (ax_tenant ax) (z_family z) ''logout'' s1 else s1))
      | None \<Rightarrow> (case raw of
          None \<Rightarrow> (Inr (), redis_only s s1)
        | Some r \<Rightarrow> (case extract_tenant r of
            Inl e \<Rightarrow> (Inl e, redis_only s s1)
          | Inr tn \<Rightarrow>
              (if tn \<noteq> ax_tenant ax then (Inl (ApiError ''TENANT_SCOPE_MISMATCH'' 403), redis_only s s1)
               else (case get_by_hash tn (token_hash cfg r) s1 of
                  None \<Rightarrow> (Inr (), redis_only s s1)
                | Some k \<Rightarrow>
                    (if k_user k \<noteq> ax_user ax then (Inl (ApiError ''FORBIDDEN'' 403), redis_only s s1)
                     else (let s2 = revoke_token now tn k ''logout'' s1
                           in (Inr (), case k_session k of None \<Rightarrow> s2
                                | Some sid \<Rightarrow> s2\<lparr>session_rows := upd_where (\<lambda>z. z_id z = sid \<and> z_user z = ax_user ax)
                                     (\<lambda>z. z\<lparr>z_revoked := Some now, z_reason := Some ''logout''\<rparr>) (session_rows s2)\<rparr>))))))))"

definition logout_all :: "auth_settings \<Rightarrow> int \<Rightarrow> auth_context \<Rightarrow> auth_db \<Rightarrow> (app_error + unit) \<times> auth_db" where
  "logout_all cfg now ax s =
     (case find_account (ax_tenant ax) (ax_user ax) s of
        None \<Rightarrow> (Inl (ApiError ''USER_NOT_FOUND'' 404), s)
      | Some a \<Rightarrow>
          (let s1 = upd_account (ac_id a) (\<lambda>a. a\<lparr>ac_version := ac_version a + 1\<rparr>) s;
               s2 = revoke_access_token cfg now ax ''logout_all'' s1;
               s3 = revoke_all_for_user now (ax_tenant ax) (ax_user ax) ''logout_all'' s2
           in (Inr (), close_sessions now ''logout_all'' (\<lambda>z. z_owner_tenant z = ax_tenant ax \<and> z_user z = ax_user ax) s3)))"

text \<open>\<open>AdminUserService\<close>: \<open>protected\<close> are the bootstrap administrators' addresses.\<close>

definition guard_target_user :: "string list \<Rightarrow> nat \<Rightarrow> nat \<Rightarrow> nat \<Rightarrow> bool \<Rightarrow> auth_db \<Rightarrow> app_error + account" where
  "guard_target_user protected tn target actor allow_self s =
     (case find_account tn target s of
        None \<Rightarrow> Inl (ApiError ''USER_NOT_FOUND'' 404)
      | Some a \<Rightarrow>
          (if \<not> allow_self \<and> ac_id a = actor then Inl (ApiError ''FORBIDDEN'' 403)
           else if is_platform_admin_email (ac_email a) protected then Inl (ApiError ''FORBIDDEN'' 403)
           else Inr a))"

definition disable_user :: "int \<Rightarrow> string list \<Rightarrow> nat \<Rightarrow> nat \<Rightarrow> nat \<Rightarrow> auth_db \<Rightarrow> (app_error + unit) \<times> auth_db" where
  "disable_user now protected tn target actor s =
     (case guard_target_user protected tn target actor False s of
        Inl e \<Rightarrow> (Inl e, s)
      | Inr a \<Rightarrow> (Inr (), revoke_all_for_user now tn (ac_id a) ''disabled_by_admin''
                    (upd_account (ac_id a) (\<lambda>a. a\<lparr>ac_active := False, ac_version := ac_version a + 1\<rparr>) s)))"

definition reactivate_user :: "string list \<Rightarrow> nat \<Rightarrow> nat \<Rightarrow> nat \<Rightarrow> auth_db \<Rightarrow> (app_error + unit) \<times> auth_db" where
  "reactivate_user protected tn target actor s =
     (case guard_target_user protected tn target actor True s of
        Inl e \<Rightarrow> (Inl e, s)
      | Inr a \<Rightarrow> (Inr (), upd_account (ac_id a) (\<lambda>a. a\<lparr>ac_active := True, ac_failed := 0, ac_locked := None\<rparr>) s))"

definition force_logout_user :: "int \<Rightarrow> string list \<Rightarrow> nat \<Rightarrow> nat \<Rightarrow> nat \<Rightarrow> auth_db \<Rightarrow> (app_error + unit) \<times> auth_db" where
  "force_logout_user now protected tn target actor s =
     (case guard_target_user protected tn target actor True s of
        Inl e \<Rightarrow> (Inl e, s)
      | Inr a \<Rightarrow> (Inr (), revoke_all_for_user now tn (ac_id a) ''forced_logout_by_admin''
                    (upd_account (ac_id a) (\<lambda>a. a\<lparr>ac_version := ac_version a + 1\<rparr>) s)))"

section \<open>Every request\<close>

definition jwt_revoked :: "int \<Rightarrow> nat \<Rightarrow> string \<Rightarrow> auth_db \<Rightarrow> bool" where
  "jwt_revoked now tn tok s =
     ((auth_redis_up s \<and> redis_get now (deny_key tok) (auth_redis s) \<noteq> None) \<or> token_denied now tn tok s)"

definition validate_live_user :: "nat \<Rightarrow> nat \<Rightarrow> auth_db \<Rightarrow> app_error + account" where
  "validate_live_user user tn s =
     (case find_account tn user s of
        None \<Rightarrow> Inl (ApiError ''USER_DISABLED'' 401)
      | Some a \<Rightarrow>
          (if \<not> ac_active a then Inl (ApiError ''USER_DISABLED'' 401)
           else (case map_of (auth_tenants s) tn of
               Some True \<Rightarrow> (if ac_tenant a \<noteq> tn then Inl (ApiError ''TENANT_SCOPE_MISMATCH'' 403) else Inr a)
             | _ \<Rightarrow> Inl (ApiError ''TENANT_DISABLED'' 403))))"

definition effective_roles :: "string list \<Rightarrow> string list \<Rightarrow> string list" where
  "effective_roles token_roles db_roles =
     (let eff = (if token_roles \<noteq> [] then filter (\<lambda>r. r \<in> set db_roles) token_roles else db_roles)
      in if eff = [] \<and> token_roles \<noteq> [] then token_roles else eff)"

definition build_auth_context ::
  "int \<Rightarrow> access_claims \<Rightarrow> nat option \<Rightarrow> auth_db \<Rightarrow> app_error + auth_context" where
  "build_auth_context now cm requested s =
     (if (case requested of None \<Rightarrow> False | Some tn \<Rightarrow> tn \<noteq> cm_tenant cm) then Inl (ApiError ''TENANT_SCOPE_MISMATCH'' 403)
      else if jwt_revoked now (cm_tenant cm) (cm_token cm) s then Inl (ApiError ''TOKEN_REVOKED'' 401)
      else (case validate_live_user (cm_user cm) (cm_tenant cm) s of
         Inl e \<Rightarrow> Inl e
       | Inr a \<Rightarrow>
           (if cm_version cm \<noteq> ac_version a then Inl (ApiError ''TOKEN_REVOKED'' 401)
            else if (case cm_session cm of None \<Rightarrow> False | Some sid \<Rightarrow>
                 filter (\<lambda>z. z_id z = sid \<and> z_owner_tenant z = cm_tenant cm \<and> z_user z = cm_user cm \<and> z_revoked z = None)
                   (session_rows s) = [])
            then Inl (ApiError ''SESSION_REVOKED'' 401)
            else (let token_roles = remdups (map canonicalize_role_name (filter (\<lambda>r. strip r \<noteq> []) (cm_roles cm)));
                      roles = effective_roles token_roles
                        (remdups (map canonicalize_role_name
                           (filter (\<lambda>r. strip r \<noteq> []) (role_names_for_user (cm_tenant cm) (cm_user cm) s))))
                  in Inr \<lparr>ax_user = cm_user cm, ax_tenant = cm_tenant cm, ax_roles = roles,
                          ax_permissions = resolve_permissions roles [], ax_token = cm_token cm, ax_session = cm_session cm\<rparr>))))"

section \<open>The invariant of the token tables\<close>

text \<open>What the rows promise: rows and families are told apart by their keys, a rotated token is also revoked,
  a family has at most one token that is not revoked, every token belongs to the session with its family,
  and a session that is not revoked has a token that is not revoked.\<close>

definition tokens_wf :: "auth_db \<Rightarrow> bool" where
  "tokens_wf s \<longleftrightarrow>
     (\<forall>k \<in> set (refresh_rows s). k_id k < auth_next s \<and> (k_rotated k \<noteq> None \<longrightarrow> k_revoked k \<noteq> None)) \<and>
     (\<forall>z \<in> set (session_rows s). z_id z < auth_next s \<and> z_family z < auth_next s) \<and>
     distinct (map k_id (refresh_rows s)) \<and>
     distinct (map (\<lambda>k. (k_tenant k, k_hash k)) (refresh_rows s)) \<and>
     distinct (map k_family (filter (\<lambda>k. k_revoked k = None) (refresh_rows s)))"

definition linked :: "auth_session \<Rightarrow> refresh_token \<Rightarrow> bool" where
  "linked z k \<longleftrightarrow> k_session k = Some (z_id z) \<and> k_family k = z_family z \<and> k_user k = z_user z \<and> k_tenant k = z_owner_tenant z"

definition links_wf :: "auth_db \<Rightarrow> bool" where
  "links_wf s \<longleftrightarrow>
     distinct (map z_id (session_rows s)) \<and> distinct (map z_family (session_rows s)) \<and>
     (\<forall>k \<in> set (refresh_rows s). \<exists>z \<in> set (session_rows s). linked z k) \<and>
     (\<forall>z \<in> set (session_rows s). z_revoked z = None \<longrightarrow>
        (\<exists>k \<in> set (refresh_rows s). k_family k = z_family z \<and> k_revoked k = None))"

definition sessions_wf :: "auth_db \<Rightarrow> bool" where
  "sessions_wf s \<longleftrightarrow> tokens_wf s \<and> links_wf s"

lemma filter_live_kill:
  assumes "\<And>k. k_revoked (f k) \<noteq> None"
  shows "filter (\<lambda>k. k_revoked k = None) (upd_where P f ks) = filter (\<lambda>k. k_revoked k = None \<and> \<not> P k) ks"
  using assms by (induction ks) auto

lemma tokens_wf_kill:
  assumes "tokens_wf s" and rows: "refresh_rows s' = upd_where P f (refresh_rows s)"
    and f: "\<And>k. k_id (f k) = k_id k \<and> k_tenant (f k) = k_tenant k \<and> k_hash (f k) = k_hash k \<and> k_revoked (f k) \<noteq> None"
    and sess: "map z_id (session_rows s') = map z_id (session_rows s)"
      "map z_family (session_rows s') = map z_family (session_rows s)" "auth_next s' = auth_next s"
  shows "tokens_wf s'"
proof -
  have zs: "(\<forall>z \<in> set (session_rows s'). z_id z < auth_next s') \<longleftrightarrow> (\<forall>n \<in> set (map z_id (session_rows s)). n < auth_next s)"
    "(\<forall>z \<in> set (session_rows s'). z_family z < auth_next s') \<longleftrightarrow> (\<forall>n \<in> set (map z_family (session_rows s)). n < auth_next s)"
    unfolding sess [symmetric] by auto
  have ids: "map k_id (refresh_rows s') = map k_id (refresh_rows s)"
    "map (\<lambda>k. (k_tenant k, k_hash k)) (refresh_rows s') = map (\<lambda>k. (k_tenant k, k_hash k)) (refresh_rows s)"
    unfolding rows by (rule map_upd_where_same; use f in simp)+
  have "distinct (map k_family (filter (\<lambda>k. k_revoked k = None) (filter (\<lambda>k. \<not> P k) (refresh_rows s))))"
    using assms(1) distinct_map_filter [of k_family "filter (\<lambda>k. k_revoked k = None) (refresh_rows s)" "\<lambda>k. \<not> P k"]
    by (simp add: tokens_wf_def conj_commute)
  then have live: "distinct (map k_family (filter (\<lambda>k. k_revoked k = None) (refresh_rows s')))"
    unfolding rows using f by (subst filter_live_kill) (auto simp: conj_commute)
  have "k_id k < auth_next s \<and> (k_rotated k \<noteq> None \<longrightarrow> k_revoked k \<noteq> None)" if "k \<in> set (refresh_rows s')" for k
    using that assms(1) f unfolding rows in_upd_where tokens_wf_def by (auto split: if_splits)
  with assms(1) show ?thesis using ids live zs sess(3) unfolding tokens_wf_def by simp
qed

lemma links_wf_kill:
  assumes "links_wf s" and rows: "refresh_rows s' = upd_where P f (refresh_rows s)"
    and sess: "session_rows s' = upd_where Q g (session_rows s)"
    and f: "\<And>k. k_session (f k) = k_session k \<and> k_tenant (f k) = k_tenant k \<and> k_family (f k) = k_family k \<and> k_user (f k) = k_user k"
    and g: "\<And>z. z_id (g z) = z_id z \<and> z_owner_tenant (g z) = z_owner_tenant z \<and> z_family (g z) = z_family z \<and> z_user (g z) = z_user z
              \<and> z_revoked (g z) \<noteq> None"
    and cover: "\<And>k z. \<lbrakk>k \<in> set (refresh_rows s); P k; z \<in> set (session_rows s); linked z k; z_revoked z = None\<rbrakk> \<Longrightarrow> Q z"
  shows "links_wf s'"
proof -
  have ids: "map z_id (session_rows s') = map z_id (session_rows s)"
    "map z_family (session_rows s') = map z_family (session_rows s)"
    unfolding sess by (rule map_upd_where_same; use g in simp)+
  have lk: "linked (if Q z then g z else z) (if P k then f k else k) = linked z k" for z k
    using f g by (simp add: linked_def)
  have "\<exists>z \<in> set (session_rows s'). linked z k" if "k \<in> set (refresh_rows s')" for k
  proof -
    obtain k0 where k0: "k0 \<in> set (refresh_rows s)" "k = (if P k0 then f k0 else k0)"
      using \<open>k \<in> set (refresh_rows s')\<close> by (auto simp: rows in_upd_where)
    then obtain z where "z \<in> set (session_rows s)" "linked z k0" using assms(1) by (auto simp: links_wf_def)
    then have "(if Q z then g z else z) \<in> set (session_rows s')" "linked (if Q z then g z else z) k"
      unfolding k0(2) lk by (auto simp: sess in_upd_where)
    then show ?thesis by blast
  qed
  moreover have "\<exists>k \<in> set (refresh_rows s'). k_family k = z_family z \<and> k_revoked k = None"
    if z: "z \<in> set (session_rows s')" "z_revoked z = None" for z
  proof -
    have "\<And>y. z_revoked (g y) \<noteq> None" using g by blast
    then have z0: "z \<in> set (session_rows s)" "\<not> Q z" using z unfolding sess in_upd_where by metis+
    then obtain k where k: "k \<in> set (refresh_rows s)" "k_family k = z_family z" "k_revoked k = None"
      using assms(1) z(2) by (auto simp: links_wf_def)
    then obtain z1 where z1: "z1 \<in> set (session_rows s)" "linked z1 k" using assms(1) by (auto simp: links_wf_def)
    then have "z1 = z" using assms(1) z0(1) k(2) by (auto simp: links_wf_def linked_def dest: distinct_map_inj)
    then have "\<not> P k" using cover [of k z] k z1 z0 z(2) by blast
    then have "k \<in> set (refresh_rows s')" using k(1) unfolding rows in_upd_where by (intro bexI [of _ k]) simp_all
    with k show ?thesis by blast
  qed
  ultimately show ?thesis using assms(1) ids by (simp add: links_wf_def)
qed

lemma sessions_wf_kill:
  assumes "sessions_wf s" and "refresh_rows s' = upd_where P f (refresh_rows s)"
    and "session_rows s' = upd_where Q g (session_rows s)" and "auth_next s' = auth_next s"
    and "\<And>k. k_id (f k) = k_id k \<and> k_tenant (f k) = k_tenant k \<and> k_hash (f k) = k_hash k \<and> k_revoked (f k) \<noteq> None
              \<and> k_session (f k) = k_session k \<and> k_family (f k) = k_family k \<and> k_user (f k) = k_user k"
    and g: "\<And>z. z_id (g z) = z_id z \<and> z_owner_tenant (g z) = z_owner_tenant z \<and> z_family (g z) = z_family z \<and> z_user (g z) = z_user z
              \<and> z_revoked (g z) \<noteq> None"
    and "\<And>k z. \<lbrakk>k \<in> set (refresh_rows s); P k; z \<in> set (session_rows s); linked z k; z_revoked z = None\<rbrakk> \<Longrightarrow> Q z"
  shows "sessions_wf s'"
proof -
  have "map z_id (session_rows s') = map z_id (session_rows s)"
    "map z_family (session_rows s') = map z_family (session_rows s)"
    unfolding assms(3) by (rule map_upd_where_same; use g in simp)+
  then have "tokens_wf s'" using tokens_wf_kill [of s s' P f] assms by (auto simp: sessions_wf_def)
  moreover have "links_wf s'" using links_wf_kill [of s s' P f Q g] assms by (auto simp: sessions_wf_def)
  ultimately show ?thesis by (simp add: sessions_wf_def)
qed

lemma sessions_wf_frame:
  assumes "sessions_wf s" and "refresh_rows s' = refresh_rows s" and "session_rows s' = session_rows s"
    and "auth_next s' = auth_next s"
  shows "sessions_wf s'"
  using assms by (simp add: sessions_wf_def tokens_wf_def links_wf_def)

lemma upd_account_frame [scope_frame]:
  "refresh_rows (upd_account u f s) = refresh_rows s" "session_rows (upd_account u f s) = session_rows s"
  "auth_next (upd_account u f s) = auth_next s" "denied (upd_account u f s) = denied s"
  by (simp_all add: upd_account_def)

lemma revoke_access_token_frame [scope_frame]:
  "refresh_rows (revoke_access_token cfg now ax r s) = refresh_rows s"
  "session_rows (revoke_access_token cfg now ax r s) = session_rows s"
  "auth_next (revoke_access_token cfg now ax r s) = auth_next s"
  "accounts (revoke_access_token cfg now ax r s) = accounts s"
  by (simp_all add: revoke_access_token_def Let_def)

lemma redis_only_frame [scope_frame]:
  "refresh_rows (redis_only s s1) = refresh_rows s" "session_rows (redis_only s s1) = session_rows s"
  "auth_next (redis_only s s1) = auth_next s" "accounts (redis_only s s1) = accounts s"
  by (simp_all add: redis_only_def)

lemma ball_upd_where:
  "(\<And>x. Q (f x) = Q x) \<Longrightarrow> (\<forall>x \<in> set (upd_where P f xs). Q x) \<longleftrightarrow> (\<forall>x \<in> set xs. Q x)"
  by (induction xs) auto

lemma bex_upd_where:
  "(\<And>x. Q (f x) = Q x) \<Longrightarrow> (\<exists>x \<in> set (upd_where P f xs). Q x) \<longleftrightarrow> (\<exists>x \<in> set xs. Q x)"
  by (induction xs) auto

lemma all_upd_where:
  "\<lbrakk>\<And>x. P x \<Longrightarrow> R (f x); \<And>x. \<not> P x \<Longrightarrow> R x\<rbrakk> \<Longrightarrow> \<forall>x \<in> set (upd_where P f xs). R x"
  by (induction xs) auto

lemma upd_where_cong: "(\<And>x. x \<in> set xs \<Longrightarrow> P x = Q x) \<Longrightarrow> upd_where P f xs = upd_where Q f xs"
  by (simp add: upd_where_def)

lemma sessions_wf_touch:
  assumes "sessions_wf s"
  shows "sessions_wf (touch_session now sid s)"
proof -
  have m: "map g (session_rows (touch_session now sid s)) = map g (session_rows s)"
    if "\<And>z. g (z\<lparr>z_seen := now\<rparr>) = g z" for g :: "auth_session \<Rightarrow> nat"
    using that by (simp add: touch_session_def map_upd_where_same)
  have sw: "(\<forall>z \<in> set (session_rows (touch_session now sid s)). Q z) \<longleftrightarrow> (\<forall>z \<in> set (session_rows s). Q z)"
    "(\<exists>z \<in> set (session_rows (touch_session now sid s)). Q z) \<longleftrightarrow> (\<exists>z \<in> set (session_rows s). Q z)"
    if "\<And>z. Q (z\<lparr>z_seen := now\<rparr>) = Q z" for Q
    using that by (simp_all add: touch_session_def ball_upd_where bex_upd_where)
  have "refresh_rows (touch_session now sid s) = refresh_rows s" "auth_next (touch_session now sid s) = auth_next s"
    by (simp_all add: touch_session_def)
  with assms show ?thesis
    by (simp add: sessions_wf_def tokens_wf_def links_wf_def linked_def m sw)
qed

lemma touch_session_frame [scope_frame]:
  "refresh_rows (touch_session now sid s) = refresh_rows s" "auth_next (touch_session now sid s) = auth_next s"
  "accounts (touch_session now sid s) = accounts s" "role_rows (touch_session now sid s) = role_rows s"
  by (simp_all add: touch_session_def)

lemma revoke_family_rows:
  "refresh_rows (revoke_family now tn fam r s) = upd_where (\<lambda>k. k_tenant k = tn \<and> k_family k = fam \<and> k_revoked k = None)
     (\<lambda>k. k\<lparr>k_revoked := Some now, k_reason := Some r\<rparr>) (refresh_rows s)"
  "session_rows (revoke_family now tn fam r s) = upd_where (\<lambda>z. z_owner_tenant z = tn \<and> z_family z = fam \<and> z_revoked z = None)
     (\<lambda>z. z\<lparr>z_revoked := Some now, z_reason := Some r\<rparr>) (session_rows s)"
  "auth_next (revoke_family now tn fam r s) = auth_next s"
  "accounts (revoke_family now tn fam r s) = accounts s"
  by (simp_all add: revoke_family_def close_sessions_def revoke_tokens_def)

lemma revoke_all_rows:
  "refresh_rows (revoke_all_for_user now tn user r s) = upd_where (\<lambda>k. k_tenant k = tn \<and> k_user k = user \<and> k_revoked k = None)
     (\<lambda>k. k\<lparr>k_revoked := Some now, k_reason := Some r\<rparr>) (refresh_rows s)"
  "session_rows (revoke_all_for_user now tn user r s) =
     upd_where (\<lambda>z. z_owner_tenant z = tn \<and> z_user z = user \<and> z_revoked z = None)
       (\<lambda>z. z\<lparr>z_revoked := Some now, z_reason := Some r\<rparr>) (session_rows s)"
  "auth_next (revoke_all_for_user now tn user r s) = auth_next s"
  "accounts (revoke_all_for_user now tn user r s) = accounts s"
  by (simp_all add: revoke_all_for_user_def close_sessions_def revoke_tokens_def)

lemma sessions_wf_revoke_family:
  "sessions_wf s \<Longrightarrow> sessions_wf (revoke_family now tn fam reason s)"
  by (rule sessions_wf_kill [OF _ revoke_family_rows(1-3)]) (auto simp: linked_def)

lemma sessions_wf_revoke_all:
  "sessions_wf s \<Longrightarrow> sessions_wf (revoke_all_for_user now tn user reason s)"
  by (rule sessions_wf_kill [OF _ revoke_all_rows(1-3)]) (auto simp: linked_def)

lemma sessions_wf_close:
  assumes "sessions_wf s"
  shows "sessions_wf (s\<lparr>session_rows := upd_where Q (\<lambda>z. z\<lparr>z_revoked := Some now, z_reason := Some r\<rparr>) (session_rows s)\<rparr>)"
  by (rule sessions_wf_kill [where s = s and P = "\<lambda>_. False" and f = "\<lambda>k. k\<lparr>k_revoked := Some now\<rparr>"])
     (auto simp: assms upd_where_none)

lemma sessions_wf_close_sessions: "sessions_wf s \<Longrightarrow> sessions_wf (close_sessions now r Q s)"
  by (simp add: close_sessions_def sessions_wf_close)

lemma sessions_wf_revoke_token:
  assumes "sessions_wf s" and k: "k \<in> set (refresh_rows s)" "k_tenant k = tn"
  shows "sessions_wf (revoke_token now tn k reason s)"
proof -
  obtain z where z: "z \<in> set (session_rows s)" and link: "linked z k"
    using assms by (auto simp: sessions_wf_def links_wf_def)
  have ids: "x = z" if "x \<in> set (session_rows s)" "z_id x = z_id z" for x
    using that z assms(1) by (auto simp: sessions_wf_def links_wf_def dest: distinct_map_inj)
  have sid: "k_session k = Some (z_id z)" using link by (simp add: linked_def)
  have same: "x = k" if "x \<in> set (refresh_rows s)" "k_id x = k_id k" for x
    using that assms by (auto simp: sessions_wf_def tokens_wf_def dest: distinct_map_inj)
  have rows: "refresh_rows (revoke_token now tn k reason s) = upd_where (\<lambda>x. k_id x = k_id k)
      (\<lambda>x. x\<lparr>k_revoked := (case k_revoked x of None \<Rightarrow> Some now | t \<Rightarrow> t), k_reason := Some reason\<rparr>) (refresh_rows s)"
    "session_rows (revoke_token now tn k reason s) =
      upd_where (\<lambda>x. x = z \<and> z_revoked x = None) (\<lambda>z. z\<lparr>z_revoked := Some now, z_reason := Some reason\<rparr>) (session_rows s)"
    "auth_next (revoke_token now tn k reason s) = auth_next s"
    using k(2) sid link ids z
    by (auto simp: revoke_token_def close_sessions_def Let_def linked_def intro!: upd_where_cong)
  show ?thesis
    by (rule sessions_wf_kill [OF assms(1) rows]) (auto split: option.splits dest!: same simp: sid linked_def intro: ids)
qed

section \<open>Reachable states\<close>

lemma store_refresh_Inr:
  "store_refresh k s = Inr s' \<longleftrightarrow>
     get_by_hash (k_tenant k) (k_hash k) s = None \<and> s' = s\<lparr>refresh_rows := refresh_rows s @ [k]\<rparr>"
  by (auto simp: store_refresh_def)

lemma get_by_hash_None: "get_by_hash tn h s = None \<longleftrightarrow> (tn, h) \<notin> (\<lambda>k. (k_tenant k, k_hash k)) ` set (refresh_rows s)"
  by (auto simp: get_by_hash_def filter_empty_conv)

lemma get_by_hash_Some: "get_by_hash tn h s = Some k \<Longrightarrow> k \<in> set (refresh_rows s) \<and> k_tenant k = tn \<and> k_hash k = h"
  unfolding get_by_hash_def using first_row_in by fastforce

lemma get_by_hash_unique:
  assumes "tokens_wf s" and "k \<in> set (refresh_rows s)"
  shows "get_by_hash (k_tenant k) (k_hash k) s = Some k"
proof -
  obtain k' where k': "get_by_hash (k_tenant k) (k_hash k) s = Some k'"
    using assms(2) by (cases "get_by_hash (k_tenant k) (k_hash k) s") (auto simp: get_by_hash_None)
  then have "k' = k" using get_by_hash_Some [OF k'] assms by (auto simp: tokens_wf_def dest: distinct_map_inj)
  with k' show ?thesis by simp
qed

definition rotated_row :: "int \<Rightarrow> refresh_token \<Rightarrow> refresh_token" where
  "rotated_row now k = k\<lparr>k_rotated := Some now, k_revoked := Some now, k_reason := Some ''rotated''\<rparr>"

lemma mark_rotated_rows:
  "refresh_rows (mark_rotated now k s) = upd_where (\<lambda>x. k_id x = k_id k) (rotated_row now) (refresh_rows s)"
  "session_rows (mark_rotated now k s) = session_rows s" "accounts (mark_rotated now k s) = accounts s"
  "role_rows (mark_rotated now k s) = role_rows s" "auth_next (mark_rotated now k s) = auth_next s"
  by (simp_all add: mark_rotated_def rotated_row_def [abs_def])

lemma keys_mark_rotated:
  "map k_id (refresh_rows (mark_rotated now k s)) = map k_id (refresh_rows s)"
  "map (\<lambda>k. (k_tenant k, k_hash k)) (refresh_rows (mark_rotated now k s)) = map (\<lambda>k. (k_tenant k, k_hash k)) (refresh_rows s)"
  unfolding mark_rotated_rows by (rule map_upd_where_same; simp add: rotated_row_def)+

lemma get_by_hash_mark_rotated:
  "get_by_hash tn h (mark_rotated now k s) = None \<longleftrightarrow> get_by_hash tn h s = None"
  unfolding get_by_hash_None set_map [symmetric] keys_mark_rotated ..

lemma live_after_rotation:
  assumes "tokens_wf s" and "k \<in> set (refresh_rows s)" "k_revoked k = None"
  shows "filter (\<lambda>x. k_revoked x = None \<and> k_family x = k_family k) (upd_where (\<lambda>x. k_id x = k_id k) (rotated_row now) (refresh_rows s)) = []"
proof -
  have "x = k" if "x \<in> set (refresh_rows s)" "k_revoked x = None" "k_family x = k_family k" for x
    using assms distinct_map_inj [of k_family "filter (\<lambda>k. k_revoked k = None) (refresh_rows s)" x k] that
    by (simp add: tokens_wf_def)
  then have "\<not> (k_revoked y = None \<and> k_family y = k_family k)" if "y \<in> set (refresh_rows s)" "k_id y \<noteq> k_id k" for y
    using that by blast
  moreover have "k_revoked (rotated_row now y) \<noteq> None" for y by (simp add: rotated_row_def)
  ultimately have "\<not> (k_revoked (if k_id y = k_id k then rotated_row now y else y) = None
      \<and> k_family (if k_id y = k_id k then rotated_row now y else y) = k_family k)" if "y \<in> set (refresh_rows s)" for y
    using that by (cases "k_id y = k_id k") simp_all
  then show ?thesis by (simp only: filter_empty_conv upd_where_def set_map ball_simps) blast
qed

lemma sessions_wf_rotation:
  assumes "sessions_wf s" and k: "k \<in> set (refresh_rows s)" "k_revoked k = None"
    and rows: "refresh_rows s' = upd_where (\<lambda>x. k_id x = k_id k) (rotated_row now) (refresh_rows s) @ [k']"
    and sess: "session_rows s' = session_rows s" and nxt: "auth_next s \<le> k_id k'" "k_id k' < auth_next s'"
    and k': "k_tenant k' = k_tenant k" "k_user k' = k_user k" "k_session k' = k_session k" "k_family k' = k_family k"
      "k_rotated k' = None" "k_revoked k' = None" "get_by_hash (k_tenant k') (k_hash k') s = None"
  shows "sessions_wf s'"
proof -
  let ?rows = "upd_where (\<lambda>x. k_id x = k_id k) (rotated_row now) (refresh_rows s)"
  have ids: "map k_id ?rows = map k_id (refresh_rows s)"
    "map (\<lambda>k. (k_tenant k, k_hash k)) ?rows = map (\<lambda>k. (k_tenant k, k_hash k)) (refresh_rows s)"
    by (rule map_upd_where_same; simp add: rotated_row_def)+
  have wf: "tokens_wf s" "links_wf s" using assms(1) by (simp_all add: sessions_wf_def)
  have kill: "tokens_wf (mark_rotated now k s)"
    by (rule tokens_wf_kill [OF wf(1) mark_rotated_rows(1)]) (simp_all add: mark_rotated_rows rotated_row_def)
  have "k_id k' \<notin> set (map k_id ?rows)" unfolding ids using wf(1) nxt(1) by (auto simp: tokens_wf_def)
  moreover have "(k_tenant k', k_hash k') \<notin> set (map (\<lambda>k. (k_tenant k, k_hash k)) ?rows)"
    unfolding ids using k'(7) by (simp add: get_by_hash_None)
  moreover have "k_family k' \<notin> set (map k_family (filter (\<lambda>k. k_revoked k = None) ?rows))"
    using live_after_rotation [OF wf(1) k, of now] k'(4) by (auto simp: filter_empty_conv)
  ultimately have "tokens_wf s'"
    using kill k' nxt by (auto simp: tokens_wf_def rows sess mark_rotated_rows)
  moreover have "links_wf s'"
  proof -
    have lk: "linked z (rotated_row now x) = linked z x" for z x by (simp add: linked_def rotated_row_def)
    have "\<exists>z \<in> set (session_rows s). linked z x" if "x \<in> set ?rows" for x
      using that wf(2) lk by (auto simp: links_wf_def in_upd_where split: if_splits)
    moreover have "\<exists>z \<in> set (session_rows s). linked z k'" using k(1) k' wf(2) by (auto simp: links_wf_def linked_def)
    moreover have "\<exists>x \<in> set ?rows \<union> {k'}. k_family x = z_family z \<and> k_revoked x = None"
      if z: "z \<in> set (session_rows s)" "z_revoked z = None" for z
    proof -
      obtain x where x: "x \<in> set (refresh_rows s)" "k_family x = z_family z" "k_revoked x = None"
        using z wf(2) by (auto simp: links_wf_def)
      show ?thesis
      proof (cases "k_id x = k_id k")
        case True
        then have "x = k" using x(1) k(1) wf(1) by (auto simp: tokens_wf_def dest: distinct_map_inj)
        with x k' show ?thesis by auto
      next
        case False
        then have "x \<in> set ?rows" using x(1) unfolding in_upd_where by (intro bexI [of _ x]) simp_all
        with x show ?thesis by blast
      qed
    qed
    ultimately show ?thesis using wf(2) by (auto simp: links_wf_def rows sess)
  qed
  ultimately show ?thesis by (simp add: sessions_wf_def)
qed

lemma sessions_wf_new_session:
  assumes "sessions_wf s" and "refresh_rows s' = refresh_rows s @ [k]" and "session_rows s' = session_rows s @ [z]"
    and "linked z k" "k_rotated k = None" "k_revoked k = None" "get_by_hash (k_tenant k) (k_hash k) s = None"
    and "auth_next s \<le> k_id k" "auth_next s \<le> z_id z" "auth_next s \<le> z_family z"
      "k_id k < auth_next s'" "z_id z < auth_next s'" "z_family z < auth_next s'" "auth_next s \<le> auth_next s'"
  shows "sessions_wf s'"
proof -
  have wf: "tokens_wf s" "links_wf s" using assms(1) by (simp_all add: sessions_wf_def)
  have fam: "k_family x < auth_next s" if x: "x \<in> set (refresh_rows s)" for x
    using x wf by (auto simp: tokens_wf_def links_wf_def linked_def)
  have "tokens_wf s'"
    using wf(1) assms(2-) fam by (fastforce simp: tokens_wf_def get_by_hash_None linked_def)
  moreover have "links_wf s'"
    using wf assms(2-) by (fastforce simp: tokens_wf_def links_wf_def linked_def)
  ultimately show ?thesis by (simp add: sessions_wf_def)
qed

lemma sessions_wf_rotate:
  assumes "sessions_wf s" and k: "k \<in> set (refresh_rows s)" "k_revoked k = None" "k_tenant k = tn"
    and s1: "s1 = s \<or> s1 = touch_session now sid s" and "rotate_token cfg now opaque tn k s s1 = (r, s')"
  shows "sessions_wf s'"
proof -
  have wf1: "sessions_wf s1" using assms(1) s1 sessions_wf_touch by auto
  have k1: "k \<in> set (refresh_rows s1)" using k(1) s1 by (auto simp: scope_frame)
  show ?thesis
  proof (cases "\<exists>e. r = Inl e")
    case True
    then show ?thesis using assms(6) assms(1) sessions_wf_revoke_family [OF wf1]
      by (auto simp: rotate_token_def Let_def split: option.splits if_splits sum.splits)
  next
    case False
    then obtain a where a: "find_account tn (k_user k) s1 = Some a" and s': "s' = (mark_rotated now k s1)\<lparr>auth_next := auth_next s1 + 2,
        refresh_rows := refresh_rows (mark_rotated now k s1) @
          [refresh_row cfg now (auth_next s1) tn (ac_id a) (k_family k) (k_session k) (mint_refresh_token tn opaque)]\<rparr>"
      and new: "get_by_hash tn (token_hash cfg (mint_refresh_token tn opaque)) ((mark_rotated now k s1)\<lparr>auth_next := auth_next s1 + 2\<rparr>) = None"
      using assms(6) by (auto simp: rotate_token_def Let_def store_refresh_Inr refresh_row_def split: option.splits if_splits sum.splits)
    have user: "ac_id a = k_user k" using first_row_in [OF a [unfolded find_account_def]] by simp
    have new1: "get_by_hash tn (token_hash cfg (mint_refresh_token tn opaque)) s1 = None"
      using new get_by_hash_mark_rotated by (simp add: get_by_hash_def)
    show ?thesis
      by (rule sessions_wf_rotation [OF wf1 k1 k(2), where now = now and k' = "refresh_row cfg now (auth_next s1) tn (ac_id a)
            (k_family k) (k_session k) (mint_refresh_token tn opaque)"])
         (use k user new1 in \<open>simp_all add: s' mark_rotated_rows refresh_row_def\<close>)
  qed
qed

lemma sessions_wf_refresh:
  assumes "sessions_wf s" and "refresh cfg now opaque raw s = (r, s')"
  shows "sessions_wf s'"
proof (cases "extract_tenant raw")
  case (Inr tn)
  show ?thesis
  proof (cases "get_by_hash tn (token_hash cfg raw) s")
    case (Some k)
    have k: "k \<in> set (refresh_rows s)" "k_tenant k = tn" using get_by_hash_Some [OF Some] by auto
    have exp: "sessions_wf (revoke_token now tn k r1 s1)" if "s1 = s \<or> s1 = touch_session now sid s" for s1 sid r1
      using that sessions_wf_revoke_token [OF assms(1) k] sessions_wf_revoke_token [OF sessions_wf_touch [OF assms(1)], of k]
        k by (auto simp: scope_frame)
    have rot: "sessions_wf s'" if "rotate_token cfg now opaque tn k s s = (r, s')" "k_revoked k = None"
      using sessions_wf_rotate [OF assms(1) k(1) that(2) k(2) _ that(1)] by blast
    have rot1: "sessions_wf s'" if "rotate_token cfg now opaque tn k s (touch_session now sid s) = (r, s')" "k_revoked k = None" for sid
      using sessions_wf_rotate [OF assms(1) k(1) that(2) k(2) _ that(1)] by blast
    show ?thesis
      using assms exp rot rot1 sessions_wf_revoke_family [OF assms(1)]
      by (auto simp: refresh_def Inr Some Let_def split: if_splits option.splits)
  qed (use assms Inr in \<open>simp add: refresh_def\<close>)
qed (use assms in \<open>simp add: refresh_def\<close>)

lemma sessions_wf_login:
  assumes "sessions_wf s" and "complete_login cfg now opaque a s = (r, s')"
  shows "sessions_wf s'"
proof -
  let ?n = "auth_next s" and ?raw = "mint_refresh_token (ac_tenant a) opaque"
  let ?z = "\<lparr>z_id = ?n, z_owner_tenant = ac_tenant a, z_user = ac_id a, z_family = ?n + 1, z_seen = now, z_revoked = None, z_reason = None\<rparr>"
  let ?k = "refresh_row cfg now (?n + 3) (ac_tenant a) (ac_id a) (?n + 1) (Some ?n) ?raw"
  have "s' = s \<or> get_by_hash (k_tenant ?k) (k_hash ?k) s = None \<and> refresh_rows s' = refresh_rows s @ [?k]
      \<and> session_rows s' = session_rows s @ [?z] \<and> auth_next s' = ?n + 4"
    using assms(2)
    by (auto simp: complete_login_def Let_def store_refresh_def scope_frame get_by_hash_def split: if_splits sum.splits)
  then show ?thesis
    using assms(1) sessions_wf_new_session [of s s' ?k ?z] by (auto simp: refresh_row_def linked_def)
qed

lemma sessions_wf_logout:
  assumes "sessions_wf s" and "logout cfg now ax raw s = (r, s')"
  shows "sessions_wf s'"
proof -
  define s1 where "s1 = revoke_access_token cfg now ax ''logout'' s"
  have wf1: "sessions_wf s1" "sessions_wf (redis_only s s1)"
    using assms(1) by (auto intro: sessions_wf_frame simp: s1_def scope_frame)
  show ?thesis
    using assms(2) wf1 sessions_wf_revoke_family [OF wf1(1)] sessions_wf_revoke_token [OF wf1(1)] get_by_hash_Some
    by (fastforce simp: logout_def s1_def [symmetric] Let_def sessions_wf_close split: option.splits if_splits sum.splits)
qed

text \<open>Every operation on the token tables, and what else happens around them: registration and role changes
  touch accounts, tenants and roles, and the cache comes and goes.\<close>

inductive auth_step :: "auth_settings \<Rightarrow> auth_db \<Rightarrow> auth_db \<Rightarrow> bool" for cfg where
  login: "\<lbrakk>find_account tn user s = Some a; complete_login cfg now opaque a s = (r, s')\<rbrakk> \<Longrightarrow> auth_step cfg s s'"
| refreshed: "refresh cfg now opaque raw s = (r, s') \<Longrightarrow> auth_step cfg s s'"
| logged_out: "logout cfg now ax tok s = (r, s') \<Longrightarrow> auth_step cfg s s'"
| logged_out_all: "logout_all cfg now ax s = (r, s') \<Longrightarrow> auth_step cfg s s'"
| disabled: "disable_user now protected tn target actor s = (r, s') \<Longrightarrow> auth_step cfg s s'"
| reactivated: "reactivate_user protected tn target actor s = (r, s') \<Longrightarrow> auth_step cfg s s'"
| forced_out: "force_logout_user now protected tn target actor s = (r, s') \<Longrightarrow> auth_step cfg s s'"
| elsewhere: "s' = s\<lparr>accounts := ac, auth_tenants := ts, role_rows := rr, denied := dn, auth_redis := rd, auth_redis_up := up\<rparr>
    \<Longrightarrow> auth_step cfg s s'"

inductive auth_reachable :: "auth_settings \<Rightarrow> auth_db \<Rightarrow> bool" for cfg where
  start: "\<lbrakk>refresh_rows s = []; session_rows s = []\<rbrakk> \<Longrightarrow> auth_reachable cfg s"
| step: "\<lbrakk>auth_reachable cfg s; auth_step cfg s s'\<rbrakk> \<Longrightarrow> auth_reachable cfg s'"

lemma logout_all_success:
  assumes "find_account (ax_tenant ax) (ax_user ax) s = Some a"
  shows "\<exists>s2. logout_all cfg now ax s = (Inr (), s2) \<and> refresh_rows s2 = refresh_rows (revoke_all_for_user now (ax_tenant ax) (ax_user ax) ''logout_all'' s)
    \<and> session_rows s2 = session_rows (revoke_all_for_user now (ax_tenant ax) (ax_user ax) ''logout_all'' s)
    \<and> auth_next s2 = auth_next s \<and> accounts s2 = accounts (upd_account (ac_id a) (\<lambda>a. a\<lparr>ac_version := ac_version a + 1\<rparr>) s)"
proof -
  have "upd_where (\<lambda>z. (z_owner_tenant z = tn \<and> z_user z = u) \<and> z_revoked z = None) g
      (upd_where (\<lambda>z. z_owner_tenant z = tn \<and> z_user z = u \<and> z_revoked z = None) (\<lambda>z. z\<lparr>z_revoked := Some now, z_reason := Some r\<rparr>) zs)
     = upd_where (\<lambda>z. z_owner_tenant z = tn \<and> z_user z = u \<and> z_revoked z = None) (\<lambda>z. z\<lparr>z_revoked := Some now, z_reason := Some r\<rparr>) zs"
    for tn u g r zs by (induction zs) auto
  with assms show ?thesis
    by (simp add: logout_all_def Let_def close_sessions_def revoke_all_rows scope_frame)
qed

lemma sessions_wf_logout_all:
  assumes "sessions_wf s" and "logout_all cfg now ax s = (r, s')"
  shows "sessions_wf s'"
proof (cases "find_account (ax_tenant ax) (ax_user ax) s")
  case (Some a)
  obtain s2 where s2: "logout_all cfg now ax s = (Inr (), s2)"
    "refresh_rows s2 = refresh_rows (revoke_all_for_user now (ax_tenant ax) (ax_user ax) ''logout_all'' s)"
    "session_rows s2 = session_rows (revoke_all_for_user now (ax_tenant ax) (ax_user ax) ''logout_all'' s)"
    "auth_next s2 = auth_next s"
    using logout_all_success [OF Some] by blast
  then have "sessions_wf s2"
    using sessions_wf_frame [OF sessions_wf_revoke_all [OF assms(1)], of s2] by (simp add: revoke_all_rows)
  with s2(1) assms(2) show ?thesis by simp
qed (use assms in \<open>simp add: logout_all_def\<close>)

lemma sessions_wf_admin:
  assumes "sessions_wf s"
  shows "disable_user now protected tn target actor s = (r, s') \<Longrightarrow> sessions_wf s'"
    and "reactivate_user protected tn target actor s = (r, s') \<Longrightarrow> sessions_wf s'"
    and "force_logout_user now protected tn target actor s = (r, s') \<Longrightarrow> sessions_wf s'"
proof -
  have up: "sessions_wf (upd_account u f s)" for u f using assms by (rule sessions_wf_frame) (simp_all add: scope_frame)
  note ra = sessions_wf_revoke_all [OF up]
  show "disable_user now protected tn target actor s = (r, s') \<Longrightarrow> sessions_wf s'"
    using assms ra by (auto simp: disable_user_def split: sum.splits)
  show "reactivate_user protected tn target actor s = (r, s') \<Longrightarrow> sessions_wf s'"
    using assms up by (auto simp: reactivate_user_def split: sum.splits)
  show "force_logout_user now protected tn target actor s = (r, s') \<Longrightarrow> sessions_wf s'"
    using assms ra by (auto simp: force_logout_user_def split: sum.splits)
qed

lemma sessions_wf_step: "auth_step cfg s s' \<Longrightarrow> sessions_wf s \<Longrightarrow> sessions_wf s'"
proof (induction rule: auth_step.induct)
  case (elsewhere s' s ac ts rr dn rd up)
  then show ?case by (auto intro: sessions_wf_frame)
qed (auto intro: sessions_wf_login sessions_wf_refresh sessions_wf_logout sessions_wf_logout_all sessions_wf_admin)

lemma reachable_sessions_wf: "auth_reachable cfg s \<Longrightarrow> sessions_wf s"
proof (induction rule: auth_reachable.induct)
  case (start s)
  then show ?case by (simp add: sessions_wf_def tokens_wf_def links_wf_def)
qed (rule sessions_wf_step)

text \<open>C6. Whatever logins, refreshes (also of stolen or old tokens), logouts and administrator actions happen
  in whatever order, a token family never has two usable refresh tokens; every session that is not revoked
  has exactly one, which carries the session's user and tenant; and a rotated token is always revoked.\<close>

theorem one_live_token_per_session:
  assumes "auth_reachable cfg s"
  shows "length (filter (\<lambda>k. k_family k = fam \<and> k_revoked k = None) (refresh_rows s)) \<le> 1
    \<and> (\<forall>z \<in> set (session_rows s). z_revoked z = None \<longrightarrow>
        (\<exists>k. filter (\<lambda>k. k_family k = z_family z \<and> k_revoked k = None) (refresh_rows s) = [k] \<and> linked z k))
    \<and> (\<forall>k \<in> set (refresh_rows s). k_rotated k \<noteq> None \<longrightarrow> k_revoked k \<noteq> None)"
proof -
  have wf: "tokens_wf s" "links_wf s" using reachable_sessions_wf [OF assms] by (simp_all add: sessions_wf_def)
  have one: "length (filter (\<lambda>k. k_family k = f \<and> k_revoked k = None) (refresh_rows s)) \<le> 1" for f
    using inj_on_distinct_filter [of k_family "filter (\<lambda>k. k_revoked k = None) (refresh_rows s)" f "\<lambda>_. True"] wf(1)
    by (simp add: tokens_wf_def conj_commute)
  have "\<exists>k. filter (\<lambda>k. k_family k = z_family z \<and> k_revoked k = None) (refresh_rows s) = [k] \<and> linked z k"
    if z: "z \<in> set (session_rows s)" "z_revoked z = None" for z
  proof -
    let ?ks = "filter (\<lambda>k. k_family k = z_family z \<and> k_revoked k = None) (refresh_rows s)"
    obtain k where k: "k \<in> set (refresh_rows s)" "k_family k = z_family z" "k_revoked k = None"
      using wf(2) z by (auto simp: links_wf_def)
    have "k \<in> set ?ks" using k by simp
    then have "?ks = [k]" using one [of "z_family z"] by (cases ?ks; cases "tl ?ks") auto
    moreover obtain z1 where z1: "z1 \<in> set (session_rows s)" "linked z1 k" using k(1) wf(2) by (auto simp: links_wf_def)
    then have "z1 = z" using k(2) z(1) wf(2) by (auto simp: links_wf_def linked_def dest: distinct_map_inj)
    ultimately show ?thesis using z1(2) by blast
  qed
  with one wf(1) show ?thesis by (simp add: tokens_wf_def)
qed

section \<open>Rotation and reuse\<close>

lemma parse_uuid_bound: "parse_uuid t = Some n \<Longrightarrow> n < 2 ^ 128"
  by (auto simp: parse_uuid_def Let_def split: if_splits option.splits)

lemma split_once_char: "c \<notin> set xs \<Longrightarrow> split_once [c] (xs @ c # ys) = Some (xs, ys)"
  by (induction xs) auto

lemma extract_minted:
  assumes "tn < 2 ^ 128" and "32 \<le> length opaque"
  shows "extract_tenant (mint_refresh_token tn opaque) = Inr tn"
proof -
  let ?h = "hex_digits 32 tn"
  have r: "(48 \<le> code c \<and> code c \<le> 57) \<or> (97 \<le> code c \<and> code c \<le> 102)" if "c \<in> set ?h" for c
    using that set_hex_digits hex_char_range by blast
  have "set (uuid_str tn) \<subseteq> insert (CHR ''-'') (set ?h)"
    by (auto simp: uuid_str_def Let_def dest: in_set_takeD in_set_dropD)
  then have "CHR ''.'' \<notin> set (uuid_str tn)" using r by fastforce
  then show ?thesis
    using assms split_once_char [of "CHR ''.''" "uuid_str tn" opaque]
    by (simp add: extract_tenant_def mint_refresh_token_def parse_uuid_str)
qed

text \<open>What a successful refresh was given and what it leaves.\<close>

lemma rotate_token_success:
  assumes "rotate_token cfg now opaque tn k s s1 = (Inr (cl, raw'), s')"
  shows "raw' = mint_refresh_token tn opaque \<and>
    (\<exists>a. find_account tn (k_user k) s1 = Some a \<and> ac_active a \<and> effective_role_names tn (ac_id a) s1 \<noteq> [] \<and>
      cl = access_token cfg now a (effective_role_names tn (ac_id a) s1) (k_session k) (uuid_str (auth_next s1 + 1)) \<and>
      get_by_hash tn (token_hash cfg raw') (mark_rotated now k s1) = None \<and>
      s' = (mark_rotated now k s1)\<lparr>auth_next := auth_next s1 + 2, refresh_rows := refresh_rows (mark_rotated now k s1) @
        [refresh_row cfg now (auth_next s1) tn (ac_id a) (k_family k) (k_session k) raw']\<rparr>)"
proof -
  have g: "get_by_hash t h (x\<lparr>auth_next := n\<rparr>) = get_by_hash t h x" for t h x n by (simp add: get_by_hash_def)
  show ?thesis
    using assms by (auto simp: rotate_token_def Let_def store_refresh_Inr refresh_row_def g split: option.splits if_splits sum.splits)
qed

lemma refresh_success:
  assumes "refresh cfg now opaque raw s = (Inr (cl, raw'), s')"
  obtains tn k s1 where "extract_tenant raw = Inr tn" "get_by_hash tn (token_hash cfg raw) s = Some k"
    "k_rotated k = None" "k_revoked k = None" "now < k_expires k"
    "k_session k = None \<and> s1 = s \<or> (\<exists>sid z. k_session k = Some sid \<and> find_session sid tn (k_user k) s = Some z \<and> z_revoked z = None
       \<and> s1 = touch_session now sid s)"
    "rotate_token cfg now opaque tn k s s1 = (Inr (cl, raw'), s')"
  using assms by (auto simp: refresh_def Let_def split: option.splits sum.splits if_splits)

text \<open>C21. A refresh that succeeds was given a token that was neither rotated, revoked nor expired, of an
  active user with a session that is not revoked; it leaves the new token as the only usable one of the
  family, for the same user, tenant and session, and the access token speaks for exactly them.\<close>

theorem refresh_rotates:
  assumes "sessions_wf s" and "refresh cfg now opaque raw s = (Inr (cl, raw'), s')"
  shows "\<exists>tn k k' a. get_by_hash tn (token_hash cfg raw) s = Some k \<and> k_revoked k = None \<and> now < k_expires k
    \<and> find_account tn (k_user k) s = Some a \<and> ac_active a
    \<and> filter (\<lambda>x. k_revoked x = None \<and> k_family x = k_family k) (refresh_rows s') = [k']
    \<and> k_tenant k' = tn \<and> k_hash k' = token_hash cfg raw' \<and> k_user k' = k_user k \<and> k_session k' = k_session k
    \<and> k_expires k' = now + refresh_days cfg * 86400
    \<and> cm_tenant cl = tn \<and> cm_user cl = k_user k \<and> cm_session cl = k_session k \<and> cm_version cl = ac_version a
    \<and> cm_expires cl = now + access_minutes cfg * 60
    \<and> (\<exists>sid z. k_session k = Some sid \<and> find_session sid tn (k_user k) s = Some z \<and> z_revoked z = None)"
proof -
  obtain tn k s1 where k: "extract_tenant raw = Inr tn" "get_by_hash tn (token_hash cfg raw) s = Some k"
    "k_rotated k = None" "k_revoked k = None" "now < k_expires k"
    "k_session k = None \<and> s1 = s \<or> (\<exists>sid z. k_session k = Some sid \<and> find_session sid tn (k_user k) s = Some z \<and> z_revoked z = None
       \<and> s1 = touch_session now sid s)"
    "rotate_token cfg now opaque tn k s s1 = (Inr (cl, raw'), s')"
    using refresh_success [OF assms(2)] .
  have kin: "k \<in> set (refresh_rows s)" "k_tenant k = tn" using get_by_hash_Some [OF k(2)] by auto
  have fr: "refresh_rows s1 = refresh_rows s" "accounts s1 = accounts s" using k(6) by (auto simp: scope_frame)
  then have fa: "find_account t u s1 = find_account t u s" for t u by (simp add: find_account_def)
  obtain a where a: "find_account tn (k_user k) s = Some a" "ac_active a" "raw' = mint_refresh_token tn opaque"
      "cl = access_token cfg now a (effective_role_names tn (ac_id a) s1) (k_session k) (uuid_str (auth_next s1 + 1))"
      "refresh_rows s' = refresh_rows (mark_rotated now k s1) @
         [refresh_row cfg now (auth_next s1) tn (ac_id a) (k_family k) (k_session k) raw']"
    using rotate_token_success [OF k(7)] by (auto simp: fa)
  have ids: "ac_id a = k_user k" "ac_tenant a = tn" using first_row_in [OF a(1) [unfolded find_account_def]] by auto
  have wf: "tokens_wf s" "links_wf s" using assms(1) by (simp_all add: sessions_wf_def)
  have "k_session k \<noteq> None" using kin wf(2) by (auto simp: links_wf_def linked_def)
  then show ?thesis
    using k a ids live_after_rotation [OF wf(1) kin(1) k(4), of now]
    by (intro exI [of _ tn] exI [of _ k] exI [of _ "refresh_row cfg now (auth_next s1) tn (ac_id a) (k_family k) (k_session k) raw'"]
        exI [of _ a]) (auto simp: mark_rotated_rows fr refresh_row_def access_token_def)
qed

lemma closed_session_rejects:
  assumes "cm_session cm = Some sid" and "\<forall>z \<in> set (session_rows s). z_id z = sid \<longrightarrow> z_revoked z \<noteq> None"
  shows "\<exists>e. build_auth_context t cm req s = Inl e"
proof -
  have "filter (\<lambda>z. z_id z = sid \<and> z_owner_tenant z = tn \<and> z_user z = u \<and> z_revoked z = None) (session_rows s) = []" for tn u
    using assms(2) by (auto simp: filter_empty_conv)
  with assms(1) show ?thesis by (simp add: build_auth_context_def Let_def split: option.splits sum.splits)
qed

lemma stale_version_rejects:
  assumes "\<And>a. find_account (cm_tenant cm) (cm_user cm) s = Some a \<Longrightarrow> ac_version a \<noteq> cm_version cm"
  shows "\<exists>e. build_auth_context t cm req s = Inl e"
proof -
  have "validate_live_user (cm_user cm) (cm_tenant cm) s = Inr a \<Longrightarrow> cm_version cm \<noteq> ac_version a" for a
    using assms by (auto simp: validate_live_user_def split: option.splits if_splits bool.splits)
  then show ?thesis by (auto simp: build_auth_context_def split: sum.splits)
qed

lemma revoked_family_is_dead:
  assumes "sessions_wf s" and "k \<in> set (refresh_rows s)" and "s2 = revoke_family now (k_tenant k) (k_family k) r s"
  shows "\<forall>x \<in> set (refresh_rows s2). k_family x = k_family k \<longrightarrow> k_revoked x \<noteq> None"
    and "\<forall>z \<in> set (session_rows s2). Some (z_id z) = k_session k \<longrightarrow> z_revoked z \<noteq> None"
proof -
  have wf: "links_wf s" using assms(1) by (simp add: sessions_wf_def)
  obtain z where z: "z \<in> set (session_rows s)" "linked z k" using wf assms(2) by (auto simp: links_wf_def)
  have fam: "k_tenant x = k_tenant k" if "x \<in> set (refresh_rows s)" "k_family x = k_family k" for x
  proof -
    obtain y where "y \<in> set (session_rows s)" "linked y x" using wf \<open>x \<in> _\<close> by (auto simp: links_wf_def)
    moreover from this have "y = z" using z wf that(2) by (auto simp: links_wf_def linked_def dest: distinct_map_inj)
    ultimately show ?thesis using z by (simp add: linked_def)
  qed
  then show "\<forall>x \<in> set (refresh_rows s2). k_family x = k_family k \<longrightarrow> k_revoked x \<noteq> None"
    by (auto simp: assms(3) revoke_family_rows upd_where_def)
  have "y = z" if "y \<in> set (session_rows s)" "Some (z_id y) = k_session k" for y
    using that z wf by (auto simp: links_wf_def linked_def dest: distinct_map_inj)
  then show "\<forall>z \<in> set (session_rows s2). Some (z_id z) = k_session k \<longrightarrow> z_revoked z \<noteq> None"
    using z by (auto simp: assms(3) revoke_family_rows upd_where_def linked_def)
qed

text \<open>C5. When an old refresh token is presented again after it was rotated, by a thief or by the owner
  after a theft, the whole family ends: the answer is \<open>REFRESH_TOKEN_REUSED\<close>, the token that replaced it is
  refused from then on, and the access token issued with it no longer opens any endpoint.\<close>

theorem stolen_token_ends_session:
  assumes "sessions_wf s" and "refresh cfg t1 opaque raw s = (Inr (cl, raw'), s1)" and "32 \<le> length opaque"
  shows "\<exists>s2. refresh cfg t2 opaque2 raw s1 = (Inl (ApiError ''REFRESH_TOKEN_REUSED'' 401), s2)
    \<and> fst (refresh cfg t3 opaque3 raw' s2) = Inl (ApiError ''REFRESH_TOKEN_REVOKED'' 401)
    \<and> (\<exists>e. build_auth_context t3 cl req s2 = Inl e)"
proof -
  obtain tn k s0 where k: "extract_tenant raw = Inr tn" "get_by_hash tn (token_hash cfg raw) s = Some k"
    "k_session k = None \<and> s0 = s \<or> (\<exists>sid z. k_session k = Some sid \<and> find_session sid tn (k_user k) s = Some z \<and> z_revoked z = None
       \<and> s0 = touch_session t1 sid s)"
    "rotate_token cfg t1 opaque tn k s s0 = (Inr (cl, raw'), s1)"
    using refresh_success [OF assms(2)] .
  have kin: "k \<in> set (refresh_rows s)" "k_tenant k = tn" "k_hash k = token_hash cfg raw" using get_by_hash_Some [OF k(2)] by auto
  have fr: "refresh_rows s0 = refresh_rows s" using k(3) by (auto simp: scope_frame)
  obtain a where a: "raw' = mint_refresh_token tn opaque" "find_account tn (k_user k) s0 = Some a"
      "cl = access_token cfg t1 a (effective_role_names tn (ac_id a) s0) (k_session k) (uuid_str (auth_next s0 + 1))"
      "refresh_rows s1 = upd_where (\<lambda>x. k_id x = k_id k) (rotated_row t1) (refresh_rows s) @
         [refresh_row cfg t1 (auth_next s0) tn (ac_id a) (k_family k) (k_session k) raw']"
    using rotate_token_success [OF k(4)] by (auto simp: fr mark_rotated_rows)
  let ?k' = "refresh_row cfg t1 (auth_next s0) tn (ac_id a) (k_family k) (k_session k) raw'"
  have wf1: "sessions_wf s1" using sessions_wf_refresh assms(1,2) by blast
  have old: "rotated_row t1 k \<in> set (refresh_rows s1)" using kin(1) by (auto simp: a(4) in_upd_where)
  have new: "?k' \<in> set (refresh_rows s1)" by (simp add: a(4))
  define s2 where "s2 = revoke_family t2 tn (k_family k) ''token_reuse_detected'' s1"
  have "get_by_hash tn (token_hash cfg raw) s1 = Some (rotated_row t1 k)"
    using get_by_hash_unique [of s1 "rotated_row t1 k"] wf1 old kin by (simp add: sessions_wf_def rotated_row_def)
  then have reused: "refresh cfg t2 opaque2 raw s1 = (Inl (ApiError ''REFRESH_TOKEN_REUSED'' 401), s2)"
    by (simp add: refresh_def k(1) s2_def rotated_row_def)
  have s2: "s2 = revoke_family t2 (k_tenant (rotated_row t1 k)) (k_family (rotated_row t1 k)) ''token_reuse_detected'' s1"
    by (simp add: s2_def rotated_row_def kin)
  note dead = revoked_family_is_dead(2) [OF wf1 old s2, unfolded rotated_row_def, simplified]
  have wf2: "sessions_wf s2" using sessions_wf_revoke_family [OF wf1] by (simp add: s2_def)
  define x where "x = ?k'\<lparr>k_revoked := Some t2, k_reason := Some ''token_reuse_detected''\<rparr>"
  have x: "k_hash x = token_hash cfg raw'" "k_tenant x = tn" "k_family x = k_family k" "k_rotated x = None" "k_revoked x \<noteq> None"
    by (simp_all add: x_def refresh_row_def)
  have xin: "x \<in> set (refresh_rows s2)"
    unfolding s2_def revoke_family_rows in_upd_where by (rule bexI [OF _ new]) (simp add: x_def refresh_row_def)
  have "get_by_hash tn (token_hash cfg raw') s2 = Some x"
    using get_by_hash_unique [of s2 x] wf2 x xin by (simp add: sessions_wf_def)
  moreover have "extract_tenant raw' = Inr tn"
    using k(1) assms(3) parse_uuid_bound extract_minted [of tn opaque] a(1)
    by (auto simp: extract_tenant_def split: option.splits if_splits)
  ultimately have "fst (refresh cfg t3 opaque3 raw' s2) = Inl (ApiError ''REFRESH_TOKEN_REVOKED'' 401)"
    using x by (simp add: refresh_def)
  moreover have "\<exists>e. build_auth_context t3 cl req s2 = Inl e"
  proof -
    obtain z where "linked z k" using kin(1) assms(1) by (auto simp: sessions_wf_def links_wf_def)
    then show ?thesis using closed_session_rejects [of cl _ s2] dead by (auto simp: a(3) access_token_def linked_def)
  qed
  ultimately show ?thesis using reused by blast
qed

section \<open>Ended sessions stay ended\<close>

lemma closed_session_refuses_refresh:
  assumes "\<forall>z \<in> set (session_rows s). z_id z = sid \<longrightarrow> z_revoked z \<noteq> None"
    and "extract_tenant raw = Inr tn" "get_by_hash tn (token_hash cfg raw) s = Some k" "k_session k = Some sid"
  shows "\<exists>e. fst (refresh cfg t opaque raw s) = Inl e"
proof -
  have "z_revoked z \<noteq> None" if "find_session sid tn (k_user k) s = Some z" for z
    using that assms(1) first_row_in unfolding find_session_def by fastforce
  with assms show ?thesis by (auto simp: refresh_def Let_def split: option.splits)
qed

lemma revoked_token_refuses_refresh:
  assumes "extract_tenant raw = Inr tn" "get_by_hash tn (token_hash cfg raw) s = Some k" "k_revoked k \<noteq> None"
  shows "\<exists>e. fst (refresh cfg t opaque raw s) = Inl e"
  using assms by (auto simp: refresh_def)

text \<open>Logging out ends exactly the session of the access token: no access token and no refresh token
  of that session is accepted afterwards, and every other session of the table is left as it was.\<close>

theorem logout_ends_session:
  assumes "sessions_wf s" and "ax_session ax = Some sid" and "find_session sid (ax_tenant ax) (ax_user ax) s = Some z"
    and "logout cfg now ax tok s = (r, s')"
  shows "r = Inr ()
    \<and> (\<forall>cm. cm_session cm = Some sid \<longrightarrow> (\<exists>e. build_auth_context t cm req s' = Inl e))
    \<and> (\<forall>raw tn k. extract_tenant raw = Inr tn \<and> get_by_hash tn (token_hash cfg raw) s' = Some k \<and> k_session k = Some sid
         \<longrightarrow> (\<exists>e. fst (refresh cfg t opaque raw s') = Inl e))
    \<and> filter (\<lambda>z. z_id z \<noteq> sid) (session_rows s') = filter (\<lambda>z. z_id z \<noteq> sid) (session_rows s)"
proof -
  define s1 where "s1 = revoke_access_token cfg now ax ''logout'' s"
  have fr: "session_rows s1 = session_rows s" by (simp add: s1_def scope_frame)
  have z: "z \<in> set (session_rows s)" "z_id z = sid" "z_owner_tenant z = ax_tenant ax"
    using assms(3) first_row_in unfolding find_session_def by fastforce+
  have out: "r = Inr ()" "s' = (if z_revoked z = None then revoke_family now (ax_tenant ax) (z_family z) ''logout'' s1 else s1)"
    using assms(2-4) fr by (auto simp: logout_def s1_def [symmetric] Let_def find_session_def)
  have wf: "links_wf s" using assms(1) by (simp add: sessions_wf_def)
  have same: "y = z" if "y \<in> set (session_rows s)" "z_id y = sid \<or> z_family y = z_family z" for y
    using that z wf by (auto simp: links_wf_def dest: distinct_map_inj)
  have closed: "\<forall>y \<in> set (session_rows s'). z_id y = sid \<longrightarrow> z_revoked y \<noteq> None"
    using z same by (auto simp: out(2) fr revoke_family_rows upd_where_def)
  have "z_id y = sid" if "y \<in> set (session_rows s)" "z_family y = z_family z" for y
    using same [OF that(1)] that(2) z(2) by simp
  then have "filter (\<lambda>z. z_id z \<noteq> sid) (session_rows s') = filter (\<lambda>z. z_id z \<noteq> sid) (session_rows s)"
    using out(2) fr by (cases "z_revoked z = None") (auto simp: revoke_family_rows intro!: filter_upd_where_disjoint)
  then show ?thesis
    using out(1) closed closed_session_rejects [OF _ closed] closed_session_refuses_refresh [OF closed] by blast
qed

lemma find_account_upd:
  assumes "find_account tn u s = Some a" and "\<And>a. ac_id (f a) = ac_id a \<and> ac_tenant (f a) = ac_tenant a"
  shows "find_account tn u (upd_account (ac_id a) f s) = Some (f a)"
proof -
  have id: "ac_id a = u" using first_row_in [OF assms(1) [unfolded find_account_def]] by simp
  have "filter (\<lambda>a. ac_tenant a = tn \<and> ac_id a = u) (upd_where (\<lambda>a. ac_id a = u) f xs)
      = map f (filter (\<lambda>a. ac_tenant a = tn \<and> ac_id a = u) xs)" for xs
    using assms(2) by (induction xs) auto
  then show ?thesis
    using assms(1) by (cases "filter (\<lambda>a. ac_tenant a = tn \<and> ac_id a = u) (accounts s)")
      (auto simp: find_account_def upd_account_def id)
qed

lemma signed_out_everywhere:
  assumes a: "find_account tn user s' = Some a'" and v: "v < ac_version a'"
    and rows: "refresh_rows s' = refresh_rows (revoke_all_for_user now tn user r s)"
  shows "(\<forall>cm. cm_user cm = user \<and> cm_tenant cm = tn \<and> cm_version cm \<le> v \<longrightarrow> (\<exists>e. build_auth_context t cm req s' = Inl e))
    \<and> (\<forall>raw k. extract_tenant raw = Inr tn \<and> get_by_hash tn (token_hash cfg raw) s' = Some k \<and> k_user k = user
         \<longrightarrow> (\<exists>e. fst (refresh cfg t opaque raw s') = Inl e))"
proof -
  have "\<forall>k \<in> set (refresh_rows s'). k_tenant k = tn \<and> k_user k = user \<longrightarrow> k_revoked k \<noteq> None"
    unfolding rows revoke_all_rows by (rule all_upd_where) simp_all
  then have "k_revoked k \<noteq> None" if "get_by_hash tn h s' = Some k" "k_user k = user" for h k
    using get_by_hash_Some [OF that(1)] that(2) by blast
  moreover have "\<exists>e. build_auth_context t cm req s' = Inl e"
    if "cm_user cm = user" "cm_tenant cm = tn" "cm_version cm \<le> v" for cm
    by (rule stale_version_rejects) (use that a v in auto)
  ultimately show ?thesis using revoked_token_refuses_refresh by blast
qed

text \<open>C20. "Log out everywhere", an administrator's forced logout and the disabling of an account each end
  every access token issued so far (their version is not above the account's) and every refresh token of
  that user, in every session.\<close>

theorem lockout_ends_everything:
  assumes a: "find_account tn user s = Some a"
    and op: "ax_tenant ax = tn \<and> ax_user ax = user \<and> logout_all cfg now ax s = (Inr (), s')
      \<or> force_logout_user now protected tn user actor s = (Inr (), s')
      \<or> disable_user now protected tn user actor s = (Inr (), s')"
  shows "(\<forall>cm. cm_user cm = user \<and> cm_tenant cm = tn \<and> cm_version cm \<le> ac_version a
           \<longrightarrow> (\<exists>e. build_auth_context t cm req s' = Inl e))
    \<and> (\<forall>raw k. extract_tenant raw = Inr tn \<and> get_by_hash tn (token_hash cfg raw) s' = Some k \<and> k_user k = user
         \<longrightarrow> (\<exists>e. fst (refresh cfg t opaque raw s') = Inl e))"
proof -
  have id: "ac_id a = user" using first_row_in [OF a [unfolded find_account_def]] by simp
  have fa: "find_account tn user s' = Some (f a)"
    if "accounts s' = accounts (upd_account (ac_id a) f s)" "\<And>a. ac_id (f a) = ac_id a \<and> ac_tenant (f a) = ac_tenant a" for f
    using find_account_upd [of tn user s a f, OF a that(2)] that(1) by (simp add: find_account_def)
  have gt: "guard_target_user protected tn user actor b s = Inr x \<Longrightarrow> x = a" for b x
    using a by (auto simp: guard_target_user_def split: if_splits)
  have fr: "refresh_rows (revoke_all_for_user now tn user r (upd_account u f s)) = refresh_rows (revoke_all_for_user now tn user r s)"
    for r u f by (simp add: revoke_all_rows scope_frame)
  from op show ?thesis
  proof (elim disjE conjE)
    assume ax: "ax_tenant ax = tn" "ax_user ax = user" and l: "logout_all cfg now ax s = (Inr (), s')"
    have "refresh_rows s' = refresh_rows (revoke_all_for_user now tn user ''logout_all'' s)"
      "accounts s' = accounts (upd_account (ac_id a) (\<lambda>a. a\<lparr>ac_version := ac_version a + 1\<rparr>) s)"
      using logout_all_success [of ax s a cfg now] a ax l by auto
    then show ?thesis
      by (intro signed_out_everywhere [OF fa [where f = "\<lambda>a. a\<lparr>ac_version := ac_version a + 1\<rparr>"]]) simp_all
  next
    assume "force_logout_user now protected tn user actor s = (Inr (), s')"
    then have "s' = revoke_all_for_user now tn user ''forced_logout_by_admin''
        (upd_account (ac_id a) (\<lambda>a. a\<lparr>ac_version := ac_version a + 1\<rparr>) s)"
      using gt id by (auto simp: force_logout_user_def split: sum.splits)
    then show ?thesis
      by (intro signed_out_everywhere [OF fa [where f = "\<lambda>a. a\<lparr>ac_version := ac_version a + 1\<rparr>"]]) (auto simp: fr revoke_all_rows(4))
  next
    assume "disable_user now protected tn user actor s = (Inr (), s')"
    then have "s' = revoke_all_for_user now tn user ''disabled_by_admin''
        (upd_account (ac_id a) (\<lambda>a. a\<lparr>ac_active := False, ac_version := ac_version a + 1\<rparr>) s)"
      using gt id by (auto simp: disable_user_def split: sum.splits)
    then show ?thesis
      by (intro signed_out_everywhere [OF fa [where f = "\<lambda>a. a\<lparr>ac_active := False, ac_version := ac_version a + 1\<rparr>"]])
        (auto simp: fr revoke_all_rows(4))
  qed
qed

section \<open>Roles of a request\<close>

lemma build_auth_context_Inr:
  assumes "build_auth_context now cm requested s = Inr ax"
  shows "\<not> jwt_revoked now (cm_tenant cm) (cm_token cm) s
    \<and> (\<exists>a. find_account (cm_tenant cm) (cm_user cm) s = Some a \<and> ac_active a \<and> ac_version a = cm_version cm)
    \<and> map_of (auth_tenants s) (cm_tenant cm) = Some True
    \<and> (\<forall>sid. cm_session cm = Some sid \<longrightarrow> (\<exists>z \<in> set (session_rows s). z_id z = sid \<and> z_user z = cm_user cm \<and> z_revoked z = None))
    \<and> ax_user ax = cm_user cm \<and> ax_tenant ax = cm_tenant cm
    \<and> ax_roles ax = effective_roles (remdups (canonicalize_role_names (cm_roles cm)))
        (remdups (canonicalize_role_names (role_names_for_user (cm_tenant cm) (cm_user cm) s)))
    \<and> ax_permissions ax = resolve_permissions (ax_roles ax) []"
proof -
  have "filter P xs \<noteq> [] \<longleftrightarrow> (\<exists>x \<in> set xs. P x)" for P and xs :: "auth_session list" by (auto simp: filter_empty_conv)
  then show ?thesis
    using assms
    by (auto simp: build_auth_context_def validate_live_user_def Let_def canonicalize_role_names_def filter_empty_conv
        split: option.splits if_splits sum.splits bool.splits)
qed

lemma effective_roles_set:
  "set (effective_roles t d) = (if t = [] then set d else if set t \<inter> set d = {} then set t else set t \<inter> set d)"
  by (auto simp: effective_roles_def Let_def filter_empty_conv)

text \<open>A request is let in only for an active account of an active tenant, with a token of the current
  version that is not revoked and whose session is alive.  Its roles are those of the token the account
  still has.  But when the account has none of the token's roles any more, the token's roles are kept:
  someone who lost the one role he signed in with keeps it until the token expires.\<close>

theorem request_roles:
  assumes "build_auth_context now cm requested s = Inr ax"
  shows "\<not> jwt_revoked now (cm_tenant cm) (cm_token cm) s
    \<and> (\<exists>a. find_account (cm_tenant cm) (cm_user cm) s = Some a \<and> ac_active a \<and> ac_version a = cm_version cm)
    \<and> map_of (auth_tenants s) (cm_tenant cm) = Some True
    \<and> (\<forall>sid. cm_session cm = Some sid \<longrightarrow> (\<exists>z \<in> set (session_rows s). z_id z = sid \<and> z_user z = cm_user cm \<and> z_revoked z = None))
    \<and> set (ax_roles ax) = (let t = set (canonicalize_role_names (cm_roles cm));
          d = set (canonicalize_role_names (role_names_for_user (cm_tenant cm) (cm_user cm) s))
        in if t = {} then d else if t \<inter> d = {} then t else t \<inter> d)"
  using build_auth_context_Inr [OF assms] by (auto simp: effective_roles_set Let_def)

section \<open>Concrete runs\<close>

definition w_auth_cfg :: auth_settings where
  "w_auth_cfg = \<lparr>access_minutes = 15, refresh_days = 7, token_hash = (\<lambda>s. s)\<rparr>"

definition w_account :: account where
  "w_account = \<lparr>ac_id = 5, ac_tenant = 7, ac_email = ''a@b.c'', ac_active = True, ac_version = 0, ac_failed = 0, ac_locked = None,
     ac_last_login = None\<rparr>"

definition w_auth :: auth_db where
  "w_auth = \<lparr>accounts = [w_account], auth_tenants = [(7, True)], role_rows = [(7, 5, ''admin'')], refresh_rows = [], session_rows = [],
     denied = [], auth_redis = (\<lambda>_. None), auth_redis_up = True, auth_next = 100\<rparr>"

definition w_opaque :: "char \<Rightarrow> string" where "w_opaque c = replicate 32 c"

definition w_signed_in :: auth_db where
  "w_signed_in = snd (complete_login w_auth_cfg 0 (w_opaque CHR ''a'') w_account w_auth)"

lemma w_signed_in_eq:
  "w_signed_in = w_auth\<lparr>accounts := [w_account\<lparr>ac_last_login := Some 0\<rparr>], auth_next := 104,
     refresh_rows := [refresh_row w_auth_cfg 0 103 7 5 101 (Some 100) (mint_refresh_token 7 (w_opaque CHR ''a''))],
     session_rows := [\<lparr>z_id = 100, z_owner_tenant = 7, z_user = 5, z_family = 101, z_seen = 0, z_revoked = None, z_reason = None\<rparr>]\<rparr>"
  by (simp add: w_signed_in_def complete_login_def Let_def w_auth_def w_account_def store_refresh_def get_by_hash_def upd_account_def
      refresh_row_def)

lemma w_reachable: "auth_reachable w_auth_cfg w_signed_in"
proof (rule auth_reachable.step)
  show "auth_reachable w_auth_cfg w_auth" by (rule auth_reachable.start) (simp_all add: w_auth_def)
  have "find_account 7 5 w_auth = Some w_account" by (simp add: find_account_def w_auth_def w_account_def)
  then show "auth_step w_auth_cfg w_auth w_signed_in"
    by (rule auth_step.login [where now = 0 and opaque = "w_opaque CHR ''a''"
          and r = "fst (complete_login w_auth_cfg 0 (w_opaque CHR ''a'') w_account w_auth)"]) (simp add: w_signed_in_def)
qed

lemma w_refresh_works:
  "\<exists>cl raw' s1. refresh w_auth_cfg 60 (w_opaque CHR ''b'') (mint_refresh_token 7 (w_opaque CHR ''a'')) w_signed_in = (Inr (cl, raw'), s1)"
proof -
  have e: "extract_tenant (mint_refresh_token 7 (w_opaque CHR ''a'')) = Inr 7"
    by (rule extract_minted) (simp_all add: w_opaque_def)
  have ne: "mint_refresh_token 7 (w_opaque CHR ''a'') \<noteq> mint_refresh_token 7 (w_opaque CHR ''b'')"
    by (simp add: mint_refresh_token_def w_opaque_def)
  have "canonicalize_role_names (remdups [canonicalize_role_name ''admin'']) = [''admin'']" by code_simp
  then have ro: "effective_role_names 7 5 s = [''admin'']" if "role_rows s = [(7, 5, ''admin'')]" for s
    by (simp add: effective_role_names_def role_names_for_user_def that)
  show ?thesis
    using ne
    by (simp add: refresh_def e rotate_token_def ro Let_def w_signed_in_eq get_by_hash_def refresh_row_def w_auth_cfg_def find_session_def
        touch_session_def w_auth_def w_account_def find_account_def store_refresh_def mark_rotated_def)
qed

theorem one_live_token_per_session_witness:
  "length (filter (\<lambda>k. k_family k = 101 \<and> k_revoked k = None) (refresh_rows w_signed_in)) \<le> 1"
  using one_live_token_per_session [OF w_reachable, of 101] by (rule conjunct1)

theorem refresh_rotates_witness:
  "\<exists>cl raw' s' k'. refresh w_auth_cfg 60 (w_opaque CHR ''b'') (mint_refresh_token 7 (w_opaque CHR ''a'')) w_signed_in = (Inr (cl, raw'), s')
    \<and> filter (\<lambda>x. k_revoked x = None \<and> k_family x = 101) (refresh_rows s') = [k'] \<and> k_user k' = 5"
proof -
  obtain cl raw' s' where r: "refresh w_auth_cfg 60 (w_opaque CHR ''b'') (mint_refresh_token 7 (w_opaque CHR ''a'')) w_signed_in = (Inr (cl, raw'), s')"
    using w_refresh_works by blast
  obtain tn k k' where k: "get_by_hash tn (mint_refresh_token 7 (w_opaque CHR ''a'')) w_signed_in = Some k"
    "filter (\<lambda>x. k_revoked x = None \<and> k_family x = k_family k) (refresh_rows s') = [k']" "k_user k' = k_user k"
    using refresh_rotates [OF reachable_sessions_wf [OF w_reachable] r] by (auto simp: w_auth_cfg_def)
  have "k_family k = 101 \<and> k_user k = 5"
    using get_by_hash_Some [OF k(1)] by (simp add: w_signed_in_eq refresh_row_def)
  with r k show ?thesis by auto
qed

theorem stolen_token_ends_session_witness:
  "\<exists>cl raw' s1 s2. refresh w_auth_cfg 60 (w_opaque CHR ''b'') (mint_refresh_token 7 (w_opaque CHR ''a'')) w_signed_in = (Inr (cl, raw'), s1)
    \<and> refresh w_auth_cfg 70 (w_opaque CHR ''c'') (mint_refresh_token 7 (w_opaque CHR ''a'')) s1 = (Inl (ApiError ''REFRESH_TOKEN_REUSED'' 401), s2)
    \<and> fst (refresh w_auth_cfg 80 (w_opaque CHR ''d'') raw' s2) = Inl (ApiError ''REFRESH_TOKEN_REVOKED'' 401)"
proof -
  obtain cl raw' s1 where r: "refresh w_auth_cfg 60 (w_opaque CHR ''b'') (mint_refresh_token 7 (w_opaque CHR ''a'')) w_signed_in = (Inr (cl, raw'), s1)"
    using w_refresh_works by blast
  moreover have "32 \<le> length (w_opaque CHR ''b'')" by (simp add: w_opaque_def)
  ultimately show ?thesis
    using stolen_token_ends_session [OF reachable_sessions_wf [OF w_reachable] r, of 70 "w_opaque CHR ''c''" 80 "w_opaque CHR ''d''" None] by blast
qed

definition w_ctx :: auth_context where
  "w_ctx = \<lparr>ax_user = 5, ax_tenant = 7, ax_roles = [''admin''], ax_permissions = [], ax_token = ''t'', ax_session = Some 100\<rparr>"

definition w_claims :: access_claims where
  "w_claims = \<lparr>cm_user = 5, cm_tenant = 7, cm_roles = [''admin''], cm_token = ''t'', cm_version = 0, cm_session = Some 100, cm_expires = 900\<rparr>"

theorem logout_ends_session_witness:
  "\<exists>s'. logout w_auth_cfg 60 w_ctx None w_signed_in = (Inr (), s') \<and> (\<exists>e. build_auth_context 70 w_claims None s' = Inl e)"
proof -
  obtain r s' where l: "logout w_auth_cfg 60 w_ctx None w_signed_in = (r, s')" by force
  have f: "find_session 100 (ax_tenant w_ctx) (ax_user w_ctx) w_signed_in = Some (hd (session_rows w_signed_in))"
    by (simp add: find_session_def w_signed_in_eq w_ctx_def)
  have c: "ax_session w_ctx = Some 100" "cm_session w_claims = Some 100" by (simp_all add: w_ctx_def w_claims_def)
  show ?thesis
    using logout_ends_session [OF reachable_sessions_wf [OF w_reachable] c(1) f l, where t = 70 and req = None] c(2) l by blast
qed

theorem lockout_ends_everything_witness:
  "\<exists>s'. logout_all w_auth_cfg 60 w_ctx w_signed_in = (Inr (), s') \<and> (\<exists>e. build_auth_context 70 w_claims None s' = Inl e)"
proof -
  let ?a = "w_account\<lparr>ac_last_login := Some 0\<rparr>"
  have a: "find_account 7 5 w_signed_in = Some ?a" by (simp add: find_account_def w_signed_in_eq w_account_def)
  have ax: "ax_tenant w_ctx = 7" "ax_user w_ctx = 5" by (simp_all add: w_ctx_def)
  obtain s' where l: "logout_all w_auth_cfg 60 w_ctx w_signed_in = (Inr (), s')"
    using logout_all_success [of w_ctx w_signed_in ?a] a ax by auto
  have cm: "cm_user w_claims = 5 \<and> cm_tenant w_claims = 7 \<and> cm_version w_claims \<le> ac_version ?a"
    by (simp add: w_claims_def w_account_def)
  show ?thesis
    using lockout_ends_everything [OF a, where ax = w_ctx and cfg = w_auth_cfg and now = 60 and s' = s' and t = 70 and req = None] ax l cm by blast
qed

text \<open>The account was demoted from administrator to plain user after it signed in.\<close>

theorem request_roles_witness:
  "\<exists>ax. build_auth_context 70 w_claims None (w_signed_in\<lparr>role_rows := [(7, 5, ''user'')]\<rparr>) = Inr ax
    \<and> ''admin'' \<in> set (ax_roles ax) \<and> ''admin:users:delete'' \<in> set (ax_permissions ax)"
proof -
  let ?s = "w_signed_in\<lparr>role_rows := [(7, 5, ''user'')]\<rparr>"
  have r: "\<exists>ax. build_auth_context 70 w_claims None ?s = Inr ax"
    by (simp add: build_auth_context_def w_claims_def jwt_revoked_def w_signed_in_eq w_auth_def redis_get_def token_denied_def
        validate_live_user_def find_account_def w_account_def Let_def)
  then obtain ax where ax: "build_auth_context 70 w_claims None ?s = Inr ax" by blast
  have d: "set (canonicalize_role_names (cm_roles w_claims)) = {''admin''}"
    unfolding w_claims_def by code_simp
  have "role_names_for_user (cm_tenant w_claims) (cm_user w_claims) ?s = remdups [canonicalize_role_name ''user'']"
    by (simp add: role_names_for_user_def w_claims_def)
  moreover have "set (canonicalize_role_names (remdups [canonicalize_role_name ''user''])) = {''user''}" by code_simp
  ultimately have u: "set (canonicalize_role_names (role_names_for_user (cm_tenant w_claims) (cm_user w_claims) ?s)) = {''user''}"
    by simp
  have ro: "set (ax_roles ax) = {''admin''}" using request_roles [OF ax] d u by simp
  have "ax_permissions ax = resolve_permissions (ax_roles ax) []" using build_auth_context_Inr [OF ax] by blast
  moreover have "''admin:users:delete'' \<in> set (role_permissions ''admin'')" by code_simp
  ultimately have "''admin:users:delete'' \<in> set (ax_permissions ax)"
    using ro by (auto simp: resolve_permissions_def)
  with ro ax show ?thesis by blast
qed

end
