(* ===== verification/Chunking.thy ===== *)
theory Chunking
  imports Tables "HOL-Library.While_Combinator"
begin

text \<open>
  Cutting a document into chunks (\<open>ingestion/services/chunking_service.py\<close>): paragraphs with their
  offsets, the tracking of headers, the semantic split with overlap, and the chunking of layout blocks.

  The split loop may a priori run forever, so it is a \<open>while_option\<close> and \<open>chunk_text\<close> (the method
  \<open>chunk\<close>) answers \<open>None\<close> when it does not return; that it always returns is proved.  Lengths and offsets
  are numbers of code points.
\<close>

section \<open>Data\<close>

record chunk_part =
  cp_index :: nat
  cp_content :: string
  cp_start :: int
  cp_end :: int
  cp_metadata :: jdict

record chunk_config =
  cc_size :: nat
  cc_overlap :: nat
  cc_min_length :: int
  cc_mode :: string
  cc_source :: jdict

record headers =
  header1 :: string
  header2 :: string
  header3 :: string

record chunk_state =
  ct_text :: string
  ct_start :: int
  ct_index :: nat
  ct_parts :: "chunk_part list"
  ct_headers :: headers

abbreviation nl :: char where "nl \<equiv> CHR 0x0A"

section \<open>Paragraphs\<close>

text \<open>The first match of \<open>\n{2,}\<close>: the text before it, its length, the text after it.\<close>

fun next_break :: "string \<Rightarrow> (string \<times> nat \<times> string) option" where
  "next_break [] = None"
| "next_break (c # cs) =
     (if prefix [nl, nl] (c # cs)
      then Some ([], length (takeWhile (\<lambda>x. x = nl) (c # cs)), dropWhile (\<lambda>x. x = nl) (c # cs))
      else map_option (\<lambda>(a, n, r). (c # a, n, r)) (next_break cs))"

lemma next_break_shorter: "next_break s = Some (a, n, r) \<Longrightarrow> length r < length s"
proof (induction s arbitrary: a)
  case (Cons c cs)
  then show ?case
    using length_dropWhile_le [of "\<lambda>x. x = nl" cs] by (auto split: if_splits)
qed simp

function paragraphs :: "nat \<Rightarrow> string \<Rightarrow> (nat \<times> string) list" where
  "paragraphs start s = (case next_break s of
     None \<Rightarrow> if s = [] then [] else [(start, s)]
   | Some (a, n, r) \<Rightarrow> (start, a) # paragraphs (start + length a + n) r)"
  by pat_completeness auto
termination
  by (relation "measure (\<lambda>(_, s). length s)") (auto dest: next_break_shorter)

declare paragraphs.simps [simp del]

section \<open>Headers\<close>

definition section_words :: "string list" where
  "section_words = [''references'', ''bibliography'', ''appendix'', ''abstract'', ''introduction'']"

definition upper_first :: "string \<Rightarrow> string" where
  "upper_first s = (case s of [] \<Rightarrow> [] | c # cs \<Rightarrow>
     (if 97 \<le> code c \<and> code c \<le> 122 then char_of (code c - 32) else c) # lower cs)"

text \<open>\<open>^(?:\d+\.?\s+)?(References|...)$\<close> without regard to case; the words are ASCII letters.\<close>

definition section_header :: "string \<Rightarrow> string option" where
  "section_header line =
     (let rest = dropWhile is_digit line;
          rest1 = (if prefix ''.'' rest then tl rest else rest);
          word = (if rest = line then Some line
                  else if rest1 \<noteq> [] \<and> is_space (hd rest1) then Some (dropWhile is_space rest1) else None)
      in case word of None \<Rightarrow> None
         | Some w \<Rightarrow> if lower w \<in> set section_words then Some (upper_first w) else None)"

definition track_header :: "string \<Rightarrow> headers \<Rightarrow> headers" where
  "track_header stripped h =
     (let first_line = strip (takeWhile (\<lambda>c. c \<noteq> nl) stripped)
      in if prefix ''# '' first_line then \<lparr>header1 = strip (drop 2 first_line), header2 = [], header3 = []\<rparr>
         else if prefix ''## '' first_line then h\<lparr>header2 := strip (drop 3 first_line), header3 := []\<rparr>
         else if prefix ''### '' first_line then h\<lparr>header3 := strip (drop 4 first_line)\<rparr>
         else (case section_header first_line of
             None \<Rightarrow> h
           | Some w \<Rightarrow> \<lparr>header1 = w, header2 = [], header3 = []\<rparr>))"

definition build_metadata :: "string \<Rightarrow> jdict \<Rightarrow> jdict \<Rightarrow> jdict" where
  "build_metadata mode base source =
     fold (\<lambda>(k, v) m. dict_set k v m) source (dict_set ''mode'' (JStr mode) base)"

definition add_header :: "string \<Rightarrow> string \<Rightarrow> jdict \<Rightarrow> jdict" where
  "add_header key h m =
     (if h \<noteq> [] \<and> (case dict_get m key of None \<Rightarrow> True | Some v \<Rightarrow> \<not> truthy v) then dict_set key (JStr h) m else m)"

definition chunk_metadata :: "chunk_config \<Rightarrow> headers \<Rightarrow> jdict" where
  "chunk_metadata cfg h =
     add_header ''header_3'' (header3 h) (add_header ''header_2'' (header2 h) (add_header ''header_1'' (header1 h)
       (build_metadata (cc_mode cfg) [(''strategy'', JStr ''semantic'')] (cc_source cfg))))"

section \<open>The split\<close>

text \<open>The last \<open>\.[\s\n]\<close> and the last \<open>\n\<close> of the region that starts past the middle of a chunk: the
  matches of either pattern cannot overlap.\<close>

definition split_at :: "nat \<Rightarrow> nat \<Rightarrow> string \<Rightarrow> nat" where
  "split_at chunk_size overlap t =
     (let region = take (chunk_size + overlap) t
      in case find (\<lambda>i. chunk_size div 2 < i) (rev (filter (\<lambda>i. region ! i = CHR ''.'' \<and> is_space (region ! Suc i)) [0..<length region - 1])) of
           Some i \<Rightarrow> i + 2
         | None \<Rightarrow> (case find (\<lambda>i. chunk_size div 2 < i) (rev (filter (\<lambda>i. region ! i = nl) [0..<length region])) of
               Some i \<Rightarrow> i + 1
             | None \<Rightarrow> chunk_size))"

definition new_part :: "chunk_config \<Rightarrow> int \<Rightarrow> string \<Rightarrow> chunk_state \<Rightarrow> chunk_part" where
  "new_part cfg start c st =
     (let pos = (if ct_start st \<noteq> -1 then ct_start st else start)
      in \<lparr>cp_index = ct_index st, cp_content = c, cp_start = pos, cp_end = pos + int (length c),
          cp_metadata = chunk_metadata cfg (ct_headers st)\<rparr>)"

definition with_overlap :: "nat \<Rightarrow> string \<Rightarrow> string \<Rightarrow> string" where
  "with_overlap overlap c rest =
     (if 0 < overlap \<and> overlap < length c then drop (length c - overlap) c @ [nl] @ rest else rest)"

text \<open>One round of the split loop; \<open>start\<close> is the offset of the current paragraph.\<close>

definition split_step :: "chunk_config \<Rightarrow> int \<Rightarrow> chunk_state \<Rightarrow> chunk_state" where
  "split_step cfg start st =
     (let n = split_at (cc_size cfg) (cc_overlap cfg) (ct_text st);
          c = strip (take n (ct_text st));
          st1 = (if cc_min_length cfg \<le> int (length c)
                 then st\<lparr>ct_parts := ct_parts st @ [new_part cfg start c st], ct_index := ct_index st + 1\<rparr> else st)
      in st1\<lparr>ct_text := with_overlap (cc_overlap cfg) c (strip (drop n (ct_text st))), ct_start := -1\<rparr>)"

definition split_loop :: "chunk_config \<Rightarrow> int \<Rightarrow> chunk_state \<Rightarrow> chunk_state option" where
  "split_loop cfg start = while_option (\<lambda>st. cc_size cfg \<le> length (ct_text st)) (split_step cfg start)"

definition chunk_paragraph :: "chunk_config \<Rightarrow> nat \<times> string \<Rightarrow> chunk_state \<Rightarrow> chunk_state option" where
  "chunk_paragraph cfg p st =
     (let (start, p_text) = p
      in if strip p_text = [] then Some st
         else split_loop cfg (int start)
           (st\<lparr>ct_headers := track_header (strip p_text) (ct_headers st),
              ct_start := (if ct_start st = -1 then int start else ct_start st),
              ct_text := ct_text st @ p_text @ [nl, nl]\<rparr>))"

fun chunk_paragraphs :: "chunk_config \<Rightarrow> (nat \<times> string) list \<Rightarrow> chunk_state \<Rightarrow> chunk_state option" where
  "chunk_paragraphs cfg [] st = Some st"
| "chunk_paragraphs cfg (p # ps) st = Option.bind (chunk_paragraph cfg p st) (chunk_paragraphs cfg ps)"

text \<open>After the loop \<open>start\<close> is the offset of the last paragraph.\<close>

definition chunk_remainder :: "chunk_config \<Rightarrow> int \<Rightarrow> chunk_state \<Rightarrow> chunk_part list" where
  "chunk_remainder cfg start st =
     (let c = strip (ct_text st)
      in if ct_text st \<noteq> [] \<and> (cc_min_length cfg \<le> int (length c) \<or> (ct_parts st = [] \<and> c \<noteq> []))
         then ct_parts st @ [new_part cfg start c st] else ct_parts st)"

definition no_headers :: headers where
  "no_headers = \<lparr>header1 = [], header2 = [], header3 = []\<rparr>"

definition chunk_start_state :: chunk_state where
  "chunk_start_state = \<lparr>ct_text = [], ct_start = -1, ct_index = 0, ct_parts = [], ct_headers = no_headers\<rparr>"

definition chunk_text ::
  "string \<Rightarrow> int \<Rightarrow> int \<Rightarrow> int \<Rightarrow> string \<Rightarrow> jdict \<Rightarrow> (app_error + chunk_part list) option" where
  "chunk_text t chunk_size overlap min_length mode source =
     (if t = [] then Some (Inr [])
      else if chunk_size \<le> 0 then Some (Inl (ValueErr ''chunk_size must be positive''))
      else if overlap < 0 then Some (Inl (ValueErr ''overlap must be non-negative''))
      else if overlap \<ge> chunk_size then Some (Inl (ValueErr ''overlap must be less than chunk_size''))
      else (let cfg = \<lparr>cc_size = nat chunk_size, cc_overlap = nat overlap, cc_min_length = min_length, cc_mode = mode, cc_source = source\<rparr>;
                ps = paragraphs 0 t
            in map_option (\<lambda>st. Inr (chunk_remainder cfg (int (fst (List.last ps))) st))
                 (chunk_paragraphs cfg ps chunk_start_state)))"

section \<open>Layout blocks\<close>

definition mode_from_block_type :: "string \<Rightarrow> string" where
  "mode_from_block_type b =
     (if b \<in> {''table'', ''spreadsheet''} then ''table''
      else if b \<in> {''slide'', ''title''} then ''slide''
      else if b = ''code'' then ''code'' else ''prose'')"

definition add_coord :: "jdict \<Rightarrow> string \<Rightarrow> jdict \<Rightarrow> jdict" where
  "add_coord coords key m = (case dict_get coords key of
     Some (JInt i) \<Rightarrow> dict_set (''coord_'' @ key) (JStr (py_str (JInt i))) m
   | Some (JBool b) \<Rightarrow> dict_set (''coord_'' @ key) (JStr (py_str (JBool b))) m
   | Some (JFloat f) \<Rightarrow> dict_set (''coord_'' @ key) (JStr (py_str (JFloat f))) m
   | _ \<Rightarrow> m)"

definition block_metadata :: "jdict \<Rightarrow> string \<Rightarrow> headers \<Rightarrow> jdict" where
  "block_metadata block block_type h =
     (let m0 = [(''block_type'', JStr block_type)];
          m1 = (if header1 h \<noteq> [] then dict_set ''header_1'' (JStr (header1 h)) m0 else m0);
          m2 = (if header2 h \<noteq> [] then dict_set ''header_2'' (JStr (header2 h)) m1 else m1);
          m3 = (if header3 h \<noteq> [] then dict_set ''header_3'' (JStr (header3 h)) m2 else m2);
          m4 = (case dict_get block ''page_number'' of
                  Some (JInt i) \<Rightarrow> dict_set ''page_number'' (JInt i) m3
                | Some (JBool b) \<Rightarrow> dict_set ''page_number'' (JBool b) m3 | _ \<Rightarrow> m3)
      in case dict_get block ''coordinates'' of
           Some (JObj d) \<Rightarrow> fold (add_coord d) [''x'', ''y'', ''w'', ''h''] m4
         | _ \<Rightarrow> m4)"

record block_state =
  bs_index :: nat
  bs_cursor :: int
  bs_headers :: headers
  bs_parts :: "chunk_part list"

definition field_text :: "jdict \<Rightarrow> string \<Rightarrow> string \<Rightarrow> string" where
  "field_text block key dflt = (case dict_get block key of None \<Rightarrow> dflt | Some v \<Rightarrow> py_str v)"

fun renumber :: "nat \<Rightarrow> int \<Rightarrow> chunk_part list \<Rightarrow> chunk_part list" where
  "renumber i off [] = []"
| "renumber i off (p # ps) = p\<lparr>cp_index := i, cp_start := off + cp_start p, cp_end := off + cp_end p\<rparr> # renumber (Suc i) off ps"

fun chunk_blocks :: "int \<Rightarrow> int \<Rightarrow> int \<Rightarrow> jdict list \<Rightarrow> block_state \<Rightarrow> (app_error + chunk_part list) option" where
  "chunk_blocks chunk_size overlap min_length [] st = Some (Inr (bs_parts st))"
| "chunk_blocks chunk_size overlap min_length (b # bs) st =
     (let t = strip (field_text b ''text'' [])
      in if t = [] then chunk_blocks chunk_size overlap min_length bs st
         else (let h = track_header t (bs_headers st);
                   block_type = lower (field_text b ''block_type'' ''prose'')
               in case chunk_text t chunk_size overlap min_length (mode_from_block_type block_type) (block_metadata b block_type h) of
                    None \<Rightarrow> None
                  | Some (Inl e) \<Rightarrow> Some (Inl e)
                  | Some (Inr nested) \<Rightarrow>
                      chunk_blocks chunk_size overlap min_length bs
                        \<lparr>bs_index = bs_index st + length nested, bs_cursor = bs_cursor st + int (length t) + 1, bs_headers = h,
                         bs_parts = bs_parts st @ renumber (bs_index st) (bs_cursor st) nested\<rparr>))"

definition chunk_structured :: "jdict list \<Rightarrow> int \<Rightarrow> int \<Rightarrow> int \<Rightarrow> (app_error + chunk_part list) option" where
  "chunk_structured blocks chunk_size overlap min_length =
     chunk_blocks chunk_size overlap min_length blocks \<lparr>bs_index = 0, bs_cursor = 0, bs_headers = no_headers, bs_parts = []\<rparr>"

section \<open>The loop ends\<close>

lemma is_space_nl [simp]: "is_space nl"
  by (simp add: is_space_def)

lemma length_lstrip: "length (lstrip s) \<le> length s"
  by (simp add: lstrip_def length_dropWhile_le)

lemma length_rstrip: "length (rstrip s) \<le> length s"
  using length_dropWhile_le [of is_space "rev s"] by (simp add: rstrip_def)

lemma length_strip: "length (strip s) \<le> length s"
  unfolding strip_def using length_lstrip length_rstrip order_trans by blast

lemma rstrip_snoc: "is_space c \<Longrightarrow> rstrip (s @ [c]) = rstrip s"
  by (simp add: rstrip_def)

lemma length_rstrip_space: "s \<noteq> [] \<Longrightarrow> is_space (List.last s) \<Longrightarrow> length (rstrip s) < length s"
  using length_rstrip by (cases s rule: rev_cases) (simp_all add: rstrip_snoc le_imp_less_Suc)

lemma length_strip_space:
  assumes "s \<noteq> []" and "is_space (List.last s)"
  shows "length (strip s) < length s"
proof (cases "lstrip s = []")
  case True
  then show ?thesis using assms(1) by (simp add: strip_def)
next
  case False
  have "takeWhile is_space s @ lstrip s = s" by (simp add: lstrip_def)
  then have "List.last (lstrip s) = List.last s" using False last_appendR by metis
  then show ?thesis
    using length_rstrip_space [OF False] assms(2) length_lstrip [of s] by (simp add: strip_def)
qed

lemma find_SomeD: "find P xs = Some x \<Longrightarrow> P x \<and> x \<in> set xs"
  by (induction xs) (auto split: if_splits)

lemma find_rev_filter: "find P (rev (filter Q xs)) = Some i \<Longrightarrow> P i \<and> Q i \<and> i \<in> set xs"
  using find_SomeD by fastforce

text \<open>Where a round cuts: at the hard limit, or right after a white-space character past the middle.\<close>

lemma split_at_cases:
  assumes "n = split_at chunk_size overlap t" and "chunk_size \<le> length t"
  obtains (hard) "n = chunk_size"
  | (soft) "chunk_size div 2 < n" "n \<le> chunk_size + overlap" "n \<le> length t" "is_space (t ! (n - 1))" "n \<noteq> 0"
proof -
  let ?r = "take (chunk_size + overlap) t"
  have sp: "is_space nl" by (rule is_space_nl)
  have lr: "length ?r \<le> chunk_size + overlap" "length ?r \<le> length t" by simp_all
  let ?a = "find (\<lambda>i. chunk_size div 2 < i) (rev (filter (\<lambda>i. ?r ! i = CHR ''.'' \<and> is_space (?r ! Suc i)) [0..<length ?r - 1]))"
  let ?b = "find (\<lambda>i. chunk_size div 2 < i) (rev (filter (\<lambda>i. ?r ! i = nl) [0..<length ?r]))"
  show thesis
  proof (cases ?a)
    case (Some i)
    have "chunk_size div 2 < i \<and> is_space (?r ! Suc i) \<and> i < length ?r - 1"
      using find_rev_filter [OF Some] by simp
    moreover from this have "?r ! Suc i = t ! Suc i" "Suc (Suc i) \<le> length ?r" by (simp_all add: less_diff_conv)
    moreover have "n = i + 2" using Some assms(1) by (simp add: split_at_def)
    ultimately show thesis using lr by (intro soft) simp_all
  next
    case none: None
    show thesis
    proof (cases ?b)
      case (Some i)
      have "chunk_size div 2 < i \<and> ?r ! i = nl \<and> i < length ?r"
        using find_rev_filter [OF Some] by simp
      moreover from this have "?r ! i = t ! i" by (intro nth_take) simp
      moreover have "n = i + 1" using none Some assms(1) by (simp add: split_at_def)
      ultimately show thesis using lr sp by (intro soft) simp_all
    qed (use none assms(1) hard in \<open>simp add: split_at_def\<close>)
  qed
qed

lemma split_at_bounds:
  assumes "chunk_size \<le> length t" and "0 < chunk_size"
  shows "0 < split_at chunk_size overlap t" "split_at chunk_size overlap t \<le> chunk_size + overlap"
    "split_at chunk_size overlap t \<le> length t"
  using assms by (cases rule: split_at_cases [OF refl assms(1), of overlap]; simp)+

text \<open>A round takes at least one character off the text, with one exception: a hard cut with an overlap
  of all but one character puts as many back, but leaves a line feed as the last character of the region.\<close>

definition loop_measure :: "chunk_config \<Rightarrow> chunk_state \<Rightarrow> nat" where
  "loop_measure cfg st = 2 * length (ct_text st) + (if is_space (ct_text st ! (cc_size cfg - 1)) then 0 else 1)"

lemma split_step_text:
  "ct_text (split_step cfg start st) =
     (let n = split_at (cc_size cfg) (cc_overlap cfg) (ct_text st)
      in with_overlap (cc_overlap cfg) (strip (take n (ct_text st))) (strip (drop n (ct_text st))))"
  by (simp add: split_step_def Let_def)

lemma with_overlap_length:
  "length (with_overlap k c r) \<le> (if 0 < k \<and> k < length c then k + 1 else 0) + length r"
  by (simp add: with_overlap_def)

lemma last_take:
  assumes "0 < n" and "n \<le> length t"
  shows "List.last (take n t) = t ! (n - 1)"
proof -
  have "take n t \<noteq> []" using assms by auto
  then show ?thesis using assms by (simp add: last_conv_nth)
qed

lemma split_step_decreases:
  assumes "cc_overlap cfg < cc_size cfg" and "cc_size cfg \<le> length (ct_text st)"
  shows "loop_measure cfg (split_step cfg start st) < loop_measure cfg st"
proof -
  define t where "t = ct_text st"
  define n where "n = split_at (cc_size cfg) (cc_overlap cfg) t"
  define c where "c = strip (take n t)"
  define r where "r = strip (drop n t)"
  define t' where "t' = with_overlap (cc_overlap cfg) c r"
  have t': "ct_text (split_step cfg start st) = t'"
    by (simp add: split_step_text t'_def c_def r_def n_def t_def Let_def)
  have len: "cc_size cfg \<le> length t" using assms(2) by (simp add: t_def)
  have n: "0 < n" "n \<le> length t" using split_at_bounds [OF len] assms(1) by (simp_all add: n_def)
  have ne: "take n t \<noteq> []" using n by auto
  have r: "length r + n \<le> length t" using length_strip [of "drop n t"] n by (simp add: r_def)
  have c: "length c \<le> n" using length_strip [of "take n t"] n by (simp add: c_def)
  consider "length t' < length t"
    | "length t' \<le> length t" "\<not> is_space (t ! (cc_size cfg - 1))" "is_space (t' ! (cc_size cfg - 1))"
  proof (cases "0 < cc_overlap cfg \<and> cc_overlap cfg < length c")
    case False
    then have "t' = r" by (auto simp: t'_def with_overlap_def)
    then show thesis using that(1) r n by simp
  next
    case True
    have l: "length t' = cc_overlap cfg + 1 + length r" using True by (simp add: t'_def with_overlap_def)
    show thesis
    proof (cases rule: split_at_cases [OF n_def len, case_names hard soft])
      case hard
      show thesis
      proof (cases "length t' < length t")
        case False
        then have o: "cc_overlap cfg + 1 = cc_size cfg" "length c = n" using l r hard assms(1) True c by linarith+
        have "\<not> is_space (t ! (cc_size cfg - 1))"
        proof
          assume "is_space (t ! (cc_size cfg - 1))"
          then have "is_space (List.last (take n t))" using hard n by (simp add: last_take)
          then have "length c < length (take n t)" using length_strip_space [OF ne] n by (simp add: c_def)
          with o n show False by simp
        qed
        moreover have "t' ! (cc_size cfg - 1) = nl"
          using True o by (auto simp: t'_def with_overlap_def nth_append)
        ultimately show thesis using that(2) l r hard o by simp
      qed (rule that(1))
    next
      case soft
      have "is_space (List.last (take n t))" using soft n by (simp add: last_take)
      then have "length c < n" using length_strip_space [OF ne] n by (simp add: c_def)
      then show thesis using that(1) l r True by simp
    qed
  qed
  then show ?thesis by cases (auto simp: loop_measure_def t' t_def [symmetric])
qed

lemma split_loop_returns:
  assumes "cc_overlap cfg < cc_size cfg"
  shows "\<exists>st'. split_loop cfg start st = Some st'"
  unfolding split_loop_def
  by (rule measure_while_option_Some [where P = "\<lambda>_. True" and f = "loop_measure cfg"])
     (use split_step_decreases [OF assms] in auto)

lemma split_loop_stops: "split_loop cfg start st = Some st' \<Longrightarrow> length (ct_text st') < cc_size cfg"
  unfolding split_loop_def using while_option_stop by fastforce

lemma split_loop_rule:
  assumes "split_loop cfg start st = Some st'" and "P st"
    and "\<And>x. P x \<Longrightarrow> cc_size cfg \<le> length (ct_text x) \<Longrightarrow> P (split_step cfg start x)"
  shows "P st'"
  using assms unfolding split_loop_def by (rule while_option_rule [rotated])

lemma chunk_paragraphs_return:
  assumes "cc_overlap cfg < cc_size cfg"
  shows "\<exists>st'. chunk_paragraphs cfg ps st = Some st'"
proof (induction ps arbitrary: st)
  case (Cons p ps)
  have "\<exists>x. chunk_paragraph cfg p st = Some x"
    using split_loop_returns [OF assms] by (auto simp: chunk_paragraph_def split: prod.splits)
  with Cons show ?case by auto
qed simp

section \<open>What the chunks are\<close>

definition part_ok :: "chunk_config \<Rightarrow> chunk_part \<Rightarrow> bool" where
  "part_ok cfg p \<longleftrightarrow> length (cp_content p) \<le> cc_size cfg + cc_overlap cfg \<and> strip (cp_content p) = cp_content p
     \<and> cp_end p = cp_start p + int (length (cp_content p))"

definition parts_ok :: "chunk_config \<Rightarrow> chunk_state \<Rightarrow> bool" where
  "parts_ok cfg st \<longleftrightarrow> map cp_index (ct_parts st) = [0..<length (ct_parts st)] \<and> ct_index st = length (ct_parts st)
     \<and> (\<forall>p \<in> set (ct_parts st). part_ok cfg p \<and> cc_min_length cfg \<le> int (length (cp_content p)))"

lemma parts_ok_step:
  assumes "parts_ok cfg st" and "cc_size cfg \<le> length (ct_text st)" and "0 < cc_size cfg"
  shows "parts_ok cfg (split_step cfg start st)"
proof -
  let ?n = "split_at (cc_size cfg) (cc_overlap cfg) (ct_text st)"
  have "length (strip (take ?n (ct_text st))) \<le> cc_size cfg + cc_overlap cfg"
    using length_strip [of "take ?n (ct_text st)"] split_at_bounds(2) [OF assms(2,3), of "cc_overlap cfg"] by simp
  then show ?thesis
    using assms(1) by (simp add: parts_ok_def split_step_def Let_def new_part_def part_ok_def)
qed

definition add_paragraph :: "nat \<times> string \<Rightarrow> chunk_state \<Rightarrow> chunk_state" where
  "add_paragraph p st = st\<lparr>ct_headers := track_header (strip (snd p)) (ct_headers st),
     ct_start := (if ct_start st = -1 then int (fst p) else ct_start st), ct_text := ct_text st @ snd p @ [nl, nl]\<rparr>"

lemma chunk_paragraph_loop:
  "chunk_paragraph cfg p st = Some x \<Longrightarrow> strip (snd p) \<noteq> [] \<Longrightarrow> split_loop cfg (int (fst p)) (add_paragraph p st) = Some x"
  by (simp add: chunk_paragraph_def case_prod_beta Let_def add_paragraph_def split del: if_split)

lemma parts_ok_paragraphs:
  assumes "chunk_paragraphs cfg ps st = Some st'" and "parts_ok cfg st" and "0 < cc_size cfg" and "length (ct_text st) < cc_size cfg"
  shows "parts_ok cfg st' \<and> length (ct_text st') < cc_size cfg"
  using assms
proof (induction ps arbitrary: st)
  case (Cons p ps)
  obtain x where x: "chunk_paragraph cfg p st = Some x" "chunk_paragraphs cfg ps x = Some st'"
    using Cons.prems(1) by (auto split: bind_splits)
  have "parts_ok cfg x \<and> length (ct_text x) < cc_size cfg"
  proof (cases "strip (snd p) = []")
    case False
    note l = chunk_paragraph_loop [OF x(1) False]
    let ?st = "add_paragraph p st"
    have "parts_ok cfg ?st" using Cons.prems(2) by (simp add: parts_ok_def add_paragraph_def)
    then have "parts_ok cfg x" using split_loop_rule [OF l, of "parts_ok cfg"] parts_ok_step Cons.prems(3) by blast
    then show ?thesis using split_loop_stops [OF l] by simp
  qed (use x(1) Cons.prems in \<open>cases p; simp add: chunk_paragraph_def\<close>)
  then show ?case using Cons.IH [OF x(2)] Cons.prems(3) by blast
qed simp

text \<open>C10. Chunking returns on every text, whatever the chunk size and the overlap below it: the loop that
  puts the overlap back always makes progress.  The chunks are numbered from zero without a gap; each is at
  most a chunk and an overlap long, carries no white space at its ends, spans exactly its length, and is at
  least the minimal length, unless it is the document's only one.\<close>

theorem chunk_text_returns:
  assumes "0 < chunk_size" and "0 \<le> overlap" and "overlap < chunk_size"
  shows "\<exists>parts. chunk_text t chunk_size overlap min_length mode source = Some (Inr parts)
    \<and> map cp_index parts = [0..<length parts]
    \<and> (\<forall>p \<in> set parts. int (length (cp_content p)) \<le> chunk_size + overlap \<and> strip (cp_content p) = cp_content p
         \<and> cp_end p = cp_start p + int (length (cp_content p))
         \<and> (min_length \<le> int (length (cp_content p)) \<or> (parts = [p] \<and> cp_content p \<noteq> [])))"
proof (cases "t = []")
  case False
  let ?cfg = "\<lparr>cc_size = nat chunk_size, cc_overlap = nat overlap, cc_min_length = min_length, cc_mode = mode, cc_source = source\<rparr>"
  let ?start = "int (fst (List.last (paragraphs 0 t)))"
  obtain st where st: "chunk_paragraphs ?cfg (paragraphs 0 t) chunk_start_state = Some st"
    using chunk_paragraphs_return [of ?cfg] assms by fastforce
  have ok: "parts_ok ?cfg st \<and> length (ct_text st) < nat chunk_size"
    using parts_ok_paragraphs [OF st] assms by (simp add: parts_ok_def chunk_start_state_def)
  have ret: "chunk_text t chunk_size overlap min_length mode source = Some (Inr (chunk_remainder ?cfg ?start st))"
    using False assms st by (simp add: chunk_text_def Let_def)
  have "length (strip (ct_text st)) \<le> nat chunk_size + nat overlap"
    using ok length_strip [of "ct_text st"] by linarith
  with ret ok assms show ?thesis
    by (auto simp: chunk_remainder_def Let_def parts_ok_def part_ok_def new_part_def)
qed (simp add: chunk_text_def)

section \<open>Nothing is lost\<close>

abbreviation ink :: "string \<Rightarrow> string" where
  "ink s \<equiv> filter (\<lambda>c. \<not> is_space c) s"

lemma ink_dropWhile: "ink (dropWhile is_space s) = ink s"
  by (induction s) auto

lemma ink_rev: "ink (rev s) = rev (ink s)"
  by (simp add: rev_filter)

lemma ink_strip [simp]: "ink (strip s) = ink s"
  by (simp add: strip_def rstrip_def lstrip_def ink_dropWhile ink_rev rev_swap)

lemma next_break_ink: "next_break s = Some (a, n, r) \<Longrightarrow> ink s = ink a @ ink r"
proof (induction s arbitrary: a)
  case (Cons c cs)
  have d: "ink (dropWhile (\<lambda>x. x = nl) ys) = ink ys" for ys
    by (induction ys) auto
  from Cons show ?case by (auto simp: d prefix_Cons split: if_splits)
qed simp

lemma paragraphs_ink: "ink (concat (map snd (paragraphs start s))) = ink s"
proof (induction start s rule: paragraphs.induct)
  case (1 start s)
  then show ?case
    by (subst paragraphs.simps) (auto dest: next_break_ink split: option.splits)
qed

definition written :: "chunk_state \<Rightarrow> string" where
  "written st = concat (map (\<lambda>p. ink (cp_content p)) (ct_parts st)) @ ink (ct_text st)"

lemma written_step:
  assumes "cc_min_length cfg \<le> 1"
  shows "subseq (written st) (written (split_step cfg start st))"
proof -
  let ?n = "split_at (cc_size cfg) (cc_overlap cfg) (ct_text st)"
  define c where "c = strip (take ?n (ct_text st))"
  define r where "r = strip (drop ?n (ct_text st))"
  have "ink (ct_text st) = ink (take ?n (ct_text st)) @ ink (drop ?n (ct_text st))"
    unfolding filter_append [symmetric] by simp
  then have old: "ink (ct_text st) = ink c @ ink r" by (simp add: c_def r_def)
  have "subseq (ink r) (ink (with_overlap (cc_overlap cfg) c r))"
    by (auto simp: with_overlap_def intro: list_emb_append2)
  then have new: "subseq (ink (ct_text st)) (ink c @ ink (with_overlap (cc_overlap cfg) c r))"
    by (simp add: old subseq_append')
  have "c = []" if "\<not> cc_min_length cfg \<le> int (length c)"
    using that assms by (cases c) simp_all
  with new show ?thesis
    by (auto simp: written_def split_step_def Let_def new_part_def c_def [symmetric] r_def [symmetric] old
        intro: list_emb_append_mono)
qed

lemma written_paragraphs:
  assumes "chunk_paragraphs cfg ps st = Some st'" and "cc_min_length cfg \<le> 1"
  shows "subseq (written st @ ink (concat (map snd ps))) (written st')"
  using assms
proof (induction ps arbitrary: st)
  case (Cons p ps)
  obtain x where x: "chunk_paragraph cfg p st = Some x" "chunk_paragraphs cfg ps x = Some st'"
    using Cons.prems(1) by (auto split: bind_splits)
  have "subseq (written st @ ink (snd p)) (written x)"
  proof (cases "strip (snd p) = []")
    case True
    then have "ink (snd p) = []" by (metis filter.simps(1) ink_strip)
    then show ?thesis using x(1) True by (cases p) (simp add: chunk_paragraph_def)
  next
    case False
    note l = chunk_paragraph_loop [OF x(1) False]
    let ?st = "add_paragraph p st"
    have "subseq (written ?st) (written x)"
      by (rule split_loop_rule [OF l, of "\<lambda>y. subseq (written ?st) (written y)"])
         (use written_step [OF Cons.prems(2)] subseq_order.order_trans in blast)+
    then show ?thesis by (simp add: written_def add_paragraph_def)
  qed
  then have "subseq ((written st @ ink (snd p)) @ ink (concat (map snd ps))) (written x @ ink (concat (map snd ps)))"
    by (simp only: subseq_append)
  then show ?case using Cons.IH [OF x(2) Cons.prems(2)] subseq_order.order_trans by fastforce
qed simp


section \<open>Layout blocks\<close>

lemma renumber_index: "map cp_index (renumber i off ps) = [i..<i + length ps]"
  by (induction ps arbitrary: i) (simp_all add: upt_rec)

lemma renumber_content: "map cp_content (renumber i off ps) = map cp_content ps"
  by (induction ps arbitrary: i) simp_all

text \<open>A document of layout blocks is always chunked too: one numbering without a gap runs through all its
  blocks, and no chunk is longer than a chunk and an overlap.\<close>

theorem chunk_structured_returns:
  assumes "0 < chunk_size" and "0 \<le> overlap" and "overlap < chunk_size"
  shows "\<exists>parts. chunk_structured blocks chunk_size overlap min_length = Some (Inr parts)
    \<and> map cp_index parts = [0..<length parts] \<and> (\<forall>p \<in> set parts. int (length (cp_content p)) \<le> chunk_size + overlap)"
proof -
  have "\<exists>parts. chunk_blocks chunk_size overlap min_length blocks st = Some (Inr parts)
      \<and> map cp_index parts = [0..<length parts] \<and> (\<forall>p \<in> set parts. int (length (cp_content p)) \<le> chunk_size + overlap)"
    if "map cp_index (bs_parts st) = [0..<bs_index st]" "bs_index st = length (bs_parts st)"
      "\<forall>p \<in> set (bs_parts st). int (length (cp_content p)) \<le> chunk_size + overlap" for st
    using that
  proof (induction blocks arbitrary: st)
    case (Cons b bs)
    let ?t = "strip (field_text b ''text'' [])"
    let ?h = "track_header ?t (bs_headers st)"
    let ?type = "lower (field_text b ''block_type'' ''prose'')"
    show ?case
    proof (cases "?t = []")
      case False
      obtain nested where n: "chunk_text ?t chunk_size overlap min_length (mode_from_block_type ?type) (block_metadata b ?type ?h) = Some (Inr nested)"
        "\<forall>p \<in> set nested. int (length (cp_content p)) \<le> chunk_size + overlap"
        using chunk_text_returns [OF assms, of ?t min_length "mode_from_block_type ?type" "block_metadata b ?type ?h"] by blast
      let ?new = "renumber (bs_index st) (bs_cursor st) nested"
      have len: "length ?new = length nested" using arg_cong [OF renumber_content [of _ _ nested], of length] by simp
      have new: "\<forall>c \<in> set (map cp_content ?new). int (length c) \<le> chunk_size + overlap"
        unfolding renumber_content using n(2) by simp
      let ?st = "\<lparr>bs_index = bs_index st + length nested, bs_cursor = bs_cursor st + int (length ?t) + 1, bs_headers = ?h,
          bs_parts = bs_parts st @ ?new\<rparr>"
      from new have "\<forall>p \<in> set (bs_parts ?st). int (length (cp_content p)) \<le> chunk_size + overlap" using Cons.prems(3) by auto
      moreover have "map cp_index (bs_parts ?st) = [0..<bs_index ?st]"
        using Cons.prems(1) upt_add_eq_append [of 0 "bs_index st" "length nested"] by (simp add: renumber_index)
      moreover have "bs_index ?st = length (bs_parts ?st)" using Cons.prems(2) len by simp
      moreover have "chunk_blocks chunk_size overlap min_length (b # bs) st = chunk_blocks chunk_size overlap min_length bs ?st"
        using False n(1) by (simp add: Let_def)
      ultimately show ?thesis using Cons.IH [of ?st] by simp
    qed (use Cons in simp)
  qed simp
  from this [of "\<lparr>bs_index = 0, bs_cursor = 0, bs_headers = no_headers, bs_parts = []\<rparr>"] show ?thesis
    by (simp add: chunk_structured_def)
qed

section \<open>Concrete runs\<close>

text \<open>Two defects of the split show on small texts.  After the first cut the offsets of a chunk are those of
  its paragraph, not its own: both halves of one paragraph claim the place of the first.  And what is left
  of a paragraph is joined to the next one without the line feeds between them: the last word of one and the
  first word of the other become one word.\<close>

theorem split_defects:
  "chunk_text ''abcdefgh'' 4 0 1 ''prose'' [] = Some (Inr
     [\<lparr>cp_index = 0, cp_content = ''abcd'', cp_start = 0, cp_end = 4, cp_metadata = [(''strategy'', JStr ''semantic''), (''mode'', JStr ''prose'')]\<rparr>,
      \<lparr>cp_index = 1, cp_content = ''efgh'', cp_start = 0, cp_end = 4, cp_metadata = [(''strategy'', JStr ''semantic''), (''mode'', JStr ''prose'')]\<rparr>])
   \<and> map_option (map_sum id (map cp_content)) (chunk_text (''one two'' @ [nl, nl] @ ''three'') 6 0 1 ''prose'' [])
     = Some (Inr [''one tw'', ''othree''])"
  by code_simp

theorem chunk_text_returns_witness:
  "\<exists>parts. chunk_text ''One sentence. And one more.'' 3 2 1 ''prose'' [] = Some (Inr parts) \<and> map cp_index parts = [0..<length parts]"
  using chunk_text_returns [of 3 2 "''One sentence. And one more.''" 1 "''prose''" "[]"] by auto

theorem chunk_structured_returns_witness:
  "\<exists>parts. chunk_structured [[(''text'', JStr ''Introduction''), (''block_type'', JStr ''title'')], [(''text'', JStr ''Some words.'')]] 8 7 1
     = Some (Inr parts) \<and> map cp_index parts = [0..<length parts]"
  using chunk_structured_returns
    [of 8 7 "[[(''text'', JStr ''Introduction''), (''block_type'', JStr ''title'')], [(''text'', JStr ''Some words.'')]]" 1] by auto


end
