(* ===== verification/Task_Plan.thy ===== *)
theory Task_Plan
  imports Run_Events
begin

text \<open>
  The task ledger of an agent conversation: the typed boundary of the tool \<open>todo_write\<close>
  (\<open>deepspace/services/tool_registry.py\<close>: \<open>TaskArguments\<close>, \<open>TodoWriteArguments\<close>), the durable store of
  the plan (\<open>deepspace/services/task_loop.py\<close>: \<open>_validate_plan_shape\<close>, \<open>replace_tasks\<close>, \<open>mark_task\<close>,
  \<open>check_tasks\<close>) and the tool's dispatch in \<open>chat_service.py\<close>.  The search for cycles is proved equal to
  acyclicity of the dependency relation, and a stored plan is shown to be executable.
\<close>

section \<open>Rows\<close>

text \<open>A row of \<open>agent_todos\<close>: its owner columns are the scope (tenant, user, conversation), its metadata
  dictionary the four entries that the store writes.\<close>

record todo =
  td_id :: string
  td_scope :: scope
  td_content :: string
  td_active :: string
  td_status :: string
  td_priority :: int
  td_deps :: "string list"
  td_evidence :: "string list"
  td_success :: "string option"
  td_verify :: "string option"
  td_created :: int
  td_updated :: int

record plan_db =
  plan_rows :: "todo list"
  plan_base :: db

abbreviation max_tasks :: nat where "max_tasks \<equiv> 40"
abbreviation max_task_text :: nat where "max_task_text \<equiv> 1000"

definition task_statuses :: "string list" where
  "task_statuses = [''pending'', ''in_progress'', ''completed'', ''blocked'', ''failed'']"

text \<open>\<open>_tasks\<close>: the live rows of the conversation by priority, then age.\<close>

definition live_tasks :: "scope \<Rightarrow> plan_db \<Rightarrow> todo list" where
  "live_tasks sc p = order_by (\<lambda>t. (td_priority t, td_created t))
     (filter (\<lambda>t. td_scope t = sc \<and> td_status t \<noteq> ''deleted'') (plan_rows p))"

definition find_task :: "string \<Rightarrow> todo list \<Rightarrow> todo option" where
  "find_task i ts = first_row (filter (\<lambda>t. td_id t = i) ts)"

section \<open>The search for a cycle\<close>

text \<open>\<open>visit\<close> of both validators, on the dictionary \<open>dependencies_by_task\<close>: \<open>visiting\<close> holds the tasks on the
  path, \<open>visited\<close> the finished ones, most recent first; \<open>None\<close> is the raised \<open>ValueError\<close>.  Every call that
  goes on adds a key to \<open>visiting\<close>.\<close>

function visit :: "(string \<times> string list) list \<Rightarrow> string list \<Rightarrow> string list \<Rightarrow> string \<Rightarrow> string list option"
  and visit_all :: "(string \<times> string list) list \<Rightarrow> string list \<Rightarrow> string list \<Rightarrow> string list \<Rightarrow> string list option" where
  "visit g visiting visited x =
     (if x \<in> set visited then Some visited
      else if x \<in> set visiting then None
      else (case map_of g x of
         None \<Rightarrow> Some (x # visited)
       | Some ds \<Rightarrow> (case visit_all g (x # visiting) visited ds of
           None \<Rightarrow> None | Some v \<Rightarrow> Some (x # v))))"
| "visit_all g visiting visited [] = Some visited"
| "visit_all g visiting visited (y # ys) =
     (if map_of g y = None then visit_all g visiting visited ys
      else (case visit g visiting visited y of
         None \<Rightarrow> None | Some v \<Rightarrow> visit_all g visiting v ys))"
  by pat_completeness auto

termination
proof (relation "measures
    [\<lambda>z. case z of Inl (g, p, _, _) \<Rightarrow> card (fst ` set g - set p) | Inr (g, p, _, _) \<Rightarrow> card (fst ` set g - set p),
     \<lambda>z. case z of Inl _ \<Rightarrow> 0 | Inr (_, _, _, ys) \<Rightarrow> Suc (length ys)]", goal_cases)
  case (2 g p v x ds)
  then have "x \<in> fst ` set g - set p" by (force dest: map_of_SomeD)
  then have "card (fst ` set g - set (x # p)) < card (fst ` set g - set p)"
    by (intro psubset_card_mono) auto
  then show ?case by simp
qed auto

definition acyclic_plan :: "(string \<times> string list) list \<Rightarrow> bool" where
  "acyclic_plan g = (visit_all g [] [] (map fst g) \<noteq> None)"

text \<open>The relation that the search decides.\<close>

definition depends_on :: "(string \<times> string list) list \<Rightarrow> (string \<times> string) set" where
  "depends_on g = {(x, y). \<exists>ds. map_of g x = Some ds \<and> y \<in> set ds \<and> map_of g y \<noteq> None}"

lemma in_depends_on: "(x, y) \<in> depends_on g \<longleftrightarrow> (\<exists>ds. map_of g x = Some ds \<and> y \<in> set ds \<and> map_of g y \<noteq> None)"
  by (simp add: depends_on_def)

text \<open>The finished tasks in the order of their completion: every task's dependencies finished before it.\<close>

fun finished_in_order :: "(string \<times> string list) list \<Rightarrow> string list \<Rightarrow> bool" where
  "finished_in_order g [] = True"
| "finished_in_order g (x # xs) = (x \<notin> set xs \<and> depends_on g `` {x} \<subseteq> set xs \<and> finished_in_order g xs)"

lemma finished_no_cycle:
  assumes "finished_in_order g vs" "x \<in> set vs" "(x, y) \<in> (depends_on g)\<^sup>+"
  shows "y \<in> set vs \<and> x \<noteq> y"
  using assms
proof (induction vs arbitrary: x y)
  case Nil
  then show ?case by simp
next
  case (Cons v vs)
  have tail: "b \<in> set vs \<and> a \<noteq> b" if "a \<in> set vs" "(a, b) \<in> (depends_on g)\<^sup>+" for a b
    using Cons.IH [OF _ that] Cons.prems(1) by simp
  show ?case
  proof (cases "x \<in> set vs")
    case True
    then show ?thesis using tail Cons.prems(3) by auto
  next
    case False
    then have "x = v" using Cons.prems(2) by simp
    obtain c where c: "(x, c) \<in> depends_on g" "(c, y) \<in> (depends_on g)\<^sup>*"
      using tranclD [OF Cons.prems(3)] by blast
    then have "c \<in> set vs" using Cons.prems(1) \<open>x = v\<close> by auto
    moreover have "y \<in> set vs" using c(2) tail calculation by (auto simp: rtrancl_eq_or_trancl)
    ultimately show ?thesis using False by auto
  qed
qed


lemma visit_sound:
  "visit g p v x = Some v' \<Longrightarrow> finished_in_order g v \<Longrightarrow> map_of g x \<noteq> None \<Longrightarrow>
     finished_in_order g v' \<and> set v \<subseteq> set v' \<and> x \<in> set v' \<and> set v' \<inter> set p \<subseteq> set v \<and> set v' \<subseteq> set v \<union> fst ` set g"
  "visit_all g p v ys = Some v' \<Longrightarrow> finished_in_order g v \<Longrightarrow>
     finished_in_order g v' \<and> set v \<subseteq> set v' \<and> {y \<in> set ys. map_of g y \<noteq> None} \<subseteq> set v' \<and> set v' \<inter> set p \<subseteq> set v
       \<and> set v' \<subseteq> set v \<union> fst ` set g"
proof (induction g p v x and g p v ys arbitrary: v' and v' rule: visit_visit_all.induct)
  case (1 g p v x)
  show ?case
  proof (cases "x \<in> set v")
    case True
    then show ?thesis using 1 by simp
  next
    case False
    then have "x \<notin> set p" using 1 by (cases "x \<in> set p") simp_all
    obtain ds where ds: "map_of g x = Some ds" using 1 by auto
    then obtain w where w: "visit_all g (x # p) v ds = Some w" "v' = x # w"
      using 1 False \<open>x \<notin> set p\<close> by (auto split: option.splits)
    note ih = 1(1) [OF False \<open>x \<notin> set p\<close> ds w(1) 1(3)]
    have "x \<notin> set w" using ih False by auto
    moreover have "depends_on g `` {x} \<subseteq> set w" using ih ds by (auto simp: in_depends_on)
    moreover have "x \<in> fst ` set g" using ds by (force dest: map_of_SomeD)
    ultimately show ?thesis using ih w(2) \<open>x \<notin> set p\<close> by auto
  qed
next
  case (2 g p v)
  then show ?case by simp
next
  case (3 g p v y ys)
  show ?case
  proof (cases "map_of g y = None")
    case True
    then have "visit_all g p v ys = Some v'" using 3(4) by simp
    from 3(1) [OF True this 3(5)] show ?thesis using True by auto
  next
    case False
    then obtain w where w: "visit g p v y = Some w" "visit_all g p w ys = Some v'"
      using 3(4) by (auto simp del: visit.simps split: option.splits)
    note a = 3(2) [OF False w(1) 3(5) False]
    have "finished_in_order g v' \<and> set w \<subseteq> set v' \<and> {y \<in> set ys. map_of g y \<noteq> None} \<subseteq> set v' \<and> set v' \<inter> set p \<subseteq> set w
       \<and> set v' \<subseteq> set w \<union> fst ` set g"
      using 3(3) [OF False w(1,2)] a by simp
    then show ?thesis using a by auto
  qed
qed

lemma visit_complete:
  "visit g p v x = None \<Longrightarrow> \<forall>a \<in> set p. (a, x) \<in> (depends_on g)\<^sup>+ \<Longrightarrow> map_of g x \<noteq> None \<Longrightarrow>
     \<exists>a. (a, a) \<in> (depends_on g)\<^sup>+"
  "visit_all g p v ys = None \<Longrightarrow> \<forall>a \<in> set p. \<forall>y \<in> set ys. map_of g y \<noteq> None \<longrightarrow> (a, y) \<in> (depends_on g)\<^sup>+ \<Longrightarrow>
     \<exists>a. (a, a) \<in> (depends_on g)\<^sup>+"
proof (induction g p v x and g p v ys rule: visit_visit_all.induct)
  case (1 g p v x)
  have nv: "x \<notin> set v" using 1(2) by (cases "x \<in> set v") simp_all
  show ?case
  proof (cases "x \<in> set p")
    case True
    then show ?thesis using 1(3) by blast
  next
    case False
    obtain ds where ds: "map_of g x = Some ds" using 1(4) by auto
    then have n: "visit_all g (x # p) v ds = None" using 1(2) nv False by (simp split: option.splits)
    have "(a, y) \<in> (depends_on g)\<^sup>+" if "a \<in> set (x # p)" "y \<in> set ds" "map_of g y \<noteq> None" for a y
    proof -
      have e: "(x, y) \<in> depends_on g" using ds that by (auto simp: in_depends_on)
      show ?thesis using that(1) 1(3) e by (auto intro: trancl_into_trancl)
    qed
    then show ?thesis using 1(1) [OF nv False ds n] by blast
  qed
next
  case (2 g p v)
  then show ?case by simp
next
  case (3 g p v y ys)
  show ?case
  proof (cases "map_of g y = None")
    case True
    then show ?thesis using 3(1) [OF True] 3(4,5) by simp
  next
    case False
    show ?thesis
    proof (cases "visit g p v y")
      case None
      then show ?thesis using 3(2) [OF False] 3(5) False by simp
    next
      case (Some w)
      then show ?thesis using 3(3) [OF False Some] 3(4,5) False by (simp del: visit.simps)
    qed
  qed
qed

lemma acyclic_plan_iff: "acyclic_plan g \<longleftrightarrow> acyclic (depends_on g)"
proof
  assume "acyclic_plan g"
  then obtain v where v: "visit_all g [] [] (map fst g) = Some v" by (auto simp: acyclic_plan_def)
  note s = visit_sound(2) [OF v]
  have "x \<in> set v" if "(x, y) \<in> (depends_on g)\<^sup>+" for x y
  proof -
    have "map_of g x \<noteq> None" using tranclD [OF that] by (auto simp: in_depends_on)
    then show ?thesis using s by (force dest: map_of_SomeD)
  qed
  then show "acyclic (depends_on g)" using finished_no_cycle s by (fastforce simp: acyclic_def)
next
  assume "acyclic (depends_on g)"
  then show "acyclic_plan g" using visit_complete(2) [of g "[]" "[]" "map fst g"] by (auto simp: acyclic_def acyclic_plan_def)
qed


section \<open>The plan of a request\<close>

text \<open>Iterating over a value that is not a list: the characters of a string, the keys of a dictionary; numbers
  and truth values raise.\<close>

fun py_iter :: "json \<Rightarrow> app_error + json list" where
  "py_iter (JList xs) = Inr xs"
| "py_iter (JStr s) = Inr (map (\<lambda>c. JStr [c]) s)"
| "py_iter (JObj d) = Inr (map (\<lambda>e. JStr (fst e)) d)"
| "py_iter j = Inl (TypeErr ''object is not iterable'')"

definition first_truthy :: "string list \<Rightarrow> jdict \<Rightarrow> json option" where
  "first_truthy ks d = first_row (filter truthy (map (the \<circ> dict_get d) (filter (\<lambda>k. dict_get d k \<noteq> None) ks)))"

definition raw_dependencies :: "jdict \<Rightarrow> app_error + json list" where
  "raw_dependencies d = (case first_truthy [''dependencies'', ''depends_on''] d of
     None \<Rightarrow> Inr [] | Some j \<Rightarrow> py_iter j)"

definition stripped :: "jdict \<Rightarrow> string \<Rightarrow> string" where
  "stripped d k = strip (get_str_or d k [])"

definition stripped_texts :: "json list \<Rightarrow> string list" where
  "stripped_texts js = filter (\<lambda>t. t \<noteq> []) (map (\<lambda>j. strip (py_str j)) js)"

text \<open>The loops of \<open>_validate_plan_shape\<close>: identifiers with their criteria, then the dependencies, then the
  cycles.\<close>

fun plan_ids :: "nat \<Rightarrow> json list \<Rightarrow> app_error + string list" where
  "plan_ids i [] = Inr []"
| "plan_ids i (JObj d # ts) =
     (let tid = stripped d ''id'' in
      if tid = [] then Inl (ValueErr (''Task '' @ str_int (int i + 1) @ '' needs an id so dependencies and progress remain stable.''))
      else if stripped d ''success_criteria'' = [] then Inl (ValueErr (''Task '' @ repr_str tid @ '' needs success_criteria.''))
      else if stripped d ''verification'' = [] then Inl (ValueErr (''Task '' @ repr_str tid @ '' needs verification.''))
      else (case plan_ids (Suc i) ts of Inl e \<Rightarrow> Inl e | Inr is \<Rightarrow> Inr (tid # is)))"
| "plan_ids i (t # ts) = Inl (AttributeErr ''object has no attribute get'')"

fun plan_graph :: "string list \<Rightarrow> string list \<Rightarrow> (json \<times> string) list \<Rightarrow> app_error + (string \<times> string list) list" where
  "plan_graph known requested [] = Inr []"
| "plan_graph known requested ((t, tid) # ts) =
     (case raw_dependencies (as_dict t) of
        Inl e \<Rightarrow> Inl e
      | Inr js \<Rightarrow>
          (let ds = stripped_texts js; unknown = filter (\<lambda>x. x \<notin> set known) ds in
           if unknown \<noteq> []
           then Inl (ValueErr (''Task '' @ repr_str tid @ '' depends on unknown task ids: '' @ comma_spaces (take 5 unknown) @ ''.''))
           else if tid \<in> set ds then Inl (ValueErr (''Task '' @ repr_str tid @ '' cannot depend on itself.''))
           else (case plan_graph known requested ts of
               Inl e \<Rightarrow> Inl e
             | Inr g \<Rightarrow> Inr ((tid, filter (\<lambda>x. x \<in> set requested) ds) # g))))"

definition validate_plan_shape :: "json list \<Rightarrow> string list \<Rightarrow> app_error + unit" where
  "validate_plan_shape tasks existing =
     (if length tasks \<le> 1 then Inr ()
      else (case plan_ids 0 tasks of
         Inl e \<Rightarrow> Inl e
       | Inr is \<Rightarrow>
           (if \<not> distinct is then Inl (ValueErr ''Every task id in a plan must be unique.'')
            else (case plan_graph (is @ existing) is (zip tasks is) of
                Inl e \<Rightarrow> Inl e
              | Inr g \<Rightarrow> if acyclic_plan g then Inr () else Inl (ValueErr ''Task dependencies contain a cycle.'')))))"

section \<open>Replacing the plan\<close>

text \<open>The identifiers of the request and their row identifiers: an identifier of a live row stays, any other
  gets a fresh UUID.\<close>

fun request_ids ::
  "string list \<Rightarrow> nat \<Rightarrow> nat \<Rightarrow> (string \<times> string) list \<Rightarrow> json list \<Rightarrow>
     app_error + (string \<times> string) list \<times> (jdict \<times> string) list \<times> nat" where
  "request_ids existing i n ids [] = Inr (ids, [], n)"
| "request_ids existing i n ids (JObj d # ts) =
     (let rid = trunc 120 (get_str_or d ''id'' []);
          known = rid \<in> set existing;
          ids' = (if rid = [] then ids else ids @ [(rid, if known then rid else uuid_str n)]);
          n' = (if rid = [] \<or> known then n else Suc n)
      in if rid \<noteq> [] \<and> map_of ids rid \<noteq> None then Inl (ValueErr (''Task id '' @ repr_str rid @ '' is duplicated.''))
         else (case request_ids existing (Suc i) n' ids' ts of
             Inl e \<Rightarrow> Inl e
           | Inr (m, rs, k) \<Rightarrow> Inr (m, (d, rid) # rs, k)))"
| "request_ids existing i n ids (t # ts) = Inl (ValueErr (''Task '' @ str_int (int i + 1) @ '' must be an object.''))"

definition task_text :: "jdict \<Rightarrow> string" where
  "task_text d = trunc max_task_text (stripped d ''content'')"

definition active_text :: "jdict \<Rightarrow> string \<Rightarrow> string" where
  "active_text d dflt = trunc max_task_text (strip
     (case first_truthy [''active_form'', ''activeForm''] d of None \<Rightarrow> dflt | Some j \<Rightarrow> py_str j))"

definition planned_bytes :: "(jdict \<times> string) list \<Rightarrow> int" where
  "planned_bytes rs = sum_list (map (\<lambda>(d, _).
     estimate_bytes [PStr (task_text d), PStr (active_text d (get_str_or d ''content'' []))]) rs)"

definition todo_bytes :: "todo \<Rightarrow> int" where
  "todo_bytes t = estimate_bytes [PStr (td_content t), PStr (td_active t)]"

definition task_status_of :: "jdict \<Rightarrow> string" where
  "task_status_of d = (let st = get_str_or d ''status'' ''pending'' in if st \<in> set task_statuses then st else ''pending'')"

text \<open>A text that the request gives replaces the stored one; \<open>None\<close> leaves it.\<close>

definition updated_text :: "jdict \<Rightarrow> string \<Rightarrow> string option \<Rightarrow> string option" where
  "updated_text d k old = (case dict_get d k of
     None \<Rightarrow> old | Some JNull \<Rightarrow> old | Some _ \<Rightarrow> Some (trunc max_task_text (stripped d k)))"

definition updated_evidence :: "jdict \<Rightarrow> string list \<Rightarrow> string list" where
  "updated_evidence d old = (case dict_get d ''evidence'' of
     Some (JList xs) \<Rightarrow> map (\<lambda>j. trunc 1000 (py_str j)) (take 10 xs) | _ \<Rightarrow> old)"

definition row_dependencies :: "(string \<times> string) list \<Rightarrow> json list \<Rightarrow> string list" where
  "row_dependencies ids js = trunc max_tasks
     (map (\<lambda>j. case map_of ids (py_str j) of None \<Rightarrow> py_str j | Some x \<Rightarrow> x)
       (filter (\<lambda>j. strip (py_str j) \<noteq> []) js))"

text \<open>\<open>onupdate\<close> of the row's timestamp: only a row that changes is written.\<close>

definition touched :: "int \<Rightarrow> todo \<Rightarrow> todo \<Rightarrow> todo" where
  "touched now old new = (if new = old then old else new\<lparr>td_updated := now\<rparr>)"

definition new_todo :: "int \<Rightarrow> scope \<Rightarrow> string \<Rightarrow> todo" where
  "new_todo now sc i = \<lparr>td_id = i, td_scope = sc, td_content = [], td_active = [], td_status = [], td_priority = 0,
     td_deps = [], td_evidence = [], td_success = None, td_verify = None, td_created = now, td_updated = now\<rparr>"

definition fill_todo :: "jdict \<Rightarrow> nat \<Rightarrow> string list \<Rightarrow> todo \<Rightarrow> todo" where
  "fill_todo d i deps t = t\<lparr>td_content := task_text d, td_active := active_text d (task_text d),
     td_status := task_status_of d, td_priority := int i + 1, td_deps := deps,
     td_evidence := updated_evidence d (td_evidence t),
     td_success := updated_text d ''success_criteria'' (td_success t),
     td_verify := updated_text d ''verification'' (td_verify t)\<rparr>"

text \<open>The loop over the tasks: the rows it updates or creates, in the order of the request.\<close>

fun write_tasks ::
  "int \<Rightarrow> scope \<Rightarrow> todo list \<Rightarrow> (string \<times> string) list \<Rightarrow> nat \<Rightarrow> nat \<Rightarrow> (jdict \<times> string) list \<Rightarrow>
     app_error + todo list \<times> nat" where
  "write_tasks now sc existing ids i n [] = Inr ([], n)"
| "write_tasks now sc existing ids i n ((d, rid) # rs) =
     (if task_text d = [] then Inl (ValueErr (''Task '' @ str_int (int i + 1) @ '' is empty.''))
      else (case raw_dependencies d of
         Inl e \<Rightarrow> Inl e
       | Inr js \<Rightarrow>
           (let tid = (if rid = [] then [] else the (map_of ids rid));
                deps = row_dependencies ids js;
                t = (case find_task (if find_task rid existing \<noteq> None then rid else tid) existing of
                    Some old \<Rightarrow> touched now old (fill_todo d i deps old)
                  | None \<Rightarrow> fill_todo d i deps (new_todo now sc (if tid = [] then uuid_str n else tid)));
                n' = (if tid = [] then Suc n else n)
            in (case write_tasks now sc existing ids (Suc i) n' rs of
                  Inl e \<Rightarrow> Inl e | Inr (ts, k) \<Rightarrow> Inr (t # ts, k)))))"

text \<open>The rows of the table after the loop: the written ones, and the live ones that the request does not
  name are marked deleted.\<close>

definition replaced_rows :: "int \<Rightarrow> todo list \<Rightarrow> todo list \<Rightarrow> todo list \<Rightarrow> todo list" where
  "replaced_rows now existing written rows =
     map (\<lambda>t. if find_task (td_id t) existing = None then t
              else (case find_task (td_id t) written of
                  Some t' \<Rightarrow> t' | None \<Rightarrow> t\<lparr>td_status := ''deleted'', td_updated := now\<rparr>)) rows
     @ filter (\<lambda>t. find_task (td_id t) existing = None) written"

text \<open>\<open>_serialize\<close>.\<close>

definition serialize_task :: "todo \<Rightarrow> jdict" where
  "serialize_task t =
     [(''id'', JStr (td_id t)), (''content'', JStr (td_content t)), (''active_form'', JStr (td_active t)),
      (''status'', JStr (td_status t)), (''priority'', JInt (td_priority t)),
      (''dependencies'', JList (map JStr (td_deps t))), (''evidence'', JList (map JStr (td_evidence t))),
      (''success_criteria'', JStr (case td_success t of None \<Rightarrow> [] | Some x \<Rightarrow> x)),
      (''verification'', JStr (case td_verify t of None \<Rightarrow> [] | Some x \<Rightarrow> x)),
      (''created_at'', JStr (isoformat (td_created t))), (''updated_at'', JStr (isoformat (td_updated t)))]"

definition read_tasks :: "scope \<Rightarrow> plan_db \<Rightarrow> jdict list" where
  "read_tasks sc p = map serialize_task (live_tasks sc p)"

definition replace_tasks ::
  "int \<Rightarrow> scope \<Rightarrow> json list \<Rightarrow> plan_db \<Rightarrow> app_error + jdict list \<times> plan_db" where
  "replace_tasks now sc tasks p =
     (if max_tasks < length tasks then Inl (ValueErr ''A DeepSpace plan may contain at most 40 tasks.'')
      else (let existing = live_tasks sc p; s = plan_base p in
        case validate_plan_shape tasks (map td_id existing) of
          Inl e \<Rightarrow> Inl e
        | Inr _ \<Rightarrow> (case request_ids (map td_id existing) 0 (next_id s) [] tasks of
            Inl e \<Rightarrow> Inl e
          | Inr (ids, rs, n) \<Rightarrow> (case ensure_capacity_if_supported now (fst sc) (Some (fst (snd sc)))
                (planned_bytes rs) (sum_list (map todo_bytes existing)) (s\<lparr>next_id := n\<rparr>) of
              Inl e \<Rightarrow> Inl e
            | Inr (_, s1) \<Rightarrow> (case write_tasks now sc existing ids 0 (next_id s1) rs of
                Inl e \<Rightarrow> Inl e
              | Inr (written, k) \<Rightarrow>
                  (let fresh = filter (\<lambda>t. find_task (td_id t) existing = None) written;
                       p' = \<lparr>plan_rows = replaced_rows now existing written (plan_rows p), plan_base = s1\<lparr>next_id := k\<rparr>\<rparr>
                   in if \<not> distinct (map td_id fresh) \<or> td_id ` set fresh \<inter> td_id ` set (plan_rows p) \<noteq> {}
                      then Inl IntegrityError
                      else Inr (read_tasks sc p', p')))))))"


section \<open>Working through the plan\<close>

definition unresolved :: "todo list \<Rightarrow> string list \<Rightarrow> string list" where
  "unresolved ts ds = filter (\<lambda>d. case find_task d ts of None \<Rightarrow> True | Some t \<Rightarrow> td_status t \<noteq> ''completed'') ds"

definition append_evidence :: "string option \<Rightarrow> string list \<Rightarrow> string list" where
  "append_evidence ev es = (case ev of
     None \<Rightarrow> es
   | Some e \<Rightarrow> if strip e = [] then es
              else (let es' = es @ [trunc 1000 (strip e)] in drop (length es' - 10) es'))"

definition mark_task ::
  "int \<Rightarrow> scope \<Rightarrow> string \<Rightarrow> string \<Rightarrow> string option \<Rightarrow> plan_db \<Rightarrow> app_error + jdict \<times> plan_db" where
  "mark_task now sc tid status ev p =
     (if status \<notin> set task_statuses then Inl (ValueErr ''Invalid task status.'')
      else (let ts = live_tasks sc p in
        case find_task tid ts of
          None \<Rightarrow> Inl (ValueErr ''Task not found in this DeepSpace conversation.'')
        | Some t \<Rightarrow>
            (let incomplete = unresolved ts (td_deps t) in
             if status \<in> {''in_progress'', ''completed''} \<and> incomplete \<noteq> []
             then Inl (ValueErr (''Task dependencies are incomplete: '' @ comma_spaces (take 5 incomplete)))
             else if status = ''completed'' \<and> (ev = None \<or> ev = Some []) \<and> td_evidence t = []
             then Inl (ValueErr ''Completed tasks require evidence.'')
             else (let t' = touched now t (t\<lparr>td_status := status, td_evidence := append_evidence ev (td_evidence t)\<rparr>)
                   in Inr (serialize_task t', p\<lparr>plan_rows := upd_where (\<lambda>x. td_id x = tid) (\<lambda>_. t') (plan_rows p)\<rparr>)))))"

record task_check =
  tc_complete :: bool
  tc_count :: nat
  tc_completed :: nat
  tc_remaining :: nat
  tc_blocked :: nat
  tc_issues :: "(string \<times> string list) list"
  tc_tasks :: "jdict list"

definition check_tasks :: "scope \<Rightarrow> plan_db \<Rightarrow> task_check" where
  "check_tasks sc p =
     (let ts = live_tasks sc p; completed = filter (\<lambda>t. td_status t = ''completed'') ts
      in \<lparr>tc_complete = (ts \<noteq> [] \<and> length completed = length ts), tc_count = length ts, tc_completed = length completed,
          tc_remaining = length (filter (\<lambda>t. td_status t \<noteq> ''completed'') ts),
          tc_blocked = length (filter (\<lambda>t. td_status t \<in> {''blocked'', ''failed''}) ts),
          tc_issues = filter (\<lambda>(_, ds). ds \<noteq> []) (map (\<lambda>t. (td_id t, unresolved ts (td_deps t))) ts),
          tc_tasks = map serialize_task ts\<rparr>)"

definition summarize_tasks :: "jdict list \<Rightarrow> string" where
  "summarize_tasks ts =
     (if ts = [] then ''No active task plan.''
      else str_int (int (length (filter (\<lambda>d. dict_get d ''status'' = Some (JStr ''completed'')) ts))) @ ''/'' @
           str_int (int (length ts)) @ '' tasks completed.'')"

text \<open>The tool's dispatch in the chat service.\<close>

datatype todo_result = PlanReplaced "jdict list" string | PlanRead "jdict list" string task_check
  | PlanChecked task_check | TaskUpdated jdict string task_check

definition todo_write :: "int \<Rightarrow> scope \<Rightarrow> jdict \<Rightarrow> plan_db \<Rightarrow> app_error + todo_result \<times> plan_db" where
  "todo_write now sc args p =
     (let op = lower (stripped args ''operation'') in
      if op = ''replace''
      then (case dict_get args ''tasks'' of
          Some (JList tasks) \<Rightarrow> (case replace_tasks now sc tasks p of
              Inl e \<Rightarrow> Inl e | Inr (ts, p') \<Rightarrow> Inr (PlanReplaced ts (summarize_tasks ts), p'))
        | _ \<Rightarrow> Inl (ValueErr ''todo_write(replace) requires a tasks array.''))
      else if op = ''read'' then Inr (PlanRead (read_tasks sc p) (summarize_tasks (read_tasks sc p)) (check_tasks sc p), p)
      else if op = ''check'' then Inr (PlanChecked (check_tasks sc p), p)
      else if op = ''update''
      then (let tid = stripped args ''task_id''; status = stripped args ''status'' in
            if tid = [] \<or> status = [] then Inl (ValueErr ''todo_write(update) requires task_id and status.'')
            else (case mark_task now sc tid status (Some (trunc 1000 (get_str_or args ''evidence'' []))) p of
                Inl e \<Rightarrow> Inl e | Inr (t, p') \<Rightarrow> Inr (TaskUpdated t ''Task status updated.'' (check_tasks sc p'), p')))
      else Inl (ValueErr ''todo_write requires operation replace, read, update, or check.''))"

section \<open>The typed boundary\<close>

record task_args =
  ta_id :: "string option"
  ta_content :: string
  ta_active :: "string option"
  ta_success :: "string option"
  ta_verify :: "string option"
  ta_status :: "string option"
  ta_priority :: "int option"
  ta_deps :: "string list option"

record todo_args =
  ga_operation :: string
  ga_tasks :: "task_args list option"
  ga_task_id :: "string option"
  ga_status :: "string option"
  ga_evidence :: "string option"

definition opt_len :: "nat \<Rightarrow> nat \<Rightarrow> 'a list option \<Rightarrow> bool" where
  "opt_len lo hi x = (case x of None \<Rightarrow> True | Some s \<Rightarrow> lo \<le> length s \<and> length s \<le> hi)"

definition opt_status :: "string option \<Rightarrow> bool" where
  "opt_status x = (case x of None \<Rightarrow> True | Some s \<Rightarrow> s \<in> set task_statuses)"

text \<open>The field constraints of the two models.\<close>

definition task_args_ok :: "task_args \<Rightarrow> bool" where
  "task_args_ok a = (opt_len 1 120 (ta_id a) \<and> ta_content a \<noteq> [] \<and> length (ta_content a) \<le> 1000 \<and> opt_len 0 1000 (ta_active a) \<and>
     opt_len 0 1000 (ta_success a) \<and> opt_len 0 1000 (ta_verify a) \<and> opt_status (ta_status a) \<and>
     (case ta_priority a of None \<Rightarrow> True | Some n \<Rightarrow> 0 \<le> n \<and> n \<le> 1000) \<and> opt_len 0 40 (ta_deps a))"

definition todo_args_ok :: "todo_args \<Rightarrow> bool" where
  "todo_args_ok a = (ga_operation a \<in> {''replace'', ''read'', ''update'', ''check''} \<and> opt_len 1 40 (ga_tasks a) \<and>
     (case ga_tasks a of None \<Rightarrow> True | Some ts \<Rightarrow> list_all task_args_ok ts) \<and>
     opt_len 1 120 (ga_task_id a) \<and> opt_status (ga_status a) \<and> opt_len 0 1000 (ga_evidence a))"

text \<open>\<open>str(x or "").strip()\<close> of an optional field, and the stripped dependencies of a task.\<close>

definition opt_strip :: "string option \<Rightarrow> string" where
  "opt_strip x = (case x of None \<Rightarrow> [] | Some s \<Rightarrow> strip s)"

definition arg_deps :: "task_args \<Rightarrow> string list" where
  "arg_deps a = (case ta_deps a of None \<Rightarrow> [] | Some ds \<Rightarrow> filter (\<lambda>x. x \<noteq> []) (map strip ds))"

fun check_task_args :: "string list \<Rightarrow> (task_args \<times> string) list \<Rightarrow> app_error + unit" where
  "check_task_args is [] = Inr ()"
| "check_task_args is ((a, tid) # as) =
     (if opt_strip (ta_success a) = [] then Inl (ValueErr (''task '' @ repr_str tid @ '' requires success_criteria''))
      else if opt_strip (ta_verify a) = [] then Inl (ValueErr (''task '' @ repr_str tid @ '' requires verification''))
      else if tid \<in> set (arg_deps a) then Inl (ValueErr (''task '' @ repr_str tid @ '' cannot depend on itself''))
      else if \<not> set (arg_deps a) \<subseteq> set is then Inl (ValueErr (''task '' @ repr_str tid @ '' has unknown dependencies''))
      else check_task_args is as)"

definition validate_operation :: "todo_args \<Rightarrow> app_error + unit" where
  "validate_operation a =
     (if ga_operation a = ''read'' \<or> ga_operation a = ''check'' then Inr ()
      else if ga_operation a = ''update''
      then (if (case ga_task_id a of None \<Rightarrow> True | Some t \<Rightarrow> t = []) \<or> (case ga_status a of None \<Rightarrow> True | Some t \<Rightarrow> t = [])
            then Inl (ValueErr ''todo_write(update) requires task_id and status'')
            else if (case ga_status a of None \<Rightarrow> False | Some st \<Rightarrow> st \<in> {''completed'', ''blocked'', ''failed''}) \<and>
                    opt_strip (ga_evidence a) = []
            then Inl (ValueErr ''terminal todo_write(update) requires evidence'')
            else Inr ())
      else (case ga_tasks a of
          None \<Rightarrow> Inl (ValueErr ''todo_write(replace) requires a tasks array'')
        | Some ts \<Rightarrow>
            (if ts = [] then Inl (ValueErr ''todo_write(replace) requires a tasks array'')
             else if length ts \<le> 1 then Inr ()
             else (let is = map (\<lambda>t. opt_strip (ta_id t)) ts in
                   if [] \<in> set is then Inl (ValueErr ''multi-step plans require an id for every task'')
                   else if \<not> distinct is then Inl (ValueErr ''multi-step plans require unique task ids'')
                   else (case check_task_args is (zip ts is) of
                       Inl e \<Rightarrow> Inl e
                     | Inr _ \<Rightarrow> if acyclic_plan (zip is (map arg_deps ts)) then Inr ()
                               else Inl (ValueErr ''task dependencies contain a cycle''))))))"

text \<open>\<open>model_dump(exclude_none=True)\<close>.\<close>

definition dump_field :: "string \<Rightarrow> ('a \<Rightarrow> json) \<Rightarrow> 'a option \<Rightarrow> jdict" where
  "dump_field k f x = (case x of None \<Rightarrow> [] | Some v \<Rightarrow> [(k, f v)])"

definition dump_task :: "task_args \<Rightarrow> jdict" where
  "dump_task a = dump_field ''id'' JStr (ta_id a) @ [(''content'', JStr (ta_content a))] @ dump_field ''active_form'' JStr (ta_active a)
     @ dump_field ''success_criteria'' JStr (ta_success a) @ dump_field ''verification'' JStr (ta_verify a)
     @ dump_field ''status'' JStr (ta_status a) @ dump_field ''priority'' JInt (ta_priority a)
     @ dump_field ''dependencies'' (\<lambda>ds. JList (map JStr ds)) (ta_deps a)"

definition dump_todo :: "todo_args \<Rightarrow> jdict" where
  "dump_todo a = (''operation'', JStr (ga_operation a)) # dump_field ''tasks'' (\<lambda>ts. JList (map (\<lambda>t. JObj (dump_task t)) ts)) (ga_tasks a)
     @ dump_field ''task_id'' JStr (ga_task_id a) @ dump_field ''status'' JStr (ga_status a)
     @ dump_field ''evidence'' JStr (ga_evidence a)"

text \<open>A call of the tool: the boundary, then the dispatch on the dumped arguments.\<close>

definition call_todo_write :: "int \<Rightarrow> scope \<Rightarrow> todo_args \<Rightarrow> plan_db \<Rightarrow> app_error + todo_result \<times> plan_db" where
  "call_todo_write now sc a p =
     (if \<not> todo_args_ok a then Inl (ValueErr ''arguments'')
      else (case validate_operation a of Inl e \<Rightarrow> Inl e | Inr _ \<Rightarrow> todo_write now sc (dump_todo a) p))"


section \<open>What the validation accepts\<close>

abbreviation task_key :: "jdict \<Rightarrow> string" where "task_key d \<equiv> stripped d ''id''"

definition plan_edges :: "jdict list \<Rightarrow> (string \<times> string) set" where
  "plan_edges ds = {(task_key d, y) | d y. d \<in> set ds \<and>
     (\<exists>js. raw_dependencies d = Inr js \<and> y \<in> set (stripped_texts js)) \<and> y \<in> task_key ` set ds}"

lemma plan_ids_Inr:
  "plan_ids i ts = Inr is \<longleftrightarrow> (\<exists>ds. ts = map JObj ds \<and> is = map task_key ds \<and>
     (\<forall>d \<in> set ds. task_key d \<noteq> [] \<and> stripped d ''success_criteria'' \<noteq> [] \<and> stripped d ''verification'' \<noteq> []))"
proof (induction i ts arbitrary: "is" rule: plan_ids.induct)
  case (1 i)
  then show ?case by auto
next
  case (2 i d ts)
  show ?case
  proof
    assume "plan_ids i (JObj d # ts) = Inr is"
    then obtain js where "plan_ids (Suc i) ts = Inr js" "is = task_key d # js" and ok: "task_key d \<noteq> []"
        "stripped d ''success_criteria'' \<noteq> []" "stripped d ''verification'' \<noteq> []"
      by (auto simp: Let_def split: if_splits sum.splits)
    with 2 [OF refl ok, of js] obtain ds where "ts = map JObj ds" "js = map task_key ds"
      "\<forall>d \<in> set ds. task_key d \<noteq> [] \<and> stripped d ''success_criteria'' \<noteq> [] \<and> stripped d ''verification'' \<noteq> []" by auto
    with ok \<open>is = _\<close> show "\<exists>ds. JObj d # ts = map JObj ds \<and> is = map task_key ds \<and>
     (\<forall>d \<in> set ds. task_key d \<noteq> [] \<and> stripped d ''success_criteria'' \<noteq> [] \<and> stripped d ''verification'' \<noteq> [])"
      by (intro exI [of _ "d # ds"]) simp
  next
    assume "\<exists>ds. JObj d # ts = map JObj ds \<and> is = map task_key ds \<and>
     (\<forall>d \<in> set ds. task_key d \<noteq> [] \<and> stripped d ''success_criteria'' \<noteq> [] \<and> stripped d ''verification'' \<noteq> [])"
    then obtain ds where ds: "JObj d # ts = map JObj ds \<and> is = map task_key ds \<and>
      (\<forall>d \<in> set ds. task_key d \<noteq> [] \<and> stripped d ''success_criteria'' \<noteq> [] \<and> stripped d ''verification'' \<noteq> [])" ..
    then obtain es where "ds = d # es" by (cases ds) auto
    with ds 2 [OF refl, of "map task_key es"] show "plan_ids i (JObj d # ts) = Inr is" by (auto simp: Let_def)
  qed
qed auto

text \<open>The dependencies of a task as the second loop reads them.\<close>

definition named_deps :: "jdict \<Rightarrow> string list" where
  "named_deps d = stripped_texts (projr (raw_dependencies d))"

lemma plan_graph_Inr:
  "plan_graph known requested (zip (map JObj ds) (map task_key ds)) = Inr g \<longleftrightarrow>
     (\<forall>d \<in> set ds. \<not> isl (raw_dependencies d) \<and> set (named_deps d) \<subseteq> set known - {task_key d}) \<and>
     g = map (\<lambda>d. (task_key d, filter (\<lambda>x. x \<in> set requested) (named_deps d))) ds"
proof (induction ds arbitrary: g)
  case Nil
  then show ?case by auto
next
  case (Cons d ds)
  have f: "filter (\<lambda>x. x \<notin> set known) xs = [] \<longleftrightarrow> set xs \<subseteq> set known" for xs by (auto simp: filter_empty_conv)
  let ?G = "plan_graph known requested (zip (map JObj ds) (map task_key ds))"
  show ?case
  proof (cases "raw_dependencies d")
    case (Inl e)
    then show ?thesis by simp
  next
    case (Inr js)
    show ?thesis
    proof (cases ?G)
      case (Inl e)
      then have "\<not> (\<forall>d \<in> set ds. \<not> isl (raw_dependencies d) \<and> set (named_deps d) \<subseteq> set known - {task_key d})"
        using Cons.IH by auto
      then show ?thesis using Inr Inl by (auto simp: Let_def)
    next
      case (Inr g')
      then show ?thesis using Cons.IH [of g'] \<open>raw_dependencies d = Inr js\<close>
        by (auto simp: Let_def named_deps_def f split: if_splits)
    qed
  qed
qed

lemma depends_on_plan:
  assumes "distinct (map task_key ds)" and "\<forall>d \<in> set ds. \<not> isl (raw_dependencies d)"
  shows "depends_on (map (\<lambda>d. (task_key d, filter (\<lambda>x. x \<in> task_key ` set ds) (named_deps d))) ds) = plan_edges ds"
proof -
  let ?g = "map (\<lambda>d. (task_key d, filter (\<lambda>x. x \<in> task_key ` set ds) (named_deps d))) ds"
  have keys: "map fst ?g = map task_key ds" by simp
  have dist: "distinct (map fst ?g)" unfolding keys by (rule assms(1))
  have some: "map_of ?g x = Some xs \<longleftrightarrow> (x, xs) \<in> set ?g" for x xs
    using map_of_eq_Some_iff [OF dist] by blast
  have none: "map_of ?g y \<noteq> None \<longleftrightarrow> y \<in> task_key ` set ds" for y
    by (force simp: map_of_eq_None_iff)
  have r: "(\<exists>js. raw_dependencies d = Inr js \<and> y \<in> set (stripped_texts js)) \<longleftrightarrow> y \<in> set (named_deps d)" if "d \<in> set ds" for d y
    using assms(2) that by (cases "raw_dependencies d") (auto simp: named_deps_def)
  have "(x, y) \<in> depends_on ?g \<longleftrightarrow> (\<exists>d \<in> set ds. x = task_key d \<and> y \<in> set (named_deps d) \<and> y \<in> task_key ` set ds)" for x y
    unfolding in_depends_on some none by auto
  moreover have "(x, y) \<in> plan_edges ds \<longleftrightarrow> (\<exists>d \<in> set ds. x = task_key d \<and> y \<in> set (named_deps d) \<and> y \<in> task_key ` set ds)" for x y
    using r by (auto simp: plan_edges_def)
  ultimately show ?thesis by (simp add: set_eq_iff split_paired_all)
qed

text \<open>The reference: a plan of at least two tasks is a list of dictionaries with distinct identifiers and both
  criteria, whose dependencies are other known tasks, without a cycle.\<close>

definition well_shaped :: "json list \<Rightarrow> string list \<Rightarrow> bool" where
  "well_shaped tasks existing = (\<exists>ds. tasks = map JObj ds \<and> distinct (map task_key ds) \<and>
     (\<forall>d \<in> set ds. task_key d \<noteq> [] \<and> stripped d ''success_criteria'' \<noteq> [] \<and> stripped d ''verification'' \<noteq> [] \<and>
        (\<exists>js. raw_dependencies d = Inr js \<and> set (stripped_texts js) \<subseteq> task_key ` set ds \<union> set existing - {task_key d})) \<and>
     acyclic (plan_edges ds))"

lemma inj_JObj: "inj JObj"
  by (simp add: inj_def)

lemma validated_iff:
  assumes "1 < length tasks"
  shows "validate_plan_shape tasks existing = Inr () \<longleftrightarrow> well_shaped tasks existing"
proof -
  have dep: "(\<exists>js. raw_dependencies d = Inr js \<and> set (stripped_texts js) \<subseteq> A) \<longleftrightarrow> \<not> isl (raw_dependencies d) \<and> set (named_deps d) \<subseteq> A"
    for d A by (cases "raw_dependencies d") (auto simp: named_deps_def)
  show ?thesis
  proof
    assume v: "validate_plan_shape tasks existing = Inr ()"
    then obtain "is" where i: "plan_ids 0 tasks = Inr is" using assms by (auto simp: validate_plan_shape_def split: sum.splits)
    then obtain ds where ds: "tasks = map JObj ds" "is = map task_key ds"
      "\<forall>d \<in> set ds. task_key d \<noteq> [] \<and> stripped d ''success_criteria'' \<noteq> [] \<and> stripped d ''verification'' \<noteq> []"
      by (auto simp: plan_ids_Inr)
    obtain g where d: "distinct is" and g: "plan_graph (is @ existing) is (zip tasks is) = Inr g" "acyclic_plan g"
      using v i assms by (auto simp: validate_plan_shape_def split: if_splits sum.splits)
    note gr = g(1) [unfolded ds(1,2) plan_graph_Inr]
    have "depends_on g = plan_edges ds" using gr depends_on_plan [of ds] d ds(2) by simp
    then have "acyclic (plan_edges ds)" using g(2) by (simp add: acyclic_plan_iff)
    then show "well_shaped tasks existing" unfolding well_shaped_def dep using ds d gr by (intro exI [of _ ds]) auto
  next
    assume "well_shaped tasks existing"
    then obtain ds where ds: "tasks = map JObj ds" "distinct (map task_key ds)" "acyclic (plan_edges ds)"
      and ok: "\<forall>d \<in> set ds. task_key d \<noteq> [] \<and> stripped d ''success_criteria'' \<noteq> [] \<and> stripped d ''verification'' \<noteq> [] \<and>
        \<not> isl (raw_dependencies d) \<and> set (named_deps d) \<subseteq> task_key ` set ds \<union> set existing - {task_key d}"
      unfolding well_shaped_def dep by blast
    let ?is = "map task_key ds"
    let ?g = "map (\<lambda>d. (task_key d, filter (\<lambda>x. x \<in> set ?is) (named_deps d))) ds"
    have i: "plan_ids 0 tasks = Inr ?is" using ds ok by (auto simp: plan_ids_Inr)
    have g: "plan_graph (?is @ existing) ?is (zip tasks ?is) = Inr ?g" using ok by (simp add: ds(1) plan_graph_Inr)
    have "acyclic_plan ?g" using depends_on_plan [of ds] ds ok by (simp add: acyclic_plan_iff)
    then show "validate_plan_shape tasks existing = Inr ()"
      using assms i g ds(2) by (simp add: validate_plan_shape_def)
  qed
qed



section \<open>A sound plan can be worked off\<close>

definition row_edges :: "todo list \<Rightarrow> (string \<times> string) set" where
  "row_edges ts = (\<Union>t \<in> set ts. {td_id t} \<times> set (td_deps t))"

definition plan_sound :: "scope \<Rightarrow> plan_db \<Rightarrow> bool" where
  "plan_sound sc p = (distinct (map td_id (plan_rows p)) \<and>
     (\<forall>t \<in> set (live_tasks sc p). set (td_deps t) \<subseteq> td_id ` set (live_tasks sc p)) \<and>
     acyclic (row_edges (live_tasks sc p)))"

fun complete_each :: "int \<Rightarrow> scope \<Rightarrow> string \<Rightarrow> string list \<Rightarrow> plan_db \<Rightarrow> app_error + plan_db" where
  "complete_each now sc ev [] p = Inr p"
| "complete_each now sc ev (i # is) p = (case mark_task now sc i ''completed'' (Some ev) p of
     Inl e \<Rightarrow> Inl e | Inr (_, p') \<Rightarrow> complete_each now sc ev is p')"

lemma in_live_tasks [simp]:
  "t \<in> set (live_tasks sc p) \<longleftrightarrow> t \<in> set (plan_rows p) \<and> td_scope t = sc \<and> td_status t \<noteq> ''deleted''"
  by (auto simp: live_tasks_def)

lemma find_task_Some: "find_task i ts = Some t \<Longrightarrow> t \<in> set ts \<and> td_id t = i"
  unfolding find_task_def by (drule first_row_in) simp

lemma find_task_None: "find_task i ts = None \<longleftrightarrow> i \<notin> td_id ` set ts"
  by (auto simp: find_task_def filter_empty_conv)

lemma find_task_eq:
  assumes "inj_on td_id (set ts)" "t \<in> set ts"
  shows "find_task (td_id t) ts = Some t"
proof (cases "find_task (td_id t) ts")
  case None
  then show ?thesis using assms(2) by (simp add: find_task_None)
next
  case (Some u)
  then show ?thesis using find_task_Some [OF Some] assms by (auto dest: inj_onD)
qed

lemma live_inj: "distinct (map td_id (plan_rows p)) \<Longrightarrow> inj_on td_id (set (live_tasks sc p))"
  by (rule inj_on_subset [of td_id "set (plan_rows p)"]) (auto simp: distinct_map)

lemma touched_fields [simp]:
  "td_id (touched now old new) = td_id new" "td_scope (touched now old new) = td_scope new"
  "td_status (touched now old new) = td_status new" "td_deps (touched now old new) = td_deps new"
  "td_priority (touched now old new) = td_priority new" "td_evidence (touched now old new) = td_evidence new"
  by (simp_all add: touched_def)

lemma mark_task_Inr:
  assumes "mark_task now sc tid st ev p = Inr (d, p')" and "distinct (map td_id (plan_rows p))"
  obtains t t' where "t \<in> set (live_tasks sc p)" "td_id t = tid" "t' = touched now t (t\<lparr>td_status := st, td_evidence := append_evidence ev (td_evidence t)\<rparr>)"
    "d = serialize_task t'" "p' = p\<lparr>plan_rows := upd_where (\<lambda>x. td_id x = tid) (\<lambda>_. t') (plan_rows p)\<rparr>"
    "st \<in> set task_statuses" "st \<in> {''in_progress'', ''completed''} \<longrightarrow> unresolved (live_tasks sc p) (td_deps t) = []"
    "st = ''completed'' \<longrightarrow> ev \<noteq> None \<and> ev \<noteq> Some [] \<or> td_evidence t \<noteq> []"
proof -
  obtain t where t: "find_task tid (live_tasks sc p) = Some t"
    using assms(1) by (auto simp: mark_task_def Let_def split: if_splits option.splits)
  show thesis
    by (rule that [of t "touched now t (t\<lparr>td_status := st, td_evidence := append_evidence ev (td_evidence t)\<rparr>)"])
      (use assms(1) t find_task_Some [OF t] in \<open>auto simp: mark_task_def Let_def split: if_splits\<close>)
qed

lemma marked_live:
  assumes "distinct (map td_id (plan_rows p))" "t \<in> set (live_tasks sc p)" "td_id t' = td_id t" "td_scope t' = sc" "td_status t' \<noteq> ''deleted''"
  shows "set (live_tasks sc (p\<lparr>plan_rows := upd_where (\<lambda>x. td_id x = td_id t) (\<lambda>_. t') (plan_rows p)\<rparr>))
    = insert t' (set (live_tasks sc p) - {t})"
proof -
  have inj: "inj_on td_id (set (plan_rows p))" using assms(1) by (simp add: distinct_map)
  have "td_id x = td_id t \<longleftrightarrow> x = t" if "x \<in> set (plan_rows p)" for x
    using inj that assms(2) by (auto dest: inj_onD)
  then have "set (upd_where (\<lambda>x. td_id x = td_id t) (\<lambda>_. t') (plan_rows p)) = (\<lambda>x. if x = t then t' else x) ` set (plan_rows p)"
    unfolding upd_where_def set_map by (intro image_cong) simp_all
  also have "\<dots> = insert t' (set (plan_rows p) - {t})" using assms(2) by auto
  finally have rows: "set (upd_where (\<lambda>x. td_id x = td_id t) (\<lambda>_. t') (plan_rows p)) = insert t' (set (plan_rows p) - {t})" .
  show ?thesis
  proof (rule set_eqI)
    fix x
    show "x \<in> set (live_tasks sc (p\<lparr>plan_rows := upd_where (\<lambda>x. td_id x = td_id t) (\<lambda>_. t') (plan_rows p)\<rparr>)) \<longleftrightarrow>
        x \<in> insert t' (set (live_tasks sc p) - {t})"
      using assms(4,5) by (cases "x = t'") (simp_all add: rows conj_ac)
  qed
qed

lemma marked_sound:
  assumes "plan_sound sc p" "t \<in> set (live_tasks sc p)" "td_id t' = td_id t" "td_scope t' = sc" "td_status t' \<noteq> ''deleted''" "td_deps t' = td_deps t"
  shows "plan_sound sc (p\<lparr>plan_rows := upd_where (\<lambda>x. td_id x = td_id t) (\<lambda>_. t') (plan_rows p)\<rparr>)"
proof -
  let ?p = "p\<lparr>plan_rows := upd_where (\<lambda>x. td_id x = td_id t) (\<lambda>_. t') (plan_rows p)\<rparr>"
  have d: "distinct (map td_id (plan_rows p))" using assms(1) by (simp add: plan_sound_def)
  note live = marked_live [OF d assms(2-5)]
  have "map td_id (plan_rows ?p) = map td_id (plan_rows p)"
    by (simp add: upd_where_def assms(3))
  moreover have "td_id ` set (live_tasks sc ?p) = td_id ` set (live_tasks sc p)"
    unfolding live using assms(2,3) by (auto simp del: in_live_tasks simp: image_iff)
  moreover have "row_edges (live_tasks sc ?p) = row_edges (live_tasks sc p)"
    unfolding row_edges_def live using assms(2,3,6) by (auto simp del: in_live_tasks)
  moreover have "set (td_deps x) \<subseteq> td_id ` set (live_tasks sc p)" if "x \<in> set (live_tasks sc ?p)" for x
    using that assms(1,2,6) unfolding live plan_sound_def by (cases "x = t'") (simp_all del: in_live_tasks)
  ultimately show ?thesis using assms(1) by (simp add: plan_sound_def del: in_live_tasks)
qed

text \<open>One step: while a task is open, some open task has all its dependencies done and can be completed.\<close>

lemma next_task:
  assumes s: "plan_sound sc p" and o: "\<exists>t \<in> set (live_tasks sc p). td_status t \<noteq> ''completed''" and ev: "ev \<noteq> []"
  shows "\<exists>t d p'. t \<in> set (live_tasks sc p) \<and> td_status t \<noteq> ''completed'' \<and>
    mark_task now sc (td_id t) ''completed'' (Some ev) p = Inr (d, p') \<and> plan_sound sc p' \<and>
    (\<exists>t'. td_status t' = ''completed'' \<and> set (live_tasks sc p') = insert t' (set (live_tasks sc p) - {t}))"
proof -
  let ?L = "live_tasks sc p" and ?Q = "td_id ` {t \<in> set (live_tasks sc p). td_status t \<noteq> ''completed''}"
  have d: "distinct (map td_id (plan_rows p))" using s by (simp add: plan_sound_def)
  note inj = live_inj [OF d, of sc]
  have "finite (row_edges ?L)" by (simp add: row_edges_def del: in_live_tasks)
  then have "wf ((row_edges ?L)\<inverse>)" using s by (intro finite_acyclic_wf_converse) (auto simp: plan_sound_def)
  moreover obtain q where "q \<in> ?Q" using o by blast
  ultimately obtain z where z: "z \<in> ?Q" "\<And>y. (y, z) \<in> (row_edges ?L)\<inverse> \<Longrightarrow> y \<notin> ?Q" by (rule wfE_min) blast
  then obtain t where t: "t \<in> set ?L" "td_status t \<noteq> ''completed''" "td_id t = z" by blast
  have dep: "\<exists>u. find_task y ?L = Some u \<and> td_status u = ''completed''" if "y \<in> set (td_deps t)" for y
  proof -
    have "(z, y) \<in> row_edges ?L" using t that by (auto simp: row_edges_def simp del: in_live_tasks)
    then have nq: "y \<notin> ?Q" using z(2) by blast
    have "y \<in> td_id ` set ?L" using s t(1) that unfolding plan_sound_def by blast
    then obtain u where u: "u \<in> set ?L" "td_id u = y" by blast
    then show ?thesis using nq find_task_eq [OF inj u(1)] by (auto simp del: in_live_tasks)
  qed
  have un: "unresolved ?L (td_deps t) = []"
    by (fastforce simp: unresolved_def filter_empty_conv dest: dep)
  let ?t = "touched now t (t\<lparr>td_status := ''completed'', td_evidence := append_evidence (Some ev) (td_evidence t)\<rparr>)"
  let ?p = "p\<lparr>plan_rows := upd_where (\<lambda>x. td_id x = td_id t) (\<lambda>_. ?t) (plan_rows p)\<rparr>"
  have sc: "td_scope t = sc" using t(1) by simp
  have m: "mark_task now sc (td_id t) ''completed'' (Some ev) p = Inr (serialize_task ?t, ?p)"
    using find_task_eq [OF inj t(1)] un ev by (simp add: mark_task_def Let_def task_statuses_def)
  have "plan_sound sc ?p" by (rule marked_sound [OF s t(1)]) (simp_all add: sc)
  moreover have "set (live_tasks sc ?p) = insert ?t (set ?L - {t})" by (rule marked_live [OF d t(1)]) (simp_all add: sc)
  ultimately show ?thesis using t m by (intro exI [of _ t] exI [of _ "serialize_task ?t"] exI [of _ ?p] conjI exI [of _ ?t]) simp_all
qed

lemma sound_plan_completes:
  assumes "plan_sound sc p" "live_tasks sc p \<noteq> []" "ev \<noteq> []"
  shows "\<exists>is p'. complete_each now sc ev is p = Inr p' \<and> tc_complete (check_tasks sc p')"
  using assms
proof (induction "card {t \<in> set (live_tasks sc p). td_status t \<noteq> ''completed''}" arbitrary: p rule: less_induct)
  case less
  show ?case
  proof (cases "\<exists>t \<in> set (live_tasks sc p). td_status t \<noteq> ''completed''")
    case False
    then have "filter (\<lambda>t. td_status t = ''completed'') (live_tasks sc p) = live_tasks sc p" by (intro filter_True) blast
    then have "tc_complete (check_tasks sc p)" using less.prems(2) by (simp add: check_tasks_def Let_def)
    then show ?thesis by (intro exI [of _ "[]"]) simp
  next
    case True
    then obtain t d p' t' where n: "t \<in> set (live_tasks sc p)" "td_status t \<noteq> ''completed''"
        "mark_task now sc (td_id t) ''completed'' (Some ev) p = Inr (d, p')" "plan_sound sc p'" "td_status t' = ''completed''"
        "set (live_tasks sc p') = insert t' (set (live_tasks sc p) - {t})"
      using next_task [OF less.prems(1) True less.prems(3), of now] by (auto simp del: in_live_tasks)
    have "{x \<in> set (live_tasks sc p'). td_status x \<noteq> ''completed''} = {x \<in> set (live_tasks sc p). td_status x \<noteq> ''completed''} - {t}"
      unfolding n(6) using n(5) by (auto simp del: in_live_tasks)
    moreover have "card ({x \<in> set (live_tasks sc p). td_status x \<noteq> ''completed''} - {t}) < card {x \<in> set (live_tasks sc p). td_status x \<noteq> ''completed''}"
      by (rule card_Diff1_less) (use n(1,2) in \<open>simp_all del: in_live_tasks\<close>)
    moreover have "live_tasks sc p' \<noteq> []" using n(6) by (auto simp del: in_live_tasks)
    ultimately obtain "is" p2 where "complete_each now sc ev is p' = Inr p2" "tc_complete (check_tasks sc p2)"
      using less.hyps [of p'] n(4) less.prems(3) by auto
    then show ?thesis using n(3) by (intro exI [of _ "td_id t # is"] exI [of _ p2]) simp
  qed
qed


section \<open>A stored plan is sound\<close>

abbreviation request_id :: "jdict \<Rightarrow> string" where "request_id d \<equiv> trunc 120 (get_str_or d ''id'' [])"

lemma request_ids_Inr:
  assumes "request_ids existing i n ids (map JObj ds) = Inr (m, rs, k)" "\<forall>d \<in> set ds. request_id d \<noteq> []" "distinct (map fst ids)"
  shows "rs = map (\<lambda>d. (d, request_id d)) ds \<and> distinct (map fst m) \<and>
    (\<exists>m'. m = ids @ m' \<and> map fst m' = map request_id ds \<and>
      (\<forall>(r, x) \<in> set m'. if r \<in> set existing then x = r else (\<exists>j. n \<le> j \<and> j < n + length ds \<and> x = uuid_str j)))"
  using assms
proof (induction ds arbitrary: i n ids rs)
  case Nil
  then show ?case by simp
next
  case (Cons d ds)
  let ?r = "request_id d"
  let ?x = "if ?r \<in> set existing then ?r else uuid_str n" and ?n = "if ?r \<in> set existing then n else Suc n"
  have r: "?r \<noteq> []" using Cons.prems(2) by simp
  have u: "map_of ids ?r = None" using Cons.prems(1) r by (auto simp: Let_def split: if_splits)
  obtain rs' where rs: "request_ids existing (Suc i) ?n (ids @ [(?r, ?x)]) (map JObj ds) = Inr (m, rs', k)" "rs = (d, ?r) # rs'"
    using Cons.prems(1) r u by (auto simp: Let_def split: if_splits sum.splits)
  have dist: "distinct (map fst (ids @ [(?r, ?x)]))" using Cons.prems(3) u by (auto simp: map_of_eq_None_iff)
  have nn: "\<forall>d \<in> set ds. request_id d \<noteq> []" using Cons.prems(2) by simp
  from Cons.IH [OF rs(1) nn dist] obtain m' where m': "rs' = map (\<lambda>d. (d, request_id d)) ds" "distinct (map fst m)"
    "m = (ids @ [(?r, ?x)]) @ m'" "map fst m' = map request_id ds"
    "\<forall>(r, x) \<in> set m'. if r \<in> set existing then x = r else (\<exists>j. ?n \<le> j \<and> j < ?n + length ds \<and> x = uuid_str j)" by blast
  have each: "if r \<in> set existing then x = r else (\<exists>j. n \<le> j \<and> j < n + length (d # ds) \<and> x = uuid_str j)"
    if h: "(r, x) \<in> set ((?r, ?x) # m')" for r x
  proof (cases "r \<in> set existing")
    case True
    then show ?thesis using h m'(5) by auto
  next
    case False
    consider "r = ?r" "x = uuid_str n" | "(r, x) \<in> set m'" using h False by (auto split: if_splits)
    then show ?thesis
    proof cases
      case 1
      then show ?thesis using False by auto
    next
      case 2
      then obtain j where "?n \<le> j" "j < ?n + length ds" "x = uuid_str j" using m'(5) False by fastforce
      then show ?thesis using False by (intro if_not_P [THEN iffD2] exI [of _ j]) (auto split: if_splits)
    qed
  qed
  have all: "\<forall>(r, x) \<in> set ((?r, ?x) # m'). if r \<in> set existing then x = r else (\<exists>j. n \<le> j \<and> j < n + length (d # ds) \<and> x = uuid_str j)"
    using each by blast
  have a: "rs = map (\<lambda>d. (d, request_id d)) (d # ds)" using m'(1) rs(2) by simp
  have b: "m = ids @ (?r, ?x) # m'" using m'(3) by simp
  have c: "map fst ((?r, ?x) # m') = map request_id (d # ds)" using m'(4) by simp
  show ?case by (intro conjI exI [of _ "(?r, ?x) # m'"]) (rule a m'(2) b c all)+
qed

text \<open>What the loop stores for one task.\<close>

definition stored_as :: "scope \<Rightarrow> (string \<times> string) list \<Rightarrow> jdict \<Rightarrow> string \<Rightarrow> nat \<Rightarrow> todo \<Rightarrow> bool" where
  "stored_as sc ids d rid i t = (td_id t = the (map_of ids rid) \<and> td_scope t = sc \<and> td_status t = task_status_of d \<and>
     td_content t = task_text d \<and> td_priority t = int i + 1 \<and>
     (\<exists>js. raw_dependencies d = Inr js \<and> td_deps t = row_dependencies ids js))"

lemma task_status_live: "task_status_of d \<in> set task_statuses" "task_status_of d \<noteq> ''deleted''"
proof -
  show "task_status_of d \<in> set task_statuses" by (simp add: task_status_of_def Let_def task_statuses_def)
  then show "task_status_of d \<noteq> ''deleted''" by (auto simp: task_statuses_def)
qed

lemma touched_content [simp]: "td_content (touched now old new) = td_content new"
  by (simp add: touched_def)

lemma write_tasks_Inr:
  assumes "write_tasks now sc existing ids i n rs = Inr (written, k)"
    and "\<forall>(d, r) \<in> set rs. r \<noteq> [] \<and> map_of ids r \<noteq> None \<and> (r \<in> td_id ` set existing \<longrightarrow> map_of ids r = Some r) \<and> map_of ids r \<noteq> Some []"
    and "\<forall>t \<in> set existing. td_scope t = sc"
  shows "length written = length rs \<and> (\<forall>j < length rs. stored_as sc ids (fst (rs ! j)) (snd (rs ! j)) (i + j) (written ! j))"
  using assms(1,2)
proof (induction rs arbitrary: i n written)
  case Nil
  then show ?case by simp
next
  case (Cons e rs)
  obtain d rid where e: "e = (d, rid)" by (cases e)
  have r: "rid \<noteq> []" "map_of ids rid \<noteq> None" "rid \<in> td_id ` set existing \<longrightarrow> map_of ids rid = Some rid" "map_of ids rid \<noteq> Some []"
    using Cons.prems(2) e by auto
  then obtain tid where tid: "map_of ids rid = Some tid" "tid \<noteq> []" by auto
  obtain js where js: "raw_dependencies d = Inr js" using Cons.prems(1) e by (auto split: if_splits sum.splits)
  let ?key = "if find_task rid existing \<noteq> None then rid else tid"
  let ?t = "case find_task ?key existing of Some old \<Rightarrow> touched now old (fill_todo d i (row_dependencies ids js) old)
     | None \<Rightarrow> fill_todo d i (row_dependencies ids js) (new_todo now sc tid)"
  obtain ws where ws: "write_tasks now sc existing ids (Suc i) n rs = Inr (ws, k)" "written = ?t # ws"
    using Cons.prems(1) e js r(1) tid by (auto simp: Let_def split: if_splits sum.splits)
  have key: "?key = tid" using r(3) tid by (auto simp: find_task_None)
  have "stored_as sc ids d rid i ?t"
  proof (cases "find_task tid existing")
    case None
    then show ?thesis unfolding key using js tid by (simp add: stored_as_def fill_todo_def new_todo_def)
  next
    case (Some old)
    then show ?thesis unfolding key using js tid find_task_Some [OF Some] assms(3)
      by (simp add: stored_as_def fill_todo_def)
  qed
  moreover have "length ws = length rs \<and> (\<forall>j < length rs. stored_as sc ids (fst (rs ! j)) (snd (rs ! j)) (Suc i + j) (ws ! j))"
    by (rule Cons.IH [OF ws(1)]) (use Cons.prems(2) in auto)
  ultimately show ?case unfolding e ws(2) by (auto simp: nth_Cons split: nat.splits)
qed

lemma find_task_upd:
  assumes "inj_on td_id (set ws)" "w \<in> set ws"
  shows "find_task (td_id w) ws = Some w"
  by (rule find_task_eq [OF assms])

text \<open>The live rows after the replacement are the written ones, in the order of the request.\<close>

lemma replaced_live:
  assumes "distinct (map td_id (plan_rows p))" and ids: "inj_on td_id (set written)"
    and w: "\<forall>t \<in> set written. td_scope t = sc \<and> td_status t \<noteq> ''deleted''"
    and ex: "existing = live_tasks sc p"
    and p': "plan_rows p' = replaced_rows now existing written (plan_rows p)"
  shows "set (live_tasks sc p') = set written"
proof -
  have inj: "inj_on td_id (set (plan_rows p))" using assms(1) by (simp add: distinct_map)
  have e: "find_task (td_id t) existing \<noteq> None \<longleftrightarrow> t \<in> set existing" if "t \<in> set (plan_rows p)" for t
    using inj that unfolding ex by (auto simp: find_task_None dest: inj_onD simp del: in_live_tasks) (auto dest: inj_onD)
  show ?thesis
  proof (rule set_eqI)
    fix x
    show "x \<in> set (live_tasks sc p') \<longleftrightarrow> x \<in> set written"
    proof
      assume "x \<in> set (live_tasks sc p')"
      then have x: "x \<in> set (replaced_rows now existing written (plan_rows p))" "td_scope x = sc" "td_status x \<noteq> ''deleted''"
        by (simp_all add: p')
      then consider t where "t \<in> set (plan_rows p)" "x = (if find_task (td_id t) existing = None then t
              else (case find_task (td_id t) written of Some t' \<Rightarrow> t' | None \<Rightarrow> t\<lparr>td_status := ''deleted'', td_updated := now\<rparr>))"
        | "x \<in> set written" by (auto simp: replaced_rows_def)
      then show "x \<in> set written"
      proof cases
        case 1
        show ?thesis
        proof (cases "find_task (td_id t) existing = None")
          case True
          then have "x = t" using 1(2) by simp
          moreover have "t \<in> set existing" unfolding ex using 1(1) x(2,3) \<open>x = t\<close> by simp
          ultimately show ?thesis using e [OF 1(1)] True by simp
        next
          case False
          then show ?thesis using 1(2) x(3) find_task_Some by (auto split: option.splits)
        qed
      qed
    next
      assume xw: "x \<in> set written"
      show "x \<in> set (live_tasks sc p')"
      proof (cases "find_task (td_id x) existing")
        case None
        then show ?thesis using xw w by (simp add: p' replaced_rows_def)
      next
        case (Some t)
        then have t: "t \<in> set (plan_rows p)" "td_id t = td_id x" using find_task_Some [OF Some] ex by auto
        then have "x \<in> set (replaced_rows now existing written (plan_rows p))"
          using Some find_task_upd [OF ids xw] by (force simp: replaced_rows_def image_iff)
        then show ?thesis using xw w by (simp add: p')
      qed
    qed
  qed
qed


lemma uuid_str_nonempty [simp]: "uuid_str n \<noteq> []"
  by (simp add: uuid_str_def Let_def)

lemma acyclic_image:
  assumes "acyclic r" "inj_on f A" "r \<subseteq> A \<times> A"
  shows "acyclic (map_prod f f ` r)"
proof -
  have "\<exists>a b. x = f a \<and> y = f b \<and> (a, b) \<in> r\<^sup>+" if "(x, y) \<in> (map_prod f f ` r)\<^sup>+" for x y
    using that
  proof (induction rule: trancl_induct)
    case (base y)
    then show ?case by auto
  next
    case (step y z)
    from step.IH obtain a b where ab: "x = f a" "y = f b" "(a, b) \<in> r\<^sup>+" by blast
    from step.hyps(2) obtain c d where "y = f c" "z = f d" "(c, d) \<in> r" by auto
    note abcd = ab this
    have "b \<in> A" using abcd(3) trancl_subset_Sigma [OF assms(3)] by blast
    moreover have "c \<in> A" using abcd(6) assms(3) by auto
    ultimately have "b = c" using abcd(2,4) assms(2) by (auto dest: inj_onD)
    then have "(a, d) \<in> r\<^sup>+" using abcd(3,6) trancl_into_trancl [of a b r d] by simp
    then show ?case using abcd(1,5) by (intro exI [of _ a] exI [of _ d]) simp
  qed
  moreover have "r\<^sup>+ \<subseteq> A \<times> A" using assms(3) by (rule trancl_subset_Sigma)
  ultimately show ?thesis using assms(1,2) unfolding acyclic_def by (metis SigmaD1 SigmaD2 inj_onD subsetD)
qed

text \<open>A request without surrounding white space: the identifiers and the names of the dependencies are what
  the validation compares.\<close>

definition clean_request :: "jdict list \<Rightarrow> bool" where
  "clean_request ds = (\<forall>d \<in> set ds. request_id d = task_key d \<and>
     (\<forall>js. raw_dependencies d = Inr js \<longrightarrow> (\<forall>j \<in> set js. strip (py_str j) \<noteq> [] \<longrightarrow> strip (py_str j) = py_str j)))"

definition fresh_uuids :: "plan_db \<Rightarrow> bool" where
  "fresh_uuids p = (\<forall>j. next_id (plan_base p) \<le> j \<and> j < next_id (plan_base p) + max_tasks \<longrightarrow> uuid_str j \<notin> td_id ` set (plan_rows p))"

lemma replace_tasks_Inr:
  assumes "replace_tasks now sc tasks p = Inr (res, p')"
  obtains ids rs n written k fr and s1 :: db where "length tasks \<le> max_tasks"
    "validate_plan_shape tasks (map td_id (live_tasks sc p)) = Inr ()"
    "request_ids (map td_id (live_tasks sc p)) 0 (next_id (plan_base p)) [] tasks = Inr (ids, rs, n)"
    "write_tasks now sc (live_tasks sc p) ids 0 (next_id s1) rs = Inr (written, k)"
    "fr = filter (\<lambda>t. find_task (td_id t) (live_tasks sc p) = None) written"
    "distinct (map td_id fr)" "td_id ` set fr \<inter> td_id ` set (plan_rows p) = {}"
    "plan_rows p' = replaced_rows now (live_tasks sc p) written (plan_rows p)" "res = read_tasks sc p'"
proof -
  let ?E = "live_tasks sc p" and ?n = "next_id (plan_base p)"
  note R = assms [unfolded replace_tasks_def Let_def]
  have len: "length tasks \<le> max_tasks" using R by (simp split: if_splits)
  note R = R [simplified if_not_P [OF leD [OF len]]]
  have v: "validate_plan_shape tasks (map td_id ?E) = Inr ()" using R by (cases "validate_plan_shape tasks (map td_id ?E)") simp_all
  note R = R [unfolded v sum.case]
  obtain ids rs n where q: "request_ids (map td_id ?E) 0 ?n [] tasks = Inr (ids, rs, n)"
    using R by (cases "request_ids (map td_id ?E) 0 ?n [] tasks") (simp, metis prod_cases3)
  note R = R [unfolded q sum.case prod.case]
  let ?C = "ensure_capacity_if_supported now (fst sc) (Some (fst (snd sc))) (planned_bytes rs) (sum_list (map todo_bytes ?E)) (plan_base p\<lparr>next_id := n\<rparr>)"
  obtain u s1 where c: "?C = Inr (u, s1)" using R by (cases ?C) auto
  note R = R [unfolded c sum.case prod.case]
  obtain written k where w: "write_tasks now sc ?E ids 0 (next_id s1) rs = Inr (written, k)"
    using R by (cases "write_tasks now sc ?E ids 0 (next_id s1) rs") auto
  note R = R [unfolded w sum.case prod.case]
  let ?fr = "filter (\<lambda>t. find_task (td_id t) ?E = None) written"
  have f: "distinct (map td_id ?fr)" "td_id ` set ?fr \<inter> td_id ` set (plan_rows p) = {}"
    "p' = \<lparr>plan_rows = replaced_rows now ?E written (plan_rows p), plan_base = s1\<lparr>next_id := k\<rparr>\<rparr>" "res = read_tasks sc p'"
    using R by (auto split: if_splits)
  show thesis by (rule that [OF len v q w refl f(1,2) _ f(4)]) (simp add: f(3))
qed

lemma key_of_dep:
  assumes "clean_request ds" "d \<in> set ds" "raw_dependencies d = Inr js"
  shows "set (row_dependencies ids js) \<subseteq> (\<lambda>x. case map_of ids x of None \<Rightarrow> x | Some y \<Rightarrow> y) ` set (stripped_texts js)"
proof
  fix y assume "y \<in> set (row_dependencies ids js)"
  then obtain j where j: "j \<in> set js" "strip (py_str j) \<noteq> []" "y = (case map_of ids (py_str j) of None \<Rightarrow> py_str j | Some x \<Rightarrow> x)"
    by (auto simp: row_dependencies_def trunc_def dest!: in_set_takeD)
  moreover have "strip (py_str j) = py_str j" using assms j(1,2) by (auto simp: clean_request_def)
  ultimately show "y \<in> (\<lambda>x. case map_of ids x of None \<Rightarrow> x | Some y \<Rightarrow> y) ` set (stripped_texts js)"
    by (force simp: stripped_texts_def)
qed


lemma replaced_ids:
  "map td_id (replaced_rows now E ws rows) = map td_id rows @ map td_id (filter (\<lambda>t. find_task (td_id t) E = None) ws)"
  by (auto simp: replaced_rows_def dest!: find_task_Some split: option.splits)

lemma well_shaped_objects:
  assumes "well_shaped (map JObj ds) existing"
  shows "distinct (map task_key ds)" "acyclic (plan_edges ds)"
    "d \<in> set ds \<Longrightarrow> task_key d \<noteq> [] \<and> (\<exists>js. raw_dependencies d = Inr js \<and>
       set (stripped_texts js) \<subseteq> task_key ` set ds \<union> set existing - {task_key d})"
  using assms by (auto simp: well_shaped_def inj_map_eq_map [OF inj_JObj])

lemma replaced_rows_of_request:
  assumes R: "replace_tasks now sc (map JObj ds) p = Inr (res, p')"
    and D: "distinct (map td_id (plan_rows p))" and W: "well_shaped (map JObj ds) []"
    and C: "clean_request ds" and F: "fresh_uuids p"
  obtains ids written where "length written = length ds" "distinct (map td_id (plan_rows p'))"
    "\<And>j. j < length ds \<Longrightarrow> stored_as sc ids (ds ! j) (task_key (ds ! j)) j (written ! j)"
    "\<And>i j. i < length ds \<Longrightarrow> j < length ds \<Longrightarrow> td_id (written ! i) = td_id (written ! j) \<Longrightarrow> i = j"
    "set (live_tasks sc p') = set written" "\<And>d. d \<in> set ds \<Longrightarrow> map_of ids (task_key d) \<noteq> None" "res = read_tasks sc p'"
proof -
  let ?E = "live_tasks sc p"
  obtain ids rs n written k fr and s1 :: db where len: "length (map JObj ds) \<le> max_tasks"
    and q: "request_ids (map td_id ?E) 0 (next_id (plan_base p)) [] (map JObj ds) = Inr (ids, rs, n)"
    and w: "write_tasks now sc ?E ids 0 (next_id s1) rs = Inr (written, k)"
    and fr: "fr = filter (\<lambda>t. find_task (td_id t) ?E = None) written" "distinct (map td_id fr)" "td_id ` set fr \<inter> td_id ` set (plan_rows p) = {}"
    and rows: "plan_rows p' = replaced_rows now ?E written (plan_rows p)" and res: "res = read_tasks sc p'"
    by (rule replace_tasks_Inr [OF R])
  note W' = well_shaped_objects [OF W]
  have key: "request_id d = task_key d" if "d \<in> set ds" for d using C that by (simp add: clean_request_def)
  have nn: "\<forall>d \<in> set ds. request_id d \<noteq> []" using key W'(3) by simp
  obtain "rs = map (\<lambda>d. (d, request_id d)) ds" "distinct (map fst ids)" "map fst ids = map request_id ds"
    and e: "\<forall>(r, x) \<in> set ids. if r \<in> set (map td_id ?E) then x = r else
      (\<exists>j. next_id (plan_base p) \<le> j \<and> j < next_id (plan_base p) + length ds \<and> x = uuid_str j)"
    using request_ids_Inr [OF q nn] by auto
  then have rs: "rs = map (\<lambda>d. (d, task_key d)) ds" and keys: "map fst ids = map task_key ds"
    using key by (simp_all cong: map_cong)
  have entry: "if r \<in> td_id ` set ?E then x = r else x \<notin> td_id ` set (plan_rows p)" if m: "map_of ids r = Some x" for r x
  proof (cases "r \<in> td_id ` set ?E")
    case True
    then show ?thesis using e map_of_SomeD [OF m] by fastforce
  next
    case False
    then obtain j where "next_id (plan_base p) \<le> j" "j < next_id (plan_base p) + length ds" "x = uuid_str j"
      using e map_of_SomeD [OF m] by fastforce
    moreover have "length ds \<le> max_tasks" using len by simp
    ultimately have "x \<notin> td_id ` set (plan_rows p)" using F unfolding fresh_uuids_def by (metis add_left_mono order_less_le_trans)
    then show ?thesis using False by simp
  qed
  have some: "map_of ids (task_key d) \<noteq> None" if "d \<in> set ds" for d
  proof -
    have "task_key d \<in> set (map fst ids)" unfolding keys using that by simp
    then show ?thesis by (simp add: map_of_eq_None_iff)
  qed
  let ?f = "\<lambda>r. the (map_of ids r)"
  have pre: "\<forall>(d, r) \<in> set rs. r \<noteq> [] \<and> map_of ids r \<noteq> None \<and> (r \<in> td_id ` set ?E \<longrightarrow> map_of ids r = Some r) \<and> map_of ids r \<noteq> Some []"
  proof -
    have "task_key d \<noteq> [] \<and> map_of ids (task_key d) \<noteq> None \<and> (task_key d \<in> td_id ` set ?E \<longrightarrow> map_of ids (task_key d) = Some (task_key d)) \<and>
        map_of ids (task_key d) \<noteq> Some []" if d: "d \<in> set ds" for d
    proof -
      obtain x where x: "map_of ids (task_key d) = Some x" using some [OF d] by auto
      have "if task_key d \<in> set (map td_id ?E) then x = task_key d else (\<exists>j. next_id (plan_base p) \<le> j \<and> j < next_id (plan_base p) + length ds \<and> x = uuid_str j)"
        using bspec [OF e map_of_SomeD [OF x]] by (simp only: prod.case)
      then have "x \<noteq> []" using W'(3) [OF d] by (auto simp del: in_live_tasks split: if_splits)
      then show ?thesis using x entry [OF x] W'(3) [OF d] by (auto simp del: in_live_tasks split: if_splits)
    qed
    then show ?thesis unfolding rs by auto
  qed
  have sc: "\<forall>t \<in> set ?E. td_scope t = sc" by simp
  have wr: "length written = length ds" "stored_as sc ids (ds ! j) (task_key (ds ! j)) j (written ! j)" if "j < length ds" for j
    using write_tasks_Inr [OF w pre sc] that by (simp_all add: rs)
  have lw: "length written = length ds" using write_tasks_Inr [OF w pre sc] by (simp add: rs)
  have idj: "td_id (written ! j) = ?f (task_key (ds ! j))" if "j < length ds" for j using wr(2) [OF that] by (simp add: stored_as_def)
  have notin: "?f (task_key d) \<in> td_id ` set ?E \<longleftrightarrow> task_key d \<in> td_id ` set ?E" "task_key d \<in> td_id ` set ?E \<Longrightarrow> ?f (task_key d) = task_key d"
    if d: "d \<in> set ds" for d
  proof -
    obtain x where x: "map_of ids (task_key d) = Some x" using some [OF d] by auto
    have "td_id ` set ?E \<subseteq> td_id ` set (plan_rows p)" by auto
    then show "?f (task_key d) \<in> td_id ` set ?E \<longleftrightarrow> task_key d \<in> td_id ` set ?E" "task_key d \<in> td_id ` set ?E \<Longrightarrow> ?f (task_key d) = task_key d"
      using entry [OF x] x by (auto simp del: in_live_tasks split: if_splits)
  qed
  have inj: "i = j" if ij: "i < length ds" "j < length ds" "td_id (written ! i) = td_id (written ! j)" for i j
  proof (cases "task_key (ds ! i) \<in> td_id ` set ?E")
    case True
    then have "task_key (ds ! j) \<in> td_id ` set ?E" using notin(1) ij idj by (metis nth_mem)
    then have "task_key (ds ! i) = task_key (ds ! j)" using True notin(2) ij idj by (metis nth_mem)
    then show ?thesis using W'(1) ij(1,2) by (simp add: distinct_conv_nth) metis
  next
    case False
    have fi: "find_task (td_id (written ! i)) ?E = None"
      unfolding find_task_None using notin(1) [of "ds ! i"] idj False ij(1) by simp
    then have "written ! i \<in> set fr" "written ! j \<in> set fr" using ij lw by (simp_all add: fr(1))
    then have "written ! i = written ! j" by (rule distinct_map_inj [OF fr(2)]) (rule ij(3))
    then show ?thesis using wr(2) [OF ij(1)] wr(2) [OF ij(2)] by (simp add: stored_as_def)
  qed
  have injw: "inj_on td_id (set written)"
    by (rule inj_onI) (metis in_set_conv_nth inj lw)
  have "\<forall>t \<in> set written. td_scope t = sc \<and> td_status t \<noteq> ''deleted''"
    using wr(2) lw task_status_live(2) by (auto simp: stored_as_def in_set_conv_nth)
  then have live: "set (live_tasks sc p') = set written" by (rule replaced_live [OF D injw _ refl rows])
  have dist: "distinct (map td_id (plan_rows p'))"
    unfolding rows replaced_ids using D fr by auto
  show thesis by (rule that [OF lw dist wr(2) inj live some res])
qed


lemma stored_plan_sound:
  assumes R: "replace_tasks now sc (map JObj ds) p = Inr (res, p')"
    and D: "distinct (map td_id (plan_rows p))" and W: "well_shaped (map JObj ds) []"
    and C: "clean_request ds" and F: "fresh_uuids p"
  shows "plan_sound sc p' \<and> map td_content (live_tasks sc p') = map task_text ds"
proof -
  obtain ids written where lw: "length written = length ds" and dist: "distinct (map td_id (plan_rows p'))"
    and wr: "\<And>j. j < length ds \<Longrightarrow> stored_as sc ids (ds ! j) (task_key (ds ! j)) j (written ! j)"
    and inj: "\<And>i j. i < length ds \<Longrightarrow> j < length ds \<Longrightarrow> td_id (written ! i) = td_id (written ! j) \<Longrightarrow> i = j"
    and live: "set (live_tasks sc p') = set written" and some: "\<And>d. d \<in> set ds \<Longrightarrow> map_of ids (task_key d) \<noteq> None"
    by (rule replaced_rows_of_request [OF R D W C F]) blast
  note W' = well_shaped_objects [OF W]
  let ?f = "\<lambda>r. the (map_of ids r)" and ?K = "task_key ` set ds"
  have idj: "td_id (written ! j) = ?f (task_key (ds ! j))" if "j < length ds" for j using wr [OF that] by (simp add: stored_as_def)
  have fK: "inj_on ?f ?K"
  proof (rule inj_onI)
    fix a b assume "a \<in> ?K" "b \<in> ?K" "?f a = ?f b"
    then obtain i j where "i < length ds" "j < length ds" "a = task_key (ds ! i)" "b = task_key (ds ! j)"
      by (auto simp: in_set_conv_nth)
    then show "a = b" using inj [of i j] idj \<open>?f a = ?f b\<close> by simp
  qed
  have deps: "\<exists>x \<in> ?K. y = ?f x \<and> (task_key (ds ! j), x) \<in> plan_edges ds" if j: "j < length ds" and y: "y \<in> set (td_deps (written ! j))" for j y
  proof -
    obtain js where js: "raw_dependencies (ds ! j) = Inr js" "td_deps (written ! j) = row_dependencies ids js"
      using wr [OF j] by (auto simp: stored_as_def)
    then obtain x where x: "x \<in> set (stripped_texts js)" "y = (case map_of ids x of None \<Rightarrow> x | Some z \<Rightarrow> z)"
      using key_of_dep [OF C nth_mem [OF j] js(1)] y by (metis (no_types, lifting) imageE subsetD)
    have "x \<in> ?K" using W'(3) [OF nth_mem [OF j]] js(1) x(1) by auto
    moreover have "map_of ids x \<noteq> None" using some calculation by auto
    moreover have "(task_key (ds ! j), x) \<in> plan_edges ds"
      using j js(1) x(1) \<open>x \<in> ?K\<close> by (auto simp: plan_edges_def intro!: exI [of _ "ds ! j"])
    ultimately show ?thesis using x(2) by (intro bexI [of _ x]) (auto split: option.splits)
  qed
  have ids: "td_id ` set written = ?f ` ?K" using idj lw by (force simp: in_set_conv_nth image_iff)
  have "set (td_deps t) \<subseteq> td_id ` set (live_tasks sc p')" if "t \<in> set (live_tasks sc p')" for t
  proof -
    obtain j where "j < length ds" "t = written ! j" using \<open>t \<in> _\<close> unfolding live by (auto simp: in_set_conv_nth lw)
    then show ?thesis unfolding live ids using deps by blast
  qed
  moreover have "row_edges (live_tasks sc p') \<subseteq> map_prod ?f ?f ` plan_edges ds"
  proof
    fix e assume "e \<in> row_edges (live_tasks sc p')"
    then obtain t y where e: "e = (td_id t, y)" "t \<in> set written" "y \<in> set (td_deps t)" unfolding row_edges_def live by auto
    then obtain j where j: "j < length ds" "t = written ! j" by (auto simp: in_set_conv_nth lw)
    then obtain x where "y = ?f x" "(task_key (ds ! j), x) \<in> plan_edges ds" using deps e(3) by blast
    then show "e \<in> map_prod ?f ?f ` plan_edges ds" using e(1) j idj by force
  qed
  moreover have "acyclic (map_prod ?f ?f ` plan_edges ds)"
    by (rule acyclic_image [OF W'(2) fK]) (auto simp: plan_edges_def)
  ultimately have "plan_sound sc p'" using dist acyclic_subset unfolding plan_sound_def by blast
  moreover have "live_tasks sc p' = written"
  proof -
    let ?k = "\<lambda>t. (td_priority t, td_created t)"
    have pr: "td_priority (written ! j) = int j + 1" if "j < length ds" for j using wr [OF that] by (simp add: stored_as_def)
    have mp: "map td_priority written = map (\<lambda>j. int j + 1) [0..<length ds]"
      by (rule nth_equalityI) (simp_all add: lw pr)
    have "distinct (map td_priority written)" unfolding mp by (simp add: distinct_map inj_on_def)
    then have dw: "distinct written" and ip: "inj_on td_priority (set written)" by (simp_all add: distinct_map)
    have ik: "inj_on ?k (set written)" by (rule inj_onI) (use ip in \<open>auto dest: inj_onD\<close>)
    have s1: "sorted (map ?k (live_tasks sc p'))" by (simp add: live_tasks_def order_by_def)
    have s2: "sorted (map ?k written)"
      by (rule sorted_iff_nth_mono [THEN iffD2]) (auto simp: lw pr less_eq_prod_def order_less_le)
    have "distinct (plan_rows p')" using dist by (simp add: distinct_map)
    then have dl: "distinct (live_tasks sc p')" by (simp add: live_tasks_def order_by_def)
    show ?thesis
      by (rule map_sorted_distinct_set_unique [OF _ s1 _ s2])
        (use ik dw dl live in \<open>simp_all add: distinct_map del: in_live_tasks\<close>)
  qed
  moreover have "map td_content written = map task_text ds"
    using wr by (auto simp: list_eq_iff_nth_eq lw stored_as_def)
  ultimately show ?thesis by simp
qed


section \<open>The tool call as a whole\<close>

lemma dump_task_gets [simp]:
  "dict_get (dump_task a) ''id'' = map_option JStr (ta_id a)"
  "dict_get (dump_task a) ''success_criteria'' = map_option JStr (ta_success a)"
  "dict_get (dump_task a) ''verification'' = map_option JStr (ta_verify a)"
  "dict_get (dump_task a) ''content'' = Some (JStr (ta_content a))"
  "dict_get (dump_task a) ''dependencies'' = map_option (\<lambda>ds. JList (map JStr ds)) (ta_deps a)"
  "dict_get (dump_task a) ''depends_on'' = None"
  by (simp_all add: dict_get_def dump_task_def dump_field_def split: option.splits)

lemma get_str_or_field: "dict_get d k = map_option JStr x \<Longrightarrow> get_str_or d k [] = (case x of None \<Rightarrow> [] | Some s \<Rightarrow> s)"
  by (cases x) (auto simp: get_str_or_def dict_get_def)

lemma stripped_field: "dict_get d k = map_option JStr x \<Longrightarrow> stripped d k = opt_strip x"
  by (simp add: stripped_def opt_strip_def get_str_or_field split: option.splits)

lemma dump_task_deps: "raw_dependencies (dump_task a) = Inr (case ta_deps a of None \<Rightarrow> [] | Some ds \<Rightarrow> map JStr ds)"
  by (cases "ta_deps a") (auto simp: raw_dependencies_def first_truthy_def)

lemma stripped_texts_strs: "stripped_texts (map JStr xs) = filter (\<lambda>x. x \<noteq> []) (map strip xs)"
  by (simp add: stripped_texts_def comp_def)

lemma dump_task_names: "raw_dependencies (dump_task a) = Inr js \<Longrightarrow> stripped_texts js = arg_deps a"
  by (cases "ta_deps a") (auto simp: dump_task_deps arg_deps_def stripped_texts_strs, simp add: stripped_texts_def)

lemma check_task_args_Inr:
  "check_task_args is as = Inr u \<longleftrightarrow> (\<forall>(a, tid) \<in> set as. opt_strip (ta_success a) \<noteq> [] \<and> opt_strip (ta_verify a) \<noteq> [] \<and>
     tid \<notin> set (arg_deps a) \<and> set (arg_deps a) \<subseteq> set is)"
  by (induction "is" as rule: check_task_args.induct) auto

text \<open>What the typed boundary accepts, the store accepts: every plan of two or more tasks that passes
  \<open>validate_operation\<close> is well shaped on its own, with no reference to older rows.\<close>

lemma boundary_well_shaped:
  assumes "validate_operation a = Inr u" "ga_operation a = ''replace''" "ga_tasks a = Some ts" "1 < length ts"
  shows "well_shaped (map JObj (map dump_task ts)) []"
proof -
  let ?is = "map (\<lambda>t. opt_strip (ta_id t)) ts" and ?ds = "map dump_task ts"
  have v: "[] \<notin> set ?is" "distinct ?is" "check_task_args ?is (zip ts ?is) = Inr ()" "acyclic_plan (zip ?is (map arg_deps ts))"
    using assms by (auto simp: validate_operation_def Let_def split: if_splits sum.splits)
  have keys: "map task_key ?ds = ?is" by (simp add: stripped_field)
  have dk: "task_key (dump_task t) = opt_strip (ta_id t)" for t by (simp add: stripped_field)
  have each: "opt_strip (ta_success t) \<noteq> [] \<and> opt_strip (ta_verify t) \<noteq> [] \<and> opt_strip (ta_id t) \<notin> set (arg_deps t) \<and> set (arg_deps t) \<subseteq> set ?is"
    if "t \<in> set ts" for t
    using v(3) that unfolding check_task_args_Inr by (force simp: zip_map2 zip_same_conv_map)
  let ?g = "zip ?is (map arg_deps ts)"
  have g: "?g = map (\<lambda>t. (opt_strip (ta_id t), arg_deps t)) ts" by (induction ts) simp_all
  have "map fst ?g = ?is" by simp
  then have dist: "distinct (map fst ?g)" using v(2) by simp
  have "plan_edges ?ds \<subseteq> depends_on ?g"
  proof
    fix e assume "e \<in> plan_edges ?ds"
    then obtain d y js where d: "d \<in> set ?ds" "e = (task_key d, y)" "raw_dependencies d = Inr js"
        "y \<in> set (stripped_texts js)" "y \<in> task_key ` set ?ds"
      unfolding plan_edges_def by blast
    then obtain t where t': "t \<in> set ts" "d = dump_task t" by auto
    note t = t'(1) d(2-5) [unfolded t'(2) dk]
    have "map_of ?g (opt_strip (ta_id t)) = Some (arg_deps t)" using t(1) dist by (intro map_of_is_SomeI) (auto simp: g)
    moreover have "map_of ?g y \<noteq> None" using t(5) unfolding g by (auto simp: map_of_eq_None_iff dk image_image)
    ultimately show "e \<in> depends_on ?g" using t dump_task_names [OF t(3)] by (simp add: in_depends_on)
  qed
  then have "acyclic (plan_edges ?ds)" using v(4) acyclic_subset by (auto simp: acyclic_plan_iff)
  moreover have "task_key d \<noteq> [] \<and> stripped d ''success_criteria'' \<noteq> [] \<and> stripped d ''verification'' \<noteq> [] \<and>
      (\<exists>js. raw_dependencies d = Inr js \<and> set (stripped_texts js) \<subseteq> task_key ` set ?ds \<union> set [] - {task_key d})" if d: "d \<in> set ?ds" for d
  proof -
    obtain t where t: "t \<in> set ts" "d = dump_task t" using d by auto
    obtain js where js: "raw_dependencies d = Inr js" using dump_task_deps t(2) by blast
    have "opt_strip (ta_id t) \<noteq> []" using v(1) t(1) by (force simp: image_iff)
    moreover have "task_key ` set ?ds = set ?is" by (simp add: image_image dk)
    ultimately show ?thesis using each [OF t(1)] js dump_task_names [OF js [unfolded t(2)]] t(2)
      by (auto simp: stripped_field)
  qed
  moreover have "distinct (map task_key ?ds)" unfolding keys by (rule v(2))
  ultimately show ?thesis unfolding well_shaped_def by (intro exI [of _ ?ds] conjI refl) blast+
qed

lemma op_words [simp]: "lower (strip ''replace'') = ''replace''"
  by code_simp

lemma dump_todo_gets:
  "ga_operation a = ''replace'' \<Longrightarrow> lower (stripped (dump_todo a) ''operation'') = ''replace''"
  "ga_tasks a = Some ts \<Longrightarrow> dict_get (dump_todo a) ''tasks'' = Some (JList (map JObj (map dump_task ts)))"
  by (simp_all add: stripped_def get_str_or_def dump_todo_def dict_get_def dump_field_def)

text \<open>Arguments whose identifiers and dependency names carry no surrounding white space.\<close>

definition clean_args :: "task_args list \<Rightarrow> bool" where
  "clean_args ts = (\<forall>a \<in> set ts. (\<forall>i. ta_id a = Some i \<longrightarrow> strip i = i) \<and> (\<forall>ds. ta_deps a = Some ds \<longrightarrow> (\<forall>x \<in> set ds. strip x = x)))"

lemma clean_args_request:
  assumes "clean_args ts" "list_all task_args_ok ts"
  shows "clean_request (map dump_task ts)"
proof -
  have "request_id (dump_task a) = task_key (dump_task a) \<and>
     (\<forall>js. raw_dependencies (dump_task a) = Inr js \<longrightarrow> (\<forall>j \<in> set js. strip (py_str j) \<noteq> [] \<longrightarrow> strip (py_str j) = py_str j))"
    if "a \<in> set ts" for a
  proof -
    have "task_args_ok a" using assms(2) that by (simp add: list_all_iff)
    then have "length i \<le> 120" if "ta_id a = Some i" for i using that by (simp add: task_args_ok_def opt_len_def)
    moreover have "strip i = i" if "ta_id a = Some i" for i using assms(1) \<open>a \<in> set ts\<close> that by (simp add: clean_args_def)
    moreover have "get_str_or (dump_task a) ''id'' [] = (case ta_id a of None \<Rightarrow> [] | Some s \<Rightarrow> s)" by (rule get_str_or_field) simp
    moreover have "task_key (dump_task a) = opt_strip (ta_id a)" by (rule stripped_field) simp
    ultimately have "request_id (dump_task a) = task_key (dump_task a)"
      by (cases "ta_id a") (simp_all add: opt_strip_def trunc_def)
    moreover have "strip (py_str j) = py_str j" if "raw_dependencies (dump_task a) = Inr js" "j \<in> set js" for js j
      using assms(1) \<open>a \<in> set ts\<close> that by (auto simp: dump_task_deps clean_args_def split: option.splits)
    ultimately show ?thesis by blast
  qed
  then show ?thesis by (auto simp: clean_request_def)
qed


lemma other_words [simp]: "lower (strip ''read'') = ''read''" "lower (strip ''check'') = ''check''" "lower (strip ''update'') = ''update''"
  by code_simp+

lemma replaced_by_call:
  assumes "call_todo_write now sc a p = Inr (PlanReplaced res msg, p')" "ga_tasks a = Some ts"
  shows "todo_args_ok a" "validate_operation a = Inr ()" "ga_operation a = ''replace''"
    "replace_tasks now sc (map JObj (map dump_task ts)) p = Inr (res, p')"
proof -
  show ok: "todo_args_ok a" using assms(1) by (simp add: call_todo_write_def split: if_splits)
  show v: "validate_operation a = Inr ()" using assms(1) ok by (simp add: call_todo_write_def split: sum.splits)
  have t: "todo_write now sc (dump_todo a) p = Inr (PlanReplaced res msg, p')" using assms(1) ok v by (simp add: call_todo_write_def)
  have op: "stripped (dump_todo a) ''operation'' = strip (ga_operation a)"
    by (simp add: stripped_def get_str_or_def dump_todo_def)
  show r: "ga_operation a = ''replace''"
    using t ok by (auto simp: todo_write_def op todo_args_ok_def Let_def split: if_splits sum.splits)
  show "replace_tasks now sc (map JObj (map dump_task ts)) p = Inr (res, p')"
    using t by (simp add: todo_write_def op r dump_todo_gets(2) [OF assms(2)] Let_def split: sum.splits prod.splits)
qed


definition sample_task :: "string \<Rightarrow> string list \<Rightarrow> task_args" where
  "sample_task i ds = \<lparr>ta_id = Some i, ta_content = ''do '' @ i, ta_active = None, ta_success = Some ''done'', ta_verify = Some ''look'',
     ta_status = None, ta_priority = None, ta_deps = Some ds\<rparr>"

definition sample_plan :: "task_args list \<Rightarrow> todo_args" where
  "sample_plan ts = \<lparr>ga_operation = ''replace'', ga_tasks = Some ts, ga_task_id = None, ga_status = None, ga_evidence = None\<rparr>"

definition no_plan :: plan_db where
  "no_plan = \<lparr>plan_rows = [], plan_base = empty_db\<rparr>"



section \<open>The guards of \<open>mark_task\<close>\<close>

lemma mark_task_spec:
  assumes "distinct (map td_id (plan_rows p))" "t \<in> set (live_tasks sc p)"
  shows "(\<exists>r. mark_task now sc (td_id t) st ev p = Inr r) \<longleftrightarrow>
      st \<in> set task_statuses \<and>
      (st \<in> {''in_progress'', ''completed''} \<longrightarrow>
         (\<forall>d \<in> set (td_deps t). \<exists>u \<in> set (live_tasks sc p). td_id u = d \<and> td_status u = ''completed'')) \<and>
      (st = ''completed'' \<longrightarrow> ev \<notin> {None, Some []} \<or> td_evidence t \<noteq> [])"
    and "mark_task now sc (td_id t) st ev p = Inr (d, p') \<Longrightarrow>
      (\<exists>t'. td_id t' = td_id t \<and> td_status t' = st \<and> td_deps t' = td_deps t \<and> d = serialize_task t' \<and>
         set (live_tasks sc p') = insert t' (set (live_tasks sc p) - {t})) \<and> (plan_sound sc p \<longrightarrow> plan_sound sc p')"
proof -
  note inj = live_inj [OF assms(1), of sc]
  have f: "find_task (td_id t) (live_tasks sc p) = Some t" by (rule find_task_eq [OF inj assms(2)])
  have "(case find_task d (live_tasks sc p) of None \<Rightarrow> True | Some u \<Rightarrow> td_status u \<noteq> ''completed'') \<longleftrightarrow>
      \<not> (\<exists>u \<in> set (live_tasks sc p). td_id u = d \<and> td_status u = ''completed'')" for d
  proof (cases "find_task d (live_tasks sc p)")
    case None
    then have "d \<notin> td_id ` set (live_tasks sc p)" by (simp only: find_task_None not_False_eq_True)
    then show ?thesis using None by (auto simp del: in_live_tasks)
  next
    case (Some u)
    have "x = u" if "x \<in> set (live_tasks sc p)" "td_id x = d" for x
      using find_task_Some [OF Some] that inj by (auto dest: inj_onD simp del: in_live_tasks)
    then show ?thesis using find_task_Some [OF Some] Some by (auto simp del: in_live_tasks)
  qed
  then have un: "unresolved (live_tasks sc p) (td_deps t) = [] \<longleftrightarrow>
      (\<forall>d \<in> set (td_deps t). \<exists>u \<in> set (live_tasks sc p). td_id u = d \<and> td_status u = ''completed'')"
    by (simp add: unresolved_def filter_empty_conv)
  show "(\<exists>r. mark_task now sc (td_id t) st ev p = Inr r) \<longleftrightarrow>
      st \<in> set task_statuses \<and>
      (st \<in> {''in_progress'', ''completed''} \<longrightarrow>
         (\<forall>d \<in> set (td_deps t). \<exists>u \<in> set (live_tasks sc p). td_id u = d \<and> td_status u = ''completed'')) \<and>
      (st = ''completed'' \<longrightarrow> ev \<notin> {None, Some []} \<or> td_evidence t \<noteq> [])"
    unfolding un [symmetric] by (auto simp: mark_task_def f Let_def)
  assume m: "mark_task now sc (td_id t) st ev p = Inr (d, p')"
  from m assms(1) show "(\<exists>t'. td_id t' = td_id t \<and> td_status t' = st \<and> td_deps t' = td_deps t \<and> d = serialize_task t' \<and>
         set (live_tasks sc p') = insert t' (set (live_tasks sc p) - {t})) \<and> (plan_sound sc p \<longrightarrow> plan_sound sc p')"
  proof (rule mark_task_Inr)
    fix u t'
    assume u: "u \<in> set (live_tasks sc p)" "td_id u = td_id t" "t' = touched now u (u\<lparr>td_status := st, td_evidence := append_evidence ev (td_evidence u)\<rparr>)"
      "d = serialize_task t'" "p' = p\<lparr>plan_rows := upd_where (\<lambda>x. td_id x = td_id t) (\<lambda>_. t') (plan_rows p)\<rparr>" "st \<in> set task_statuses"
    have "u = t" using inj u(1,2) assms(2) by (auto dest: inj_onD simp del: in_live_tasks)
    have t': "td_id t' = td_id t" "td_scope t' = sc" "td_status t' \<noteq> ''deleted''" "td_deps t' = td_deps t" "td_status t' = st"
      using u(3,6) assms(2) by (auto simp: \<open>u = t\<close> task_statuses_def)
    show ?thesis unfolding u(5)
      using marked_live [OF assms t'(1-3)] marked_sound [OF _ assms(2) t'(1-4)] t' u(4) by blast
  qed
qed

text \<open>C26. \<open>mark_task\<close> exactly: a status change of a live task is accepted when the status is one of the five, when
  a start or a completion finds every dependency completed, and when a completion brings evidence or has some
  already; it then changes this task alone and keeps a sound plan sound.\<close>

theorem mark_task_exact:
  assumes "distinct (map td_id (plan_rows p))" "t \<in> set (live_tasks sc p)"
  shows "((\<exists>r. mark_task now sc (td_id t) st ev p = Inr r) \<longleftrightarrow>
      st \<in> set task_statuses \<and>
      (st \<in> {''in_progress'', ''completed''} \<longrightarrow>
         (\<forall>d \<in> set (td_deps t). \<exists>u \<in> set (live_tasks sc p). td_id u = d \<and> td_status u = ''completed'')) \<and>
      (st = ''completed'' \<longrightarrow> ev \<notin> {None, Some []} \<or> td_evidence t \<noteq> [])) \<and>
    (\<forall>d p'. mark_task now sc (td_id t) st ev p = Inr (d, p') \<longrightarrow>
      (\<exists>t'. td_id t' = td_id t \<and> td_status t' = st \<and> td_deps t' = td_deps t \<and> d = serialize_task t' \<and>
         set (live_tasks sc p') = insert t' (set (live_tasks sc p) - {t})) \<and> (plan_sound sc p \<longrightarrow> plan_sound sc p'))"
  by (rule conjI [OF mark_task_spec(1) [OF assms]]) (intro allI impI, rule mark_task_spec(2) [OF assms])

definition sample_row :: "string \<Rightarrow> string list \<Rightarrow> todo" where
  "sample_row i ds = (new_todo 1 (1, 2, 3) i)\<lparr>td_status := ''pending'', td_deps := ds\<rparr>"

theorem mark_task_exact_witness:
  "\<not> (\<exists>r. mark_task 2 (1, 2, 3) ''b'' ''completed'' (Some ''ok'')
      \<lparr>plan_rows = [sample_row ''a'' [], sample_row ''b'' [''a'']], plan_base = empty_db\<rparr> = Inr r)"
  using mark_task_exact [where t = "sample_row ''b'' [''a'']" and sc = "(1, 2, 3)" and st = "''completed''" and now = 2 and ev = "Some ''ok''"
      and p = "\<lparr>plan_rows = [sample_row ''a'' [], sample_row ''b'' [''a'']], plan_base = empty_db\<rparr>"]
  by (auto simp: sample_row_def new_todo_def)

section \<open>Plans that cannot be finished\<close>

text \<open>The updates of an agent, refused ones included.\<close>

definition try_mark :: "scope \<Rightarrow> int \<times> string \<times> string \<times> string option \<Rightarrow> plan_db \<Rightarrow> plan_db" where
  "try_mark sc u p = (case u of (now, i, st, ev) \<Rightarrow> (case mark_task now sc i st ev p of Inl _ \<Rightarrow> p | Inr (_, p') \<Rightarrow> p'))"

definition dangling :: "scope \<Rightarrow> plan_db \<Rightarrow> bool" where
  "dangling sc p = (distinct (map td_id (plan_rows p)) \<and>
     (\<exists>t \<in> set (live_tasks sc p). td_status t \<noteq> ''completed'' \<and> \<not> set (td_deps t) \<subseteq> td_id ` set (live_tasks sc p)))"

lemma dangling_kept:
  assumes "dangling sc p" "mark_task now sc i st ev p = Inr (d, p')"
  shows "dangling sc p'"
proof -
  have D: "distinct (map td_id (plan_rows p))" using assms(1) by (simp add: dangling_def)
  obtain t where t: "t \<in> set (live_tasks sc p)" "td_status t \<noteq> ''completed''" "\<not> set (td_deps t) \<subseteq> td_id ` set (live_tasks sc p)"
    using assms(1) by (auto simp: dangling_def simp del: in_live_tasks)
  from assms(2) D show ?thesis
  proof (rule mark_task_Inr)
    fix u u'
    assume u: "u \<in> set (live_tasks sc p)" "td_id u = i" "u' = touched now u (u\<lparr>td_status := st, td_evidence := append_evidence ev (td_evidence u)\<rparr>)"
      "p' = p\<lparr>plan_rows := upd_where (\<lambda>x. td_id x = i) (\<lambda>_. u') (plan_rows p)\<rparr>" "st \<in> set task_statuses"
      "st \<in> {''in_progress'', ''completed''} \<longrightarrow> unresolved (live_tasks sc p) (td_deps u) = []"
    have u': "td_id u' = td_id u" "td_scope u' = sc" "td_status u' \<noteq> ''deleted''" "td_deps u' = td_deps u" "td_status u' = st"
      using u(3,5) u(1) by (auto simp: task_statuses_def)
    have live: "set (live_tasks sc p') = insert u' (set (live_tasks sc p) - {u})"
      using marked_live [OF D u(1) u'(1-3)] unfolding u(4) u(2) .
    have ids: "td_id ` set (live_tasks sc p') = td_id ` set (live_tasks sc p)"
      unfolding live using u(1) u'(1) by (auto simp: image_iff simp del: in_live_tasks)
    have "map td_id (plan_rows p') = map td_id (plan_rows p)" by (simp add: u(4) upd_where_def u'(1) u(2))
    then have D': "distinct (map td_id (plan_rows p'))" using D by simp
    have "st \<noteq> ''completed''" if "u = t"
    proof
      assume "st = ''completed''"
      then have "unresolved (live_tasks sc p) (td_deps t) = []" using u(6) that by simp
      then have "set (td_deps t) \<subseteq> td_id ` set (live_tasks sc p)"
        by (auto simp: unresolved_def filter_empty_conv simp del: in_live_tasks split: option.splits dest!: find_task_Some)
      then show False using t(3) by simp
    qed
    then have "\<exists>x \<in> set (live_tasks sc p'). td_status x \<noteq> ''completed'' \<and> \<not> set (td_deps x) \<subseteq> td_id ` set (live_tasks sc p')"
      unfolding ids unfolding live using t u'(4,5) by (cases "u = t") (auto simp del: in_live_tasks)
    then show ?thesis using D' by (simp add: dangling_def del: in_live_tasks)
  qed
qed

lemma dangling_never_complete:
  assumes "dangling sc p"
  shows "\<not> tc_complete (check_tasks sc (fold (try_mark sc) us p))"
proof -
  have "dangling sc (fold (try_mark sc) us p)" using assms
  proof (induction us arbitrary: p)
    case (Cons u us)
    have "dangling sc (try_mark sc u p)"
      using Cons.prems dangling_kept by (auto simp: try_mark_def split: prod.splits sum.splits)
    then show ?case using Cons.IH by simp
  qed simp
  then obtain t where t: "t \<in> set (live_tasks sc (fold (try_mark sc) us p))" "td_status t \<noteq> ''completed''"
    by (auto simp: dangling_def simp del: in_live_tasks)
  have "length (filter (\<lambda>t. td_status t = ''completed'') xs) < length xs" if "t \<in> set xs" for xs
    by (rule length_filter_less [OF that]) (rule t(2))
  from this [OF t(1)] show ?thesis by (simp add: check_tasks_def Let_def)
qed

definition after_call :: "todo_args \<Rightarrow> plan_db \<Rightarrow> plan_db" where
  "after_call a p = (case call_todo_write 5 (1, 2, 3) a p of Inr (_, p') \<Rightarrow> p' | Inl _ \<Rightarrow> p)"

lemma stuck_after_call:
  assumes "case call_todo_write 5 (1, 2, 3) a p of Inl _ \<Rightarrow> False | Inr (_, p') \<Rightarrow> dangling (1, 2, 3) p'"
  shows "(\<exists>r. call_todo_write 5 (1, 2, 3) a p = Inr r) \<and>
    (\<forall>us. \<not> tc_complete (check_tasks (1, 2, 3) (fold (try_mark (1, 2, 3)) us (after_call a p))))"
  using assms dangling_never_complete by (auto simp: after_call_def split: sum.splits)

text \<open>Two plans that both validations accept can never be completed, whatever updates follow.  The first
  names a dependency with a blank after it: the validation compares stripped names, the store looks the raw
  name up and keeps it as an identifier of no task.  The second is a plan of one task, which is not validated,
  that depends on the live task of the plan it replaces: the replacement marks that task deleted.\<close>

theorem accepted_plan_can_be_stuck:
  "(\<exists>r. call_todo_write 5 (1, 2, 3) (sample_plan [sample_task ''a'' [], sample_task ''b'' [''a '']]) no_plan = Inr r)
   \<and> (\<forall>us. \<not> tc_complete (check_tasks (1, 2, 3) (fold (try_mark (1, 2, 3)) us
        (after_call (sample_plan [sample_task ''a'' [], sample_task ''b'' [''a '']]) no_plan))))
   \<and> (let p = after_call (sample_plan [sample_task ''a'' []]) no_plan;
          b = sample_plan [sample_task ''b'' (map td_id (live_tasks (1, 2, 3) p))]
      in (\<exists>r. call_todo_write 5 (1, 2, 3) b p = Inr r)
       \<and> (\<forall>us. \<not> tc_complete (check_tasks (1, 2, 3) (fold (try_mark (1, 2, 3)) us (after_call b p)))))"
proof -
  let ?a = "sample_plan [sample_task ''a'' [], sample_task ''b'' [''a '']]" and ?p = "after_call (sample_plan [sample_task ''a'' []]) no_plan"
  let ?b = "sample_plan [sample_task ''b'' (map td_id (live_tasks (1, 2, 3) ?p))]"
  have "case call_todo_write 5 (1, 2, 3) ?a no_plan of Inl _ \<Rightarrow> False | Inr (_, p') \<Rightarrow> dangling (1, 2, 3) p'" by code_simp
  note a = stuck_after_call [OF this]
  have "case call_todo_write 5 (1, 2, 3) ?b ?p of Inl _ \<Rightarrow> False | Inr (_, p') \<Rightarrow> dangling (1, 2, 3) p'" by code_simp
  note b = stuck_after_call [OF this]
  show ?thesis unfolding Let_def by (intro conjI) (rule a [THEN conjunct1] a [THEN conjunct2] b [THEN conjunct1] b [THEN conjunct2])+
qed

end
