(* ===== verification/Agent_Rounds.thy ===== *)
theory Agent_Rounds
  imports Runtime_Store Rate_Limits "HOL-Library.List_Lexorder" "HOL-Library.Char_ord"
begin

text \<open>
  The rounds of an agent run: the phases of the durable runtime (\<open>runtime_transitions.py\<close>), the execution
  batches of the requested tools (\<open>execution_batches.py\<close>), the allowlist of native tools
  (\<open>runtime_policy.py\<close>), their registry and discovery (\<open>tool_registry.py\<close>, \<open>native_tool_broker.py\<close>), the
  context budget (\<open>context_budget.py\<close>) and the checkpoints that one round of the loop in \<open>chat_service.py\<close>
  writes around them.
\<close>

section \<open>Phases\<close>

datatype phase = ContextAssembled | ModelRequested | ActionsValidated | PhaseApproval | Executing | ResultsRecorded | Finalizing

fun phase_str :: "phase \<Rightarrow> string" where
  "phase_str ContextAssembled = ''context_assembled''"
| "phase_str ModelRequested = ''model_requested''"
| "phase_str ActionsValidated = ''actions_validated''"
| "phase_str PhaseApproval = ''awaiting_approval''"
| "phase_str Executing = ''executing''"
| "phase_str ResultsRecorded = ''results_recorded''"
| "phase_str Finalizing = ''finalizing''"

fun allowed_next :: "phase \<Rightarrow> phase list" where
  "allowed_next ContextAssembled = [ModelRequested]"
| "allowed_next ModelRequested = [ActionsValidated, Finalizing]"
| "allowed_next ActionsValidated = [PhaseApproval, Executing, Finalizing]"
| "allowed_next PhaseApproval = [Executing, Finalizing]"
| "allowed_next Executing = [ResultsRecorded, Finalizing]"
| "allowed_next ResultsRecorded = [ModelRequested, Finalizing]"
| "allowed_next Finalizing = []"

definition checkpoint_details :: "string list" where
  "checkpoint_details = [''tool_count'', ''batch_count'', ''schema_digest'', ''history_budget_tokens'', ''tool_result_budget_tokens'']"

definition transition_checkpoint :: "phase option \<Rightarrow> phase \<Rightarrow> int \<Rightarrow> jdict \<Rightarrow> app_error + jdict" where
  "transition_checkpoint previous next turn details =
     (if (case previous of None \<Rightarrow> False | Some p \<Rightarrow> next \<notin> set (allowed_next p))
      then Inl (ValueErr (''Illegal DeepSpace runtime transition: '' @ phase_str (the previous) @ '' -> '' @ phase_str next))
      else Inr ([(''phase'', JStr (phase_str next)), (''turn_index'', JInt (max 0 turn))] @
        (if details = [] then []
         else [(''transition'', JObj (filter (\<lambda>(k, _). k \<in> set checkpoint_details) details))])))"

section \<open>Execution batches\<close>

record 'a batch =
  b_calls :: "'a list"
  b_parallel :: bool

definition parallel_batch :: "'a list \<Rightarrow> 'a batch list" where
  "parallel_batch pending = (if pending = [] then [] else [\<lparr>b_calls = pending, b_parallel = True\<rparr>])"

text \<open>The loop of \<open>plan_execution_batches\<close>; the first list holds \<open>pending_reads\<close>.\<close>

fun batch_loop :: "('a \<Rightarrow> bool) \<Rightarrow> 'a list \<Rightarrow> 'a list \<Rightarrow> 'a batch list" where
  "batch_loop is_read pending [] = parallel_batch pending"
| "batch_loop is_read pending (c # cs) =
     (if is_read c then batch_loop is_read (pending @ [c]) cs
      else parallel_batch pending @ \<lparr>b_calls = [c], b_parallel = False\<rparr> # batch_loop is_read [] cs)"

definition plan_execution_batches :: "('a \<Rightarrow> bool) \<Rightarrow> 'a list \<Rightarrow> 'a batch list" where
  "plan_execution_batches is_read calls = batch_loop is_read [] calls"

section \<open>Policy and registry of native tools\<close>

datatype tool_mode = Read | Write | Interactive

definition policy_modes :: "(string \<times> tool_mode) list" where
  "policy_modes = [(''discover_tools'', Read), (''web_search'', Read), (''url_read'', Read), (''image_read'', Read),
     (''analyze'', Read), (''read'', Read), (''find'', Read), (''todo_write'', Write), (''write'', Write), (''edit'', Write),
     (''delete'', Write), (''sandbox_execute'', Write), (''artifact_create'', Write), (''ask_user'', Interactive)]"

record tool_decision =
  dn_allowed :: bool
  dn_mode :: "tool_mode option"
  dn_reason :: "string option"

definition decide :: "string \<Rightarrow> jdict \<Rightarrow> tool_decision" where
  "decide name args =
     (if name = ''todo_write'' \<and> get_str_or args ''operation'' [] \<in> {''read'', ''check''}
      then \<lparr>dn_allowed = True, dn_mode = Some Read, dn_reason = None\<rparr>
      else (case map_of policy_modes name of
          None \<Rightarrow> \<lparr>dn_allowed = False, dn_mode = None, dn_reason = Some ''Tool is not in the DeepSpace productivity allowlist.''\<rparr>
        | Some m \<Rightarrow> \<lparr>dn_allowed = True, dn_mode = Some m, dn_reason = None\<rparr>))"

definition before_tool :: "string \<Rightarrow> jdict \<Rightarrow> tool_decision" where
  "before_tool name args = decide name args"

definition after_tool :: "jdict \<Rightarrow> jdict" where
  "after_tool result = filter (\<lambda>(k, _). take 1 k \<noteq> ''_'') result"

definition tool_modes :: "(string \<times> tool_mode) list" where
  "tool_modes = [(''get_tool_result'', Read), (''discover_tools'', Read), (''web_search'', Read), (''url_read'', Read),
     (''image_read'', Read), (''analyze'', Read), (''read'', Read), (''find'', Read), (''todo_write'', Write), (''write'', Write),
     (''edit'', Write), (''delete'', Write), (''sandbox_execute'', Write), (''artifact_create'', Write), (''ask_user'', Interactive)]"

definition argument_models :: "string list" where
  "argument_models = [''get_tool_result'', ''discover_tools'', ''web_search'', ''url_read'', ''image_read'', ''sandbox_execute'',
     ''artifact_create'', ''ask_user'', ''todo_write'', ''analyze'', ''read'', ''find'', ''write'', ''edit'', ''delete'']"

datatype concurrency = ReadParallel | WriteSerial | InteractiveCall

record tool_spec =
  ts_name :: string
  ts_description :: string
  ts_mode :: tool_mode
  ts_definition :: jdict
  ts_concurrency :: concurrency
  ts_external :: bool

type_synonym registry = "tool_spec list"

definition reg_contains :: "registry \<Rightarrow> string \<Rightarrow> bool" where
  "reg_contains reg name = (name \<in> ts_name ` set reg)"

definition reg_spec :: "registry \<Rightarrow> string \<Rightarrow> tool_spec option" where
  "reg_spec reg name = first_row (filter (\<lambda>s. ts_name s = name) reg)"

definition function_of :: "jdict \<Rightarrow> jdict option" where
  "function_of d = (case dict_get d ''function'' of Some (JObj f) \<Rightarrow> Some f | _ \<Rightarrow> None)"

definition reg_add :: "tool_spec \<Rightarrow> registry \<Rightarrow> app_error + registry" where
  "reg_add s reg =
     (if ts_name s = [] \<or> reg_contains reg (ts_name s)
      then Inl (ValueErr (''Duplicate or empty DeepSpace tool name: '' @ repr_str (ts_name s)))
      else if map_option (\<lambda>f. dict_get f ''name'') (function_of (ts_definition s)) \<noteq> Some (Some (JStr (ts_name s)))
      then Inl (ValueErr (''Provider definition does not match tool '' @ repr_str (ts_name s)))
      else Inr (reg @ [s]))"

definition native_spec :: "jdict \<Rightarrow> app_error + tool_spec" where
  "native_spec d =
     (let f = function_of d; name = (case f of None \<Rightarrow> [] | Some g \<Rightarrow> get_str_or g ''name'' []) in
      (case map_of tool_modes name of
         None \<Rightarrow> Inl (ValueErr (''Native tool '' @ repr_str name @ '' has no typed registry contract''))
       | Some m \<Rightarrow>
           (if name \<notin> set argument_models
            then Inl (ValueErr (''Native tool '' @ repr_str name @ '' has no typed registry contract''))
            else Inr \<lparr>ts_name = name, ts_description = (case f of None \<Rightarrow> [] | Some g \<Rightarrow> get_str_or g ''description'' []),
                  ts_mode = m, ts_definition = d,
                  ts_concurrency = (if m = Interactive then InteractiveCall else if m = Write then WriteSerial else ReadParallel),
                  ts_external = (name \<in> {''delete'', ''write'', ''edit''})\<rparr>)))"

fun build_registry :: "jdict list \<Rightarrow> registry \<Rightarrow> app_error + registry" where
  "build_registry [] reg = Inr reg"
| "build_registry (d # ds) reg = (case native_spec d of
     Inl e \<Rightarrow> Inl e
   | Inr s \<Rightarrow> (case reg_add s reg of Inl e \<Rightarrow> Inl e | Inr reg' \<Rightarrow> build_registry ds reg'))"

definition build_native_tool_registry :: "jdict list \<Rightarrow> app_error + registry" where
  "build_native_tool_registry ds = build_registry ds []"

section \<open>Discovery\<close>

fun py_words :: "string \<Rightarrow> string \<Rightarrow> string list" where
  "py_words cur [] = (if cur = [] then [] else [cur])"
| "py_words cur (c # cs) = (if is_space c then (if cur = [] then [] else [cur]) @ py_words [] cs else py_words (cur @ [c]) cs)"

fun joined :: "string list \<Rightarrow> string" where
  "joined [] = []"
| "joined [x] = x"
| "joined (x # y # zs) = x @ '' '' @ joined (y # zs)"

datatype discovery = Catalog string "(string \<times> string) list" bool | InvalidSelection "string list"
  | SelectionTooLarge | Loaded "(string \<times> string) list"

definition spec_text :: "nat \<Rightarrow> registry \<Rightarrow> string \<Rightarrow> string \<times> string" where
  "spec_text n reg name = (name, trunc n (case reg_spec reg name of None \<Rightarrow> [] | Some s \<Rightarrow> ts_description s))"

definition authorized_names :: "registry \<Rightarrow> string list \<Rightarrow> string list" where
  "authorized_names reg allowed = sort (filter (\<lambda>n. n \<noteq> ''discover_tools'' \<and> reg_contains reg n) (remdups allowed))"

definition discover :: "string \<Rightarrow> registry \<Rightarrow> string list \<Rightarrow> string list option \<Rightarrow> discovery" where
  "discover query reg allowed tool_names =
     (let authorized = authorized_names reg allowed in
      case tool_names of
        None \<Rightarrow> Catalog (trunc 1000 (joined (py_words [] query))) (map (spec_text 160 reg) (take 40 authorized))
                  (40 < length authorized)
      | Some ns \<Rightarrow>
          (let requested = dict_unique (map strip ns);
               invalid = filter (\<lambda>n. n \<notin> set allowed \<or> \<not> reg_contains reg n) requested
           in if invalid \<noteq> [] then InvalidSelection (take 8 invalid)
              else if 8 < length requested then SelectionTooLarge
              else Loaded (map (spec_text 240 reg) requested)))"

section \<open>Context budget\<close>

record round_budget =
  rb_window :: "int option"
  rb_system :: int
  rb_schema :: int
  rb_user :: int
  rb_output :: int
  rb_margin :: int
  rb_available :: "int option"
  rb_history :: "int option"
  rb_results :: "int option"
  rb_preview :: int
  rb_workload :: string

definition safety_margin :: "int \<Rightarrow> int" where
  "safety_margin n = max 128 (min n 4096)"

text \<open>\<open>int(n * f)\<close> for a double \<open>f = m / 2 ^ s\<close>: \<open>n\<close> itself becomes a double first.\<close>

definition float_times :: "int \<Rightarrow> nat \<Rightarrow> nat \<Rightarrow> int" where
  "float_times n m s = scaled (int (round53 (nat n))) m s"

definition workloads :: "string list" where
  "workloads = [''balanced'', ''conversation'', ''research'', ''coding'']"

definition result_share :: "string \<Rightarrow> int \<Rightarrow> int \<Rightarrow> int" where
  "result_share workload prior available =
     (if workload = ''research'' then float_times available 5854679515581645 53
      else if workload = ''conversation'' then float_times available 3152519739159347 53
      else if workload = ''coding'' then float_times available 2476979795053773 52
      else if max 1 (available div 4) < prior then float_times available 5404319552844595 53
      else float_times available 8106479329266893 54)"

definition allocate ::
  "int \<Rightarrow> int option \<Rightarrow> int \<Rightarrow> int \<Rightarrow> int \<Rightarrow> int \<Rightarrow> int \<Rightarrow> string \<Rightarrow> round_budget" where
  "allocate margin window system_tokens schema user prior output workload =
     (let protected = max 0 system_tokens + max 0 schema + max 0 user + max 0 output + margin;
          base = \<lparr>rb_window = None, rb_system = max 0 system_tokens, rb_schema = max 0 schema, rb_user = max 0 user,
            rb_output = max 0 output, rb_margin = margin, rb_available = None, rb_history = None, rb_results = None,
            rb_preview = 1800, rb_workload = workload\<rparr>
      in case window of
           None \<Rightarrow> base
         | Some w \<Rightarrow>
             (if w \<le> 0 then base
              else (let available = max 0 (w - protected);
                        wl = (if workload \<in> set workloads then workload else ''balanced'');
                        results = result_share wl prior available;
                        preview = min 12000 (max 500 (results * 4 div 2))
                    in base\<lparr>rb_window := Some w, rb_available := Some available, rb_history := Some (max 0 (available - results)),
                         rb_results := Some results, rb_preview := preview, rb_workload := wl\<rparr>)))"

section \<open>The checkpoints of a round\<close>

text \<open>The gate of the loop and the gate of the call, for a tool without an MCP binding: the metadata tools are
  let through, every other one is asked of the policy.\<close>

definition broker_tools :: "string list" where
  "broker_tools = [''mcp_search_tools'', ''mcp_get_tool_schema'', ''mcp_get_result'']"

definition round_gate :: "string \<Rightarrow> jdict \<Rightarrow> bool" where
  "round_gate name args = (name \<in> set broker_tools \<or> dn_allowed (before_tool name args))"

definition call_gate :: "string \<Rightarrow> jdict \<Rightarrow> bool" where
  "call_gate name args = (name \<in> set broker_tools \<or> name = ''get_tool_result'' \<or> dn_allowed (before_tool name args))"

text \<open>\<open>{**base, **transition}\<close> of a checkpoint, written with status \<open>running\<close>.\<close>

definition merged :: "jdict \<Rightarrow> jdict \<Rightarrow> jdict" where
  "merged base c = fold (\<lambda>(k, v). dict_set k v) c base"

definition phase_write :: "int \<Rightarrow> nat \<Rightarrow> phase option \<Rightarrow> phase \<Rightarrow> int \<Rightarrow> jdict \<Rightarrow> jdict \<Rightarrow> db \<Rightarrow> unit tx" where
  "phase_write now run previous next turn details base s = (case transition_checkpoint previous next turn details of
     Inl e \<Rightarrow> Inl e
   | Inr c \<Rightarrow> update_checkpoint now run (Some ''running'') (Some (merged base c)) None s)"

text \<open>The writes of one round, in their order: the request to the model, the validated calls (when there are
  any), the execution with its batch plan (always), the recorded results (when there are any).\<close>

definition open_round :: "int \<Rightarrow> nat \<Rightarrow> int \<Rightarrow> int \<Rightarrow> db \<Rightarrow> unit tx" where
  "open_round now run turn continuations s =
     phase_write now run None ModelRequested turn []
       [(''turn_index'', JInt turn), (''phase'', JStr ''model''), (''continuation_count'', JInt continuations)] s"

definition validated_write :: "int \<Rightarrow> nat \<Rightarrow> int \<Rightarrow> nat \<Rightarrow> db \<Rightarrow> unit tx" where
  "validated_write now run turn calls s =
     (if calls = 0 then Inr ((), s)
      else phase_write now run (Some ModelRequested) ActionsValidated turn [(''tool_count'', JInt (int calls))] [] s)"

definition executing_write :: "int \<Rightarrow> int \<Rightarrow> nat \<Rightarrow> scope \<Rightarrow> int \<Rightarrow> nat \<Rightarrow> 'a batch list \<Rightarrow> db \<Rightarrow> unit tx" where
  "executing_write now retained run sc turn calls batches s =
     (case phase_write now run (Some ActionsValidated) Executing turn
         [(''tool_count'', JInt (int calls)), (''batch_count'', JInt (int (length batches)))] [] s of
        Inl e \<Rightarrow> Inl e
      | Inr (_, s1) \<Rightarrow> (case record_step now retained run sc ''execution_batch_plan'' ''running'' None None None
            (Some [(''batch_count'', JInt (int (length batches))),
                   (''parallel_read_batches'', JInt (int (length (filter b_parallel batches)))),
                   (''tool_count'', JInt (int calls))]) s1 of
          Inl e \<Rightarrow> Inl e | Inr (_, s2) \<Rightarrow> Inr ((), s2)))"

definition recorded_write :: "int \<Rightarrow> nat \<Rightarrow> int \<Rightarrow> nat \<Rightarrow> db \<Rightarrow> unit tx" where
  "recorded_write now run turn calls s =
     (if calls = 0 then Inr ((), s)
      else phase_write now run (Some Executing) ResultsRecorded turn [(''tool_count'', JInt (int calls))] [] s)"

text \<open>A call that needs an approval: the round asks for it and drops its calls; the end of the stream writes
  the request once more.\<close>

definition approval_write :: "int \<Rightarrow> int \<Rightarrow> nat \<Rightarrow> scope \<Rightarrow> int \<Rightarrow> jdict \<Rightarrow> db \<Rightarrow> unit tx" where
  "approval_write now retained run sc turn pending s =
     (case update_checkpoint now run (Some ''awaiting_approval'')
         (Some [(''status'', JStr ''awaiting_approval''), (''turn_index'', JInt turn), (''phase'', JStr ''approval''),
                (''pending_approval'', JObj pending)]) None s of
        Inl e \<Rightarrow> Inl e
      | Inr (_, s1) \<Rightarrow> (case record_step now retained run sc ''approval_requested'' ''awaiting_approval''
            (Some (get_str_or pending ''tool_name'' [])) (Some (get_str_or pending ''call_id'' []))
            (Some (as_dict (or_else (dict_get pending ''tool_input'') JNull)))
            (Some [(''approval_id'', JStr (get_str_or pending ''approval_id'' [])),
                   (''risk_level'', JStr (get_str_or pending ''risk_level'' []))]) s1 of
          Inl e \<Rightarrow> Inl e | Inr (_, s2) \<Rightarrow> Inr ((), s2)))"

definition settle_approval :: "int \<Rightarrow> nat \<Rightarrow> jdict \<Rightarrow> db \<Rightarrow> unit tx" where
  "settle_approval now run pending s = update_checkpoint now run (Some ''awaiting_approval'')
     (Some [(''status'', JStr ''awaiting_approval''), (''phase'', JStr ''approval''), (''pending_approval'', JObj pending)]) None s"


section \<open>What the batches keep\<close>

lemma parallel_batch_calls [simp]: "concat (map b_calls (parallel_batch p)) = p"
  by (simp add: parallel_batch_def)

lemma batch_loop_calls: "concat (map b_calls (batch_loop r p cs)) = p @ cs"
  by (induction r p cs rule: batch_loop.induct) simp_all

text \<open>Neighbouring batches are never both parallel.\<close>

fun separated :: "'a batch list \<Rightarrow> bool" where
  "separated (x # y # zs) = (\<not> (b_parallel x \<and> b_parallel y) \<and> separated (y # zs))"
| "separated _ = True"

lemma separated_Cons: "separated (x # ys) \<longleftrightarrow> (case ys of [] \<Rightarrow> True | y # _ \<Rightarrow> \<not> (b_parallel x \<and> b_parallel y)) \<and> separated ys"
  by (cases ys) simp_all

lemma batch_loop_shape:
  "list_all r p \<Longrightarrow> separated (batch_loop r p cs) \<and>
     (\<forall>b \<in> set (batch_loop r p cs). if b_parallel b then b_calls b \<noteq> [] \<and> list_all r (b_calls b)
        else (\<exists>c. b_calls b = [c] \<and> \<not> r c))"
proof (induction r p cs rule: batch_loop.induct)
  case (1 r p)
  then show ?case by (simp add: parallel_batch_def)
next
  case (2 r p c cs)
  show ?case
  proof (cases "r c")
    case True
    then show ?thesis using 2 by simp
  next
    case False
    have "separated (\<lparr>b_calls = [c], b_parallel = False\<rparr> # batch_loop r [] cs)"
      using 2(2) [OF False] by (simp add: separated_Cons split: list.splits)
    then show ?thesis using 2(2) [OF False] 2(3) False by (auto simp: parallel_batch_def)
  qed
qed

text \<open>The execution plan of a round (\<open>plan_execution_batches\<close>) runs every requested call exactly once and in
  the requested order; a parallel batch holds reads only, every other call is a batch of its own, and the
  parallel batches are maximal: two of them are never neighbours.\<close>

theorem batches_keep_order:
  "concat (map b_calls (plan_execution_batches is_read calls)) = calls \<and> separated (plan_execution_batches is_read calls) \<and>
   list_all (\<lambda>b. if b_parallel b then b_calls b \<noteq> [] \<and> list_all is_read (b_calls b) else (\<exists>c. b_calls b = [c] \<and> \<not> is_read c))
     (plan_execution_batches is_read calls)"
  using batch_loop_shape [of is_read "[]" calls] by (auto simp: plan_execution_batches_def batch_loop_calls list_all_iff split: if_splits)

section \<open>The budget\<close>

lemma round53_le: "round53 p * 2 ^ 53 \<le> p * (2 ^ 53 + 1)"
proof (cases "p < 2 ^ 53")
  case True
  then show ?thesis by (simp add: round53_def)
next
  case False
  then have p: "0 < p" and big: "2 ^ 53 \<le> p" by simp_all
  define e where "e = floorlog 2 p - 53"
  have "2 ^ 53 \<le> p" by (rule big)
  then have fl: "53 < floorlog 2 p" using floorlog_ge_SucI [of 2 53 p] by simp
  have "2 ^ (floorlog 2 p - 1) \<le> p" using floorlog_bounds [of p 2] p by simp
  then have lo: "2 ^ (e + 52) \<le> p" using fl by (simp add: e_def)
  have e: "0 < e" using fl by (simp add: e_def)
  let ?q = "p div 2 ^ e" and ?r = "p mod 2 ^ e" and ?h = "2 ^ (e - 1) :: nat"
  let ?v = "(if ?h < ?r \<or> (?r = ?h \<and> odd ?q) then ?q + 1 else ?q) * 2 ^ e"
  have v: "round53 p = ?v" using False by (simp add: round53_def e_def Let_def)
  have pq: "p = ?q * 2 ^ e + ?r" by (rule div_mult_mod_eq [symmetric])
  have h2: "2 * ?h = 2 ^ e" using e by (simp add: power_eq_if)
  have "?v \<le> p + ?h"
  proof (cases "?h < ?r \<or> (?r = ?h \<and> odd ?q)")
    case True
    then have "?h \<le> ?r" by auto
    moreover have "(?q + 1) * 2 ^ e = ?q * 2 ^ e + 2 * ?h" using h2 by simp
    ultimately have "(?q + 1) * 2 ^ e \<le> p + ?h" using pq by linarith
    then show ?thesis using True by simp
  next
    case False
    then have "?v = ?q * 2 ^ e" by (simp only: if_False)
    then show ?thesis using pq by linarith
  qed
  then have "?v * 2 ^ 53 \<le> p * 2 ^ 53 + ?h * 2 ^ 53" by (simp add: algebra_simps)
  moreover have "?h * 2 ^ 53 = 2 ^ (e + 52)"
  proof -
    have "?h * 2 ^ 53 = 2 ^ (e - 1 + 53)" by (rule power_add [symmetric])
    also have "e - 1 + 53 = e + 52" using e by simp
    finally show ?thesis .
  qed
  ultimately show ?thesis using lo v by simp
qed

lemma float_times_bounds:
  assumes "0 \<le> n" "10 * m \<le> 9 * 2 ^ s"
  shows "0 \<le> float_times n m s \<and> float_times n m s \<le> n"
proof -
  let ?n = "nat n" and ?a = "round53 (nat n)"
  let ?b = "round53 (?a * m)"
  have a: "?a * 2 ^ 53 \<le> ?n * (2 ^ 53 + 1)" by (rule round53_le)
  have "?b * 2 ^ 53 \<le> ?a * m * (2 ^ 53 + 1)" by (rule round53_le)
  then have "?b * 2 ^ 53 * 2 ^ 53 \<le> (?a * 2 ^ 53) * m * (2 ^ 53 + 1)" by (simp add: algebra_simps)
  also have "\<dots> \<le> (?n * (2 ^ 53 + 1)) * m * (2 ^ 53 + 1)" using a by (intro mult_right_mono) simp_all
  finally have "10 * (?b * 2 ^ 53 * 2 ^ 53) \<le> ?n * (2 ^ 53 + 1) * (2 ^ 53 + 1) * (10 * m)" by (simp add: algebra_simps)
  also have "\<dots> \<le> ?n * (2 ^ 53 + 1) * (2 ^ 53 + 1) * (9 * 2 ^ s)" using assms(2) by (intro mult_left_mono) simp_all
  also have "\<dots> \<le> ?n * 2 ^ s * (10 * 2 ^ 53 * 2 ^ 53)" by (simp add: algebra_simps)
  finally have "?b \<le> ?n * 2 ^ s" by simp
  then have "?b div 2 ^ s \<le> ?n" by (simp add: div_le_mono less_eq_div_iff_mult_less_eq order_trans [OF div_le_mono [of ?b "?n * 2 ^ s" "2 ^ s"]])
  then show ?thesis using assms(1) by (simp add: float_times_def scaled_def)
qed

lemma result_share_bounds: "0 \<le> a \<Longrightarrow> 0 \<le> result_share w prior a \<and> result_share w prior a \<le> a"
  unfolding result_share_def by (simp add: float_times_bounds)



section \<open>Tools that a request may use\<close>

lemma build_registry_ok:
  "build_registry ds reg = Inr reg' \<Longrightarrow> distinct (map ts_name reg) \<Longrightarrow>
     \<forall>s \<in> set reg. map_of tool_modes (ts_name s) = Some (ts_mode s) \<Longrightarrow>
   distinct (map ts_name reg') \<and> (\<forall>s \<in> set reg'. map_of tool_modes (ts_name s) = Some (ts_mode s)) \<and>
     length reg' = length reg + length ds"
proof (induction ds reg rule: build_registry.induct)
  case (1 reg)
  then show ?case by simp
next
  case (2 d ds reg)
  obtain s where s: "native_spec d = Inr s" using 2(2) by (auto split: sum.splits)
  obtain reg1 where reg1: "reg_add s reg = Inr reg1" using 2(2) s by (auto split: sum.splits)
  have r1: "reg1 = reg @ [s]" "ts_name s \<notin> ts_name ` set reg"
    using reg1 by (auto simp: reg_add_def reg_contains_def split: if_splits)
  have "map_of tool_modes (ts_name s) = Some (ts_mode s)"
    using s by (auto simp: native_spec_def Let_def split: option.splits if_splits)
  then show ?case using 2(1) [OF s reg1] 2(2-4) s reg1 r1 by auto
qed

lemma native_registry_ok:
  assumes "build_native_tool_registry ds = Inr reg"
  shows "distinct (map ts_name reg) \<and> (\<forall>s \<in> set reg. map_of tool_modes (ts_name s) = Some (ts_mode s)) \<and> length reg = length ds"
  using build_registry_ok [of ds "[]" reg] assms by (simp add: build_native_tool_registry_def)

lemma reg_spec_name: "reg_spec reg n = Some s \<Longrightarrow> s \<in> set reg \<and> ts_name s = n"
  unfolding reg_spec_def by (drule first_row_in) simp

lemma fst_spec_text [simp]: "fst (spec_text n reg name) = name" "fst \<circ> spec_text n reg = id"
  by (simp_all add: spec_text_def comp_def id_def)

text \<open>C25. Discovery shows and loads only what the request may use (\<open>NativeToolBroker.discover\<close>): the catalogue
  lists at most forty authorised tools of the registry in alphabetical order, and says so when it was cut; a
  selection is loaded only when every name in it is authorised and registered, each once and at most eight; any
  other selection loads nothing and names an offender.\<close>

theorem discovery_is_authorised:
  "case discover query reg allowed selection of
     Catalog _ tools shortened \<Rightarrow> selection = None \<and> map fst tools = take 40 (authorized_names reg allowed) \<and>
       set (map fst tools) \<subseteq> set allowed \<inter> ts_name ` set reg \<and> sorted (map fst tools) \<and> distinct (map fst tools) \<and>
       (shortened = (card {n \<in> set allowed. n \<noteq> ''discover_tools'' \<and> n \<in> ts_name ` set reg} > 40))
   | Loaded tools \<Rightarrow> selection \<noteq> None \<and> map fst tools = dict_unique (map strip (the selection)) \<and>
       set (map fst tools) \<subseteq> set allowed \<inter> ts_name ` set reg \<and> length tools \<le> 8
   | InvalidSelection names \<Rightarrow> names \<noteq> [] \<and> set names \<inter> (set allowed \<inter> ts_name ` set reg) = {} \<and> set names \<subseteq> strip ` set (the selection)
   | SelectionTooLarge \<Rightarrow> 8 < card (strip ` set (the selection))"
proof (cases selection)
  case None
  let ?A = "authorized_names reg allowed"
  have A: "set ?A = {n \<in> set allowed. n \<noteq> ''discover_tools'' \<and> n \<in> ts_name ` set reg}" "distinct ?A" "sorted ?A"
    by (auto simp: authorized_names_def reg_contains_def)
  have len: "length ?A = card {n \<in> set allowed. n \<noteq> ''discover_tools'' \<and> n \<in> ts_name ` set reg}"
    using distinct_card [OF A(2)] A(1) by simp
  have "set (take 40 ?A) \<subseteq> set allowed \<inter> ts_name ` set reg" using A(1) by (auto dest: in_set_takeD)
  then show ?thesis using A(2,3) len by (simp add: None discover_def Let_def sorted_wrt_take image_image)
next
  case (Some ns)
  let ?R = "dict_unique (map strip ns)" and ?P = "\<lambda>n. n \<notin> set allowed \<or> \<not> reg_contains reg n"
  have card: "length ?R = card (strip ` set ns)" using distinct_card [of ?R] by simp
  consider "filter ?P ?R \<noteq> []" | "filter ?P ?R = []" "8 < length ?R" | "filter ?P ?R = []" "length ?R \<le> 8" by linarith
  then show ?thesis
  proof cases
    case 1
    have "set (take 8 (filter ?P ?R)) \<subseteq> set (filter ?P ?R)" by (rule set_take_subset)
    then show ?thesis using 1 by (auto simp: Some discover_def Let_def reg_contains_def simp del: set_filter) (auto simp: reg_contains_def)
  next
    case 2
    then show ?thesis using card by (simp add: Some discover_def Let_def)
  next
    case 3
    have "set ?R \<subseteq> set allowed \<inter> ts_name ` set reg" using 3(1) by (auto simp: filter_empty_conv reg_contains_def)
    then show ?thesis using 3 by (simp add: Some discover_def Let_def)
  qed
qed

text \<open>The gate of the agent loop and the gate of the single call (\<open>_run_tool_call\<close>) agree on every native tool
  but one: \<open>get_tool_result\<close>, which the registry knows and the loop offers for stored results, is let through by
  the call and refused by the loop, because the policy's allowlist lacks it.\<close>

theorem loop_refuses_tool_results:
  "(round_gate name args \<noteq> call_gate name args \<longleftrightarrow> name = ''get_tool_result'') \<and>
   (map_of tool_modes name \<noteq> map_of policy_modes name \<longleftrightarrow> name = ''get_tool_result'') \<and>
   \<not> round_gate ''get_tool_result'' args \<and> call_gate ''get_tool_result'' args"
proof -
  have "map_of tool_modes name = (if name = ''get_tool_result'' then Some Read else map_of policy_modes name)"
    unfolding tool_modes_def policy_modes_def by simp
  moreover have "map_of policy_modes ''get_tool_result'' = None" by (simp add: policy_modes_def)
  moreover have "\<not> dn_allowed (before_tool ''get_tool_result'' args)" using calculation(2) by (simp add: before_tool_def decide_def)
  ultimately show ?thesis by (auto simp: round_gate_def call_gate_def broker_tools_def)
qed

section \<open>A decision that is lost\<close>

lemma update_checkpoint_runs:
  assumes "update_checkpoint now run st c err s = Inr (u, s')"
  shows "runs s' = upd_where (\<lambda>r. r_id r = run) (write_checkpoint now (map_option run_status_of st) c err) (runs s)"
proof -
  obtain r where r: "find_run run s = Some r" using assms by (auto simp: update_checkpoint_def split: option.splits)
  show ?thesis
  proof (cases "c \<noteq> None \<or> err \<noteq> None")
    case True
    then obtain v s1 where q: "run_capacity now (r_scope r) (estimate_bytes [PJson (or_else (map_option JObj c) (r_checkpoint r)),
        py_opt (if err \<noteq> None then err else r_error r)]) (estimate_bytes [PJson (r_checkpoint r), py_opt (r_error r)]) s = Inr (v, s1)"
      using assms r by (auto simp: update_checkpoint_def Let_def split: sum.splits)
    note f = workspace_core_fields [OF run_guard.guard_core [OF q]]
    show ?thesis using assms r q True f by (auto simp: update_checkpoint_def Let_def)
  next
    case False
    then show ?thesis using assms r by (auto simp: update_checkpoint_def Let_def)
  qed
qed

lemma executing_write_runs:
  assumes "executing_write now retained run sc turn calls batches s = Inr (u, s')"
  obtains c n where "runs s' = upd_where (\<lambda>r. r_id r = run) (\<lambda>r. count_step now n (write_checkpoint now (Some RRunning) (Some c) None r)) (runs s)"
    "dict_get c ''pending_approval'' = None" "dict_get c ''phase'' = Some (JStr ''executing'')"
proof -
  define c where "c = merged [] ([(''phase'', JStr ''executing''), (''turn_index'', JInt (max 0 turn))] @
     [(''transition'', JObj [(''tool_count'', JInt (int calls)), (''batch_count'', JInt (int (length batches)))])])"
  have t: "transition_checkpoint (Some ActionsValidated) Executing turn
      [(''tool_count'', JInt (int calls)), (''batch_count'', JInt (int (length batches)))] =
      Inr ([(''phase'', JStr ''executing''), (''turn_index'', JInt (max 0 turn))] @
     [(''transition'', JObj [(''tool_count'', JInt (int calls)), (''batch_count'', JInt (int (length batches)))])])"
    by (simp add: transition_checkpoint_def checkpoint_details_def)
  obtain s1 q where s1: "update_checkpoint now run (Some ''running'') (Some c) None s = Inr ((), s1)"
    and st: "record_step now retained run sc ''execution_batch_plan'' ''running'' None None None
            (Some [(''batch_count'', JInt (int (length batches))),
                   (''parallel_read_batches'', JInt (int (length (filter b_parallel batches)))),
                   (''tool_count'', JInt (int calls))]) s1 = Inr (q, s')"
    using assms unfolding executing_write_def phase_write_def t c_def by (auto split: sum.splits)
  from st have "runs s' = upd_where (\<lambda>r. r_id r = run) (count_step now q) (runs s1)" by (rule record_step_cases)
  moreover have "run_status_of ''running'' = RRunning" by (simp add: run_status_of_def)
  ultimately have "runs s' = upd_where (\<lambda>r. r_id r = run) (\<lambda>r. count_step now q (write_checkpoint now (Some RRunning) (Some c) None r)) (runs s)"
    using update_checkpoint_runs [OF s1] by (simp add: upd_where_def write_checkpoint_def)
  moreover have "dict_get c ''pending_approval'' = None" "dict_get c ''phase'' = Some (JStr ''executing'')"
    by (simp_all add: c_def merged_def) (simp add: dict_get_def)
  ultimately show thesis by (rule that)
qed

lemma first_with_key_upd:
  assumes "\<And>r. r_id (f r) = r_id r"
  shows "first_row (filter (\<lambda>r. r_id r = k) (upd_where (\<lambda>r. r_id r = k) f rs)) = map_option f (first_row (filter (\<lambda>r. r_id r = k) rs))"
  by (induction rs) (simp_all add: assms)

lemma find_run_upd:
  assumes "runs s' = upd_where (\<lambda>r. r_id r = k) f (runs s)" and "\<And>r. r_id (f r) = r_id r"
  shows "find_run k s' = map_option f (find_run k s)"
  unfolding find_run_def assms(1) by (rule first_with_key_upd) (rule assms(2))

lemma find_run_id: "find_run k s = Some r \<Longrightarrow> r_id r = k"
  unfolding find_run_def by (drule first_row_in) simp

text \<open>C28. An approval given while the stream is still ending is lost.  A round that asks for an approval drops its
  calls but still writes the execution checkpoint: whatever decision the run had stored, the checkpoint then
  holds no approval and the run counts as running, so that a further answer finds nothing to resolve; the end
  of the stream then stores the request again, as it was first asked.\<close>

theorem approval_decision_lost:
  assumes run: "find_run run s = Some r" and exec: "executing_write now retained run sc turn 0 ([] :: 'a batch list) s = Inr ((), s1)"
    and settle: "settle_approval later run pending s1 = Inr ((), s2)"
  shows "\<exists>r1 r2. find_run run s1 = Some r1 \<and> r_status r1 = RRunning \<and> (\<forall>aid. pending_approval aid r1 = None) \<and>
    find_run run s2 = Some r2 \<and> r_status r2 = RAwaitingApproval \<and>
    pending_approval (get_str_or pending ''approval_id'' []) r2 = Some pending"
proof -
  obtain c n where c: "runs s1 = upd_where (\<lambda>r. r_id r = run) (\<lambda>r. count_step now n (write_checkpoint now (Some RRunning) (Some c) None r)) (runs s)"
    "dict_get c ''pending_approval'' = None" by (rule executing_write_runs [OF exec])
  let ?r1 = "count_step now n (write_checkpoint now (Some RRunning) (Some c) None r)"
  have f1: "find_run run s1 = Some ?r1"
    using find_run_upd [OF c(1)] run by (simp add: count_step_def write_checkpoint_def)
  note w = update_checkpoint_runs [OF settle [unfolded settle_approval_def]]
  have f2: "find_run run s2 = Some (write_checkpoint later (Some RAwaitingApproval) (Some [(''status'', JStr ''awaiting_approval''),
      (''phase'', JStr ''approval''), (''pending_approval'', JObj pending)]) None ?r1)"
    using find_run_upd [OF w] f1 by (simp add: write_checkpoint_def run_status_of_def)
  have "pending_approval aid ?r1 = None" for aid
    using c(2) by (simp add: pending_approval_def pending_in_def count_step_def write_checkpoint_def or_else_def)
  moreover have "r_status ?r1 = RRunning" by (simp add: count_step_def write_checkpoint_def or_else_def)
  ultimately show ?thesis using f1 f2
    by (simp add: write_checkpoint_def or_else_def pending_approval_def pending_in_def dict_get_def)
qed


lemma unlimited_capacity: "tenants s = [] \<Longrightarrow> run_capacity now sc a b s = Inr (None, s)"
  by (simp add: run_capacity_def ensure_capacity_if_supported_def)

lemma update_checkpoint_free:
  assumes "find_run k s = Some r" "tenants s = []"
  shows "\<exists>s' r'. update_checkpoint now k st c err s = Inr ((), s') \<and> tenants s' = [] \<and> find_run k s' = Some r'"
proof -
  have cap: "(if b then run_capacity now sc x y s else Inr (None, s)) = Inr (None, s)" for b sc x y
    using assms(2) by (simp add: unlimited_capacity)
  have "\<exists>s'. update_checkpoint now k st c err s = Inr ((), s') \<and> tenants s' = []"
    using assms by (simp add: update_checkpoint_def Let_def cap upd_run_def)
  then obtain s' where s': "update_checkpoint now k st c err s = Inr ((), s')" "tenants s' = []" by blast
  show ?thesis using s' find_run_upd [OF update_checkpoint_runs [OF s'(1)]] assms(1) by (simp add: write_checkpoint_def)
qed

lemma record_step_free:
  assumes "find_run k s = Some r" "tenants s = []"
  shows "\<exists>q s' r'. record_step now n k sc ty st tool cl inp out s = Inr (q, s') \<and> tenants s' = [] \<and> find_run k s' = Some r'"
proof -
  have "\<exists>q s'. record_step now n k sc ty st tool cl inp out s = Inr (q, s') \<and> tenants s' = []"
    using assms by (simp add: record_step_def Let_def unlimited_capacity upd_run_def retain_steps_def)
  then obtain q s' where s': "record_step now n k sc ty st tool cl inp out s = Inr (q, s')" "tenants s' = []" by blast
  from s'(1) have "runs s' = upd_where (\<lambda>r. r_id r = k) (count_step now q) (runs s)" by (rule record_step_cases)
  then have "find_run k s' = map_option (count_step now q) (find_run k s)" by (rule find_run_upd) (simp add: count_step_def)
  then show ?thesis using s' assms(1) by simp
qed

definition approved_run :: db where
  "approved_run = run_db\<lparr>tenants := [], runs := [sample_run\<lparr>r_checkpoint := JObj [(''pending_approval'',
     JObj [(''approval_id'', JStr ''a9''), (''decision'', JStr ''approved'')])]\<rparr>]\<rparr>"

theorem approval_decision_lost_witness:
  "\<exists>s1 s2 r1 r2. executing_write 22 100 4 (1, 7, 9) 1 0 ([] :: nat batch list) approved_run = Inr ((), s1) \<and>
     settle_approval 24 4 [(''approval_id'', JStr ''a9''), (''decision'', JStr ''pending'')] s1 = Inr ((), s2) \<and>
     find_run 4 s1 = Some r1 \<and> pending_approval ''a9'' r1 = None \<and>
     find_run 4 s2 = Some r2 \<and> pending_approval ''a9'' r2 = Some [(''approval_id'', JStr ''a9''), (''decision'', JStr ''pending'')]"
proof -
  let ?p = "[(''approval_id'', JStr ''a9''), (''decision'', JStr ''pending'')]"
  obtain r where r: "find_run 4 approved_run = Some r" and t: "tenants approved_run = []"
    by (simp add: find_run_def approved_run_def sample_run_def)
  obtain s0 r0 where s0: "update_checkpoint 22 4 (Some ''running'') (Some (merged [] [(''phase'', JStr ''executing''), (''turn_index'', JInt 1),
      (''transition'', JObj [(''tool_count'', JInt 0), (''batch_count'', JInt 0)])])) None approved_run = Inr ((), s0)"
    "tenants s0 = []" "find_run 4 s0 = Some r0" using update_checkpoint_free [OF r t] by blast
  obtain q s1 r1 where s1: "record_step 22 100 4 (1, 7, 9) ''execution_batch_plan'' ''running'' None None None
            (Some [(''batch_count'', JInt 0), (''parallel_read_batches'', JInt 0), (''tool_count'', JInt 0)]) s0 = Inr (q, s1)"
    "tenants s1 = []" "find_run 4 s1 = Some r1" using record_step_free [OF s0(3,2)] by blast
  have e: "executing_write 22 100 4 (1, 7, 9) 1 0 ([] :: nat batch list) approved_run = Inr ((), s1)"
    using s0(1) s1(1) by (simp add: executing_write_def phase_write_def transition_checkpoint_def checkpoint_details_def)
  obtain s2 where s2: "settle_approval 24 4 ?p s1 = Inr ((), s2)"
    using update_checkpoint_free [OF s1(3,2)] unfolding settle_approval_def by blast
  have "get_str_or ?p ''approval_id'' [] = ''a9''" by (simp add: get_str_or_def)
  then show ?thesis using approval_decision_lost [OF r e s2] e s2 by auto
qed

end
