(* ===== verification/Library_Text.thy ===== *)
theory Library_Text
  imports Py_Text
begin

text \<open>
  Names, content types and payloads of Library files: the tables of \<open>deepspace/api/library.py\<close> and
  \<open>deepspace/services/library_uploads.py\<close>, the choice of a free file name, the object key of a file
  (\<open>system/services/storage_service.py\<close>), and UTF-8 as \<open>bytes.decode("utf-8", errors="replace")\<close> reads
  it.  A byte is a \<open>char\<close>, a decoded text a list of code points.
\<close>

type_synonym bytes = string

section \<open>Content types\<close>

definition library_content_types :: "string list" where
  "library_content_types =
   [''text/css'', ''text/csv'', ''text/html'', ''text/javascript'', ''text/markdown'', ''text/plain'', ''text/sql'',
     ''text/x-csv'', ''text/x-diff'', ''text/x-java'', ''text/x-python'', ''text/x-yaml'', ''text/x-markdown'',
     ''text/tab-separated-values'', ''text/xml'', ''application/javascript'', ''application/json'',
     ''application/sql'', ''application/xml'', ''application/yaml'', ''application/x-yaml'',
     ''application/x-ipynb+json'', ''application/x-sh'', ''application/typescript'',
     ''application/vnd.openxmlformats-officedocument.presentationml.presentation'', ''application/msword'',
     ''application/vnd.ms-word'', ''application/vnd.ms-powerpoint'', ''application/vnd.oasis.opendocument.text'',
     ''application/vnd.oasis.opendocument.presentation'', ''application/rtf'', ''text/rtf'', ''application/pdf'',
     ''application/zip'', ''application/gzip'', ''application/x-gzip'', ''application/x-tar'',
     ''application/x-7z-compressed'', ''application/x-rar-compressed'',
     ''application/vnd.openxmlformats-officedocument.spreadsheetml.sheet'',
     ''application/vnd.openxmlformats-officedocument.wordprocessingml.document'', ''application/vnd.ms-excel'',
     ''application/vnd.oasis.opendocument.spreadsheet'', ''image/svg+xml'', ''image/png'', ''image/jpeg'',
     ''image/webp'', ''image/gif'', ''image/tiff'', ''image/bmp'', ''image/avif'', ''video/mp4'', ''video/webm'',
     ''video/quicktime'', ''video/x-m4v'', ''video/x-msvideo'', ''video/x-matroska'', ''audio/mpeg'', ''audio/wav'',
     ''audio/ogg'', ''audio/mp4'', ''audio/x-wav'', ''audio/flac'', ''audio/x-m4a'', ''application/octet-stream'']"

definition extension_types :: "(string \<times> string) list" where
  "extension_types =
   [(''md'', ''text/markdown''), (''mdx'', ''text/markdown''), (''json'', ''application/json''),
     (''csv'', ''text/csv''), (''tsv'', ''text/tab-separated-values''), (''yaml'', ''application/yaml''),
     (''yml'', ''application/yaml''), (''toml'', ''text/plain''), (''ini'', ''text/plain''),
     (''cfg'', ''text/plain''), (''log'', ''text/plain''), (''xml'', ''application/xml''), (''html'', ''text/html''),
     (''htm'', ''text/html''), (''xhtml'', ''text/html''), (''css'', ''text/css''), (''sql'', ''text/sql''),
     (''py'', ''text/x-python''), (''ipynb'', ''application/x-ipynb+json''), (''js'', ''text/javascript''),
     (''ts'', ''text/javascript''), (''tsx'', ''text/javascript''), (''jsx'', ''text/javascript''),
     (''mjs'', ''text/javascript''), (''cjs'', ''text/javascript''), (''sh'', ''application/x-sh''),
     (''bash'', ''application/x-sh''), (''java'', ''text/x-java''), (''go'', ''text/plain''),
     (''rs'', ''text/plain''), (''c'', ''text/plain''), (''h'', ''text/plain''), (''cpp'', ''text/plain''),
     (''cc'', ''text/plain''), (''cxx'', ''text/plain''), (''diff'', ''text/x-diff''), (''patch'', ''text/x-diff''),
     (''pdf'', ''application/pdf''),
     (''docx'', ''application/vnd.openxmlformats-officedocument.wordprocessingml.document''),
     (''doc'', ''application/msword''),
     (''pptx'', ''application/vnd.openxmlformats-officedocument.presentationml.presentation''),
     (''ppt'', ''application/vnd.ms-powerpoint''),
     (''xlsx'', ''application/vnd.openxmlformats-officedocument.spreadsheetml.sheet''),
     (''xls'', ''application/vnd.ms-excel''), (''ods'', ''application/vnd.oasis.opendocument.spreadsheet''),
     (''odt'', ''application/vnd.oasis.opendocument.text''),
     (''odp'', ''application/vnd.oasis.opendocument.presentation''), (''rtf'', ''application/rtf''),
     (''zip'', ''application/zip''), (''tar'', ''application/x-tar''), (''gz'', ''application/gzip''),
     (''tgz'', ''application/gzip''), (''7z'', ''application/x-7z-compressed''),
     (''rar'', ''application/x-rar-compressed''), (''svg'', ''image/svg+xml''), (''png'', ''image/png''),
     (''jpg'', ''image/jpeg''), (''jpeg'', ''image/jpeg''), (''webp'', ''image/webp''), (''tif'', ''image/tiff''),
     (''tiff'', ''image/tiff''), (''bmp'', ''image/bmp''), (''avif'', ''image/avif''), (''mp4'', ''video/mp4''),
     (''webm'', ''video/webm''), (''mov'', ''video/quicktime''), (''m4v'', ''video/x-m4v''),
     (''avi'', ''video/x-msvideo''), (''mkv'', ''video/x-matroska''), (''mp3'', ''audio/mpeg''),
     (''wav'', ''audio/wav''), (''ogg'', ''audio/ogg''), (''m4a'', ''audio/x-m4a''), (''flac'', ''audio/flac'')]"

definition extractable_types :: "string list" where
  "extractable_types =
   [''application/pdf'', ''application/vnd.openxmlformats-officedocument.wordprocessingml.document'',
     ''application/vnd.openxmlformats-officedocument.presentationml.presentation'',
     ''application/vnd.openxmlformats-officedocument.spreadsheetml.sheet'',
     ''application/vnd.oasis.opendocument.text'', ''application/vnd.oasis.opendocument.presentation'',
     ''application/vnd.oasis.opendocument.spreadsheet'', ''application/msword'', ''application/vnd.ms-word'',
     ''application/vnd.ms-powerpoint'', ''application/vnd.ms-excel'', ''text/csv'', ''text/tab-separated-values'',
     ''text/plain'', ''text/markdown'', ''text/x-markdown'', ''application/json'', ''application/x-ipynb+json'',
     ''application/xml'', ''application/yaml'', ''application/x-yaml'', ''application/rtf'', ''text/rtf'',
     ''image/png'', ''image/jpeg'', ''image/jpg'', ''image/tiff'', ''image/webp'', ''image/bmp'', ''image/gif'']"

definition bulk_text_types :: "string list" where
  "bulk_text_types =
   [''text/csv'', ''text/x-csv'', ''text/tab-separated-values'', ''application/json'', ''application/x-ipynb+json'']"

definition tabular_types :: "string list" where
  "tabular_types =
   [''text/csv'', ''text/x-csv'', ''text/tab-separated-values'', ''application/json'', ''application/x-ipynb+json'',
     ''application/vnd.openxmlformats-officedocument.spreadsheetml.sheet'']"

text \<open>\<open>name.rpartition(".")\<close>: the text before and after the last dot.\<close>

definition rpartition_dot :: "string \<Rightarrow> (string \<times> string) option" where
  "rpartition_dot s =
     (if CHR ''.'' \<in> set s
      then Some (rev (tl (dropWhile (\<lambda>c. c \<noteq> CHR ''.'') (rev s))), rev (takeWhile (\<lambda>c. c \<noteq> CHR ''.'') (rev s)))
      else None)"

definition content_type_for_name :: "string \<Rightarrow> string" where
  "content_type_for_name name =
     (case map_of extension_types (case rpartition_dot name of Some (_, e) \<Rightarrow> lower e | None \<Rightarrow> []) of
        Some t \<Rightarrow> t | None \<Rightarrow> ''text/plain'')"

text \<open>The content type of a new upload: a declared type of the Library is kept, unless it is the generic one and
  the name tells more.\<close>

definition upload_content_type :: "string \<Rightarrow> string \<Rightarrow> string" where
  "upload_content_type name declared =
     (let inferred = content_type_for_name name; known = (declared \<in> set library_content_types)
      in if (declared = ''application/octet-stream'' \<or> \<not> known) \<and> (inferred \<noteq> ''text/plain'' \<or> \<not> known)
         then inferred else declared)"

text \<open>\<open>str.casefold\<close> on the code points that the types can hold.\<close>

definition casefold :: "string \<Rightarrow> string" where
  "casefold s = concat (map (\<lambda>c. if code c = 223 then ''ss'' else [lower_char c]) s)"

definition is_extraction_supported :: "string \<Rightarrow> bool" where
  "is_extraction_supported content_type = (casefold content_type \<in> set extractable_types)"

definition inline_limit :: nat where
  "inline_limit = 512 * 1024"

definition stored_as_object :: "string \<Rightarrow> bytes \<Rightarrow> bool" where
  "stored_as_object content_type payload =
     (\<not> list_ex (\<lambda>p. prefix p content_type) [''text/'', ''application/json'', ''application/xml'', ''application/yaml'']
      \<or> inline_limit < length payload)"

section \<open>File names\<close>

text \<open>One character class of \<open>_SAFE_FILE_NAME\<close>, and \<open>LibraryUploadCreate.safe_name\<close> with the length bounds of
  the field.\<close>

definition safe_name_char :: "char \<Rightarrow> bool" where
  "safe_name_char c = (31 < code c \<and> code c \<noteq> 127 \<and> c \<noteq> CHR ''/'' \<and> code c \<noteq> 92)"

definition safe_name :: "string \<Rightarrow> string option" where
  "safe_name value =
     (let name = strip value
      in if value = [] \<or> 255 < length value then None
         else if name \<noteq> [] \<and> list_all safe_name_char name \<and> name \<noteq> ''.'' \<and> name \<noteq> ''..'' then Some name
         else None)"

text \<open>The candidate of \<open>unique_library_filename\<close> for one suffix number.\<close>

definition split_extension :: "string \<Rightarrow> string \<times> string" where
  "split_extension name = (case rpartition_dot name of
     Some (stem, e) \<Rightarrow> if stem = [] then (name, []) else (stem, CHR ''.'' # e)
   | None \<Rightarrow> (name, []))"

definition suffix_text :: "nat \<Rightarrow> string" where
  "suffix_text n = '' ('' @ digits10 n @ '')''"

definition candidate :: "string \<Rightarrow> string \<Rightarrow> nat \<Rightarrow> string" where
  "candidate stem extension n =
     (let sfx = suffix_text n;
          ext = take (254 - length sfx) extension;
          stem_length = max 1 (255 - length sfx - length ext)
      in take stem_length stem @ sfx @ ext)"

lemma less_10_digits: "n < 10 ^ length (digits10 n)"
proof (induction n rule: digits10.induct)
  case (1 n)
  show ?case
  proof (cases "n < 10")
    case True
    then show ?thesis by (subst digits10.simps) simp
  next
    case False
    then have l: "digits10 n = digits10 (n div 10) @ [digit_char (n mod 10)]" by (subst digits10.simps) simp
    have "n div 10 < 10 ^ length (digits10 (n div 10))" by (rule 1) (use False in simp)
    then have "n < 10 * 10 ^ length (digits10 (n div 10))" by (simp add: div_less_iff_less_mult mult.commute)
    then show ?thesis by (simp add: l)
  qed
qed

lemma digits_10_le: "0 < n \<Longrightarrow> 10 ^ (length (digits10 n) - 1) \<le> n"
proof (induction n rule: digits10.induct)
  case (1 n)
  show ?case
  proof (cases "n < 10")
    case True
    then show ?thesis using 1 by (subst digits10.simps) simp
  next
    case False
    then have l: "digits10 n = digits10 (n div 10) @ [digit_char (n mod 10)]" by (subst digits10.simps) simp
    obtain m where m: "length (digits10 (n div 10)) = Suc m" by (cases "digits10 (n div 10)") auto
    have "10 ^ (length (digits10 (n div 10)) - 1) \<le> n div 10" by (rule 1(1)) (use False in simp_all)
    then have "10 ^ m \<le> n div 10" by (simp add: m)
    then have "10 ^ m * 10 \<le> n" by (simp add: less_eq_div_iff_mult_less_eq)
    then show ?thesis by (simp add: l m mult.commute)
  qed
qed

lemma length_digits_less: "n < 10 ^ k \<Longrightarrow> 0 < k \<Longrightarrow> length (digits10 n) \<le> k"
proof (cases "n = 0")
  case True
  assume "0 < k"
  then show ?thesis unfolding True by (subst digits10.simps) simp
next
  case False
  assume "n < 10 ^ k"
  then have "(10 :: nat) ^ (length (digits10 n) - 1) < 10 ^ k" using digits_10_le [of n] False by linarith
  then show ?thesis by simp
qed

lemma suffix_text_inj: "x @ suffix_text n = y @ suffix_text k \<Longrightarrow> n = k"
proof -
  assume e: "x @ suffix_text n = y @ suffix_text k"
  have t: "takeWhile is_digit (rev (digits10 m) @ CHR ''('' # z) = rev (digits10 m)" for m z
    using digits10_all_digits [of m] by (subst takeWhile_append2) (auto simp: list_all_iff is_digit_def)
  have "rev (x @ suffix_text n) = rev (y @ suffix_text k)" using e by simp
  then have "rev (digits10 n) @ CHR ''('' # CHR '' '' # rev x = rev (digits10 k) @ CHR ''('' # CHR '' '' # rev y"
    by (simp add: suffix_text_def)
  then have "rev (digits10 n) = rev (digits10 k)" by (metis t)
  then show ?thesis by (metis nat_of_digits10 rev_is_rev_conv)
qed

lemma length_suffix_text: "length (suffix_text n) = length (digits10 n) + 3"
  by (simp add: suffix_text_def)

text \<open>However many names are taken, some later candidate is free: beyond 251 digits the extension is gone and only
  the number is left to tell the candidates apart.\<close>

lemma candidate_free: "\<exists>k \<ge> n. candidate stem ext k \<notin> set reserved"
proof (rule ccontr)
  assume "\<not> ?thesis"
  then have sub: "candidate stem ext ` {max n (10 ^ 254)..} \<subseteq> set reserved" by auto
  have "candidate stem ext k = take 1 stem @ suffix_text k" if "10 ^ 254 \<le> k" for k
  proof -
    have "(10 :: nat) ^ 254 < 10 ^ length (digits10 k)" using that less_10_digits [of k] by (rule le_less_trans)
    then have "254 < length (digits10 k)" by (simp only: power_strict_increasing_iff)
    then show ?thesis by (simp add: candidate_def Let_def length_suffix_text)
  qed
  then have "inj_on (candidate stem ext) {max n (10 ^ 254)..}"
    by (intro inj_onI) (metis atLeast_iff max.boundedE suffix_text_inj)
  then have "infinite (candidate stem ext ` {max n (10 ^ 254)..})" by (simp add: finite_image_iff infinite_Ici)
  with sub show False using finite_subset by blast
qed

function unique_loop :: "string list \<Rightarrow> string \<Rightarrow> string \<Rightarrow> nat \<Rightarrow> string" where
  "unique_loop reserved stem ext n =
     (if candidate stem ext n \<notin> set reserved then candidate stem ext n else unique_loop reserved stem ext (Suc n))"
  by pat_completeness auto
termination
proof (relation "measure (\<lambda>(reserved, stem, ext, n). (LEAST k. n \<le> k \<and> candidate stem ext k \<notin> set reserved) - n)")
  fix reserved stem ext n
  let ?P = "\<lambda>n k. n \<le> k \<and> candidate stem ext k \<notin> set reserved"
  assume "\<not> candidate stem ext n \<notin> set reserved"
  moreover obtain k where "?P n k" using candidate_free by blast
  then have L: "?P n (LEAST k. ?P n k)" by (rule LeastI)
  ultimately have "n \<noteq> (LEAST k. ?P n k)" by metis
  with L have s: "?P (Suc n) (LEAST k. ?P n k)" by simp
  then have "(LEAST k. ?P (Suc n) k) \<le> (LEAST k. ?P n k)" by (rule Least_le)
  with s have "(LEAST k. ?P (Suc n) k) - Suc n < (LEAST k. ?P n k) - n" by linarith
  then show "((reserved, stem, ext, Suc n), reserved, stem, ext, n)
      \<in> measure (\<lambda>(reserved, stem, ext, n). (LEAST k. n \<le> k \<and> candidate stem ext k \<notin> set reserved) - n)" by simp
qed simp

declare unique_loop.simps [simp del]

definition unique_library_filename :: "string \<Rightarrow> string list \<Rightarrow> string" where
  "unique_library_filename filename reserved =
     (if filename \<notin> set reserved then filename
      else (let (stem, ext) = split_extension filename in unique_loop reserved stem ext 2))"

section \<open>Object keys\<close>

definition key_char :: "char \<Rightarrow> bool" where
  "key_char c = (let n = code c in (48 \<le> n \<and> n \<le> 57) \<or> (65 \<le> n \<and> n \<le> 90) \<or> (97 \<le> n \<and> n \<le> 122) \<or> n = 45 \<or> n = 46 \<or> n = 95)"

function squash :: "string \<Rightarrow> string" where
  "squash [] = []"
| "squash (c # cs) = (if key_char c then c # squash cs else CHR ''_'' # squash (dropWhile (\<lambda>x. \<not> key_char x) cs))"
  by pat_completeness auto
termination
  by (relation "measure length") (auto simp: le_imp_less_Suc length_dropWhile_le)

definition last_segment :: "string \<Rightarrow> string" where
  "last_segment s = rev (takeWhile (\<lambda>c. c \<noteq> CHR ''/'') (rev (map (\<lambda>c. if code c = 92 then CHR ''/'' else c) s)))"

definition safe_filename :: "string \<Rightarrow> string" where
  "safe_filename filename =
     (let name = last_segment (strip filename);
          cleaned = squash (if name = [] then ''file'' else name)
      in if cleaned = [] then ''file'' else cleaned)"

text \<open>The objects of the bucket that an upload touches, and the text of their keys.\<close>

datatype object_key = ChunkKey nat nat nat | FileKey nat nat string

definition chunk_number :: "nat \<Rightarrow> string" where
  "chunk_number i = replicate (8 - length (digits10 i)) (CHR ''0'') @ digits10 i"

fun key_text :: "object_key \<Rightarrow> string" where
  "key_text (ChunkKey tn upload i) = uuid_str tn @ ''/library-uploads/'' @ uuid_str upload @ ''/chunk-'' @ chunk_number i"
| "key_text (FileKey tn file name) = uuid_str tn @ CHR ''/'' # uuid_str file @ CHR ''/'' # name"

fun key_ids :: "object_key \<Rightarrow> nat list" where
  "key_ids (ChunkKey tn upload _) = [tn, upload]"
| "key_ids (FileKey tn file _) = [tn, file]"

lemma length_uuid_str [simp]: "length (uuid_str n) = 36"
  by (simp add: uuid_str_def Let_def)

lemma uuid_str_inj: "n < 2 ^ 128 \<Longrightarrow> m < 2 ^ 128 \<Longrightarrow> uuid_str n = uuid_str m \<Longrightarrow> n = m"
  using parse_uuid_str by (metis option.inject)

lemma chunk_number_inj: "chunk_number i = chunk_number j \<Longrightarrow> i = j"
proof -
  have "nat_of_digits (CHR ''0'' # s) = nat_of_digits s" for s
    by (simp add: nat_of_digits_def digit_val_def)
  then have "nat_of_digits (replicate k (CHR ''0'') @ s) = nat_of_digits s" for k s
    by (induction k) simp_all
  then have "nat_of_digits (chunk_number i) = i" for i by (simp add: chunk_number_def)
  then show "chunk_number i = chunk_number j \<Longrightarrow> i = j" by metis
qed

lemma uuid_not_library: "uuid_str n @ x = ''library-uploads/'' @ y \<Longrightarrow> False"
proof -
  assume e: "uuid_str n @ x = ''library-uploads/'' @ y"
  have "(uuid_str n @ x) ! 7 = hex_digits 32 n ! 7" by (simp add: uuid_str_def Let_def nth_append)
  moreover have "(''library-uploads/'' @ y) ! 7 = CHR ''-''" by simp
  ultimately have "hex_digits 32 n ! 7 = CHR ''-''" using e by metis
  moreover have "hex_digits 32 n ! 7 \<in> hex_char ` {..<16}"
    by (rule subsetD [OF set_hex_digits], rule nth_mem) simp
  ultimately show False using hex_char_range [of "CHR ''-''"] by auto
qed

lemma key_text_inj:
  assumes "\<forall>n \<in> set (key_ids k) \<union> set (key_ids k'). n < 2 ^ 128" and "key_text k = key_text k'"
  shows "k = k'"
proof (cases k; cases k')
  fix a b c d e f assume k: "k = ChunkKey a b c" "k' = ChunkKey d e f"
  with assms have "uuid_str a = uuid_str d" "uuid_str b = uuid_str e" "chunk_number c = chunk_number f" by auto
  moreover have "a < 2 ^ 128" "b < 2 ^ 128" "d < 2 ^ 128" "e < 2 ^ 128" using assms(1) by (simp_all only: k key_ids.simps list.set Un_iff insert_iff) blast+
  ultimately show ?thesis unfolding k using uuid_str_inj chunk_number_inj by metis
next
  fix a b c d e f assume k: "k = FileKey a b c" "k' = FileKey d e f"
  with assms have "uuid_str a = uuid_str d" "uuid_str b = uuid_str e" "c = f" by auto
  moreover have "a < 2 ^ 128" "b < 2 ^ 128" "d < 2 ^ 128" "e < 2 ^ 128" using assms(1) by (simp_all only: k key_ids.simps list.set Un_iff insert_iff) blast+
  ultimately show ?thesis unfolding k using uuid_str_inj by metis
next
  fix a b c d e f assume "k = ChunkKey a b c" "k' = FileKey d e f"
  then show ?thesis using assms(2) by (auto dest: uuid_not_library [simplified] uuid_not_library [OF sym, simplified])
next
  fix a b c d e f assume "k = FileKey a b c" "k' = ChunkKey d e f"
  then show ?thesis using assms(2) by (auto dest: uuid_not_library [simplified] uuid_not_library [OF sym, simplified])
qed

section \<open>UTF-8\<close>

definition cont :: "char \<Rightarrow> bool" where
  "cont c = (128 \<le> code c \<and> code c < 192)"

text \<open>The second byte that may follow a lead byte: no overlong form, no surrogate, nothing above \<open>10FFFF\<close>.\<close>

definition second :: "nat \<Rightarrow> char \<Rightarrow> bool" where
  "second lead c = (cont c \<and> (lead = 224 \<longrightarrow> 160 \<le> code c) \<and> (lead = 237 \<longrightarrow> code c < 160)
     \<and> (lead = 240 \<longrightarrow> 144 \<le> code c) \<and> (lead = 244 \<longrightarrow> code c < 144))"

text \<open>\<open>payload.decode("utf-8", errors="replace")\<close>: every maximal incomplete sequence becomes one \<open>U+FFFD\<close>.\<close>

abbreviation replacement :: nat where
  "replacement \<equiv> 65533"

function utf8_decode :: "bytes \<Rightarrow> nat list" where
  "utf8_decode [] = []"
| "utf8_decode (b # bs) = (let n = code b in
     if n < 128 then n # utf8_decode bs
     else if 194 \<le> n \<and> n < 224 then
       (case bs of [] \<Rightarrow> [replacement]
        | c # cs \<Rightarrow> if cont c then ((n - 192) * 64 + (code c - 128)) # utf8_decode cs else replacement # utf8_decode bs)
     else if 224 \<le> n \<and> n < 240 then
       (case bs of [] \<Rightarrow> [replacement]
        | c # cs \<Rightarrow> if \<not> second n c then replacement # utf8_decode bs
            else (case cs of [] \<Rightarrow> [replacement]
              | d # ds \<Rightarrow> if cont d then ((n - 224) * 4096 + (code c - 128) * 64 + (code d - 128)) # utf8_decode ds
                  else replacement # utf8_decode cs))
     else if 240 \<le> n \<and> n < 245 then
       (case bs of [] \<Rightarrow> [replacement]
        | c # cs \<Rightarrow> if \<not> second n c then replacement # utf8_decode bs
            else (case cs of [] \<Rightarrow> [replacement]
              | d # ds \<Rightarrow> if \<not> cont d then replacement # utf8_decode cs
                  else (case ds of [] \<Rightarrow> [replacement]
                    | e # es \<Rightarrow> if cont e
                        then ((n - 240) * 262144 + (code c - 128) * 4096 + (code d - 128) * 64 + (code e - 128)) # utf8_decode es
                        else replacement # utf8_decode ds)))
     else replacement # utf8_decode bs)"
  by pat_completeness auto
termination
  by (relation "measure length") auto

definition utf8_encode1 :: "nat \<Rightarrow> bytes" where
  "utf8_encode1 p =
     (if p < 128 then [char_of p]
      else if p < 2048 then [char_of (192 + p div 64), char_of (128 + p mod 64)]
      else if p < 65536 then [char_of (224 + p div 4096), char_of (128 + p div 64 mod 64), char_of (128 + p mod 64)]
      else [char_of (240 + p div 262144), char_of (128 + p div 4096 mod 64), char_of (128 + p div 64 mod 64), char_of (128 + p mod 64)])"

definition utf8_encode :: "nat list \<Rightarrow> bytes" where
  "utf8_encode ps = concat (map utf8_encode1 ps)"

text \<open>The code points that \<open>str.encode("utf-8")\<close> accepts.\<close>

definition scalar :: "nat \<Rightarrow> bool" where
  "scalar p = (p < 1114112 \<and> \<not> (55296 \<le> p \<and> p < 57344))"

lemma decode2: "2 \<le> x \<Longrightarrow> x < 32 \<Longrightarrow> y < 64 \<Longrightarrow>
    utf8_decode (char_of (192 + x) # char_of (128 + y) # bs) = (x * 64 + y) # utf8_decode bs"
  by (simp add: cont_def)

lemma decode3: "x < 16 \<Longrightarrow> y < 64 \<Longrightarrow> z < 64 \<Longrightarrow> x = 0 \<longrightarrow> 32 \<le> y \<Longrightarrow> x = 13 \<longrightarrow> y < 32 \<Longrightarrow>
    utf8_decode (char_of (224 + x) # char_of (128 + y) # char_of (128 + z) # bs) = (x * 4096 + y * 64 + z) # utf8_decode bs"
  by (simp add: cont_def second_def)

lemma decode4: "w < 5 \<Longrightarrow> x < 64 \<Longrightarrow> y < 64 \<Longrightarrow> z < 64 \<Longrightarrow> w = 0 \<longrightarrow> 16 \<le> x \<Longrightarrow> w = 4 \<longrightarrow> x < 16 \<Longrightarrow>
    utf8_decode (char_of (240 + w) # char_of (128 + x) # char_of (128 + y) # char_of (128 + z) # bs) =
      (w * 262144 + x * 4096 + y * 64 + z) # utf8_decode bs"
  by (simp add: cont_def second_def)

lemma split64: "(p :: nat) = p div 64 * 64 + p mod 64" "p div 64 = p div 4096 * 64 + p div 64 mod 64"
  "p div 4096 = p div 262144 * 64 + p div 4096 mod 64"
  using div_mult2_eq [of p 64 64] div_mult2_eq [of p 4096 64] div_mult_mod_eq [of "p div 64" 64] div_mult_mod_eq [of "p div 4096" 64]
  by simp_all

lemma decode_encode1:
  assumes "scalar p"
  shows "utf8_decode (utf8_encode1 p @ bs) = p # utf8_decode bs"
proof -
  have lim: "p < 1114112" using assms by (simp add: scalar_def)
  have sur: "p < 55296 \<or> 57344 \<le> p" using assms by (auto simp: scalar_def)
  define w x v y z where "w = p div 262144" and "x = p div 4096" and "v = p div 4096 mod 64" and "y = p div 64 mod 64" and "z = p mod 64"
  have l: "v < 64" "y < 64" "z < 64" by (simp_all add: v_def y_def z_def)
  have p: "p = p div 64 * 64 + z" "p div 64 = x * 64 + y" "x = w * 64 + v"
    unfolding w_def x_def v_def y_def z_def by (rule split64)+
  consider "p < 128" | "128 \<le> p" "p < 2048" | "2048 \<le> p" "p < 65536" | "65536 \<le> p" using lim by linarith
  then show ?thesis
  proof cases
    case 1
    then show ?thesis by (simp add: utf8_encode1_def)
  next
    case 2
    then have "utf8_encode1 p = [char_of (192 + p div 64), char_of (128 + z)]" by (simp add: utf8_encode1_def z_def)
    moreover have "2 \<le> p div 64" "p div 64 < 32" using 2 by linarith+
    ultimately show ?thesis using decode2 [of "p div 64" z bs] l p(1) by simp
  next
    case 3
    then have "utf8_encode1 p = [char_of (224 + x), char_of (128 + y), char_of (128 + z)]"
      by (simp add: utf8_encode1_def x_def y_def z_def)
    moreover have "x < 16" "x = 0 \<longrightarrow> 32 \<le> y" "x = 13 \<longrightarrow> y < 32" using 3 p l sur by linarith+
    moreover have "x * 4096 + y * 64 + z = p" using p by linarith
    ultimately show ?thesis using decode3 [of x y z bs] l by simp
  next
    case 4
    then have "utf8_encode1 p = [char_of (240 + w), char_of (128 + v), char_of (128 + y), char_of (128 + z)]"
      by (simp add: utf8_encode1_def w_def v_def y_def z_def)
    moreover have "w < 5" "w = 0 \<longrightarrow> 16 \<le> v" "w = 4 \<longrightarrow> v < 16" using 4 p l lim by linarith+
    moreover have "w * 262144 + v * 4096 + y * 64 + z = p" using p by linarith
    ultimately show ?thesis using decode4 [of w v y z bs] l by simp
  qed
qed

lemma utf8_roundtrip: "list_all scalar ps \<Longrightarrow> utf8_decode (utf8_encode ps) = ps"
  unfolding utf8_encode_def by (induction ps) (simp_all add: decode_encode1)

text \<open>No continuation byte is a NUL, so a NUL byte is decoded wherever it stands.\<close>

lemma nul_decoded: "CHR 0x00 \<in> set bs \<Longrightarrow> 0 \<in> set (utf8_decode bs)"
proof (induction bs rule: measure_induct_rule [of length])
  case (less xs)
  then obtain b bs where xs: "xs = b # bs" by (cases xs) auto
  have IH: "0 \<in> set (utf8_decode ys)" if "CHR 0x00 \<in> set ys" "length ys < length xs" for ys
    using less.IH that by blast
  have n: "\<not> cont (CHR 0x00)" "\<not> second k (CHR 0x00)" for k by (simp_all add: cont_def second_def)
  show ?case
  proof (cases "b = CHR 0x00")
    case True
    then show ?thesis by (simp add: xs Let_def)
  next
    case False
    then have z: "CHR 0x00 \<in> set bs" using less.prems xs by simp
    then obtain c cs where bs: "bs = c # cs" by (cases bs) auto
    have I1: "0 \<in> set (utf8_decode bs)" by (rule IH) (use z xs in simp_all)
    have I2: "0 \<in> set (utf8_decode cs)" if "c \<noteq> CHR 0x00" by (rule IH) (use that z xs bs in simp_all)
    consider "code b < 128" | "128 \<le> code b" "code b < 194 \<or> 245 \<le> code b" | "194 \<le> code b" "code b < 224" | "224 \<le> code b" "code b < 240"
      | "240 \<le> code b" "code b < 245" by linarith
    then show ?thesis
    proof cases
      case 1
      then show ?thesis using I1 by (simp add: xs Let_def)
    next
      case 2
      then have "utf8_decode xs = replacement # utf8_decode bs" by (auto simp add: xs Let_def)
      then show ?thesis using I1 by simp
    next
      case 3
      then show ?thesis using I1 I2 n by (cases "cont c") (auto simp: xs bs Let_def)
    next
      case 4
      show ?thesis
      proof (cases "second (code b) c")
        case False
        then show ?thesis using 4 I1 by (simp add: xs bs Let_def)
      next
        case True
        then have c: "c \<noteq> CHR 0x00" using n by blast
        then obtain d ds where cs: "cs = d # ds" using z bs by (cases cs) auto
        have "0 \<in> set (utf8_decode ds)" if "d \<noteq> CHR 0x00" by (rule IH) (use that c z xs bs cs in simp_all)
        then show ?thesis using 4 True I2 [OF c] n by (cases "cont d") (auto simp: xs bs cs Let_def)
      qed
    next
      case 5
      show ?thesis
      proof (cases "second (code b) c")
        case False
        then show ?thesis using 5 I1 by (simp add: xs bs Let_def)
      next
        case True
        then have c: "c \<noteq> CHR 0x00" using n by blast
        then obtain d ds where cs: "cs = d # ds" using z bs by (cases cs) auto
        show ?thesis
        proof (cases "cont d")
          case False
          then show ?thesis using 5 True I2 [OF c] by (simp add: xs bs cs Let_def)
        next
          case d: True
          then have "d \<noteq> CHR 0x00" using n by blast
          then have z': "CHR 0x00 \<in> set ds" using c z bs cs by simp
          then obtain e es where ds: "ds = e # es" by (cases ds) auto
          have I3: "0 \<in> set (utf8_decode ds)" by (rule IH) (use z' xs bs cs in simp_all)
          have "0 \<in> set (utf8_decode es)" if "e \<noteq> CHR 0x00" by (rule IH) (use that z' xs bs cs ds in simp_all)
          then show ?thesis using 5 True d I3 n by (cases "cont e") (auto simp: xs bs cs ds Let_def)
        qed
      qed
    qed
  qed
qed

section \<open>The preview that is extracted\<close>

text \<open>\<open>bytes.rfind\<close> of one byte.\<close>

definition rfind_byte :: "char \<Rightarrow> bytes \<Rightarrow> int" where
  "rfind_byte c bs = int (length (dropWhile (\<lambda>x. x \<noteq> c) (rev bs))) - 1"

definition bulk_limit :: nat where
  "bulk_limit = 512 * 1024"

definition bounded_extraction_payload :: "bytes \<Rightarrow> string \<Rightarrow> bytes" where
  "bounded_extraction_payload payload content_type =
     (if content_type \<notin> set bulk_text_types \<or> length payload \<le> bulk_limit then payload
      else (let preview = take bulk_limit payload;
                boundary = max (rfind_byte CHR 0x0A preview) (rfind_byte CHR 0x0D preview)
            in if 0 < boundary then take (nat boundary) preview else preview))"

lemma rfind_byte_at: "0 \<le> rfind_byte c bs \<Longrightarrow> nat (rfind_byte c bs) < length bs \<and> bs ! nat (rfind_byte c bs) = c"
proof -
  assume "0 \<le> rfind_byte c bs"
  then obtain y ys where d: "dropWhile (\<lambda>x. x \<noteq> c) (rev bs) = y # ys"
    by (cases "dropWhile (\<lambda>x. x \<noteq> c) (rev bs)") (auto simp: rfind_byte_def)
  then have y: "y = c" using hd_dropWhile [of "\<lambda>x. x \<noteq> c" "rev bs"] by auto
  have "rev bs = takeWhile (\<lambda>x. x \<noteq> c) (rev bs) @ y # ys" using takeWhile_dropWhile_id d by metis
  then have b: "bs = rev ys @ c # rev (takeWhile (\<lambda>x. x \<noteq> c) (rev bs))" by (metis append.assoc append_Cons append_Nil rev.simps(2) rev_append rev_rev_ident y)
  have "rfind_byte c bs = int (length ys)" using d by (simp add: rfind_byte_def)
  moreover have "bs ! length ys = c" by (subst b) (simp add: nth_append)
  moreover have "length ys < length bs" by (subst b) simp
  ultimately show ?thesis by simp
qed

text \<open>What is extracted from a bulk text is a prefix of at most 512 KiB, and where it was shortened further, it
  stops before a line end.\<close>

lemma extraction_preview:
  assumes "content_type \<in> set bulk_text_types"
  shows "\<exists>rest. payload = bounded_extraction_payload payload content_type @ rest \<and>
    length (bounded_extraction_payload payload content_type) \<le> bulk_limit \<and>
    (bulk_limit < length payload \<and> length (bounded_extraction_payload payload content_type) < bulk_limit \<longrightarrow> hd rest \<in> {CHR 0x0A, CHR 0x0D})"
proof (cases "length payload \<le> bulk_limit")
  case True
  then show ?thesis by (simp add: bounded_extraction_payload_def)
next
  case False
  let ?p = "take bulk_limit payload"
  define b where "b = max (rfind_byte CHR 0x0A ?p) (rfind_byte CHR 0x0D ?p)"
  have r: "bounded_extraction_payload payload content_type = (if 0 < b then take (nat b) ?p else ?p)"
    using False assms by (simp add: bounded_extraction_payload_def b_def Let_def)
  have at: "nat b < bulk_limit \<and> payload ! nat b \<in> {CHR 0x0A, CHR 0x0D}" if "0 < b"
  proof -
    have "b = rfind_byte CHR 0x0A ?p \<or> b = rfind_byte CHR 0x0D ?p" unfolding b_def max_def by argo
    then obtain c where c: "c \<in> {CHR 0x0A, CHR 0x0D}" "b = rfind_byte c ?p" by blast
    have "nat b < length ?p" "?p ! nat b = c" using rfind_byte_at [of c ?p, folded c(2)] that by auto
    then show ?thesis using c(1) by (simp only: length_take nth_take) simp
  qed
  show ?thesis
  proof (cases "0 < b")
    case True
    then have "payload = take (nat b) payload @ drop (nat b) payload" "hd (drop (nat b) payload) = payload ! nat b"
      using at False by (auto simp: hd_drop_conv_nth)
    then show ?thesis using r at [OF True] True by (intro exI [of _ "drop (nat b) payload"]) (simp add: min_def)
  next
    case False
    then show ?thesis using r by (intro exI [of _ "drop bulk_limit payload"]) auto
  qed
qed

end
