(* ===== verification/Library_Uploads.thy ===== *)
theory Library_Uploads
  imports Run_Events Library_Text
begin

text \<open>
  Resumable uploads of Library files: the request handlers of \<open>deepspace/api/library.py\<close>
  (\<open>create_library_upload\<close>, \<open>upload_library_chunk\<close>, \<open>complete_library_upload\<close>, \<open>cancel_library_upload\<close>), the
  Celery task \<open>finalize_library_upload\<close> (\<open>deepspace/workers/library_uploads.py\<close>) and \<open>finalize_upload\<close>
  (\<open>deepspace/services/library_uploads.py\<close>).

  The handlers read their row without a lock, wait for the request body or for object storage, and
  write later; the worker holds the row lock only at its beginning and its end.  So every handler is
  cut at the points where another session can come between, and what it carries over such a point, the
  row it has loaded included, is a \<open>lib_job\<close>.  SQLAlchemy writes back the columns that differ from the
  loaded row and no others (\<open>flush\<close>).  The object store is a map that may refuse any access; the message
  broker may refuse a task and may deliver an accepted one any number of times.
\<close>

section \<open>State\<close>

datatype upload_status = UPending | UUploading | UQueued | UProcessing | UCompleted | UCancelled | UFailed

fun upload_status_str :: "upload_status \<Rightarrow> string" where
  "upload_status_str UPending = ''pending''"
| "upload_status_str UUploading = ''uploading''"
| "upload_status_str UQueued = ''queued''"
| "upload_status_str UProcessing = ''processing''"
| "upload_status_str UCompleted = ''completed''"
| "upload_status_str UCancelled = ''cancelled''"
| "upload_status_str UFailed = ''failed''"

record upload =
  u_id :: nat
  u_scope :: scope
  u_folder :: "nat option"
  u_name :: string
  u_type :: string
  u_size :: nat
  u_chunk :: nat
  u_total :: nat
  u_rename :: bool
  u_received :: "nat list"
  u_bytes :: nat
  u_status :: upload_status
  u_file :: "nat option"
  u_error :: "string option"

text \<open>A file row; \<open>w_text\<close> holds code points, \<open>w_extraction\<close> the state of its extraction.\<close>

record lib_file =
  w_id :: nat
  w_scope :: scope
  w_folder :: "nat option"
  w_name :: string
  w_type :: string
  w_text :: "nat list"
  w_size :: nat
  w_binary :: bool
  w_key :: "object_key option"
  w_extraction :: string

datatype lib_task = FinalizeUpload nat nat nat | ExtractFile nat nat | ProfileDataset nat nat | ProfileMedia nat nat

text \<open>The points at which a handler or a worker can be overtaken.  \<open>PutJob\<close>, \<open>SaveJob\<close>: a chunk request before
  the object is stored and before the row is written; \<open>QueueJob\<close>, \<open>SendJob\<close>: a completion before the row is
  written and before the task is sent; \<open>CancelJob\<close>: a cancellation before it is written; \<open>ReadJob\<close>, \<open>RenameJob\<close>,
  \<open>StoreJob\<close>, \<open>PublishJob\<close>: the worker (the numbers are its retries); \<open>FailJob\<close>: its exception handler; \<open>DropJob\<close>,
  \<open>SweepJob\<close>: the removal of the chunk objects, for a row in memory and for a row that is read again.\<close>

datatype lib_job = PutJob upload nat bytes | SaveJob upload nat | QueueJob upload | SendJob upload | CancelJob upload
  | ReadJob upload nat "bytes list" | RenameJob upload nat bytes | StoreJob upload nat bytes
  | PublishJob upload nat bytes lib_file | FailJob upload nat | DropJob upload | SweepJob upload

text \<open>\<open>lb_puts\<close> and \<open>lb_acked\<close> are histories: the chunk bodies stored, and the chunk requests that were answered
  with success.\<close>

record library =
  lb_db :: db
  lb_folders :: "(nat \<times> scope) list"
  lb_uploads :: "upload list"
  lb_files :: "lib_file list"
  lb_versions :: "lib_file list"
  lb_objects :: "object_key \<Rightarrow> bytes option"
  lb_tasks :: "lib_task list"
  lb_jobs :: "lib_job list"
  lb_puts :: "(nat \<times> nat \<times> bytes) list"
  lb_acked :: "(nat \<times> nat) list"

text \<open>The tables as the storage accounting sees them.\<close>

definition sized_upload :: "upload \<Rightarrow> sized_row" where
  "sized_upload u = \<lparr>z_tenant = fst (u_scope u), z_conversation = Some (snd (snd (u_scope u))),
     z_status = upload_status_str (u_status u), z_bytes = int (u_size u)\<rparr>"

definition sized_file :: "lib_file \<Rightarrow> sized_row" where
  "sized_file w = \<lparr>z_tenant = fst (w_scope w), z_conversation = Some (snd (snd (w_scope w))),
     z_status = [], z_bytes = int (w_size w)\<rparr>"

definition accounted :: "library \<Rightarrow> db" where
  "accounted l = (lb_db l)\<lparr>uploads := map sized_upload (lb_uploads l), library_files := map sized_file (lb_files l)\<rparr>"

definition find_upload :: "nat \<Rightarrow> library \<Rightarrow> upload option" where
  "find_upload k l = first_row (filter (\<lambda>u. u_id u = k) (lb_uploads l))"

definition upd_upload :: "nat \<Rightarrow> (upload \<Rightarrow> upload) \<Rightarrow> library \<Rightarrow> library" where
  "upd_upload k f l = l\<lparr>lb_uploads := upd_where (\<lambda>u. u_id u = k) f (lb_uploads l)\<rparr>"

text \<open>The \<open>UPDATE\<close> of a row that was loaded as \<open>u\<close> and changed to \<open>u'\<close>, on the row \<open>r\<close> it meets.\<close>

definition flush :: "upload \<Rightarrow> upload \<Rightarrow> upload \<Rightarrow> upload" where
  "flush u u' r = r\<lparr>u_name := changed (u_name u) (u_name u') (u_name r),
     u_received := changed (u_received u) (u_received u') (u_received r),
     u_bytes := changed (u_bytes u) (u_bytes u') (u_bytes r),
     u_status := changed (u_status u) (u_status u') (u_status r),
     u_file := changed (u_file u) (u_file u') (u_file r),
     u_error := changed (u_error u) (u_error u') (u_error r)\<rparr>"

definition write_back :: "upload \<Rightarrow> upload \<Rightarrow> library \<Rightarrow> library" where
  "write_back u u' l = upd_upload (u_id u) (flush u u') l"

section \<open>Requests\<close>

definition chunk_size :: nat where
  "chunk_size = 2 * 1024 * 1024"

definition chunk_len :: "upload \<Rightarrow> nat \<Rightarrow> nat" where
  "chunk_len u i = min (u_chunk u) (u_size u - i * u_chunk u)"

definition lib_conversation :: "scope \<Rightarrow> db \<Rightarrow> app_error + unit" where
  "lib_conversation sc s =
     (if \<exists>v \<in> set (conversations s). v_scope v = sc \<and> v_kind v = ''deepspace'' then Inr ()
      else Inl (ApiError ''CONVERSATION_NOT_FOUND'' 404))"

definition owned_upload :: "scope \<Rightarrow> nat \<Rightarrow> library \<Rightarrow> app_error + upload" where
  "owned_upload sc k l = (case first_row (filter (\<lambda>u. u_id u = k \<and> u_scope u = sc) (lb_uploads l)) of
     None \<Rightarrow> Inl (ApiError ''NOT_FOUND'' 404) | Some u \<Rightarrow> Inr u)"

definition reserving :: "upload_status list" where
  "reserving = [UPending, UUploading, UQueued, UProcessing]"

text \<open>The names taken in a folder: its files and the uploads on their way to it.  \<open>except\<close> is the upload that
  looks for a name.\<close>

definition reserved_names :: "scope \<Rightarrow> nat option \<Rightarrow> nat option \<Rightarrow> library \<Rightarrow> string list" where
  "reserved_names sc folder except l =
     map w_name (filter (\<lambda>w. w_scope w = sc \<and> w_folder w = folder) (lb_files l)) @
     map u_name (filter (\<lambda>u. u_scope u = sc \<and> u_folder u = folder \<and> u_status u \<in> set reserving \<and> Some (u_id u) \<noteq> except) (lb_uploads l))"

text \<open>The body of \<open>create_library_upload\<close> after validation (\<open>LibraryUploadCreate\<close>); a folder is named by text.\<close>

record upload_request =
  ur_name :: string
  ur_size :: nat
  ur_type :: string
  ur_folder :: "string option"
  ur_rename :: bool

definition normalized_content_type :: "string \<Rightarrow> string" where
  "normalized_content_type value =
     (let t = takeWhile (\<lambda>c. c \<noteq> CHR '';'') (lower (strip value)) in if t = [] then ''application/octet-stream'' else t)"

definition valid_request :: "upload_request \<Rightarrow> upload_request option" where
  "valid_request r = (case safe_name (ur_name r) of
     None \<Rightarrow> None
   | Some name \<Rightarrow> if 0 < ur_size r \<and> length (ur_type r) \<le> 127
       then Some (r\<lparr>ur_name := name, ur_type := normalized_content_type (ur_type r)\<rparr>) else None)"

definition parse_folder :: "string option \<Rightarrow> app_error + nat option" where
  "parse_folder v = (case v of None \<Rightarrow> Inr None
   | Some t \<Rightarrow> if t = [] then Inr None
       else (case parse_uuid t of None \<Rightarrow> Inl (ApiError ''INVALID_REQUEST'' 422) | Some f \<Rightarrow> Inr (Some f)))"

definition folder_found :: "scope \<Rightarrow> nat option \<Rightarrow> library \<Rightarrow> app_error + unit" where
  "folder_found sc folder l = (case folder of None \<Rightarrow> Inr ()
   | Some f \<Rightarrow> if (f, sc) \<in> set (lb_folders l) then Inr () else Inl (ApiError ''NOT_FOUND'' 404))"

definition reservation_error :: "app_error \<Rightarrow> app_error" where
  "reservation_error e = (case e of
     QuotaExceeded _ _ _ \<Rightarrow> ApiError ''STORAGE_QUOTA_EXCEEDED'' 413
   | ReservationErr _ \<Rightarrow> ApiError ''STORAGE_RESERVATION_FAILED'' 409
   | _ \<Rightarrow> e)"

definition chosen_name :: "scope \<Rightarrow> upload_request \<Rightarrow> nat option \<Rightarrow> library \<Rightarrow> app_error + string" where
  "chosen_name sc r folder l =
     (let taken = reserved_names sc folder None l
      in if ur_rename r then Inr (unique_library_filename (ur_name r) taken)
         else if ur_name r \<in> set taken then Inl (ApiError ''IDEMPOTENCY_CONFLICT'' 409) else Inr (ur_name r))"

definition new_upload :: "nat \<Rightarrow> scope \<Rightarrow> nat option \<Rightarrow> string \<Rightarrow> string \<Rightarrow> nat \<Rightarrow> bool \<Rightarrow> upload" where
  "new_upload k sc folder name content_type size_bytes rename =
     \<lparr>u_id = k, u_scope = sc, u_folder = folder, u_name = name, u_type = content_type, u_size = size_bytes,
      u_chunk = chunk_size, u_total = (size_bytes + chunk_size - 1) div chunk_size, u_rename = rename,
      u_received = [], u_bytes = 0, u_status = UPending, u_file = None, u_error = None\<rparr>"

definition upload_key :: "nat \<Rightarrow> string" where
  "upload_key k = ''library-upload:'' @ uuid_str k"

definition create_upload :: "nat \<Rightarrow> int \<Rightarrow> scope \<Rightarrow> string list \<Rightarrow> upload_request \<Rightarrow> library \<Rightarrow> app_error + (upload \<times> library)" where
  "create_upload max_bytes now sc roles r l =
     (case lib_conversation sc (lb_db l) of Inl e \<Rightarrow> Inl e | Inr _ \<Rightarrow>
      if max_bytes < ur_size r then Inl (ApiError ''DOC_TOO_LARGE'' 413)
      else (case parse_folder (ur_folder r) of Inl e \<Rightarrow> Inl e | Inr folder \<Rightarrow>
      (case folder_found sc folder l of Inl e \<Rightarrow> Inl e | Inr _ \<Rightarrow>
      (case chosen_name sc r folder l of Inl e \<Rightarrow> Inl e | Inr name \<Rightarrow>
      (let content_type = upload_content_type (ur_name r) (ur_type r)
       in if content_type \<notin> set library_content_types then Inl (ApiError ''INVALID_UPLOAD_TYPE'' 422)
          else (let s = accounted l; k = next_id s; s0 = s\<lparr>next_id := Suc k\<rparr>
            in case reserve_capacity now (fst sc) (upload_key k) (int (ur_size r)) roles (Some (fst (snd sc))) 900 s0 of
                 Inl e \<Rightarrow> Inl (reservation_error e)
               | Inr (_, s1) \<Rightarrow>
                   (let u = new_upload k sc folder name content_type (ur_size r) (ur_rename r)
                    in case release_capacity now (fst sc) (upload_key k) ''committed'' s1 of
                         Inl e \<Rightarrow> Inl e
                       | Inr (_, s2) \<Rightarrow> Inr (u, l\<lparr>lb_db := s2, lb_uploads := lb_uploads l @ [u]\<rparr>))))))))"

text \<open>The checks of \<open>upload_library_chunk\<close> before the object is stored.  \<open>declared\<close> is the \<open>Content-Length\<close> header.\<close>

definition declared_ok :: "string option \<Rightarrow> upload \<Rightarrow> app_error + unit" where
  "declared_ok declared u = (case declared of None \<Rightarrow> Inr ()
   | Some t \<Rightarrow> if t = [] then Inr ()
       else (case int_of_str t of None \<Rightarrow> Inl (ApiError ''INVALID_CHUNK'' 422)
             | Some n \<Rightarrow> if int (u_chunk u) < n then Inl (ApiError ''INVALID_CHUNK'' 413) else Inr ()))"

definition begin_chunk :: "scope \<Rightarrow> nat \<Rightarrow> int \<Rightarrow> string option \<Rightarrow> bytes \<Rightarrow> library \<Rightarrow> app_error + (upload \<times> nat)" where
  "begin_chunk sc k index declared body l =
     (case lib_conversation sc (lb_db l) of Inl e \<Rightarrow> Inl e | Inr _ \<Rightarrow>
      (case owned_upload sc k l of Inl e \<Rightarrow> Inl e | Inr u \<Rightarrow>
       if u_status u \<in> {UCancelled, UCompleted, UProcessing, UFailed} then Inl (ApiError ''UPLOAD_NOT_ACTIVE'' 409)
       else if index < 0 \<or> int (u_total u) \<le> index then Inl (ApiError ''INVALID_CHUNK'' 422)
       else (case declared_ok declared u of Inl e \<Rightarrow> Inl e | Inr _ \<Rightarrow>
         if u_chunk u < length body then Inl (ApiError ''INVALID_CHUNK'' 413)
         else if length body \<noteq> chunk_len u (nat index) then Inl (ApiError ''INVALID_CHUNK'' 422)
         else Inr (u, nat index))))"

text \<open>The row after a chunk.\<close>

definition with_chunk :: "nat \<Rightarrow> upload \<Rightarrow> upload" where
  "with_chunk i u = (let received = sort (remdups (i # u_received u))
     in u\<lparr>u_received := received, u_bytes := sum_list (map (chunk_len u) received), u_status := UUploading, u_error := None\<rparr>)"

text \<open>\<open>complete_library_upload\<close> up to its first write: \<open>None\<close> when the upload is complete already.\<close>

definition begin_complete :: "scope \<Rightarrow> nat \<Rightarrow> library \<Rightarrow> app_error + upload option" where
  "begin_complete sc k l =
     (case lib_conversation sc (lb_db l) of Inl e \<Rightarrow> Inl e | Inr _ \<Rightarrow>
      (case owned_upload sc k l of Inl e \<Rightarrow> Inl e | Inr u \<Rightarrow>
       if u_status u = UCompleted then Inr None
       else if u_status u = UCancelled then Inl (ApiError ''UPLOAD_CANCELLED'' 409)
       else if length (u_received u) \<noteq> u_total u \<or> u_bytes u \<noteq> u_size u then Inl (ApiError ''UPLOAD_INCOMPLETE'' 409)
       else Inr (Some u)))"

definition begin_cancel :: "scope \<Rightarrow> nat \<Rightarrow> library \<Rightarrow> app_error + upload option" where
  "begin_cancel sc k l =
     (case lib_conversation sc (lb_db l) of Inl e \<Rightarrow> Inl e | Inr _ \<Rightarrow>
      (case owned_upload sc k l of Inl e \<Rightarrow> Inl e | Inr u \<Rightarrow>
       Inr (if u_status u \<in> {UCompleted, UCancelled} then None else Some u)))"

text \<open>The answer to a request about an upload (\<open>_serialize_upload\<close>), as far as it is computed: the chunks present and
  the percentage, whose float quotient is far enough from the next integer to be cut off like the exact one.\<close>

definition progress_percent :: "upload \<Rightarrow> nat" where
  "progress_percent u = (if u_size u = 0 then 0 else min 100 (u_bytes u * 100 div u_size u))"

section \<open>The worker\<close>

definition is_chunk_of :: "upload \<Rightarrow> object_key \<Rightarrow> nat option" where
  "is_chunk_of u k = (case k of ChunkKey tn v i \<Rightarrow> if tn = fst (u_scope u) \<and> v = u_id u \<and> i < u_total u then Some i else None
     | FileKey _ _ _ \<Rightarrow> None)"

text \<open>\<open>delete_upload_chunks\<close>: failed deletions are logged; \<open>gone\<close> says which ones succeed.\<close>

definition drop_chunks :: "(nat \<Rightarrow> bool) \<Rightarrow> upload \<Rightarrow> library \<Rightarrow> library" where
  "drop_chunks gone u l = l\<lparr>lb_objects := (\<lambda>k. case is_chunk_of u k of
     Some i \<Rightarrow> if gone i then None else lb_objects l k | None \<Rightarrow> lb_objects l k)\<rparr>"

definition add_tasks :: "lib_task list \<Rightarrow> library \<Rightarrow> library" where
  "add_tasks ts l = l\<lparr>lb_tasks := lb_tasks l @ ts\<rparr>"

definition add_jobs :: "lib_job list \<Rightarrow> library \<Rightarrow> library" where
  "add_jobs js l = l\<lparr>lb_jobs := lb_jobs l @ js\<rparr>"

text \<open>\<open>_enqueue_library_file_processing\<close> for a file as it was published; a refused task is logged.\<close>

definition file_tasks :: "nat \<Rightarrow> lib_file \<Rightarrow> lib_task list" where
  "file_tasks tn w =
     (if w_extraction w = ''processing'' then [ExtractFile tn (w_id w)] else []) @
     (if w_type w \<in> set tabular_types then [ProfileDataset tn (w_id w)] else [ProfileMedia tn (w_id w)])"

text \<open>The beginning of \<open>finalize_library_upload\<close>, under the row lock.\<close>

definition begin_finalize :: "nat \<Rightarrow> nat \<Rightarrow> nat \<Rightarrow> library \<Rightarrow> library" where
  "begin_finalize tn k retries l = (case first_row (filter (\<lambda>u. u_id u = k \<and> fst (u_scope u) = tn) (lb_uploads l)) of
     None \<Rightarrow> l
   | Some u \<Rightarrow>
       if u_status u = UCancelled then add_jobs [DropJob u] l
       else if u_status u = UCompleted then
         add_jobs [DropJob u] (case u_file u of None \<Rightarrow> l
           | Some f \<Rightarrow> (case first_row (filter (\<lambda>w. w_id w = f \<and> fst (w_scope w) = tn) (lb_files l)) of
               None \<Rightarrow> l | Some w \<Rightarrow> add_tasks (file_tasks tn w) l))
       else (let u' = u\<lparr>u_status := UProcessing, u_error := None\<rparr>
         in add_jobs [ReadJob u' retries []] (write_back u u' l)))"

text \<open>The file row that \<open>finalize_upload\<close> builds with \<open>extract_content = False\<close>.\<close>

definition new_file :: "nat \<Rightarrow> upload \<Rightarrow> bytes \<Rightarrow> lib_file" where
  "new_file f u payload =
     (let binary = stored_as_object (u_type u) payload
      in \<lparr>w_id = f, w_scope = u_scope u, w_folder = u_folder u, w_name = u_name u, w_type = u_type u,
          w_text = (if binary then [] else utf8_decode payload), w_size = length payload, w_binary = binary,
          w_key = (if binary then Some (FileKey (fst (u_scope u)) f (safe_filename (u_name u))) else None),
          w_extraction = (if is_extraction_supported (u_type u) then ''processing'' else ''not_attempted'')\<rparr>)"

text \<open>\<open>delete_object\<close> for the object of a file that is not published.\<close>

definition drop_object :: "bool \<Rightarrow> lib_file \<Rightarrow> library \<Rightarrow> library" where
  "drop_object gone w l = (case w_key w of None \<Rightarrow> l
     | Some k \<Rightarrow> if gone then l\<lparr>lb_objects := (lb_objects l)(k := None)\<rparr> else l)"

text \<open>The unique indexes of the file table.\<close>

definition name_taken :: "lib_file \<Rightarrow> library \<Rightarrow> bool" where
  "name_taken w l = (\<exists>v \<in> set (lb_files l). snd (snd (w_scope v)) = snd (snd (w_scope w)) \<and> w_folder v = w_folder w \<and> w_name v = w_name w)"

text \<open>PostgreSQL refuses a row that breaks a unique index and a text with a NUL character.\<close>

definition row_refused :: "lib_file \<Rightarrow> library \<Rightarrow> bool" where
  "row_refused w l = (name_taken w l \<or> 0 \<in> set (w_text w))"

definition publish_file :: "upload \<Rightarrow> bytes \<Rightarrow> lib_file \<Rightarrow> library \<Rightarrow> library" where
  "publish_file r payload w l =
     (let r' = r\<lparr>u_file := Some (w_id w), u_bytes := length payload, u_received := [0..<u_total r], u_status := UCompleted\<rparr>
      in add_jobs [DropJob r'] (add_tasks (file_tasks (fst (u_scope r)) w)
          ((write_back r r' l)\<lparr>lb_files := lb_files l @ [w], lb_versions := lb_versions l @ [w]\<rparr>)))"

definition failed_text :: string where
  "failed_text = ''The file could not be stored. Please retry the upload.''"

text \<open>One piece of a handler or of the worker, up to the next point where it can be overtaken.  \<open>ok\<close> says whether
  the object store, or the broker, serves this piece; \<open>gone\<close> which deletions it carries out.\<close>

fun run_job :: "nat \<Rightarrow> bool \<Rightarrow> (nat \<Rightarrow> bool) \<Rightarrow> lib_job \<Rightarrow> library \<Rightarrow> library" where
  "run_job max_bytes ok gone (PutJob u i body) l =
     (if ok then add_jobs [SaveJob u i]
        (l\<lparr>lb_objects := (lb_objects l)(ChunkKey (fst (u_scope u)) (u_id u) i \<mapsto> body), lb_puts := (u_id u, i, body) # lb_puts l\<rparr>)
      else l)"
| "run_job max_bytes ok gone (SaveJob u i) l = (write_back u (with_chunk i u) l)\<lparr>lb_acked := (u_id u, i) # lb_acked l\<rparr>"
| "run_job max_bytes ok gone (QueueJob u) l =
     (let u' = u\<lparr>u_status := UQueued\<rparr> in add_jobs [SendJob u'] (write_back u u' l))"
| "run_job max_bytes ok gone (SendJob u) l =
     (if ok then add_tasks [FinalizeUpload (fst (u_scope u)) (u_id u) 0] l
      else write_back u (u\<lparr>u_status := UFailed, u_error := Some ''The Library upload worker could not be started.''\<rparr>) l)"
| "run_job max_bytes ok gone (CancelJob u) l =
     (let u' = u\<lparr>u_status := UCancelled, u_error := Some ''Upload cancelled by the user.''\<rparr>
      in add_jobs [DropJob u'] (write_back u u' l))"
| "run_job max_bytes ok gone (DropJob u) l = drop_chunks gone u l"
| "run_job max_bytes ok gone (SweepJob u) l = (case find_upload (u_id u) l of
     None \<Rightarrow> l | Some r \<Rightarrow> if u_status r \<in> {UCompleted, UFailed, UCancelled} then drop_chunks gone r l else l)"
| "run_job max_bytes ok gone (ReadJob u n parts) l =
     (if length parts = u_total u then add_jobs [if u_rename u then RenameJob u n (concat parts) else StoreJob u n (concat parts)] l
      else (case (if ok then lb_objects l (ChunkKey (fst (u_scope u)) (u_id u) (length parts)) else None) of
              None \<Rightarrow> add_jobs [FailJob u n] l | Some b \<Rightarrow> add_jobs [ReadJob u n (parts @ [b])] l))"
| "run_job max_bytes ok gone (RenameJob u n payload) l = (case lib_conversation (u_scope u) (lb_db l) of
     Inl _ \<Rightarrow> add_jobs [SweepJob u] l
   | Inr _ \<Rightarrow> (let u' = u\<lparr>u_name := unique_library_filename (u_name u) (reserved_names (u_scope u) (u_folder u) (Some (u_id u)) l)\<rparr>
       in add_jobs [StoreJob u' n payload] (write_back u u' l)))"
| "run_job max_bytes ok gone (StoreJob u n payload) l =
     (let f = next_id (lb_db l); w = new_file f u payload
      in if length payload \<noteq> u_size u then add_jobs [FailJob u n] l
         else (let l' = l\<lparr>lb_db := (lb_db l)\<lparr>next_id := Suc f\<rparr>\<rparr>
           in case w_key w of
                None \<Rightarrow> add_jobs [PublishJob u n payload w] l'
              | Some k \<Rightarrow> if max_bytes < length payload \<or> \<not> ok then add_jobs [FailJob u n] l'
                  else add_jobs [PublishJob u n payload w] (l'\<lparr>lb_objects := (lb_objects l)(k \<mapsto> payload)\<rparr>)))"
| "run_job max_bytes ok gone (PublishJob u n payload w) l =
     (if row_refused w l then add_jobs [FailJob u n] (drop_object ok w l)
      else (case find_upload (u_id u) l of
        None \<Rightarrow> drop_object ok w l
      | Some r \<Rightarrow> if u_status r \<in> {UCancelled, UCompleted} then add_jobs [SweepJob u] (drop_object ok w l)
          else publish_file r payload w l))"
| "run_job max_bytes ok gone (FailJob u n) l =
     (if n < 3 then add_jobs [SweepJob u] (add_tasks [FinalizeUpload (fst (u_scope u)) (u_id u) (Suc n)] l)
      else (case find_upload (u_id u) l of
        None \<Rightarrow> l
      | Some r \<Rightarrow> if u_status r \<in> {UCancelled, UCompleted} then add_jobs [SweepJob u] l
          else (let r' = r\<lparr>u_status := UFailed, u_error := Some failed_text\<rparr> in add_jobs [DropJob r'] (write_back r r' l))))"

text \<open>The system: requests arrive, the broker delivers a task (once or more often) or forgets it, a piece runs, or
  the process that holds it dies.\<close>

inductive lib_step :: "nat \<Rightarrow> library \<Rightarrow> library \<Rightarrow> bool" for max_bytes where
  created: "create_upload max_bytes now sc roles r l = Inr (u, l') \<Longrightarrow> valid_request r0 = Some r \<Longrightarrow> lib_step max_bytes l l'"
| chunk_sent: "begin_chunk sc k index declared body l = Inr (u, i) \<Longrightarrow> lib_step max_bytes l (add_jobs [PutJob u i body] l)"
| completion: "begin_complete sc k l = Inr (Some u) \<Longrightarrow> lib_step max_bytes l (add_jobs [QueueJob u] l)"
| cancellation: "begin_cancel sc k l = Inr (Some u) \<Longrightarrow> lib_step max_bytes l (add_jobs [CancelJob u] l)"
| delivered: "FinalizeUpload tn k n \<in> set (lb_tasks l) \<Longrightarrow> lib_step max_bytes l (begin_finalize tn k n l)"
| forgotten: "lib_step max_bytes l (l\<lparr>lb_tasks := remove1 t (lb_tasks l)\<rparr>)"
| goes_on: "lb_jobs l = js @ j # js' \<Longrightarrow> lib_step max_bytes l (run_job max_bytes ok gone j (l\<lparr>lb_jobs := js @ js'\<rparr>))"
| dies: "lb_jobs l = js @ j # js' \<Longrightarrow> lib_step max_bytes l (l\<lparr>lb_jobs := js @ js'\<rparr>)"

inductive lib_reachable :: "nat \<Rightarrow> library \<Rightarrow> library \<Rightarrow> bool" for max_bytes where
  start: "lib_reachable max_bytes l l"
| step: "lib_reachable max_bytes l l' \<Longrightarrow> lib_step max_bytes l' l'' \<Longrightarrow> lib_reachable max_bytes l l''"

text \<open>A Library without uploads and files, on any state of the other tables.\<close>

definition empty_library :: "db \<Rightarrow> (nat \<times> scope) list \<Rightarrow> library" where
  "empty_library s folders = \<lparr>lb_db = s, lb_folders = folders, lb_uploads = [], lb_files = [], lb_versions = [],
     lb_objects = Map.empty, lb_tasks = [], lb_jobs = [], lb_puts = [], lb_acked = []\<rparr>"

section \<open>Arithmetic of the chunks\<close>

definition upload_ok :: "upload \<Rightarrow> bool" where
  "upload_ok u = (0 < u_size u \<and> u_chunk u = chunk_size \<and> u_total u = (u_size u + chunk_size - 1) div chunk_size \<and>
     sorted_wrt (<) (u_received u) \<and> set (u_received u) \<subseteq> {..<u_total u} \<and> u_bytes u = sum_list (map (chunk_len u) (u_received u)))"

definition same_upload :: "upload \<Rightarrow> upload \<Rightarrow> bool" where
  "same_upload u r = (u_id u = u_id r \<and> u_scope u = u_scope r \<and> u_folder u = u_folder r \<and> u_type u = u_type r \<and>
     u_size u = u_size r \<and> u_chunk u = u_chunk r \<and> u_total u = u_total r \<and> u_rename u = u_rename r)"

lemma chunk_size_pos [simp]: "0 < chunk_size"
  by (simp add: chunk_size_def)

lemma same_refl [simp]: "same_upload u u"
  by (simp add: same_upload_def)

lemma same_sym: "same_upload u r \<Longrightarrow> same_upload r u"
  by (simp add: same_upload_def)

lemma same_trans: "same_upload u r \<Longrightarrow> same_upload r s \<Longrightarrow> same_upload u s"
  by (simp add: same_upload_def)

lemma same_flush [simp]: "same_upload (flush u u' r) s = same_upload r s" "same_upload s (flush u u' r) = same_upload s r"
  by (simp_all add: same_upload_def flush_def)

lemma same_upd [simp]:
  "same_upload (u\<lparr>u_status := a\<rparr>) r = same_upload u r" "same_upload (u\<lparr>u_error := b\<rparr>) r = same_upload u r"
  "same_upload (u\<lparr>u_name := c\<rparr>) r = same_upload u r" "same_upload (u\<lparr>u_received := d\<rparr>) r = same_upload u r"
  "same_upload (u\<lparr>u_bytes := n\<rparr>) r = same_upload u r" "same_upload (u\<lparr>u_file := f\<rparr>) r = same_upload u r"
  "same_upload r (u\<lparr>u_status := a\<rparr>) = same_upload r u" "same_upload r (u\<lparr>u_error := b\<rparr>) = same_upload r u"
  "same_upload r (u\<lparr>u_name := c\<rparr>) = same_upload r u"
  by (simp_all add: same_upload_def)

lemma chunk_len_same: "same_upload u r \<Longrightarrow> chunk_len u = chunk_len r"
  by (rule ext) (simp add: same_upload_def chunk_len_def)

lemma chunk_len_upd [simp]:
  "chunk_len (u\<lparr>u_status := a\<rparr>) = chunk_len u" "chunk_len (u\<lparr>u_error := b\<rparr>) = chunk_len u" "chunk_len (u\<lparr>u_name := c\<rparr>) = chunk_len u"
  "chunk_len (u\<lparr>u_received := d\<rparr>) = chunk_len u" "chunk_len (u\<lparr>u_bytes := n\<rparr>) = chunk_len u" "chunk_len (u\<lparr>u_file := f\<rparr>) = chunk_len u"
  by (rule chunk_len_same, simp)+

lemma upload_ok_upd [simp]:
  "upload_ok (u\<lparr>u_status := a\<rparr>) = upload_ok u" "upload_ok (u\<lparr>u_error := b\<rparr>) = upload_ok u"
  "upload_ok (u\<lparr>u_name := c\<rparr>) = upload_ok u" "upload_ok (u\<lparr>u_file := f\<rparr>) = upload_ok u"
  by (simp_all add: upload_ok_def)

lemma total_covers:
  assumes "upload_ok u"
  shows "u_size u \<le> u_total u * chunk_size" "i < u_total u \<Longrightarrow> i * chunk_size < u_size u"
proof -
  have "u_size u + chunk_size - 1 < (u_total u + 1) * chunk_size"
    using assms dividend_less_div_times [OF chunk_size_pos, of "u_size u + chunk_size - 1"] by (simp add: upload_ok_def)
  then show "u_size u \<le> u_total u * chunk_size" by simp
  assume "i < u_total u"
  then have "Suc i * chunk_size \<le> u_size u + chunk_size - 1"
    using assms by (simp only: upload_ok_def less_eq_div_iff_mult_less_eq [OF chunk_size_pos, symmetric] Suc_le_eq)
  moreover have "0 < u_size u" using assms by (simp add: upload_ok_def)
  ultimately show "i * chunk_size < u_size u" using chunk_size_pos by simp
qed

lemma chunk_len_pos: "upload_ok u \<Longrightarrow> i < u_total u \<Longrightarrow> 0 < chunk_len u i"
proof -
  assume u: "upload_ok u" and "i < u_total u"
  then have "i * chunk_size < u_size u" by (rule total_covers(2))
  moreover have "u_chunk u = chunk_size" using u by (simp add: upload_ok_def)
  ultimately show ?thesis by (simp add: chunk_len_def)
qed

lemma sum_chunks:
  assumes "upload_ok u"
  shows "sum_list (map (chunk_len u) [0..<u_total u]) = u_size u"
proof -
  have "sum_list (map (chunk_len u) [0..<n]) = min (n * chunk_size) (u_size u)" for n
    using assms by (induction n) (auto simp: chunk_len_def upload_ok_def min_def)
  then show ?thesis using total_covers(1) [OF assms] by simp
qed

lemma sorted_below: "sorted_wrt (<) (xs :: nat list) \<Longrightarrow> set xs \<subseteq> {..<n} \<Longrightarrow> length xs = n \<Longrightarrow> xs = [0..<n]"
proof -
  assume a: "sorted_wrt (<) xs" "set xs \<subseteq> {..<n}" "length xs = n"
  then have "card (set xs) = n" using strict_sorted_iff distinct_card by metis
  then have "set xs = {..<n}" using a(2) by (metis card_lessThan card_subset_eq finite_lessThan)
  then show ?thesis using a(1) by (metis atLeast_upt set_upt sorted_list_of_set_lessThan_Suc strict_sorted_equal strict_sorted_list_of_set sorted_wrt_upt)
qed

lemma with_chunk_same [simp]: "same_upload (with_chunk i u) r = same_upload u r"
  by (simp add: with_chunk_def Let_def)

lemma with_chunk_fields: "u_file (with_chunk i u) = u_file u" "u_id (with_chunk i u) = u_id u" "set (u_received (with_chunk i u)) = insert i (set (u_received u))"
  by (simp_all add: with_chunk_def Let_def insert_absorb)

declare with_chunk_fields [simp]

lemma strict_sort: "sorted_wrt (<) (sort (remdups (xs :: nat list)))"
  by (simp add: strict_sorted_iff)

lemma with_chunk_received:
  assumes "upload_ok u"
  shows "i \<in> set (u_received u) \<Longrightarrow> u_received (with_chunk i u) = u_received u \<and> u_bytes (with_chunk i u) = u_bytes u"
    and "i \<notin> set (u_received u) \<Longrightarrow> u_bytes (with_chunk i u) = u_bytes u + chunk_len u i"
proof -
  have s: "sorted (u_received u)" "distinct (u_received u)" using assms by (simp_all add: upload_ok_def strict_sorted_iff)
  then have "sort (remdups (u_received u)) = u_received u" by (simp add: distinct_remdups_id sorted_sort_id)
  then show "i \<in> set (u_received u) \<Longrightarrow> u_received (with_chunk i u) = u_received u \<and> u_bytes (with_chunk i u) = u_bytes u"
    using assms by (simp add: with_chunk_def Let_def upload_ok_def)
  assume "i \<notin> set (u_received u)"
  moreover have "sum_list (map f (sort (remdups xs))) = sum f (set xs)" for f :: "nat \<Rightarrow> nat" and xs :: "nat list"
    using sum_list_distinct_conv_sum_set [of "sort (remdups xs)" f] by simp
  moreover have "u_bytes u = sum (chunk_len u) (set (u_received u))"
    using assms s sum_list_distinct_conv_sum_set by (simp add: upload_ok_def)
  ultimately show "u_bytes (with_chunk i u) = u_bytes u + chunk_len u i"
    by (simp only: with_chunk_def Let_def upload.simps chunk_len_upd) simp
qed

lemma with_chunk_ok: "upload_ok u \<Longrightarrow> i < u_total u \<Longrightarrow> upload_ok (with_chunk i u)"
  using strict_sort [of "i # u_received u"] by (auto simp: upload_ok_def with_chunk_def Let_def)

lemma with_chunk_pair:
  assumes "upload_ok u" and "i < u_total u"
  shows "u_received (with_chunk i u) = u_received u \<longleftrightarrow> u_bytes (with_chunk i u) = u_bytes u"
proof (cases "i \<in> set (u_received u)")
  case True
  then show ?thesis using with_chunk_received(1) [OF assms(1)] by simp
next
  case False
  then have "u_received (with_chunk i u) \<noteq> u_received u" by (metis insertI1 with_chunk_fields(3))
  then show ?thesis using with_chunk_received(2) [OF assms(1) False] chunk_len_pos [OF assms] by simp
qed

lemma flush_ok:
  assumes "upload_ok u" "upload_ok u'" "upload_ok r" "same_upload u r" "same_upload u' r"
    and "u_received u' = u_received u \<longleftrightarrow> u_bytes u' = u_bytes u"
  shows "upload_ok (flush u u' r)"
proof -
  have "chunk_len (flush u u' r) = chunk_len r" "chunk_len u' = chunk_len r" using assms(5) by (simp_all add: chunk_len_same)
  then show ?thesis using assms by (auto simp: upload_ok_def flush_def changed_def same_upload_def)
qed

section \<open>What holds in every state\<close>

text \<open>A row as the table or a job holds it: well formed, a version of a stored row, every received chunk stored.\<close>

definition known :: "library \<Rightarrow> upload \<Rightarrow> bool" where
  "known l u = (upload_ok u \<and> (\<exists>r \<in> set (lb_uploads l). same_upload u r) \<and>
     (\<forall>i \<in> set (u_received u). \<exists>b. (u_id u, i, b) \<in> set (lb_puts l)))"

text \<open>\<open>payload\<close> consists of one stored body for every chunk of the upload.\<close>

definition parts_of :: "library \<Rightarrow> upload \<Rightarrow> bytes list \<Rightarrow> bool" where
  "parts_of l u parts = (length parts \<le> u_total u \<and> (\<forall>i < length parts. (u_id u, i, parts ! i) \<in> set (lb_puts l)))"

definition assembled :: "library \<Rightarrow> upload \<Rightarrow> bytes \<Rightarrow> bool" where
  "assembled l u payload = (\<exists>parts. length parts = u_total u \<and> parts_of l u parts \<and> payload = concat parts)"

definition file_holds :: "library \<Rightarrow> lib_file \<Rightarrow> bytes \<Rightarrow> bool" where
  "file_holds l w payload = (w_size w = length payload \<and>
     (case w_key w of Some k \<Rightarrow> w_binary w \<and> lb_objects l k = Some payload
      | None \<Rightarrow> \<not> w_binary w \<and> w_text w = utf8_decode payload))"

definition file_key_ok :: "lib_file \<Rightarrow> bool" where
  "file_key_ok w = (\<forall>k. w_key w = Some k \<longrightarrow> (\<exists>name. k = FileKey (fst (w_scope w)) (w_id w) name))"

fun job_files :: "lib_job \<Rightarrow> nat list" where
  "job_files (PublishJob u n payload w) = [w_id w]"
| "job_files _ = []"

fun job_ok :: "library \<Rightarrow> lib_job \<Rightarrow> bool" where
  "job_ok l (PutJob u i b) = (known l u \<and> i < u_total u \<and> length b = chunk_len u i)"
| "job_ok l (SaveJob u i) = (known l u \<and> i < u_total u \<and> (\<exists>b. (u_id u, i, b) \<in> set (lb_puts l)))"
| "job_ok l (QueueJob u) = known l u"
| "job_ok l (SendJob u) = known l u"
| "job_ok l (CancelJob u) = known l u"
| "job_ok l (DropJob u) = known l u"
| "job_ok l (SweepJob u) = known l u"
| "job_ok l (FailJob u n) = known l u"
| "job_ok l (ReadJob u n parts) = (known l u \<and> parts_of l u parts)"
| "job_ok l (RenameJob u n payload) = (known l u \<and> assembled l u payload)"
| "job_ok l (StoreJob u n payload) = (known l u \<and> assembled l u payload)"
| "job_ok l (PublishJob u n payload w) = (known l u \<and> assembled l u payload \<and> file_holds l w payload \<and> file_key_ok w
     \<and> length payload = u_size u \<and> w_id w < next_id (lb_db l) \<and> w_scope w = u_scope u)"

definition published :: "library \<Rightarrow> upload \<Rightarrow> nat \<Rightarrow> bool" where
  "published l u f = (\<exists>w \<in> set (lb_files l). \<exists>p. w_id w = f \<and> w_scope w = u_scope u \<and> length p = u_size u \<and>
     assembled l u p \<and> file_holds l w p)"

definition rows_ok :: "library \<Rightarrow> bool" where
  "rows_ok l = (distinct (map u_id (lb_uploads l)) \<and>
     (\<forall>u \<in> set (lb_uploads l). known l u \<and> u_id u < next_id (lb_db l) \<and> (\<forall>f. u_file u = Some f \<longrightarrow> published l u f)))"

definition chunks_ok :: "library \<Rightarrow> bool" where
  "chunks_ok l = ((\<forall>tn k i b. lb_objects l (ChunkKey tn k i) = Some b \<longrightarrow> (k, i, b) \<in> set (lb_puts l)) \<and>
     (\<forall>k i b. (k, i, b) \<in> set (lb_puts l) \<longrightarrow> (\<exists>u \<in> set (lb_uploads l). u_id u = k \<and> i < u_total u \<and> length b = chunk_len u i)))"

definition files_ok :: "library \<Rightarrow> bool" where
  "files_ok l = (distinct (map w_id (lb_files l) @ concat (map job_files (lb_jobs l))) \<and>
     (\<forall>w \<in> set (lb_files l). w_id w < next_id (lb_db l) \<and> file_key_ok w))"

definition lib_inv :: "library \<Rightarrow> bool" where
  "lib_inv l = (rows_ok l \<and> chunks_ok l \<and> files_ok l \<and> list_all (job_ok l) (lb_jobs l))"

text \<open>Uploads are never deleted and the histories only grow.\<close>

definition grows :: "library \<Rightarrow> library \<Rightarrow> bool" where
  "grows l l' = ((\<forall>u \<in> set (lb_uploads l). \<exists>r \<in> set (lb_uploads l'). same_upload u r) \<and>
     set (lb_puts l) \<subseteq> set (lb_puts l') \<and> next_id (lb_db l) \<le> next_id (lb_db l'))"

lemma known_grows: "grows l l' \<Longrightarrow> known l u \<Longrightarrow> known l' u"
  unfolding grows_def known_def by (meson same_trans subsetD)

lemma parts_grows: "grows l l' \<Longrightarrow> parts_of l u p \<Longrightarrow> parts_of l' u p"
  unfolding grows_def parts_of_def by blast

lemma assembled_grows: "grows l l' \<Longrightarrow> assembled l u p \<Longrightarrow> assembled l' u p"
  unfolding assembled_def using parts_grows by blast

lemma job_ok_grows:
  assumes "grows l l'" and "job_ok l j"
    and "\<And>tn f name. f \<in> set (job_files j) \<Longrightarrow> lb_objects l' (FileKey tn f name) = lb_objects l (FileKey tn f name)"
  shows "job_ok l' j"
proof -
  note g = known_grows [OF assms(1)] parts_grows [OF assms(1)] assembled_grows [OF assms(1)]
  have p: "set (lb_puts l) \<subseteq> set (lb_puts l')" "next_id (lb_db l) \<le> next_id (lb_db l')" using assms(1) by (simp_all add: grows_def)
  show ?thesis
  proof (cases j)
    case (PublishJob u n q w)
    then have "file_holds l' w q" using assms(2,3) by (fastforce simp: file_holds_def file_key_ok_def split: option.splits)
    then show ?thesis using assms(2) g p PublishJob by simp
  qed (use assms(2) g p in auto)
qed

lemma known_same: "known l u \<Longrightarrow> same_upload v u \<Longrightarrow> upload_ok v \<Longrightarrow> u_received v = u_received u \<Longrightarrow> known l v"
  by (auto simp: known_def same_upload_def)

lemma known_upd [simp]:
  "known l (u\<lparr>u_status := a\<rparr>) = known l u" "known l (u\<lparr>u_error := b\<rparr>) = known l u" "known l (u\<lparr>u_name := c\<rparr>) = known l u"
  "known l (u\<lparr>u_file := f\<rparr>) = known l u"
  by (simp_all add: known_def)

lemma assembled_same: "same_upload u v \<Longrightarrow> assembled l u p = assembled l v p"
  by (simp add: assembled_def parts_of_def same_upload_def)

lemma assembled_upd [simp]:
  "assembled l (u\<lparr>u_status := a\<rparr>) p = assembled l u p" "assembled l (u\<lparr>u_error := b\<rparr>) p = assembled l u p"
  "assembled l (u\<lparr>u_name := c\<rparr>) p = assembled l u p"
  by (rule assembled_same, simp)+

lemma assembled_length:
  assumes "chunks_ok l" and "rows_ok l" and "known l u" and "assembled l u p"
  shows "length p = u_size u"
proof -
  obtain parts where parts: "length parts = u_total u" "parts_of l u parts" "p = concat parts"
    using assms(4) by (auto simp: assembled_def)
  obtain r where r: "r \<in> set (lb_uploads l)" "same_upload u r" using assms(3) by (auto simp: known_def)
  have "length (parts ! i) = chunk_len u i" if i: "i < u_total u" for i
  proof -
    have "(u_id u, i, parts ! i) \<in> set (lb_puts l)" using parts i by (simp add: parts_of_def)
    then obtain v where v: "v \<in> set (lb_uploads l)" "u_id v = u_id u" "length (parts ! i) = chunk_len v i"
      using assms(1) unfolding chunks_ok_def by blast
    then have "v = r" using assms(2) r distinct_map_inj [of u_id "lb_uploads l" v r] by (auto simp: rows_ok_def same_upload_def)
    then show ?thesis using v chunk_len_same [OF r(2)] by simp
  qed
  then have "map length parts = map (chunk_len u) [0..<u_total u]" using parts(1) by (simp add: list_eq_iff_nth_eq)
  then show ?thesis using sum_chunks assms(3) parts(3) by (simp add: length_concat known_def)
qed

interpretation upload_table: keyed_table u_id lb_uploads find_upload upd_upload
  by unfold_locales (simp_all add: find_upload_def upd_upload_def)

lemma views:
  assumes "lb_uploads l' = lb_uploads l" and "lb_puts l' = lb_puts l"
  shows "known l' = known l" "parts_of l' = parts_of l" "assembled l' = assembled l"
  using assms by (auto simp: known_def parts_of_def assembled_def fun_eq_iff)

lemma file_holds_cong: "lb_objects l' = lb_objects l \<Longrightarrow> file_holds l' = file_holds l"
  by (auto simp: file_holds_def fun_eq_iff split: option.splits)

lemma add_inv:
  assumes "lib_inv l" and "list_all (job_ok l) js" and "distinct (concat (map job_files js))"
    and "set (concat (map job_files js)) \<inter> (set (map w_id (lb_files l)) \<union> set (concat (map job_files (lb_jobs l)))) = {}"
  shows "lib_inv (add_jobs js l)"
proof -
  let ?l = "add_jobs js l"
  have g: "grows l ?l" by (auto simp: grows_def add_jobs_def intro: same_refl)
  have j: "job_ok ?l x" if "job_ok l x" for x by (rule job_ok_grows [OF g that]) (simp add: add_jobs_def)
  have "known ?l = known l" "assembled ?l = assembled l" "file_holds ?l = file_holds l"
    by (rule views file_holds_cong; simp add: add_jobs_def)+
  then have k: "known ?l = known l" "published ?l = published l" by (simp_all add: published_def fun_eq_iff add_jobs_def)
  have "rows_ok ?l" "chunks_ok ?l" using assms(1) by (simp_all add: lib_inv_def rows_ok_def k) (simp_all add: rows_ok_def chunks_ok_def add_jobs_def)
  moreover have "files_ok ?l" using assms by (auto simp: lib_inv_def files_ok_def add_jobs_def)
  ultimately show ?thesis using assms(1,2) j by (auto simp: lib_inv_def list_all_iff add_jobs_def)
qed

lemma add_inv_plain: "lib_inv l \<Longrightarrow> list_all (job_ok l) js \<Longrightarrow> concat (map job_files js) = [] \<Longrightarrow> lib_inv (add_jobs js l)"
  by (rule add_inv) (simp_all only: distinct.simps list.set Int_empty_left)

text \<open>A change that leaves the three tables alone.\<close>

lemma file_holds_keep:
  assumes "file_holds l w p" and "file_key_ok w"
    and "\<And>tn name. lb_objects l' (FileKey tn (w_id w) name) = lb_objects l (FileKey tn (w_id w) name)"
  shows "file_holds l' w p"
  using assms by (fastforce simp: file_holds_def file_key_ok_def split: option.splits)

lemma row_known: "lib_inv l \<Longrightarrow> u \<in> set (lb_uploads l) \<Longrightarrow> known l u \<and> u_id u < next_id (lb_db l)"
  by (simp add: lib_inv_def rows_ok_def)

lemma row_published: "lib_inv l \<Longrightarrow> u \<in> set (lb_uploads l) \<Longrightarrow> u_file u = Some f \<Longrightarrow> published l u f"
  by (simp add: lib_inv_def rows_ok_def)

lemma file_keyed: "lib_inv l \<Longrightarrow> w \<in> set (lb_files l) \<Longrightarrow> file_key_ok w"
  by (simp add: lib_inv_def files_ok_def)

lemma published_keep:
  assumes "published l u f" and i: "lib_inv l" and "set (lb_files l) \<subseteq> set (lb_files l')" and "grows l l'"
    and "\<And>w tn name. w \<in> set (lb_files l) \<Longrightarrow> lb_objects l' (FileKey tn (w_id w) name) = lb_objects l (FileKey tn (w_id w) name)"
  shows "published l' u f"
proof -
  obtain w p where w: "w \<in> set (lb_files l)" "w_id w = f" "w_scope w = u_scope u" "length p = u_size u" "assembled l u p" "file_holds l w p"
    using assms(1) unfolding published_def by blast
  have "file_holds l' w p"
    by (rule file_holds_keep [OF w(6) file_keyed [OF i w(1)]]) (rule assms(5) [OF w(1)])
  moreover have "assembled l' u p" by (rule assembled_grows [OF assms(4) w(5)])
  ultimately show ?thesis using w assms(3) unfolding published_def by blast
qed

lemma published_same: "same_upload u v \<Longrightarrow> published l u f = published l v f"
proof -
  assume s: "same_upload u v"
  have "assembled l u = assembled l v" by (rule ext) (rule assembled_same [OF s])
  moreover have "u_scope u = u_scope v" "u_size u = u_size v" using s by (simp_all add: same_upload_def)
  ultimately show ?thesis by (simp only: published_def)
qed

lemma row_of_known:
  assumes "lib_inv l" and "known l u" and "r \<in> set (lb_uploads l)" and "u_id r = u_id u"
  shows "same_upload u r"
proof -
  obtain v where v: "v \<in> set (lb_uploads l)" "same_upload u v" using assms(2) by (auto simp: known_def)
  have d: "distinct (map u_id (lb_uploads l))" using assms(1) by (simp add: lib_inv_def rows_ok_def)
  have "u_id v = u_id r" using v(2) assms(4) by (simp add: same_upload_def)
  then have "v = r" by (rule distinct_map_inj [OF d v(1) assms(3)])
  with v(2) show ?thesis by simp
qed

lemma known_flush:
  assumes "known l u" "known l u'" "known l r" "same_upload u r" "same_upload u' r"
    and "u_received u' = u_received u \<longleftrightarrow> u_bytes u' = u_bytes u"
  shows "known l (flush u u' r)"
proof -
  have "upload_ok (flush u u' r)" by (rule flush_ok) (use assms in \<open>simp_all add: known_def\<close>)
  moreover have "u_received (flush u u' r) = u_received r \<or> u_received (flush u u' r) = u_received u'"
    by (simp add: flush_def changed_def)
  moreover have "u_id u' = u_id r" "u_id (flush u u' r) = u_id r" using assms(5) by (simp_all add: same_upload_def flush_def)
  ultimately show ?thesis using assms(2,3) by (auto simp: known_def)
qed

lemma env_inv:
  assumes i: "lib_inv l" and t: "lb_uploads l' = lb_uploads l" "lb_files l' = lb_files l" "lb_jobs l' = lb_jobs l"
    and g: "set (lb_puts l) \<subseteq> set (lb_puts l')" "next_id (lb_db l) \<le> next_id (lb_db l')" and c: "chunks_ok l'"
    and o: "\<And>tn f name. f \<in> set (map w_id (lb_files l)) \<union> set (concat (map job_files (lb_jobs l))) \<Longrightarrow>
      lb_objects l' (FileKey tn f name) = lb_objects l (FileKey tn f name)"
  shows "lib_inv l'"
proof -
  have gr: "grows l l'" using t g by (auto simp: grows_def intro: same_refl)
  have "list_all (job_ok l') (lb_jobs l')"
  proof (unfold list_all_iff t(3), rule ballI)
    fix j assume j: "j \<in> set (lb_jobs l)"
    then have "job_ok l j" using i by (simp add: lib_inv_def list_all_iff)
    then show "job_ok l' j" by (rule job_ok_grows [OF gr]) (use j in \<open>intro o, auto\<close>)
  qed
  moreover have "files_ok l'" using i g(2) by (auto simp: lib_inv_def files_ok_def t)
  moreover have "rows_ok l'"
  proof -
    have "published l' u f" if "u \<in> set (lb_uploads l)" "u_file u = Some f" for u f
      by (rule published_keep [OF row_published [OF i that] i _ gr]) (simp_all add: t(2) o)
    moreover have "known l' u \<and> u_id u < next_id (lb_db l')" if "u \<in> set (lb_uploads l)" for u
      using row_known [OF i that] known_grows [OF gr] g(2) by simp
    ultimately show ?thesis using i by (simp add: lib_inv_def rows_ok_def t)
  qed
  ultimately show ?thesis using c by (simp add: lib_inv_def)
qed

lemma chunks_ok_same: "lb_uploads l' = lb_uploads l \<Longrightarrow> lb_puts l' = lb_puts l \<Longrightarrow> lb_objects l' = lb_objects l \<Longrightarrow> chunks_ok l' = chunks_ok l"
  by (simp add: chunks_ok_def)

lemma tasks_inv: "lib_inv l \<Longrightarrow> lib_inv (l\<lparr>lb_tasks := ts\<rparr>)"
  by (rule env_inv) (simp_all add: lib_inv_def chunks_ok_same [of "l\<lparr>lb_tasks := ts\<rparr>" l])

lemma acked_inv: "lib_inv l \<Longrightarrow> lib_inv (l\<lparr>lb_acked := a\<rparr>)"
  by (rule env_inv) (simp_all add: lib_inv_def chunks_ok_same [of "l\<lparr>lb_acked := a\<rparr>" l])

lemma db_inv: "lib_inv l \<Longrightarrow> next_id (lb_db l) \<le> next_id s \<Longrightarrow> lib_inv (l\<lparr>lb_db := s\<rparr>)"
  by (rule env_inv) (simp_all add: lib_inv_def chunks_ok_same [of "l\<lparr>lb_db := s\<rparr>" l])

lemma objects_inv:
  assumes "lib_inv l" and "\<And>tn k i b. objs (ChunkKey tn k i) = Some b \<Longrightarrow> (k, i, b) \<in> set (lb_puts l)"
    and "\<And>tn f name. f \<in> set (map w_id (lb_files l)) \<union> set (concat (map job_files (lb_jobs l))) \<Longrightarrow>
      objs (FileKey tn f name) = lb_objects l (FileKey tn f name)"
  shows "lib_inv (l\<lparr>lb_objects := objs\<rparr>)"
  by (rule env_inv [OF assms(1)]) (use assms in \<open>auto simp: lib_inv_def chunks_ok_def\<close>)

lemma drop_chunks_inv: "lib_inv l \<Longrightarrow> lib_inv (drop_chunks gone u l)"
  unfolding drop_chunks_def
  by (rule objects_inv) (auto simp: lib_inv_def chunks_ok_def is_chunk_of_def split: option.splits if_splits)

lemma drop_object_inv:
  assumes "lib_inv l" and "file_key_ok w" and "w_id w \<notin> set (map w_id (lb_files l)) \<union> set (concat (map job_files (lb_jobs l)))"
  shows "lib_inv (drop_object gone w l)"
proof (cases "w_key w")
  case (Some k)
  then obtain name where k: "k = FileKey (fst (w_scope w)) (w_id w) name" using assms(2) by (auto simp: file_key_ok_def)
  show ?thesis
  proof (cases gone)
    case True
    have "lib_inv (l\<lparr>lb_objects := (lb_objects l)(k := None)\<rparr>)"
      by (rule objects_inv [OF assms(1)]) (use assms in \<open>auto simp: k lib_inv_def chunks_ok_def\<close>)
    then show ?thesis by (simp add: drop_object_def Some True)
  qed (simp add: drop_object_def Some assms(1))
qed (simp add: drop_object_def assms(1))

lemma put_inv:
  assumes "lib_inv l" and "known l u" and "i < u_total u" and "length b = chunk_len u i"
  shows "lib_inv (l\<lparr>lb_objects := (lb_objects l)(ChunkKey tn (u_id u) i \<mapsto> b), lb_puts := (u_id u, i, b) # lb_puts l\<rparr>)"
proof (rule env_inv [OF assms(1)])
  obtain r where r: "r \<in> set (lb_uploads l)" "same_upload u r" using assms(2) by (auto simp: known_def)
  then have "u_id r = u_id u \<and> i < u_total r \<and> length b = chunk_len r i" using assms(3,4) chunk_len_same [OF r(2)] by (simp add: same_upload_def)
  with r(1) assms(1) show "chunks_ok (l\<lparr>lb_objects := (lb_objects l)(ChunkKey tn (u_id u) i \<mapsto> b), lb_puts := (u_id u, i, b) # lb_puts l\<rparr>)"
    by (fastforce simp: lib_inv_def chunks_ok_def)
qed auto

text \<open>Writing back a row.\<close>

lemma row_update_inv:
  assumes i: "lib_inv l"
    and g: "\<And>r. r \<in> set (lb_uploads l) \<Longrightarrow> u_id r = k \<Longrightarrow> same_upload (g r) r \<and> known l (g r) \<and> (\<forall>f. u_file (g r) = Some f \<longrightarrow> published l r f)"
  shows "lib_inv (upd_upload k g l)"
proof -
  let ?l = "upd_upload k g l"
  let ?f = "\<lambda>r. if u_id r = k then g r else r"
  have t: "lb_uploads ?l = map ?f (lb_uploads l)" "lb_files ?l = lb_files l" "lb_jobs ?l = lb_jobs l" "lb_puts ?l = lb_puts l"
    "lb_objects ?l = lb_objects l" "lb_db ?l = lb_db l" by (simp_all add: upd_upload_def upd_where_def)
  have f: "same_upload (?f r) r" if "r \<in> set (lb_uploads l)" for r using g [OF that] by simp
  have "\<exists>r' \<in> set (lb_uploads ?l). same_upload r r'" if "r \<in> set (lb_uploads l)" for r
    unfolding t set_map using same_sym [OF f [OF that]] that by (rule_tac bexI [of _ "?f r"]) blast+
  then have gr: "grows l ?l" by (simp add: grows_def t(4,6))
  have "map u_id (lb_uploads ?l) = map u_id (lb_uploads l)" unfolding t using f by (simp add: same_upload_def)
  moreover have "known ?l (?f r) \<and> u_id (?f r) < next_id (lb_db l)" if r: "r \<in> set (lb_uploads l)" for r
    using g [OF r] f [OF r] row_known [OF i r] known_grows [OF gr] by (simp add: same_upload_def)
  moreover have "published ?l (?f r) x" if r: "r \<in> set (lb_uploads l)" "u_file (?f r) = Some x" for r x
  proof -
    have "published l r x" using g [OF r(1)] r row_published [OF i r(1)] by (simp split: if_splits)
    then have "published ?l r x" by (rule published_keep [OF _ i _ gr]) (simp_all add: t)
    then show ?thesis using published_same [OF f [OF r(1)]] by simp
  qed
  moreover have "distinct (map u_id (lb_uploads l))" using i by (simp add: lib_inv_def rows_ok_def)
  ultimately have "rows_ok ?l" unfolding rows_ok_def t(1,6) by (simp only: set_map ball_simps) blast
  moreover have "chunks_ok ?l"
  proof -
    have "\<exists>u \<in> set (lb_uploads ?l). u_id u = k' \<and> i < u_total u \<and> length b = chunk_len u i" if p: "(k', i, b) \<in> set (lb_puts l)" for k' i b
    proof -
      obtain r where r: "r \<in> set (lb_uploads l)" "u_id r = k'" "i < u_total r" "length b = chunk_len r i"
        using \<open>lib_inv l\<close> p unfolding lib_inv_def chunks_ok_def by blast
      have "u_id (?f r) = k' \<and> i < u_total (?f r) \<and> length b = chunk_len (?f r) i"
        using r f [OF r(1)] chunk_len_same [OF f [OF r(1)]] by (simp add: same_upload_def)
      moreover have "?f r \<in> set (lb_uploads ?l)" using r(1) unfolding t by simp
      ultimately show ?thesis by blast
    qed
    then show ?thesis using i by (simp add: lib_inv_def chunks_ok_def t)
  qed
  moreover have "files_ok ?l" using i by (simp add: lib_inv_def files_ok_def t)
  moreover have "list_all (job_ok ?l) (lb_jobs ?l)"
    using i job_ok_grows [OF gr] by (simp add: lib_inv_def list_all_iff t)
  ultimately show ?thesis by (simp add: lib_inv_def)
qed

lemma write_back_inv:
  assumes i: "lib_inv l" and k: "known l u" "known l u'" and s: "same_upload u u'" "u_file u' = u_file u"
    and pair: "u_received u' = u_received u \<longleftrightarrow> u_bytes u' = u_bytes u"
  shows "lib_inv (write_back u u' l)"
  unfolding write_back_def
proof (rule row_update_inv [OF i])
  fix r assume r: "r \<in> set (lb_uploads l)" "u_id r = u_id u"
  have ur: "same_upload u r" by (rule row_of_known [OF i k(1) r])
  moreover have "same_upload u' r" using ur s(1) same_trans same_sym by blast
  ultimately have "known l (flush u u' r)" using known_flush [OF k] row_known [OF i r(1)] pair by blast
  moreover have "u_file (flush u u' r) = u_file r" using s(2) by (simp add: flush_def changed_def)
  ultimately show "same_upload (flush u u' r) r \<and> known l (flush u u' r) \<and> (\<forall>f. u_file (flush u u' r) = Some f \<longrightarrow> published l r f)"
    using row_published [OF i r(1)] by simp
qed

lemma add_file_inv:
  assumes i: "lib_inv l" and w: "file_key_ok w" "w_id w < next_id (lb_db l)"
    "w_id w \<notin> set (map w_id (lb_files l)) \<union> set (concat (map job_files (lb_jobs l)))"
  shows "lib_inv (l\<lparr>lb_files := lb_files l @ [w], lb_versions := vs\<rparr>)"
proof -
  let ?l = "l\<lparr>lb_files := lb_files l @ [w], lb_versions := vs\<rparr>"
  have gr: "grows l ?l" by (auto simp: grows_def intro: same_refl)
  have "published ?l u f" if "u \<in> set (lb_uploads l)" "u_file u = Some f" for u f
    by (rule published_keep [OF row_published [OF i that] i _ gr]) auto
  then have "rows_ok ?l" using i known_grows [OF gr] by (auto simp: lib_inv_def rows_ok_def)
  moreover have "chunks_ok ?l" using i by (simp add: lib_inv_def chunks_ok_def)
  moreover have "files_ok ?l" using i w by (auto simp: lib_inv_def files_ok_def)
  moreover have "list_all (job_ok ?l) (lb_jobs ?l)" using i job_ok_grows [OF gr] by (simp add: lib_inv_def list_all_iff)
  ultimately show ?thesis by (simp add: lib_inv_def)
qed

lemma flush_loaded: "same_upload r r' \<Longrightarrow> flush r r' r = r'"
  by (auto simp: flush_def changed_def same_upload_def)

lemma write_back_files:
  "write_back u u' (l\<lparr>lb_files := a, lb_versions := b\<rparr>) = (write_back u u' l)\<lparr>lb_files := a, lb_versions := b\<rparr>"
  by (cases l) (simp add: write_back_def upd_upload_def)

lemma publish_inv:
  assumes i: "lib_inv l" and j: "job_ok l (PublishJob u n p w)" and r: "find_upload (u_id u) l = Some r"
    and w: "w_id w \<notin> set (map w_id (lb_files l)) \<union> set (concat (map job_files (lb_jobs l)))"
  shows "lib_inv (publish_file r p w l)"
proof -
  have rl: "r \<in> set (lb_uploads l)" "u_id r = u_id u" using upload_table.find_in [OF r] upload_table.find_key [OF r] by simp_all
  have ur: "same_upload u r" by (rule row_of_known [OF i _ rl]) (use j in simp)
  let ?r = "r\<lparr>u_file := Some (w_id w), u_bytes := length p, u_received := [0..<u_total r], u_status := UCompleted\<rparr>"
  let ?m = "l\<lparr>lb_files := lb_files l @ [w], lb_versions := lb_versions l @ [w]\<rparr>"
  have m: "lib_inv ?m" by (rule add_file_inv [OF i]) (use j w in simp_all)
  have size: "length p = u_size r" using j ur by (simp add: same_upload_def)
  have as: "assembled l r p" using j assembled_same [OF ur] by simp
  have ok: "upload_ok ?r"
    using row_known [OF i rl(1)] sum_chunks [of r] size by (auto simp: known_def upload_ok_def chunk_len_upd)
  have "\<exists>b. (u_id r, x, b) \<in> set (lb_puts l)" if "x < u_total r" for x
    using as that unfolding assembled_def parts_of_def by force
  then have kn: "known ?m ?r" using ok row_known [OF i rl(1)] by (auto simp: known_def)
  have "file_holds ?m w p" using j file_holds_cong [of ?m l] by simp
  moreover have "assembled ?m r p" using as views(3) [of ?m l] by simp
  moreover have "w_scope w = u_scope r" using j ur by (simp add: same_upload_def)
  ultimately have pub: "published ?m r (w_id w)" using size by (auto simp: published_def)
  have fl: "flush r ?r r = ?r" by (rule flush_loaded) (simp add: same_upload_def)
  have "lib_inv (write_back r ?r ?m)"
    unfolding write_back_def
  proof (rule row_update_inv [OF m])
    fix v assume v: "v \<in> set (lb_uploads ?m)" "u_id v = u_id r"
    have d: "distinct (map u_id (lb_uploads l))" using i by (simp add: lib_inv_def rows_ok_def)
    have "v = r" by (rule distinct_map_inj [OF d _ rl(1) v(2)]) (use v(1) in simp)
    then show "same_upload (flush r ?r v) v \<and> known ?m (flush r ?r v) \<and> (\<forall>f. u_file (flush r ?r v) = Some f \<longrightarrow> published ?m v f)"
      using kn pub by (simp add: fl)
  qed
  then have x: "lib_inv ((write_back r ?r l)\<lparr>lb_files := lb_files l @ [w], lb_versions := lb_versions l @ [w]\<rparr>)" (is "lib_inv ?x")
    by (simp only: write_back_files)
  have "?r \<in> set (lb_uploads ?x)"
    using rl(1) fl by (auto simp: write_back_def upd_upload_def in_upd_where intro!: bexI [of _ r])
  then have "known ?x ?r" using row_known [OF x] by blast
  then have "job_ok (add_tasks ts ?x) (DropJob ?r)" for ts by (simp add: add_tasks_def known_def)
  then show ?thesis unfolding publish_file_def Let_def
    by (intro add_inv_plain) (use tasks_inv [OF x] in \<open>simp_all add: add_tasks_def\<close>)
qed

lemma write_back_simps [simp]:
  "lb_files (write_back u u' l) = lb_files l" "lb_jobs (write_back u u' l) = lb_jobs l" "lb_puts (write_back u u' l) = lb_puts l"
  "lb_objects (write_back u u' l) = lb_objects l" "lb_db (write_back u u' l) = lb_db l" "lb_tasks (write_back u u' l) = lb_tasks l"
  by (simp_all add: write_back_def upd_upload_def)

lemma grows_write_back:
  assumes "lib_inv l" and "lib_inv (write_back u u' l)"
  shows "known l v \<Longrightarrow> known (write_back u u' l) v"
proof -
  assume k: "known l v"
  then obtain r where r: "r \<in> set (lb_uploads l)" "same_upload v r" by (auto simp: known_def)
  let ?r = "if u_id r = u_id u then flush u u' r else r"
  have "?r \<in> set (lb_uploads (write_back u u' l))" using r(1) unfolding write_back_def upd_upload_def by (auto simp: in_upd_where)
  moreover have "same_upload v ?r" using r(2) by simp
  ultimately show ?thesis using k unfolding known_def by auto
qed

text \<open>A write of a row that the job has loaded, with the job that goes on.\<close>

lemma status_write_inv:
  assumes i: "lib_inv l" and k: "known l u" and u': "u' = u\<lparr>u_status := a, u_error := b, u_name := c\<rparr>"
    and j: "job_files j = []" "\<And>l'. known l' u' \<Longrightarrow> (\<And>p. assembled l u' p \<Longrightarrow> assembled l' u' p) \<Longrightarrow> job_ok l' j"
  shows "lib_inv (add_jobs [j] (write_back u u' l))" "lib_inv (write_back u u' l)"
proof -
  have k': "known l u'" using k u' by simp
  show w: "lib_inv (write_back u u' l)" by (rule write_back_inv [OF i k k']) (simp_all add: u')
  have "job_ok (write_back u u' l) j"
    by (rule j(2)) (use grows_write_back [OF i w k'] in \<open>simp_all add: assembled_def parts_of_def\<close>)
  then show "lib_inv (add_jobs [j] (write_back u u' l))" by (intro add_inv_plain w) (simp_all add: j(1))
qed

lemma run_job_inv:
  assumes i: "lib_inv l" and j: "job_ok l j" and d: "distinct (job_files j)"
    "set (job_files j) \<inter> (set (map w_id (lb_files l)) \<union> set (concat (map job_files (lb_jobs l)))) = {}"
  shows "lib_inv (run_job m ok gone j l)"
proof (cases j)
  case (PutJob u x b)
  let ?l = "l\<lparr>lb_objects := (lb_objects l)(ChunkKey (fst (u_scope u)) (u_id u) x \<mapsto> b), lb_puts := (u_id u, x, b) # lb_puts l\<rparr>"
  have p: "lib_inv ?l" by (rule put_inv [OF i]) (use j PutJob in simp_all)
  have "known ?l u" by (rule known_grows [of l]) (use j PutJob in \<open>auto simp: grows_def intro: same_refl\<close>)
  then have "job_ok ?l (SaveJob u x)" using j PutJob by auto
  then have "lib_inv (add_jobs [SaveJob u x] ?l)" by (intro add_inv_plain p) simp_all
  then show ?thesis using i PutJob by simp
next
  case (SaveJob u x)
  then have k: "known l u" "x < u_total u" "\<exists>b. (u_id u, x, b) \<in> set (lb_puts l)" using j by simp_all
  then have ok: "upload_ok u" by (simp add: known_def)
  have "known l (with_chunk x u)" using k with_chunk_ok [OF ok k(2)] by (auto simp: known_def)
  then have "lib_inv (write_back u (with_chunk x u) l)"
    by (intro write_back_inv [OF i k(1)]) (use same_sym with_chunk_pair [OF ok k(2)] in \<open>simp_all add: same_sym\<close>)
  then show ?thesis using SaveJob by (simp add: acked_inv)
next
  case (QueueJob u)
  show ?thesis unfolding QueueJob run_job.simps Let_def
    by (rule status_write_inv [OF i, where u = u and a = UQueued and b = "u_error u" and c = "u_name u"]) (use j QueueJob in simp_all)
next
  case (SendJob u)
  have "lib_inv (write_back u (u\<lparr>u_status := UFailed, u_error := e\<rparr>) l)" for e
    by (rule status_write_inv(2) [OF i, where u = u and a = UFailed and b = e and c = "u_name u" and j = "DropJob (u\<lparr>u_status := UFailed, u_error := e\<rparr>)"]) (use j SendJob in simp_all)
  then show ?thesis using SendJob tasks_inv [OF i] by (simp add: add_tasks_def)
next
  case (CancelJob u)
  show ?thesis unfolding CancelJob run_job.simps Let_def
    by (rule status_write_inv [OF i, where u = u and a = UCancelled and b = "Some ''Upload cancelled by the user.''" and c = "u_name u"]) (use j CancelJob in simp_all)
next
  case (DropJob u)
  then show ?thesis using drop_chunks_inv [OF i] by simp
next
  case (SweepJob u)
  then show ?thesis using drop_chunks_inv [OF i] i by (simp split: option.split)
next
  case (ReadJob u n parts)
  have "job_ok l (ReadJob u n (parts @ [b]))" if "length parts \<noteq> u_total u" "lb_objects l (ChunkKey (fst (u_scope u)) (u_id u) (length parts)) = Some b" for b
  proof -
    have "(u_id u, length parts, b) \<in> set (lb_puts l)" using i that(2) by (simp add: lib_inv_def chunks_ok_def)
    then show ?thesis using j ReadJob that(1) by (auto simp: parts_of_def nth_append less_Suc_eq)
  qed
  moreover have "assembled l u (concat parts)" if "length parts = u_total u" using j ReadJob that by (auto simp: assembled_def)
  ultimately show ?thesis using j i ReadJob by (auto intro!: add_inv_plain split: option.splits)
next
  case (RenameJob u n p)
  have "lib_inv (add_jobs [StoreJob u' n p] (write_back u u' l))" if u': "u' = u\<lparr>u_name := c\<rparr>" for u' c
    by (rule status_write_inv [OF i, where u = u and a = "u_status u" and b = "u_error u" and c = c]) (use j RenameJob u' in simp_all)
  then show ?thesis using j i RenameJob by (auto simp: Let_def intro!: add_inv_plain split: sum.split)
next
  case (StoreJob u n p)
  let ?f = "next_id (lb_db l)"
  let ?w = "new_file ?f u p"
  let ?l = "l\<lparr>lb_db := (lb_db l)\<lparr>next_id := Suc ?f\<rparr>\<rparr>"
  have l: "lib_inv ?l" by (rule db_inv [OF i]) simp
  have k: "known l u" "assembled l u p" using j StoreJob by simp_all
  have fresh: "?f \<notin> set (map w_id (lb_files l)) \<union> set (concat (map job_files (lb_jobs l)))"
  proof -
    have "?f \<notin> set (job_files x)" if "x \<in> set (lb_jobs l)" for x
      using i that by (cases x) (fastforce simp: lib_inv_def list_all_iff)+
    then show ?thesis using i by (fastforce simp: lib_inv_def files_ok_def)
  qed
  have w: "file_key_ok ?w" "w_id ?w = ?f" "w_scope ?w = u_scope u" by (simp_all add: new_file_def file_key_ok_def Let_def)
  have *: "lib_inv (add_jobs [PublishJob u n p ?w] l')" if s: "length p = u_size u" and l': "lib_inv l'" "lb_jobs l' = lb_jobs l" "lb_files l' = lb_files l"
    "lb_uploads l' = lb_uploads l" "lb_puts l' = lb_puts l" "next_id (lb_db l') = Suc ?f" "file_holds l' ?w p" for l'
  proof (rule add_inv [OF l'(1)])
    show "list_all (job_ok l') [PublishJob u n p ?w]" using k s w l' views [OF l'(4,5)] by simp
  qed (use fresh l' w in auto)
  have none: "w_key ?w = None \<Longrightarrow> file_holds ?l ?w p" by (simp add: file_holds_def new_file_def Let_def split: if_splits)
  have some: "lib_inv (?l\<lparr>lb_objects := (lb_objects l)(x \<mapsto> p)\<rparr>) \<and> file_holds (?l\<lparr>lb_objects := (lb_objects l)(x \<mapsto> p)\<rparr>) ?w p" if x: "w_key ?w = Some x" for x
  proof
    show "file_holds (?l\<lparr>lb_objects := (lb_objects l)(x \<mapsto> p)\<rparr>) ?w p" using x by (auto simp: file_holds_def new_file_def Let_def split: if_splits)
    obtain name where "x = FileKey (fst (u_scope u)) ?f name" using x w by (auto simp: file_key_ok_def)
    then show "lib_inv (?l\<lparr>lb_objects := (lb_objects l)(x \<mapsto> p)\<rparr>)"
      by (intro objects_inv [OF l]) (use i fresh in \<open>auto simp: lib_inv_def chunks_ok_def\<close>)
  qed
  have F: "lib_inv (add_jobs [FailJob u n] ?l)" "lib_inv (add_jobs [FailJob u n] l)"
    by (rule add_inv_plain [OF l] add_inv_plain [OF i]; use k(1) views(1) [of ?l l] in simp)+
  show ?thesis
  proof (cases "length p = u_size u")
    case True
    have A: "lib_inv (add_jobs [PublishJob u n p ?w] ?l)" if "w_key ?w = None"
      by (rule * [OF True l]) (use none that in simp_all)
    have B: "lib_inv (add_jobs [PublishJob u n p ?w] (?l\<lparr>lb_objects := (lb_objects l)(x \<mapsto> p)\<rparr>))" if "w_key ?w = Some x" for x
      by (rule * [OF True]) (use some [OF that] in simp_all)
    show ?thesis unfolding StoreJob run_job.simps Let_def using A B F(1) True by (simp split: option.split)
  qed (simp add: StoreJob Let_def F(2))
next
  case (PublishJob u n p w)
  have w: "w_id w \<notin> set (map w_id (lb_files l)) \<union> set (concat (map job_files (lb_jobs l)))" using d PublishJob by simp
  have o: "lib_inv (drop_object g w l)" for g by (rule drop_object_inv [OF i _ w]) (use j PublishJob in simp)
  have "lb_uploads (drop_object g w l) = lb_uploads l" "lb_puts (drop_object g w l) = lb_puts l" for g
    by (simp_all add: drop_object_def split: option.split)
  then have k: "known (drop_object g w l) u" for g using j PublishJob views(1) [of "drop_object g w l" l] by simp
  show ?thesis
  proof (cases "find_upload (u_id u) l")
    case (Some r)
    have "lib_inv (publish_file r p w l)" by (rule publish_inv [OF i _ Some w]) (use j PublishJob in simp)
    then show ?thesis unfolding PublishJob run_job.simps Some using o k by (auto intro!: add_inv_plain)
  qed (unfold PublishJob run_job.simps, use o k in \<open>auto intro!: add_inv_plain\<close>)
next
  case (FailJob u n)
  have t: "lib_inv (add_jobs [SweepJob u] (add_tasks ts l))" for ts
    by (rule add_inv_plain) (use j FailJob tasks_inv [OF i] views(1) [of "add_tasks ts l" l] in \<open>simp_all add: add_tasks_def\<close>)
  have s: "lib_inv (add_jobs [SweepJob u] l)" by (rule add_inv_plain) (use j FailJob i in simp_all)
  have "lib_inv (add_jobs [DropJob r'] (write_back r r' l))" if "find_upload (u_id u) l = Some r" "r' = r\<lparr>u_status := UFailed, u_error := Some failed_text\<rparr>" for r r'
    by (rule status_write_inv [OF i, where u = r and a = UFailed and b = "Some failed_text" and c = "u_name r"])
      (use row_known [OF i upload_table.find_in [OF that(1)]] that(2) in simp_all)
  then show ?thesis unfolding FailJob run_job.simps Let_def using t s i by (auto split: option.split)
qed

lemma reserve_capacity_ids:
  assumes "reserve_capacity now tn key amount roles user ttl s = Inr (q, s')"
  shows "next_id s \<le> next_id s'"
proof -
  have c: "next_id (clear_reservation now tn k e s1) = next_id s1" for k e s1
    by (simp add: clear_reservation_def expire_reservations_def split: option.split)
  have g: "next_id s1 \<le> next_id s'" if "grant_reservation now tn k user am t a plan e s1 = Inr (q, s')" for k am t a plan e s1
    using that c [of k e s1] by (auto simp: grant_reservation_def store_reservation_def Let_def split: if_splits option.splits)
  show ?thesis
    using assms ensure_allocation_frame(2) g unfolding reserve_capacity_def Let_def
    by (fastforce split: if_splits sum.splits option.splits)
qed

lemma release_capacity_ids: "release_capacity now tn key st s = Inr (b, s') \<Longrightarrow> next_id s' = next_id s"
  by (auto simp: release_capacity_def split: if_splits sum.splits option.splits)

lemma create_upload_Inr:
  assumes "create_upload m now sc roles r l = Inr (u, l')"
  obtains folder name s1 q s2 b where "chosen_name sc r folder l = Inr name"
    and "u = new_upload (next_id (lb_db l)) sc folder name (upload_content_type (ur_name r) (ur_type r)) (ur_size r) (ur_rename r)"
    and "reserve_capacity now (fst sc) (upload_key (next_id (lb_db l))) (int (ur_size r)) roles (Some (fst (snd sc))) 900
           ((accounted l)\<lparr>next_id := Suc (next_id (lb_db l))\<rparr>) = Inr (q, s1)"
    and "release_capacity now (fst sc) (upload_key (next_id (lb_db l))) ''committed'' s1 = Inr (b, s2)"
    and "l' = l\<lparr>lb_db := s2, lb_uploads := lb_uploads l @ [u]\<rparr>" and "ur_size r \<le> m"
proof -
  have n: "next_id (accounted l) = next_id (lb_db l)" by (simp add: accounted_def)
  show ?thesis
    using assms that unfolding create_upload_def Let_def n
    by (auto split: sum.splits if_splits prod.splits)
qed

lemma created_inv:
  assumes i: "lib_inv l" and c: "create_upload m now sc roles r l = Inr (u, l')" and v: "valid_request r0 = Some r"
  shows "lib_inv l'"
  using c
proof (rule create_upload_Inr)
  fix folder name s1 q s2 b
  let ?n = "next_id (lb_db l)"
  assume u: "u = new_upload ?n sc folder name (upload_content_type (ur_name r) (ur_type r)) (ur_size r) (ur_rename r)"
    and r1: "reserve_capacity now (fst sc) (upload_key ?n) (int (ur_size r)) roles (Some (fst (snd sc))) 900
           ((accounted l)\<lparr>next_id := Suc ?n\<rparr>) = Inr (q, s1)"
    and r2: "release_capacity now (fst sc) (upload_key ?n) ''committed'' s1 = Inr (b, s2)"
    and l': "l' = l\<lparr>lb_db := s2, lb_uploads := lb_uploads l @ [u]\<rparr>"
  have ids: "Suc ?n \<le> next_id s2" using reserve_capacity_ids [OF r1] release_capacity_ids [OF r2] by simp
  have size: "0 < ur_size r" using v by (auto simp: valid_request_def split: option.splits if_splits)
  have ok: "upload_ok u" "u_received u = []" "u_id u = ?n" "u_file u = None" using size by (simp_all add: u new_upload_def upload_ok_def)
  have d: "lib_inv (l\<lparr>lb_db := s2\<rparr>)" (is "lib_inv ?l") by (rule db_inv [OF i]) (use ids in simp)
  have gr: "grows ?l l'" by (auto simp: grows_def l' intro: same_refl)
  have fresh: "u_id v < ?n" if "v \<in> set (lb_uploads l)" for v using row_known [OF i that] by simp
  have "published l' v f" if "v \<in> set (lb_uploads ?l)" "u_file v = Some f" for v f
    by (rule published_keep [OF row_published [OF d that] d _ gr]) (simp_all add: l')
  moreover have "known l' v \<and> u_id v < next_id (lb_db l')" if "v \<in> set (lb_uploads ?l)" for v
    using row_known [OF d that] known_grows [OF gr] by (simp add: l')
  moreover have "known l' u" using ok by (auto simp: known_def l')
  moreover have "distinct (map u_id (lb_uploads l'))" using d fresh ok(3) by (fastforce simp: lib_inv_def rows_ok_def l')
  ultimately have "rows_ok l'" using ids ok by (auto simp: rows_ok_def l')
  moreover have "chunks_ok l'" using d by (auto simp: lib_inv_def chunks_ok_def l')
  moreover have "files_ok l'" using d by (simp add: lib_inv_def files_ok_def l')
  moreover have "list_all (job_ok l') (lb_jobs l')" using d job_ok_grows [OF gr] by (simp add: lib_inv_def list_all_iff l')
  ultimately show ?thesis by (simp add: lib_inv_def)
qed

lemma known_row: "lib_inv l \<Longrightarrow> owned_upload sc k l = Inr u \<Longrightarrow> u \<in> set (lb_uploads l) \<and> known l u"
  using first_row_in row_known by (fastforce simp: owned_upload_def split: option.splits)

lemma begin_chunk_Inr:
  assumes "begin_chunk sc k index declared body l = Inr (u, i)"
  shows "owned_upload sc k l = Inr u \<and> u_status u \<notin> {UCancelled, UCompleted, UProcessing, UFailed} \<and> i = nat index \<and> 0 \<le> index
    \<and> i < u_total u \<and> length body = chunk_len u i"
  using assms by (auto simp: begin_chunk_def split: sum.splits if_splits)

lemma begin_complete_Inr:
  assumes "begin_complete sc k l = Inr (Some u)"
  shows "owned_upload sc k l = Inr u \<and> u_status u \<notin> {UCancelled, UCompleted} \<and> length (u_received u) = u_total u \<and> u_bytes u = u_size u"
  using assms by (auto simp: begin_complete_def split: sum.splits if_splits)

lemma begin_cancel_Inr:
  "begin_cancel sc k l = Inr (Some u) \<Longrightarrow> owned_upload sc k l = Inr u \<and> u_status u \<notin> {UCompleted, UCancelled}"
  by (auto simp: begin_cancel_def split: sum.splits if_splits)

lemma begin_finalize_inv:
  assumes i: "lib_inv l"
  shows "lib_inv (begin_finalize tn k n l)"
proof (cases "first_row (filter (\<lambda>u. u_id u = k \<and> fst (u_scope u) = tn) (lb_uploads l))")
  case (Some u)
  then have "u \<in> set (lb_uploads l)" using first_row_in by fastforce
  then have ku: "known l u" using row_known [OF i] by simp
  have D: "lib_inv (add_jobs [DropJob u] (add_tasks ts l))" for ts
    by (rule add_inv_plain) (use ku tasks_inv [OF i] views(1) [of "add_tasks ts l" l] in \<open>simp_all add: add_tasks_def\<close>)
  have E: "lib_inv (add_jobs [DropJob u] l)" by (rule add_inv_plain [OF i]) (use ku in simp_all)
  have "lib_inv (add_jobs [ReadJob u' n []] (write_back u u' l))" if "u' = u\<lparr>u_status := UProcessing, u_error := None\<rparr>" for u'
    by (rule status_write_inv [OF i ku, where a = UProcessing and b = None and c = "u_name u"]) (simp_all add: that parts_of_def)
  then show ?thesis unfolding begin_finalize_def Some using D E by (auto simp: Let_def split: option.split)
qed (simp add: begin_finalize_def i)

lemma job_out_inv:
  assumes i: "lib_inv l" and s: "lb_jobs l = js @ j # js'"
  shows "lib_inv (l\<lparr>lb_jobs := js @ js'\<rparr>)" "job_ok (l\<lparr>lb_jobs := js @ js'\<rparr>) j" "distinct (job_files j)"
    "set (job_files j) \<inter> (set (map w_id (lb_files l)) \<union> set (concat (map job_files (js @ js')))) = {}"
proof -
  let ?l = "l\<lparr>lb_jobs := js @ js'\<rparr>"
  have gr: "grows l ?l" by (auto simp: grows_def intro: same_refl)
  have j: "job_ok ?l x" if "x \<in> set (lb_jobs l)" for x
    by (rule job_ok_grows [OF gr]) (use i that in \<open>auto simp: lib_inv_def list_all_iff\<close>)
  then show "job_ok ?l j" using s by simp
  have "known ?l = known l" "assembled ?l = assembled l" "file_holds ?l = file_holds l"
    by (rule views file_holds_cong; simp)+
  then have "known ?l = known l" "published ?l = published l" by (simp_all add: published_def fun_eq_iff)
  then have "rows_ok ?l" using i by (simp add: lib_inv_def rows_ok_def)
  moreover have f: "files_ok l" using i by (simp add: lib_inv_def)
  then have "files_ok ?l" by (auto simp: files_ok_def s)
  moreover have "chunks_ok ?l" using i by (simp add: lib_inv_def chunks_ok_def)
  ultimately show "lib_inv ?l" using j s by (auto simp: lib_inv_def list_all_iff)
  show "distinct (job_files j)" "set (job_files j) \<inter> (set (map w_id (lb_files l)) \<union> set (concat (map job_files (js @ js')))) = {}"
    using f by (auto simp: files_ok_def s)
qed

lemma lib_step_inv:
  assumes "lib_step m l l'" and "lib_inv l"
  shows "lib_inv l'"
  using assms
proof (cases rule: lib_step.cases)
  case (chunk_sent sc k index declared body u i)
  then show ?thesis using begin_chunk_Inr [OF chunk_sent(2)] known_row [OF assms(2), of sc k u] by (auto intro!: add_inv_plain [OF assms(2)])
next
  case (completion sc k u)
  then show ?thesis using begin_complete_Inr [OF completion(2)] known_row [OF assms(2), of sc k u] by (auto intro!: add_inv_plain [OF assms(2)])
next
  case (cancellation sc k u)
  then show ?thesis using begin_cancel_Inr [OF cancellation(2)] known_row [OF assms(2), of sc k u] by (auto intro!: add_inv_plain [OF assms(2)])
next
  case (goes_on js j js' ok gone)
  then show ?thesis using run_job_inv [OF job_out_inv(1,2,3) [OF assms(2) goes_on(2)]] job_out_inv(4) [OF assms(2) goes_on(2)] by simp
next
  case (dies js j js')
  then show ?thesis using job_out_inv(1) [OF assms(2) dies(2)] by simp
qed (use assms(2) created_inv begin_finalize_inv tasks_inv in simp_all)

lemma empty_library_inv: "lib_inv (empty_library s folders)"
  by (simp add: lib_inv_def rows_ok_def chunks_ok_def files_ok_def empty_library_def)

lemma lib_reachable_inv: "lib_reachable m l0 l \<Longrightarrow> lib_inv l0 \<Longrightarrow> lib_inv l"
  by (induction rule: lib_reachable.induct) (auto intro: lib_step_inv)

lemmas reachable_library = lib_reachable_inv [OF _ empty_library_inv]

end
