(* ===== verification/Upload_Properties.thy ===== *)
theory Upload_Properties
  imports Library_Uploads
begin

text \<open>
  Properties of resumable uploads, on top of the invariant of \<open>Library_Uploads\<close>: what is stored is what was sent, an
  interrupted upload can be resumed, free names are found, and what the missing row lock and the missing
  capacity check of \<open>complete_library_upload\<close> allow.
\<close>

section \<open>Rows are well formed\<close>

lemma job_row_ok: "job_ok l (SaveJob u i) \<Longrightarrow> upload_ok u" "job_ok l (QueueJob u) \<Longrightarrow> upload_ok u" "job_ok l (ReadJob u n p) \<Longrightarrow> upload_ok u"
  by (simp_all add: known_def)

lemma upload_okD:
  assumes "upload_ok u"
  shows "0 < u_size u" "u_chunk u = chunk_size" "u_total u = (u_size u + chunk_size - 1) div chunk_size" "sorted_wrt (<) (u_received u)"
    "set (u_received u) \<subseteq> {..<u_total u}" "u_bytes u = sum_list (map (chunk_len u) (u_received u))"
  using assms unfolding upload_ok_def by blast+

lemma received_bound:
  assumes "upload_ok u"
  shows "u_bytes u \<le> u_size u" "u_bytes u = u_size u \<longleftrightarrow> u_received u = [0..<u_total u]"
    "length (u_received u) = u_total u \<longleftrightarrow> u_received u = [0..<u_total u]"
proof -
  have d: "distinct (u_received u)" and s: "set (u_received u) \<subseteq> {..<u_total u}"
    using upload_okD(4,5) [OF assms] strict_sorted_iff by blast+
  have b: "u_bytes u = sum (chunk_len u) (set (u_received u))"
    unfolding upload_okD(6) [OF assms] by (rule sum_list_distinct_conv_sum_set [OF d])
  have t: "u_size u = sum (chunk_len u) {..<u_total u}"
    using sum_chunks [OF assms] sum_list_distinct_conv_sum_set [of "[0..<u_total u]" "chunk_len u"] by (simp add: atLeast0LessThan)
  show "u_bytes u \<le> u_size u" unfolding b t by (rule sum_mono2) (use s in auto)
  show l: "length (u_received u) = u_total u \<longleftrightarrow> u_received u = [0..<u_total u]"
    using sorted_below [OF upload_okD(4,5) [OF assms]] by auto
  have "set (u_received u) = {..<u_total u}" if "u_bytes u = u_size u"
  proof (rule ccontr)
    assume "set (u_received u) \<noteq> {..<u_total u}"
    then obtain i where i: "i < u_total u" "i \<notin> set (u_received u)" using s by blast
    have "sum (chunk_len u) (insert i (set (u_received u))) \<le> sum (chunk_len u) {..<u_total u}"
      by (rule sum_mono2) (use s i in auto)
    then show False using that i chunk_len_pos [OF assms i(1)] b t by simp
  qed
  then show "u_bytes u = u_size u \<longleftrightarrow> u_received u = [0..<u_total u]"
    using l d b t by (metis atLeast_upt card_lessThan distinct_card set_upt)
qed

text \<open>C30. Whatever requests, deliveries and crashes interleave, every stored upload row is well formed: its chunk
  size and count fit its size, the received chunks are listed once, in order and in range, and
  \<open>bytes_received\<close> is the sum of their lengths, so that it never exceeds the size and the two conditions of
  \<open>complete_library_upload\<close> say the same thing; the same holds of the rows that handlers and workers hold in memory.\<close>

theorem upload_rows_well_formed:
  assumes "lib_reachable m (empty_library s folders) l"
  shows "(\<forall>u \<in> set (lb_uploads l). 0 < u_size u \<and> u_total u = (u_size u + chunk_size - 1) div chunk_size \<and>
      sorted_wrt (<) (u_received u) \<and> set (u_received u) \<subseteq> {..<u_total u} \<and>
      u_bytes u = sum_list (map (chunk_len u) (u_received u)) \<and> u_bytes u \<le> u_size u \<and> progress_percent u \<le> 100 \<and>
      (u_bytes u = u_size u \<longleftrightarrow> length (u_received u) = u_total u)) \<and>
    (\<forall>u i n parts. SaveJob u i \<in> set (lb_jobs l) \<or> QueueJob u \<in> set (lb_jobs l) \<or> ReadJob u n parts \<in> set (lb_jobs l) \<longrightarrow> upload_ok u)"
proof (intro conjI ballI)
  have i: "lib_inv l" using assms by (rule reachable_library)
  fix u assume "u \<in> set (lb_uploads l)"
  then have ok: "upload_ok u" using row_known [OF i] by (simp add: known_def)
  note upload_okD [OF ok] received_bound [OF ok]
  then show "0 < u_size u" "u_total u = (u_size u + chunk_size - 1) div chunk_size" "sorted_wrt (<) (u_received u)"
    "set (u_received u) \<subseteq> {..<u_total u}" "u_bytes u = sum_list (map (chunk_len u) (u_received u))" "u_bytes u \<le> u_size u"
    "u_bytes u = u_size u \<longleftrightarrow> length (u_received u) = u_total u" by blast+
  show "progress_percent u \<le> 100" by (simp add: progress_percent_def)
next
  have "lib_inv l" using assms by (rule reachable_library)
  then show "\<forall>u i n parts. SaveJob u i \<in> set (lb_jobs l) \<or> QueueJob u \<in> set (lb_jobs l) \<or> ReadJob u n parts \<in> set (lb_jobs l) \<longrightarrow> upload_ok u"
    using job_row_ok unfolding lib_inv_def list_all_iff by blast
qed

section \<open>A published file\<close>

lemma concat_slices:
  assumes "length payload \<le> n * c" and "0 < c"
  shows "concat (map (\<lambda>i. take (min c (length payload - i * c)) (drop (i * c) payload)) [0..<n]) = payload"
proof -
  have "concat (map (\<lambda>i. take (min c (length payload - i * c)) (drop (i * c) payload)) [0..<n]) = take (n * c) payload" for n
  proof (induction n)
    case (Suc n)
    have "take (min c (length payload - n * c)) (drop (n * c) payload) = take c (drop (n * c) payload)"
      by (metis length_drop min.commute take_all_iff take_take le_refl)
    moreover have "take (n * c) payload @ take c (drop (n * c) payload) = take (c + n * c) payload"
      by (simp only: add.commute [of c] take_add)
    ultimately show ?case using Suc by simp
  qed simp
  then show ?thesis using assms(1) by simp
qed

lemma assembled_payload:
  assumes "upload_ok u" and "assembled l u p" and "length payload = u_size u"
    and "\<forall>i b. (u_id u, i, b) \<in> set (lb_puts l) \<longrightarrow> b = take (chunk_len u i) (drop (i * u_chunk u) payload)"
  shows "p = payload"
proof -
  obtain parts where parts: "length parts = u_total u" "parts_of l u parts" "p = concat parts"
    using assms(2) by (auto simp: assembled_def)
  have "parts ! i = take (chunk_len u i) (drop (i * u_chunk u) payload)" if "i < u_total u" for i
    using parts that assms(4) by (simp add: parts_of_def)
  then have "parts = map (\<lambda>i. take (min chunk_size (length payload - i * chunk_size)) (drop (i * chunk_size) payload)) [0..<u_total u]"
    using parts(1) assms(1,3) by (simp add: list_eq_iff_nth_eq chunk_len_def upload_ok_def)
  then show ?thesis using concat_slices [of payload "u_total u" chunk_size] total_covers(1) [OF assms(1)] assms(3) parts(3) by simp
qed

text \<open>C29. A finished upload is the file that was sent.  In every reachable state, when the client has only ever
  sent slices of one payload as the chunks of an upload, in whatever order, concurrency and with whatever
  repetitions, the file that the upload points to has exactly this payload: as its stored object, or as its text,
  which for a payload that encodes a text in UTF-8 is that text.\<close>

theorem published_file_is_what_was_sent:
  assumes "lib_reachable m (empty_library s folders) l" and "u \<in> set (lb_uploads l)" and "u_file u = Some f"
    and "length payload = u_size u"
    and "\<forall>i b. (u_id u, i, b) \<in> set (lb_puts l) \<longrightarrow> b = take (chunk_len u i) (drop (i * u_chunk u) payload)"
  shows "\<exists>w \<in> set (lb_files l). w_id w = f \<and> w_scope w = u_scope u \<and> w_size w = u_size u \<and>
    (case w_key w of Some k \<Rightarrow> w_binary w \<and> lb_objects l k = Some payload
     | None \<Rightarrow> \<not> w_binary w \<and> w_text w = utf8_decode payload \<and>
         (\<forall>text. payload = utf8_encode text \<and> list_all scalar text \<longrightarrow> w_text w = text))"
proof -
  have i: "lib_inv l" using assms(1) by (rule reachable_library)
  then obtain w p where w: "w \<in> set (lb_files l)" "w_id w = f" "w_scope w = u_scope u" "assembled l u p" "file_holds l w p"
    using row_published [OF i assms(2,3)] unfolding published_def by blast
  have "p = payload"
    by (rule assembled_payload [OF _ w(4) assms(4,5)]) (use row_known [OF i assms(2)] in \<open>simp add: known_def\<close>)
  then show ?thesis using w assms(4) utf8_roundtrip
    by (intro bexI [of _ w]) (auto simp: file_holds_def split: option.splits)
qed

section \<open>Running pieces one after the other\<close>

lemma lib_reachable_trans: "lib_reachable m l' l'' \<Longrightarrow> lib_reachable m l l' \<Longrightarrow> lib_reachable m l l''"
  by (induction rule: lib_reachable.induct) (auto intro: lib_reachable.step)

lemma reach1: "lib_step m l l' \<Longrightarrow> lib_reachable m l l'"
  by (rule lib_reachable.step [OF lib_reachable.start])

lemma run_last: "lb_jobs l = js @ [j] \<Longrightarrow> lib_reachable m l (run_job m ok gone j (l\<lparr>lb_jobs := js\<rparr>))"
  using goes_on [of l js j "[]" m ok gone] by (simp add: reach1)

lemma add_jobs_simps [simp]:
  "lb_jobs (add_jobs js l) = lb_jobs l @ js" "lb_uploads (add_jobs js l) = lb_uploads l" "lb_files (add_jobs js l) = lb_files l"
  "lb_objects (add_jobs js l) = lb_objects l" "lb_db (add_jobs js l) = lb_db l" "lb_tasks (add_jobs js l) = lb_tasks l"
  "lb_puts (add_jobs js l) = lb_puts l" "lb_acked (add_jobs js l) = lb_acked l" "find_upload k (add_jobs js l) = find_upload k l"
  by (simp_all add: add_jobs_def find_upload_def)

lemma jobs_restored [simp]: "(add_jobs js l)\<lparr>lb_jobs := lb_jobs l\<rparr> = l"
  by (simp add: add_jobs_def)

lemma find_simps [simp]:
  "find_upload k (l\<lparr>lb_jobs := js\<rparr>) = find_upload k l" "find_upload k (l\<lparr>lb_tasks := ts\<rparr>) = find_upload k l"
  "find_upload k (l\<lparr>lb_objects := os\<rparr>) = find_upload k l" "find_upload k (l\<lparr>lb_puts := ps\<rparr>) = find_upload k l"
  "find_upload k (l\<lparr>lb_acked := as\<rparr>) = find_upload k l" "find_upload k (l\<lparr>lb_db := s\<rparr>) = find_upload k l"
  "find_upload k (l\<lparr>lb_files := fs\<rparr>) = find_upload k l" "find_upload k (l\<lparr>lb_versions := vs\<rparr>) = find_upload k l"
  by (simp_all add: find_upload_def)

lemma find_write_back: "find_upload (u_id u) (write_back u u' l) = map_option (flush u u') (find_upload (u_id u) l)"
  unfolding write_back_def by (rule upload_table.find_upd) (simp add: flush_def)

lemma write_back_acked [simp]: "lb_acked (write_back u u' l) = lb_acked l"
  by (simp add: write_back_def upd_upload_def)

lemma owned_find:
  assumes "lib_inv l" and "find_upload k l = Some u"
  shows "owned_upload (u_scope u) k l = Inr u" and "u_id u = k" and "u \<in> set (lb_uploads l)"
    and "first_row (filter (\<lambda>v. u_id v = k \<and> fst (u_scope v) = fst (u_scope u)) (lb_uploads l)) = Some u"
proof -
  show k: "u_id u = k" and u: "u \<in> set (lb_uploads l)" using upload_table.find_key upload_table.find_in assms(2) by fastforce+
  have d: "distinct (map u_id (lb_uploads l))" using assms(1) by (simp add: lib_inv_def rows_ok_def)
  have *: "first_row (filter (\<lambda>v. u_id v = k \<and> Q v) (lb_uploads l)) = Some u" if "Q u" for Q
  proof -
    have "filter (\<lambda>v. u_id v = k \<and> Q v) (lb_uploads l) \<noteq> []" using u k that by (auto simp: filter_empty_conv)
    then obtain v where v: "first_row (filter (\<lambda>v. u_id v = k \<and> Q v) (lb_uploads l)) = Some v"
      by (cases "filter (\<lambda>v. u_id v = k \<and> Q v) (lb_uploads l)") auto
    then have "v \<in> set (lb_uploads l)" "u_id v = u_id u" using first_row_in k by fastforce+
    then have "v = u" using distinct_map_inj [OF d _ u] by blast
    with v show ?thesis by simp
  qed
  show "owned_upload (u_scope u) k l = Inr u" using * [of "\<lambda>v. u_scope v = u_scope u"] by (simp add: owned_upload_def)
  show "first_row (filter (\<lambda>v. u_id v = k \<and> fst (u_scope v) = fst (u_scope u)) (lb_uploads l)) = Some u"
    by (rule *) simp
qed

lemma run_first: "lib_reachable m (add_jobs (j # js) l) (run_job m ok gone j (add_jobs js l))"
  using goes_on [of "add_jobs (j # js) l" "lb_jobs l" j js m ok gone] by (simp add: add_jobs_def reach1)

text \<open>A stored and a recorded chunk.\<close>

definition put_chunk :: "upload \<Rightarrow> nat \<Rightarrow> bytes \<Rightarrow> library \<Rightarrow> library" where
  "put_chunk u i body l = l\<lparr>lb_objects := (lb_objects l)(ChunkKey (fst (u_scope u)) (u_id u) i \<mapsto> body), lb_puts := (u_id u, i, body) # lb_puts l\<rparr>"

definition save_chunk :: "upload \<Rightarrow> nat \<Rightarrow> library \<Rightarrow> library" where
  "save_chunk u i l = (write_back u (with_chunk i u) l)\<lparr>lb_acked := (u_id u, i) # lb_acked l\<rparr>"

lemma chunk_simps [simp]:
  "lb_jobs (put_chunk u i b l) = lb_jobs l" "lb_uploads (put_chunk u i b l) = lb_uploads l" "lb_files (put_chunk u i b l) = lb_files l"
  "lb_db (put_chunk u i b l) = lb_db l" "lb_tasks (put_chunk u i b l) = lb_tasks l" "lb_acked (put_chunk u i b l) = lb_acked l"
  "lb_objects (put_chunk u i b l) = (lb_objects l)(ChunkKey (fst (u_scope u)) (u_id u) i \<mapsto> b)"
  "lb_puts (put_chunk u i b l) = (u_id u, i, b) # lb_puts l" "find_upload k (put_chunk u i b l) = find_upload k l"
  "lb_jobs (save_chunk u i l) = lb_jobs l" "lb_files (save_chunk u i l) = lb_files l" "lb_db (save_chunk u i l) = lb_db l"
  "lb_tasks (save_chunk u i l) = lb_tasks l" "lb_objects (save_chunk u i l) = lb_objects l" "lb_puts (save_chunk u i l) = lb_puts l"
  "lb_acked (save_chunk u i l) = (u_id u, i) # lb_acked l"
  "find_upload (u_id u) (save_chunk u i l) = map_option (flush u (with_chunk i u)) (find_upload (u_id u) l)"
  by (simp_all add: put_chunk_def save_chunk_def find_write_back)

lemma run_put: "run_job m True gone (PutJob u i b) (add_jobs js l) = add_jobs (js @ [SaveJob u i]) (put_chunk u i b l)"
  by (cases l) (simp add: add_jobs_def put_chunk_def)

lemma write_back_jobs: "write_back u u' (add_jobs js l) = add_jobs js (write_back u u' l)"
  by (cases l) (simp add: add_jobs_def write_back_def upd_upload_def)

lemma run_save: "run_job m ok gone (SaveJob u i) (add_jobs js l) = add_jobs js (save_chunk u i l)"
  by (cases l) (simp add: add_jobs_def save_chunk_def write_back_def upd_upload_def)

lemma run_save_alone: "run_job m ok gone (SaveJob u i) l = save_chunk u i l"
  by (simp add: save_chunk_def)

lemma add_jobs_Nil [simp]: "add_jobs [] l = l"
  by (simp add: add_jobs_def)

lemma add_jobs_twice: "add_jobs ks (add_jobs js l) = add_jobs (js @ ks) l"
  by (simp add: add_jobs_def)

text \<open>A whole chunk request, undisturbed.\<close>

lemma chunk_request:
  assumes "begin_chunk sc k index declared body l = Inr (u, i)"
  shows "lib_reachable m l (save_chunk u i (put_chunk u i body l))"
proof -
  have "lib_reachable m l (add_jobs [PutJob u i body] l)" by (rule reach1 [OF chunk_sent [OF assms]])
  moreover have "lib_reachable m (add_jobs [PutJob u i body] l) (add_jobs [SaveJob u i] (put_chunk u i body l))"
    using run_first [of m "PutJob u i body" "[]" l True "\<lambda>_. True"] run_put [where js = "[]"] by simp
  moreover have "lib_reachable m (add_jobs [SaveJob u i] (put_chunk u i body l)) (save_chunk u i (put_chunk u i body l))"
    using run_first [of m "SaveJob u i" "[]"] run_save [where js = "[]"] by (metis add_jobs_Nil)
  ultimately show ?thesis using lib_reachable_trans by blast
qed

lemma chunk_accepted:
  assumes "lib_inv l" and "find_upload k l = Some u" and "lib_conversation (u_scope u) (lb_db l) = Inr ()"
    and "u_status u \<in> {UPending, UUploading, UQueued}" and "i < u_total u" and "length b = chunk_len u i"
  shows "begin_chunk (u_scope u) k (int i) None b l = Inr (u, i)"
proof -
  have "chunk_len u i \<le> u_chunk u" by (simp add: chunk_len_def)
  then show ?thesis using assms(3-) owned_find(1) [OF assms(1,2)] by (auto simp: begin_chunk_def declared_ok_def)
qed

lemma begin_chunk_jobs [simp]: "begin_chunk sc k index declared b (add_jobs js l) = begin_chunk sc k index declared b l"
  by (simp only: begin_chunk_def owned_upload_def add_jobs_simps)

section \<open>Two chunks at once\<close>

text \<open>C32. Without a row lock a chunk can be lost.  Two chunk requests of one upload that are handled at the same
  time both store their object and are both answered with success, but the second one writes back the list it
  had read: the first chunk is not among the received ones and the completion is refused.\<close>

theorem parallel_chunks_lose_one:
  fixes b b' :: bytes
  assumes i: "lib_inv l" and u: "find_upload k l = Some u" and c: "lib_conversation (u_scope u) (lb_db l) = Inr ()"
    and s: "u_status u \<in> {UPending, UUploading, UQueued}" and x: "x < u_total u" "x \<notin> set (u_received u)" "length b = chunk_len u x"
    and y: "y < u_total u" "y \<notin> set (u_received u)" "length b' = chunk_len u y" and ne: "x \<noteq> y"
  shows "\<exists>l' r. lib_reachable m l l' \<and> {(k, x), (k, y)} \<subseteq> set (lb_acked l') \<and> lb_objects l' (ChunkKey (fst (u_scope u)) k x) = Some b \<and>
    find_upload k l' = Some r \<and> set (u_received r) = insert y (set (u_received u)) \<and> x \<notin> set (u_received r) \<and>
    begin_complete (u_scope u) k l' = Inl (ApiError ''UPLOAD_INCOMPLETE'' 409)"
proof -
  have k: "u_id u = k" using owned_find(2) [OF i u] .
  let ?tn = "fst (u_scope u)"
  let ?l1 = "add_jobs [PutJob u x b] l"
  let ?l2 = "add_jobs [PutJob u y b'] ?l1"
  have B: "begin_chunk (u_scope u) k (int x) None b l = Inr (u, x)" by (rule chunk_accepted [OF i u c s x(1,3)])
  have "begin_chunk (u_scope u) k (int y) None b' l = Inr (u, y)" by (rule chunk_accepted [OF i u c s y(1,3)])
  then have "begin_chunk (u_scope u) k (int y) None b' ?l1 = Inr (u, y)" by simp
  then have r12: "lib_reachable m l ?l2" using chunk_sent [OF B] chunk_sent lib_reachable.step reach1 by blast
  let ?l3 = "put_chunk u y b' (put_chunk u x b l)"
  let ?l6 = "save_chunk u y (save_chunk u x ?l3)"
  have l2: "?l2 = add_jobs [PutJob u x b, PutJob u y b'] l" by (simp add: add_jobs_twice)
  have "lib_reachable m ?l2 (add_jobs [PutJob u y b', SaveJob u x] (put_chunk u x b l))"
    using run_first [of m "PutJob u x b" "[PutJob u y b']" l True "\<lambda>_. True"] by (simp only: l2 run_put append.simps)
  moreover have "lib_reachable m (add_jobs [PutJob u y b', SaveJob u x] (put_chunk u x b l)) (add_jobs [SaveJob u x, SaveJob u y] ?l3)"
    using run_first [of m "PutJob u y b'" "[SaveJob u x]" "put_chunk u x b l" True "\<lambda>_. True"] by (simp only: run_put append.simps)
  moreover have "lib_reachable m (add_jobs [SaveJob u x, SaveJob u y] ?l3) (add_jobs [SaveJob u y] (save_chunk u x ?l3))"
    using run_first [of m "SaveJob u x" "[SaveJob u y]" ?l3 True "\<lambda>_. True"] by (simp only: run_save)
  moreover have "lib_reachable m (add_jobs [SaveJob u y] (save_chunk u x ?l3)) ?l6"
    using run_first [of m "SaveJob u y" "[]" "save_chunk u x ?l3" True "\<lambda>_. True"] by (simp only: run_save_alone add_jobs_Nil)
  ultimately have reach: "lib_reachable m l ?l6" using r12 lib_reachable_trans by meson
  have ok: "upload_ok u" using row_known [OF i owned_find(3) [OF i u]] by (simp add: known_def)
  let ?r = "flush u (with_chunk y u) (flush u (with_chunk x u) u)"
  have f: "find_upload k ?l6 = Some ?r" using u chunk_simps(17) unfolding k [symmetric] by simp
  have ch: "u_received (with_chunk y u) \<noteq> u_received u" by (metis insertI1 with_chunk_fields(3) y(2))
  then have "u_bytes (with_chunk y u) \<noteq> u_bytes u" using with_chunk_pair [OF ok y(1)] by simp
  with ch have rec: "u_received ?r = u_received (with_chunk y u)" by (simp add: flush_def changed_def)
  have set: "set (u_received ?r) = insert y (set (u_received u))" "x \<notin> set (u_received ?r)" using x(2) ne by (simp_all add: rec)
  have i6: "lib_inv ?l6" by (rule lib_reachable_inv [OF reach i])
  have rok: "upload_ok ?r" using row_known [OF i6 owned_find(3) [OF i6 f]] by (simp add: known_def)
  have same: "same_upload ?r u" by simp
  have "u_received ?r \<noteq> [0..<u_total ?r]" using set(2) x(1) same by (metis atLeastLessThan_iff same_upload_def set_upt zero_le)
  then have len: "length (u_received ?r) \<noteq> u_total ?r" using received_bound(3) [OF rok] by simp
  have st: "u_status ?r \<notin> {UCompleted, UCancelled}" using s by (auto simp: flush_def changed_def with_chunk_def Let_def)
  have "owned_upload (u_scope ?r) k ?l6 = Inr ?r" by (rule owned_find(1) [OF i6 f])
  then have own: "owned_upload (u_scope u) k ?l6 = Inr ?r" using same by (simp add: same_upload_def)
  have "begin_complete (u_scope u) k ?l6 = Inl (ApiError ''UPLOAD_INCOMPLETE'' 409)"
    unfolding begin_complete_def own using c len st by simp
  moreover have "lb_objects ?l6 (ChunkKey ?tn k x) = Some b" using ne k by simp
  moreover have "{(k, x), (k, y)} \<subseteq> set (lb_acked ?l6)" by (simp add: k)
  ultimately show ?thesis using reach f set by blast
qed

text \<open>A whole completion, undisturbed.\<close>

definition queue_upload :: "upload \<Rightarrow> library \<Rightarrow> library" where
  "queue_upload u l = add_tasks [FinalizeUpload (fst (u_scope u)) (u_id u) 0] (write_back u (u\<lparr>u_status := UQueued\<rparr>) l)"

lemma queue_simps [simp]:
  "lb_jobs (queue_upload u l) = lb_jobs l" "lb_files (queue_upload u l) = lb_files l" "lb_db (queue_upload u l) = lb_db l"
  "lb_objects (queue_upload u l) = lb_objects l" "lb_puts (queue_upload u l) = lb_puts l"
  "lb_tasks (queue_upload u l) = lb_tasks l @ [FinalizeUpload (fst (u_scope u)) (u_id u) 0]"
  by (simp_all add: queue_upload_def add_tasks_def)

lemma complete_request:
  assumes i: "lib_inv l" and u: "find_upload k l = Some u" and c: "lib_conversation (u_scope u) (lb_db l) = Inr ()"
    and s: "u_status u \<notin> {UCompleted, UCancelled}" and full: "length (u_received u) = u_total u"
  shows "lib_reachable m l (queue_upload u l)" and "find_upload k (queue_upload u l) = Some (u\<lparr>u_status := UQueued\<rparr>)"
proof -
  note o = owned_find [OF i u]
  let ?u = "u\<lparr>u_status := UQueued\<rparr>"
  let ?l1 = "write_back u ?u l"
  have ok: "upload_ok u" using row_known [OF i o(3)] by (simp add: known_def)
  have "u_bytes u = u_size u" using received_bound(2,3) [OF ok] full by simp
  then have "begin_complete (u_scope u) k l = Inr (Some u)" using c s full o(1) by (simp add: begin_complete_def)
  then have "lib_reachable m l (add_jobs [QueueJob u] l)" by (rule reach1 [OF completion])
  moreover have "lib_reachable m (add_jobs [QueueJob u] l) (add_jobs [SendJob ?u] ?l1)"
    using run_first [of m "QueueJob u" "[]" l True "\<lambda>_. True"] by (simp add: Let_def)
  moreover have "lib_reachable m (add_jobs [SendJob ?u] ?l1) (queue_upload u l)"
    using run_first [of m "SendJob ?u" "[]" ?l1 True "\<lambda>_. True"] by (simp add: queue_upload_def)
  ultimately show "lib_reachable m l (queue_upload u l)" using lib_reachable_trans by blast
  have fl: "flush u ?u u = ?u" by (rule flush_loaded) simp
  have "find_upload k ?l1 = Some ?u" using find_write_back [of u ?u l] u o(2) fl by simp
  then show "find_upload k (queue_upload u l) = Some ?u" by (simp add: queue_upload_def add_tasks_def)
qed

section \<open>The storage quota\<close>

definition counted :: "nat \<Rightarrow> upload \<Rightarrow> bool" where
  "counted tn u = (fst (u_scope u) = tn \<and> u_status u \<in> set reserving)"

definition pending_sum :: "nat \<Rightarrow> upload list \<Rightarrow> int" where
  "pending_sum tn us = sum_list (map (\<lambda>u. int (u_size u)) (filter (counted tn) us))"

lemma counted_sized: "(z_tenant (sized_upload u) = tn \<and> z_status (sized_upload u) \<in> set active_upload_statuses) = counted tn u"
  by (cases "u_status u") (auto simp: counted_def sized_upload_def reserving_def active_upload_statuses_def)

lemma pending_sum_nonneg: "0 \<le> pending_sum tn us"
  unfolding pending_sum_def by (rule sum_list_nonneg) auto

lemma usage_accounted:
  "usage tn (accounted l) = (usage tn ((lb_db l)\<lparr>uploads := [], library_files := map sized_file (lb_files l)\<rparr>))
     \<lparr>pending_upload_bytes := pending_sum tn (lb_uploads l)\<rparr>"
proof -
  have "sum_list (map z_bytes (filter (\<lambda>z. z_tenant z = tn \<and> z_status z \<in> set active_upload_statuses) (map sized_upload us))) = pending_sum tn us" for us
    unfolding pending_sum_def filter_map comp_def counted_sized map_map by (simp add: sized_upload_def)
  then show ?thesis using pending_sum_nonneg
    by (simp add: usage_def exact_usage_def accounted_def sum_rows_def metrics_def exact_keys_def)
qed

lemma total_accounted:
  assumes "lb_db l' = lb_db l" and "lb_files l' = lb_files l"
  shows "total_bytes (usage tn (accounted l')) - pending_sum tn (lb_uploads l') = total_bytes (usage tn (accounted l)) - pending_sum tn (lb_uploads l)"
  by (simp add: usage_accounted assms total_bytes_def)

lemma pending_sum_upd:
  assumes "distinct (map u_id us)" and "u \<in> set us" and "\<not> counted tn u" and "counted tn (f u)" and "u_size (f u) = u_size u"
  shows "pending_sum tn (upd_where (\<lambda>r. u_id r = u_id u) f us) = pending_sum tn us + int (u_size u)"
  using assms(1,2)
proof (induction us)
  case (Cons v us)
  show ?case
  proof (cases "v = u")
    case True
    then have "u_id u \<notin> u_id ` set us" using Cons.prems(1) by simp
    then have "upd_where (\<lambda>r. u_id r = u_id u) f us = us" by (intro upd_where_none notI) (metis imageI)
    then show ?thesis using assms True by (simp add: pending_sum_def)
  next
    case False
    then have "u_id v \<noteq> u_id u" "u \<in> set us" using Cons.prems by force+
    then show ?thesis using Cons by (simp add: pending_sum_def)
  qed
qed simp

text \<open>C34. Completing a failed upload again needs no room.  A failed upload is not counted, but its completion puts it
  back into the queue: the usage of the tenant grows by the size of the upload, no capacity check is made and
  the allocation stays as it was, so that it can be exceeded by an upload that could not be created any more.\<close>

theorem completing_failed_upload_skips_quota:
  assumes i: "lib_inv l" and u: "find_upload k l = Some u" and c: "lib_conversation (u_scope u) (lb_db l) = Inr ()"
    and s: "u_status u = UFailed" and full: "length (u_received u) = u_total u"
    and a: "find_allocation (fst (u_scope u)) (lb_db l) = Some a"
    and over: "a_bytes a < total_bytes (usage (fst (u_scope u)) (accounted l)) + int (u_size u)"
  shows "\<exists>l' r. lib_reachable m l l' \<and> find_upload k l' = Some r \<and> u_status r = UQueued \<and> FinalizeUpload (fst (u_scope u)) k 0 \<in> set (lb_tasks l') \<and>
    total_bytes (usage (fst (u_scope u)) (accounted l')) = total_bytes (usage (fst (u_scope u)) (accounted l)) + int (u_size u) \<and>
    find_allocation (fst (u_scope u)) (lb_db l') = Some a \<and> a_bytes a < total_bytes (usage (fst (u_scope u)) (accounted l'))"
proof -
  note o = owned_find [OF i u]
  let ?tn = "fst (u_scope u)"
  let ?u = "u\<lparr>u_status := UQueued\<rparr>"
  let ?l2 = "queue_upload u l"
  have reach: "lib_reachable m l ?l2" and f: "find_upload k ?l2 = Some ?u"
    by (rule complete_request [OF i u c _ full]; use s in simp)+
  have fl: "flush u ?u u = ?u" by (rule flush_loaded) simp
  have d: "distinct (map u_id (lb_uploads l))" using i by (simp add: lib_inv_def rows_ok_def)
  have "pending_sum ?tn (lb_uploads ?l2) = pending_sum ?tn (lb_uploads l) + int (u_size u)"
    unfolding queue_upload_def add_tasks_def write_back_def upd_upload_def
    using pending_sum_upd [OF d o(3), of ?tn "flush u ?u"] s by (simp add: fl counted_def reserving_def)
  then have t: "total_bytes (usage ?tn (accounted ?l2)) = total_bytes (usage ?tn (accounted l)) + int (u_size u)"
    using total_accounted [of ?l2 l ?tn] by simp
  show ?thesis using reach f t a over o(2) by (intro exI [of _ ?l2] exI [of _ ?u]) simp
qed

lemma reserve_capacity_tables:
  assumes "reserve_capacity now tn key amount roles user ttl s = Inr (q, s')"
  shows "documents s' = documents s \<and> artifacts s' = artifacts s \<and> inventory s' = inventory s"
proof -
  have c: "documents (clear_reservation now tn k e s1) = documents s1 \<and> artifacts (clear_reservation now tn k e s1) = artifacts s1 \<and>
      inventory (clear_reservation now tn k e s1) = inventory s1" for k e s1
    by (simp add: clear_reservation_def expire_reservations_def split: option.split)
  have g: "documents s' = documents s1 \<and> artifacts s' = artifacts s1 \<and> inventory s' = inventory s1"
    if "grant_reservation now tn k user am t a plan e s1 = Inr (q, s')" for k am t a plan e s1
    using that c [of k e s1] by (auto simp: grant_reservation_def store_reservation_def Let_def split: if_splits option.splits)
  have e: "documents s1 = documents s \<and> artifacts s1 = artifacts s \<and> inventory s1 = inventory s"
    if "ensure_allocation tn plan s = Inr (a, s1)" for plan a s1
    using workspace_core_fields [OF ensure_allocation_frame(1) [OF that]] by simp
  show ?thesis
    using assms e g unfolding reserve_capacity_def Let_def by (fastforce split: if_splits sum.splits option.splits)
qed

lemma release_capacity_tables:
  "release_capacity now tn key st s = Inr (b, s') \<Longrightarrow>
   documents s' = documents s \<and> artifacts s' = artifacts s \<and> inventory s' = inventory s \<and> allocations s' = allocations s"
  by (auto simp: release_capacity_def split: if_splits sum.splits option.splits)

lemma usage_tables:
  assumes "documents s' = documents s" "artifacts s' = artifacts s" "inventory s' = inventory s"
  shows "usage tn (s'\<lparr>uploads := a, library_files := b\<rparr>) = usage tn (s\<lparr>uploads := a, library_files := b\<rparr>)"
  using assms by (simp add: usage_def metrics_def exact_usage_def)

lemma strip_upload_key: "strip (upload_key k) = upload_key k"
proof (rule strip_none, rule ballI)
  fix c assume "c \<in> set (upload_key k)"
  moreover have "set (uuid_str k) \<subseteq> insert (CHR ''-'') (set (hex_digits 32 k))"
    by (auto simp: uuid_str_def Let_def dest: in_set_takeD in_set_dropD)
  ultimately consider "c \<in> set ''library-upload:''" | "c = CHR ''-''" | "c \<in> set (hex_digits 32 k)"
    unfolding upload_key_def set_append by blast
  then show "\<not> is_space c"
  proof cases
    case 3
    then have "c \<in> hex_char ` {..<16}" using set_hex_digits by blast
    then show ?thesis using hex_char_range [of c] by (auto simp: is_space_def Let_def)
  qed (auto simp: is_space_def)
qed

text \<open>C33. A new upload is created only when there is room for it: the usage with the new upload counted in, together
  with all reservations still held, fits the allocation, the row starts without chunks, and its reservation is
  given back in the same transaction.\<close>

theorem created_upload_fits:
  assumes c: "create_upload m now sc roles r l = Inr (u, l')" and v: "valid_request r0 = Some r"
    and fresh: "filter (is_reservation (fst sc) (upload_key (next_id (lb_db l)))) (reservations (lb_db l)) = []"
  shows "(\<exists>a. find_allocation (fst sc) (lb_db l') = Some a \<and>
      total_bytes (usage (fst sc) (accounted l')) + reserved_total now (fst sc) (lb_db l') \<le> a_bytes a) \<and>
    total_bytes (usage (fst sc) (accounted l')) = total_bytes (usage (fst sc) (accounted l)) + int (ur_size r) \<and>
    reserved_total now (fst sc) (lb_db l') = reserved_total now (fst sc) (lb_db l) \<and>
    lb_uploads l' = lb_uploads l @ [u] \<and> u_status u = UPending \<and> u_received u = [] \<and> ur_size r \<le> m"
  using c
proof (rule create_upload_Inr)
  fix folder name s1 q s2 b
  let ?tn = "fst sc" and ?n = "next_id (lb_db l)"
  let ?s = "(accounted l)\<lparr>next_id := Suc ?n\<rparr>"
  assume u: "u = new_upload ?n sc folder name (upload_content_type (ur_name r) (ur_type r)) (ur_size r) (ur_rename r)"
    and r1: "reserve_capacity now ?tn (upload_key ?n) (int (ur_size r)) roles (Some (fst (snd sc))) 900 ?s = Inr (q, s1)"
    and r2: "release_capacity now ?tn (upload_key ?n) ''committed'' s1 = Inr (b, s2)"
    and l': "l' = l\<lparr>lb_db := s2, lb_uploads := lb_uploads l @ [u]\<rparr>" and m: "ur_size r \<le> m"
  have s: "usage ?tn ?s = usage ?tn (accounted l)" "reserved_total now ?tn ?s = reserved_total now ?tn (lb_db l)" "reservations ?s = reservations (lb_db l)"
    by (simp_all add: usage_def metrics_def exact_usage_def reserved_total_def accounted_def)
  note tab = reserve_capacity_tables [OF r1] release_capacity_tables [OF r2]
  have "usage ?tn ((lb_db l')\<lparr>uploads := x, library_files := y\<rparr>) = usage ?tn ((lb_db l)\<lparr>uploads := x, library_files := y\<rparr>)" for x y
    by (rule usage_tables) (use tab in \<open>simp_all add: l' accounted_def\<close>)
  moreover have "counted ?tn u" "u_size u = ur_size r" by (simp_all add: u new_upload_def counted_def reserving_def)
  then have "pending_sum ?tn (lb_uploads l') = pending_sum ?tn (lb_uploads l) + int (ur_size r)" by (simp add: pending_sum_def l')
  ultimately have grow: "total_bytes (usage ?tn (accounted l')) = total_bytes (usage ?tn (accounted l)) + int (ur_size r)"
    by (simp add: usage_accounted total_bytes_def l')
  from r1 show ?thesis
  proof (cases rule: reserve_capacity_cases)
    case (held a)
    then have "filter (is_reservation ?tn (upload_key ?n)) (reservations (lb_db l)) = [q]"
      using s(3) by (simp add: reservation_row_def strip_upload_key)
    then show ?thesis using fresh by simp
  next
    case (granted a s3)
    have al: "find_allocation ?tn s1 = Some a"
      using ensure_allocation_found [OF granted(1)] find_allocation_frame [OF granted(9)] by simp
    have row: "reservation_row ?tn (upload_key ?n) s1 = [q]" using granted(2) by (simp add: strip_upload_key)
    obtain s' where "release_capacity now ?tn (upload_key ?n) ''committed'' s1 = Inr (True, s')"
      and res: "reserved_total now ?tn s' = reserved_total now ?tn s1 - q_bytes q"
      using release_capacity_once [OF row granted(3), of "''committed''" "''committed''" now] by auto
    then have "s' = s2" using r2 by simp
    then have "reserved_total now ?tn s2 = reserved_total now ?tn (lb_db l)" using res granted(5,7) s(2) by simp
    moreover have "find_allocation ?tn s2 = Some a" using al find_allocation_frame [of s2 s1] tab by simp
    moreover have "total_bytes (usage ?tn (accounted l)) + reserved_total now ?tn (lb_db l) + int (ur_size r) \<le> a_bytes a"
      using granted(7,8,10) s by simp
    ultimately show ?thesis using grow m u by (simp add: l' new_upload_def)
  qed
qed

section \<open>Free names\<close>

lemma unique_loop_spec:
  "\<exists>k \<ge> n. unique_loop reserved stem ext n = candidate stem ext k \<and> candidate stem ext k \<notin> set reserved \<and>
     candidate stem ext ` {n..<k} \<subseteq> set reserved"
proof (induction reserved stem ext n rule: unique_loop.induct)
  case (1 reserved stem ext n)
  show ?case
  proof (cases "candidate stem ext n \<in> set reserved")
    case True
    then obtain k where k: "Suc n \<le> k" "unique_loop reserved stem ext (Suc n) = candidate stem ext k" "candidate stem ext k \<notin> set reserved"
      "candidate stem ext ` {Suc n..<k} \<subseteq> set reserved" using 1 by auto
    moreover have "{n..<k} = insert n {Suc n..<k}" using k(1) by auto
    ultimately show ?thesis using True by (intro exI [of _ k]) (simp add: unique_loop.simps [of reserved stem ext n])
  qed (use unique_loop.simps [of reserved stem ext n] in auto)
qed

lemma last_split: "xs @ c # ys = xs' @ c # ys' \<Longrightarrow> c \<notin> set ys \<Longrightarrow> c \<notin> set ys' \<Longrightarrow> xs = xs'"
proof (induction xs arbitrary: xs')
  case Nil
  then show ?case by (cases xs') auto
next
  case (Cons x xs)
  then show ?case by (cases xs') auto
qed

lemma in_set_tlD: "x \<in> set (tl xs) \<Longrightarrow> x \<in> set xs"
  by (cases xs) auto

lemma split_extension_dot: "split_extension name = (stem, ext) \<Longrightarrow> ext = [] \<or> (\<exists>e. ext = CHR ''.'' # e \<and> CHR ''.'' \<notin> set e)"
  by (auto simp: split_extension_def rpartition_dot_def split: if_splits dest: set_takeWhileD)

lemma split_extension_chars: "split_extension name = (stem, ext) \<Longrightarrow> set stem \<union> set ext \<subseteq> insert (CHR ''.'') (set name)"
  by (auto simp: split_extension_def rpartition_dot_def split: if_splits dest!: set_takeWhileD set_dropWhileD in_set_tlD)

lemma candidate_inj:
  assumes "split_extension name = (stem, ext)" and "length (suffix_text n) \<le> 253" "length (suffix_text k) \<le> 253"
    and c: "candidate stem ext n = candidate stem ext k"
  shows "n = k"
  using split_extension_dot [OF assms(1)]
proof
  assume "ext = []"
  then have "take (max 1 (255 - length (suffix_text n))) stem @ suffix_text n = take (max 1 (255 - length (suffix_text k))) stem @ suffix_text k"
    using c by (simp add: candidate_def Let_def)
  then show ?thesis by (rule suffix_text_inj)
next
  assume "\<exists>e. ext = CHR ''.'' # e \<and> CHR ''.'' \<notin> set e"
  then obtain e where e: "ext = CHR ''.'' # e" "CHR ''.'' \<notin> set e" by blast
  have "\<exists>x y. candidate stem ext i = (x @ suffix_text i) @ CHR ''.'' # take y e" if "length (suffix_text i) \<le> 253" for i
  proof -
    have "254 - length (suffix_text i) = Suc (253 - length (suffix_text i))" using that by simp
    then show ?thesis unfolding candidate_def Let_def e(1) by simp blast
  qed
  then obtain x y x' y' where "candidate stem ext n = (x @ suffix_text n) @ CHR ''.'' # take y e"
    "candidate stem ext k = (x' @ suffix_text k) @ CHR ''.'' # take y' e" using assms(2,3) by meson
  then have "x @ suffix_text n = x' @ suffix_text k" using c e(2) by (metis in_set_takeD last_split)
  then show ?thesis by (rule suffix_text_inj)
qed

lemma length_candidate: "length (suffix_text n) \<le> 254 \<Longrightarrow> length (candidate stem ext n) \<le> 255"
proof -
  assume s: "length (suffix_text n) \<le> 254"
  define e where "e = length (take (254 - length (suffix_text n)) ext)"
  have "e \<le> 254 - length (suffix_text n)" by (simp add: e_def)
  then have "max 1 (255 - length (suffix_text n) - e) = 255 - length (suffix_text n) - e" using s by linarith
  then have "length (candidate stem ext n) \<le> (255 - length (suffix_text n) - e) + length (suffix_text n) + e"
    unfolding candidate_def Let_def length_append e_def [symmetric] by simp
  then show ?thesis using s \<open>e \<le> 254 - length (suffix_text n)\<close> by linarith
qed

text \<open>The search for a free name always ends.  \<open>unique_library_filename\<close> returns a name that is not taken, the
  given one when that is free; the name has at most 255 characters (for up to \<open>10 ^ 200\<close> taken names), and
  every character is allowed when those of the given name are.\<close>

theorem unique_filename_is_free:
  "let r = unique_library_filename name reserved
   in r \<notin> set reserved \<and> (name \<notin> set reserved \<longrightarrow> r = name) \<and>
      (length name \<le> 255 \<and> length reserved \<le> 10 ^ 200 \<longrightarrow> length r \<le> 255) \<and>
      (list_all safe_name_char name \<longrightarrow> list_all safe_name_char r)"
proof (cases "name \<in> set reserved")
  case True
  obtain stem ext where se: "split_extension name = (stem, ext)" by (cases "split_extension name")
  obtain k where k: "2 \<le> k" "unique_loop reserved stem ext 2 = candidate stem ext k" "candidate stem ext k \<notin> set reserved"
    "candidate stem ext ` {2..<k} \<subseteq> set reserved" using unique_loop_spec by blast
  have r: "unique_library_filename name reserved = candidate stem ext k" using True se k(2) by (simp add: unique_library_filename_def)
  have "length (candidate stem ext k) \<le> 255" if lim: "length reserved \<le> 10 ^ 200"
  proof -
    have short: "length (suffix_text i) \<le> 253" if "i < 10 ^ 201" for i
      using length_digits_less [OF that] by (simp add: length_suffix_text)
    have "k < 10 ^ 201"
    proof (rule ccontr)
      assume "\<not> k < 10 ^ 201"
      then have "candidate stem ext ` {2..<10 ^ 201} \<subseteq> set reserved" using k(4) by (auto simp: image_subset_iff)
      moreover have "inj_on (candidate stem ext) {2..<10 ^ 201}"
        by (intro inj_onI) (use short candidate_inj [OF se] in auto)
      ultimately have "card {2..<(10 :: nat) ^ 201} \<le> card (set reserved)" by (metis card_image card_mono List.finite_set)
      also have "\<dots> \<le> 10 ^ 200" using card_length [of reserved] lim by linarith
      finally show False by simp
    qed
    then show ?thesis using length_candidate [of k] short [of k] by simp
  qed
  moreover have "safe_name_char c" if "list_all safe_name_char name" "c \<in> set (candidate stem ext k)" for c
  proof -
    have "c \<in> set stem \<union> set ext \<union> set (suffix_text k)" using that(2) by (auto simp: candidate_def Let_def dest: in_set_takeD)
    then consider "c \<in> set name" | "c = CHR ''.''" | "c \<in> set '' ()''" | "is_digit c"
      using split_extension_chars [OF se] digits10_all_digits [of k] by (auto simp: suffix_text_def list_all_iff)
    then show ?thesis
    proof cases
      case 1
      then show ?thesis using that(1) by (simp add: list_all_iff)
    next
      case 4
      then have "c \<noteq> CHR ''/''" by (auto simp: is_digit_def)
      with 4 show ?thesis by (simp add: is_digit_def safe_name_char_def)
    qed (auto simp: safe_name_char_def)
  qed
  ultimately show ?thesis using k(3) True by (simp add: r Let_def list_all_iff)
qed (simp add: unique_library_filename_def Let_def)

section \<open>Resuming an upload\<close>

definition slice :: "upload \<Rightarrow> bytes \<Rightarrow> nat \<Rightarrow> bytes" where
  "slice u payload i = take (chunk_len u i) (drop (i * u_chunk u) payload)"

lemma length_slice:
  assumes "upload_ok u" and "length payload = u_size u" and "i < u_total u"
  shows "length (slice u payload i) = chunk_len u i"
  using assms total_covers(2) [OF assms(1,3)] upload_okD(2) [OF assms(1)] by (simp add: slice_def chunk_len_def)

lemma slice_same: "same_upload u r \<Longrightarrow> slice u = slice r"
proof -
  assume s: "same_upload u r"
  have "chunk_len u = chunk_len r" by (rule chunk_len_same [OF s])
  moreover have "u_chunk u = u_chunk r" using s by (simp add: same_upload_def)
  ultimately show ?thesis by (intro ext) (simp only: slice_def)
qed

lemma concat_payload:
  assumes "upload_ok u" and "length payload = u_size u"
  shows "concat (map (slice u payload) [0..<u_total u]) = payload"
  using concat_slices [of payload "u_total u" chunk_size] total_covers(1) [OF assms(1)] assms(2) upload_okD(2) [OF assms(1)]
  by (simp add: slice_def [abs_def] chunk_len_def)

text \<open>Sending the first chunks of the payload again.\<close>

definition sent :: "nat \<Rightarrow> upload \<Rightarrow> bytes \<Rightarrow> nat \<Rightarrow> (nat \<times> nat \<times> bytes) set" where
  "sent k u payload n = (\<lambda>i. (k, i, slice u payload i)) ` {..<n}"

lemma send_chunks:
  assumes i: "lib_inv l" and u: "find_upload k l = Some u" and c: "lib_conversation (u_scope u) (lb_db l) = Inr ()"
    and s: "u_status u \<in> {UPending, UUploading, UQueued}" and p: "length payload = u_size u" and n: "n \<le> u_total u"
  shows "\<exists>l' r. lib_reachable m l l' \<and> find_upload k l' = Some r \<and> same_upload r u \<and> u_name r = u_name u \<and>
    u_status r \<in> {UPending, UUploading, UQueued} \<and> {..<n} \<subseteq> set (u_received r) \<and>
    (\<forall>i < n. lb_objects l' (ChunkKey (fst (u_scope u)) k i) = Some (slice u payload i)) \<and>
    lb_jobs l' = lb_jobs l \<and> lb_files l' = lb_files l \<and> lb_db l' = lb_db l \<and> set (lb_puts l') = set (lb_puts l) \<union> sent k u payload n"
  using n
proof (induction n)
  case 0
  then show ?case using u s lib_reachable.start by (intro exI [of _ l] exI [of _ u]) (auto simp: sent_def)
next
  case (Suc n)
  then obtain l' r where l': "lib_reachable m l l'" "find_upload k l' = Some r" "same_upload r u" "u_name r = u_name u"
    "u_status r \<in> {UPending, UUploading, UQueued}" "{..<n} \<subseteq> set (u_received r)"
    "\<forall>i < n. lb_objects l' (ChunkKey (fst (u_scope u)) k i) = Some (slice u payload i)" "lb_jobs l' = lb_jobs l" "lb_files l' = lb_files l" "lb_db l' = lb_db l"
    "set (lb_puts l') = set (lb_puts l) \<union> sent k u payload n"
    by auto
  have i': "lib_inv l'" by (rule lib_reachable_inv [OF l'(1) i])
  have ok: "upload_ok r" using row_known [OF i' owned_find(3) [OF i' l'(2)]] by (simp add: known_def)
  have sc: "u_scope r = u_scope u" "u_size r = u_size u" "u_total r = u_total u" using l'(3) by (simp_all add: same_upload_def)
  have k: "u_id r = k" by (rule owned_find(2) [OF i' l'(2)])
  let ?b = "slice r payload n"
  let ?l = "save_chunk r n (put_chunk r n ?b l')"
  have "begin_chunk (u_scope r) k (int n) None ?b l' = Inr (r, n)"
    by (rule chunk_accepted [OF i' l'(2)]) (use c l' sc Suc.prems length_slice [OF ok] p in simp_all)
  then have reach: "lib_reachable m l ?l" using chunk_request l'(1) lib_reachable_trans by blast
  have fl: "flush r (with_chunk n r) r = with_chunk n r" by (rule flush_loaded) (simp add: same_sym)
  have f: "find_upload k ?l = Some (with_chunk n r)" using l'(2) chunk_simps(17) [of r n "put_chunk r n ?b l'"] by (simp add: k fl)
  have "u_status (with_chunk n r) = UUploading" "u_name (with_chunk n r) = u_name r" by (simp_all add: with_chunk_def Let_def)
  moreover have "\<forall>i < Suc n. lb_objects ?l (ChunkKey (fst (u_scope u)) k i) = Some (slice u payload i)"
    using l'(7) sc slice_same [OF l'(3)] by (simp add: k less_Suc_eq)
  moreover have "{..<Suc n} \<subseteq> set (u_received (with_chunk n r))" using l'(6) by (auto simp: lessThan_Suc)
  moreover have "set (lb_puts ?l) = set (lb_puts l) \<union> sent k u payload (Suc n)"
    using l'(11) slice_same [OF l'(3)] by (simp add: k sent_def lessThan_Suc)
  ultimately show ?case using reach f l' by (intro exI [of _ ?l] exI [of _ "with_chunk n r"]) simp
qed

text \<open>The worker reads the chunks.\<close>

lemma read_chunks:
  assumes "\<forall>i < u_total u. lb_objects l (ChunkKey (fst (u_scope u)) (u_id u) i) = Some (slice u payload i)" and "n \<le> u_total u"
  shows "lib_reachable m (add_jobs [ReadJob u t []] l) (add_jobs [ReadJob u t (map (slice u payload) [0..<n])] l)"
  using assms(2)
proof (induction n)
  case 0
  show ?case by (simp add: lib_reachable.start)
next
  case (Suc n)
  let ?parts = "map (slice u payload) [0..<n]"
  have "lib_reachable m (add_jobs [ReadJob u t ?parts] l) (run_job m True (\<lambda>_. True) (ReadJob u t ?parts) l)"
    using run_first [of m "ReadJob u t ?parts" "[]" l] by simp
  moreover have "run_job m True (\<lambda>_. True) (ReadJob u t ?parts) l = add_jobs [ReadJob u t (map (slice u payload) [0..<Suc n])] l"
    using Suc.prems assms(1) by simp
  ultimately show ?case using Suc lib_reachable_trans by (metis Suc_leD)
qed

lemma store_and_publish:
  assumes i: "lib_inv l" and u: "find_upload (u_id u) l = Some u" and s: "u_status u = UProcessing" and p: "length payload = u_size u" "u_size u \<le> m"
    and free: "\<not> row_refused (new_file f u payload) l" and f: "f = next_id (lb_db l)"
  shows "\<exists>l' w. lib_reachable m (add_jobs [StoreJob u t payload] l) l' \<and> find_upload (u_id u) l' =
      Some (u\<lparr>u_file := Some (w_id w), u_bytes := length payload, u_received := [0..<u_total u], u_status := UCompleted\<rparr>) \<and>
    w \<in> set (lb_files l') \<and> w_name w = u_name u \<and> file_holds l' w payload \<and> lb_jobs l' = lb_jobs l \<and> lb_puts l' = lb_puts l"
proof -
  let ?w = "new_file f u payload"
  let ?l1 = "l\<lparr>lb_db := (lb_db l)\<lparr>next_id := Suc f\<rparr>\<rparr>"
  let ?l2 = "case w_key ?w of None \<Rightarrow> ?l1 | Some x \<Rightarrow> ?l1\<lparr>lb_objects := (lb_objects l)(x \<mapsto> payload)\<rparr>"
  let ?r = "u\<lparr>u_file := Some (w_id ?w), u_bytes := length payload, u_received := [0..<u_total u], u_status := UCompleted\<rparr>"
  let ?l3 = "(write_back u ?r ?l2)\<lparr>lb_files := lb_files l @ [?w], lb_versions := lb_versions l @ [?w]\<rparr>"
  have t2: "lb_files ?l2 = lb_files l" "lb_versions ?l2 = lb_versions l" "lb_jobs ?l2 = lb_jobs l" "lb_puts ?l2 = lb_puts l" "find_upload (u_id u) ?l2 = Some u"
    using u by (simp_all split: option.split)
  have "run_job m True (\<lambda>_. True) (StoreJob u t payload) l = add_jobs [PublishJob u t payload ?w] ?l2"
    using p f by (auto simp: Let_def split: option.split)
  then have r1: "lib_reachable m (add_jobs [StoreJob u t payload] l) (add_jobs [PublishJob u t payload ?w] ?l2)"
    using run_first [of m "StoreJob u t payload" "[]" l True "\<lambda>_. True"] by (simp del: run_job.simps)
  have "\<not> row_refused ?w ?l2" using free t2(1) by (simp add: row_refused_def name_taken_def)
  then have "run_job m True (\<lambda>_. True) (PublishJob u t payload ?w) ?l2 = publish_file u payload ?w ?l2"
    using t2(5) s by simp
  then have r2: "lib_reachable m (add_jobs [PublishJob u t payload ?w] ?l2) (publish_file u payload ?w ?l2)"
    using run_first [of m "PublishJob u t payload ?w" "[]" ?l2 True "\<lambda>_. True"] by (simp del: run_job.simps)
  have pub: "publish_file u payload ?w ?l2 = add_jobs [DropJob ?r] (add_tasks (file_tasks (fst (u_scope u)) ?w) ?l3)"
    unfolding publish_file_def Let_def t2(1,2) by simp
  let ?l4 = "drop_chunks (\<lambda>_. True) ?r (add_tasks (file_tasks (fst (u_scope u)) ?w) ?l3)"
  have r3: "lib_reachable m (publish_file u payload ?w ?l2) ?l4"
    unfolding pub using run_first [of m "DropJob ?r" "[]" "add_tasks (file_tasks (fst (u_scope u)) ?w) ?l3" True "\<lambda>_. True"] by simp
  have reach: "lib_reachable m (add_jobs [StoreJob u t payload] l) ?l4" using r1 r2 r3 lib_reachable_trans by blast
  have fl: "flush u ?r u = ?r" by (rule flush_loaded) (simp add: same_upload_def)
  have "find_upload (u_id u) ?l4 = Some ?r"
    using find_write_back [of u ?r ?l2] t2(5) fl by (simp add: drop_chunks_def add_tasks_def)
  moreover have "file_holds ?l4 ?w payload"
    by (auto simp: file_holds_def new_file_def Let_def drop_chunks_def is_chunk_of_def add_tasks_def split: option.splits)
  moreover have "?w \<in> set (lb_files ?l4)" "lb_jobs ?l4 = lb_jobs l" "lb_puts ?l4 = lb_puts l" using t2(3,4) by (simp_all add: drop_chunks_def add_tasks_def)
  moreover have "w_name ?w = u_name u" by (simp add: new_file_def Let_def)
  ultimately show ?thesis using reach by blast
qed

text \<open>All of it together.\<close>

lemma upload_finishes:
  assumes reach: "lib_reachable m (empty_library s folders) l" and u: "find_upload k l = Some u"
    and c: "lib_conversation (u_scope u) (lb_db l) = Inr ()" and st: "u_status u \<in> {UPending, UUploading, UQueued}"
    and p: "length payload = u_size u" "u_size u \<le> m" and name: "\<not> u_rename u"
    and free: "\<forall>w \<in> set (lb_files l). snd (snd (w_scope w)) = snd (snd (u_scope u)) \<and> w_folder w = u_folder u \<longrightarrow> w_name w \<noteq> u_name u"
    and nul: "stored_as_object (u_type u) payload \<or> 0 \<notin> set (utf8_decode payload)"
  shows "\<exists>l' r w. lib_reachable m l l' \<and> find_upload k l' = Some r \<and> u_status r = UCompleted \<and> u_file r = Some (w_id w) \<and>
    w \<in> set (lb_files l') \<and> w_name w = u_name u \<and> file_holds l' w payload \<and> lb_jobs l' = lb_jobs l \<and>
    set (lb_puts l') = set (lb_puts l) \<union> sent k u payload (u_total u) \<and> same_upload r u"
proof -
  have i: "lib_inv l" using reach by (rule reachable_library)
  let ?tn = "fst (u_scope u)"
  obtain l1 r1 where l1: "lib_reachable m l l1" "find_upload k l1 = Some r1" "same_upload r1 u" "u_name r1 = u_name u"
    "u_status r1 \<in> {UPending, UUploading, UQueued}" "{..<u_total u} \<subseteq> set (u_received r1)"
    "\<forall>i < u_total u. lb_objects l1 (ChunkKey ?tn k i) = Some (slice u payload i)" "lb_jobs l1 = lb_jobs l" "lb_files l1 = lb_files l" "lb_db l1 = lb_db l"
    "set (lb_puts l1) = set (lb_puts l) \<union> sent k u payload (u_total u)"
    using send_chunks [OF i u c st p(1), of "u_total u" m] by auto
  have i1: "lib_inv l1" by (rule lib_reachable_inv [OF l1(1) i])
  have ok: "upload_ok r1" using row_known [OF i1 owned_find(3) [OF i1 l1(2)]] by (simp add: known_def)
  have k: "u_id r1 = k" by (rule owned_find(2) [OF i1 l1(2)])
  have sc: "u_scope r1 = u_scope u" "u_total r1 = u_total u" "u_size r1 = u_size u" "u_rename r1 = u_rename u" "u_folder r1 = u_folder u"
    using l1(3) by (simp_all add: same_upload_def)
  have "set (u_received r1) = {..<u_total r1}" using upload_okD(5) [OF ok] l1(6) sc by auto
  then have full: "length (u_received r1) = u_total r1"
    using upload_okD(4) [OF ok] by (metis card_lessThan distinct_card strict_sorted_iff)
  let ?l2 = "queue_upload r1 l1"
  have r2: "lib_reachable m l1 ?l2" "find_upload k ?l2 = Some (r1\<lparr>u_status := UQueued\<rparr>)"
    by (rule complete_request [OF i1 l1(2)]; use c l1 sc full in auto)+
  have i2: "lib_inv ?l2" by (rule lib_reachable_inv [OF r2(1) i1])
  let ?q = "r1\<lparr>u_status := UQueued\<rparr>"
  let ?u = "?q\<lparr>u_status := UProcessing, u_error := None\<rparr>"
  let ?l3 = "write_back ?q ?u ?l2"
  have "begin_finalize ?tn k 0 ?l2 = add_jobs [ReadJob ?u 0 []] ?l3"
    using owned_find(4) [OF i2 r2(2)] sc by (simp add: begin_finalize_def Let_def)
  moreover have "FinalizeUpload ?tn k 0 \<in> set (lb_tasks ?l2)" using k sc by simp
  ultimately have r3: "lib_reachable m ?l2 (add_jobs [ReadJob ?u 0 []] ?l3)" using reach1 [OF delivered] by metis
  have "slice ?u = slice u" using l1(3) by (intro slice_same) simp
  then have objs: "\<forall>i < u_total ?u. lb_objects ?l3 (ChunkKey (fst (u_scope ?u)) (u_id ?u) i) = Some (slice ?u payload i)"
    using l1(7) k sc by simp
  have okq: "upload_ok ?u" using ok by simp
  have conc: "concat (map (slice ?u payload) [0..<u_total ?u]) = payload" by (rule concat_payload [OF okq]) (use p sc in simp)
  have r4: "lib_reachable m (add_jobs [ReadJob ?u 0 []] ?l3) (add_jobs [ReadJob ?u 0 (map (slice ?u payload) [0..<u_total ?u])] ?l3)"
    by (rule read_chunks [OF objs]) simp
  have "run_job m True (\<lambda>_. True) (ReadJob ?u 0 (map (slice ?u payload) [0..<u_total ?u])) ?l3 = add_jobs [StoreJob ?u 0 payload] ?l3"
    using conc name sc by simp
  then have r5: "lib_reachable m (add_jobs [ReadJob ?u 0 (map (slice ?u payload) [0..<u_total ?u])] ?l3) (add_jobs [StoreJob ?u 0 payload] ?l3)"
    using run_first [of m "ReadJob ?u 0 (map (slice ?u payload) [0..<u_total ?u])" "[]" ?l3 True "\<lambda>_. True"] by (simp del: run_job.simps)
  have to3: "lib_reachable m l (add_jobs [StoreJob ?u 0 payload] ?l3)" using l1(1) r2(1) r3 r4 r5 lib_reachable_trans by meson
  have fl: "flush ?q ?u ?q = ?u" by (rule flush_loaded) (simp add: same_upload_def)
  have f3: "find_upload (u_id ?u) ?l3 = Some ?u" using find_write_back [of ?q ?u ?l2] r2(2) k fl by simp
  have kq: "known ?l2 ?q" using row_known [OF i2 owned_find(3) [OF i2 r2(2)]] by simp
  have i3: "lib_inv ?l3" by (rule write_back_inv [OF i2 kq]) (use kq in simp_all)
  have nt: "\<not> row_refused (new_file (next_id (lb_db ?l3)) ?u payload) ?l3"
    using free nul l1(3,4,9) sc by (auto simp: row_refused_def name_taken_def new_file_def Let_def same_upload_def)
  have s3: "u_status ?u = UProcessing" "length payload = u_size ?u" "u_size ?u \<le> m" using p sc by simp_all
  obtain l' w where w: "lib_reachable m (add_jobs [StoreJob ?u 0 payload] ?l3) l'" "find_upload (u_id ?u) l' =
      Some (?u\<lparr>u_file := Some (w_id w), u_bytes := length payload, u_received := [0..<u_total ?u], u_status := UCompleted\<rparr>)"
    "w \<in> set (lb_files l')" "w_name w = u_name ?u" "file_holds l' w payload" "lb_jobs l' = lb_jobs ?l3" "lb_puts l' = lb_puts ?l3"
    using store_and_publish [OF i3 f3 s3 nt refl, of 0] by (elim exE conjE)
  have "lib_reachable m l l'" using to3 w(1) lib_reachable_trans by blast
  moreover have "find_upload k l' = Some (?u\<lparr>u_file := Some (w_id w), u_bytes := length payload, u_received := [0..<u_total ?u], u_status := UCompleted\<rparr>)"
    using w(2) k by simp
  moreover have "w_name w = u_name u" using w(4) l1(4) by simp
  moreover have "lb_jobs l' = lb_jobs l" using w(6) l1(8) by simp
  moreover have "set (lb_puts l') = set (lb_puts l) \<union> sent k u payload (u_total u)" using w(7) l1(11) by simp
  moreover have "same_upload (?u\<lparr>u_file := Some (w_id w), u_bytes := length payload, u_received := [0..<u_total ?u], u_status := UCompleted\<rparr>) u"
    using l1(3) by (simp add: same_upload_def)
  ultimately show ?thesis using w(3,5)
    by (intro exI [of _ l'] exI [of _ "?u\<lparr>u_file := Some (w_id w), u_bytes := length payload, u_received := [0..<u_total ?u], u_status := UCompleted\<rparr>"]
        exI [of _ w]) simp
qed


section \<open>A text with a NUL\<close>

text \<open>A small file that is kept as text and has a NUL byte, a UTF-16 text for instance, is refused by the database
  at every attempt to publish it.\<close>

theorem text_with_nul_refused:
  assumes "\<not> stored_as_object (u_type u) payload" and "CHR 0x00 \<in> set payload" and "w = new_file f u payload"
  shows "run_job m ok gone (PublishJob u n payload w) l = add_jobs [FailJob u n] l"
  using nul_decoded [OF assms(2)] assms(1,3) by (simp add: new_file_def Let_def row_refused_def drop_object_def)

section \<open>The properties at concrete inputs\<close>

text \<open>A member uploads the three bytes of \<open>abc\<close>.\<close>

definition upload_db :: db where
  "upload_db = quota_db\<lparr>conversations := [\<lparr>v_scope = (1, 2, 3), v_kind = ''deepspace''\<rparr>]\<rparr>"

definition abc_request :: upload_request where
  "abc_request = \<lparr>ur_name = ''a.txt'', ur_size = 3, ur_type = ''text/plain'', ur_folder = None, ur_rename = False\<rparr>"

lemma empty_library_simps [simp]:
  "lb_uploads (empty_library s fs) = []" "lb_files (empty_library s fs) = []" "lb_puts (empty_library s fs) = []" "lb_db (empty_library s fs) = s"
  by (simp_all add: empty_library_def)

lemma abc_created:
  obtains u l where "create_upload 1000 5 (1, 2, 3) [] abc_request (empty_library upload_db []) = Inr (u, l)"
    "find_upload 10 l = Some u" "u_scope u = (1, 2, 3)" "u_status u = UPending" "u_size u = 3" "u_total u = 1" "u_chunk u = chunk_size" "\<not> u_rename u"
    "lib_conversation (1, 2, 3) (lb_db l) = Inr ()" "lb_files l = []" "lb_puts l = []"
proof -
  let ?l = "empty_library upload_db []"
  let ?s = "(accounted ?l)\<lparr>next_id := 11\<rparr>"
  have "lib_conversation (1, 2, 3) (lb_db ?l) = Inr ()" "parse_folder (ur_folder abc_request) = Inr None" "folder_found (1, 2, 3) None ?l = Inr ()"
    "chosen_name (1, 2, 3) abc_request None ?l = Inr ''a.txt''" "upload_content_type (ur_name abc_request) (ur_type abc_request) = ''text/plain''"
    "''text/plain'' \<in> set library_content_types" "ur_size abc_request = 3" "ur_rename abc_request = False" "next_id (accounted ?l) = 10"
    by code_simp+
  note checks = this
  have "case reserve_capacity 5 1 (upload_key 10) 3 [] (Some 2) 900 ?s of Inl _ \<Rightarrow> False | Inr (q, s1) \<Rightarrow>
      (case release_capacity 5 1 (upload_key 10) ''committed'' s1 of Inl _ \<Rightarrow> False | Inr (b, s2) \<Rightarrow> lib_conversation (1, 2, 3) s2 = Inr ())"
    by code_simp
  then obtain q s1 where r: "reserve_capacity 5 1 (upload_key 10) 3 [] (Some 2) 900 ?s = Inr (q, s1)" and
    s1: "case release_capacity 5 1 (upload_key 10) ''committed'' s1 of Inl _ \<Rightarrow> False | Inr (b, s2) \<Rightarrow> lib_conversation (1, 2, 3) s2 = Inr ()"
    by (cases "reserve_capacity 5 1 (upload_key 10) 3 [] (Some 2) 900 ?s") auto
  then obtain b s2 where "release_capacity 5 1 (upload_key 10) ''committed'' s1 = Inr (b, s2)" "lib_conversation (1, 2, 3) s2 = Inr ()"
    by (cases "release_capacity 5 1 (upload_key 10) ''committed'' s1") auto
  note this r
  with checks have "create_upload 1000 5 (1, 2, 3) [] abc_request ?l =
      Inr (new_upload 10 (1, 2, 3) None ''a.txt'' ''text/plain'' 3 False,
           ?l\<lparr>lb_db := s2, lb_uploads := [new_upload 10 (1, 2, 3) None ''a.txt'' ''text/plain'' 3 False]\<rparr>)"
    by (simp add: create_upload_def Let_def)
  from that [OF this] show thesis using \<open>lib_conversation (1, 2, 3) s2 = Inr ()\<close>
    by (simp add: new_upload_def find_upload_def chunk_size_def empty_library_def)
qed

lemma abc_valid: "valid_request abc_request = Some abc_request"
  by code_simp

lemma abc_decoded: "0 \<notin> set (utf8_decode ''abc'')"
  by code_simp

text \<open>The same upload up to its publication.\<close>

lemma abc_published:
  obtains l r w where "lib_reachable 1000 (empty_library upload_db []) l" "find_upload 10 l = Some r" "u_status r = UCompleted" "u_file r = Some (w_id w)"
    "u_size r = 3" "u_id r = 10" "u_chunk r = chunk_size" "w \<in> set (lb_files l)" "\<forall>i b. (10, i, b) \<in> set (lb_puts l) \<longrightarrow> i = 0 \<and> b = ''abc''"
proof (rule abc_created)
  fix u l assume c: "create_upload 1000 5 (1, 2, 3) [] abc_request (empty_library upload_db []) = Inr (u, l)" and
    u: "find_upload 10 l = Some u" "u_scope u = (1, 2, 3)" "u_status u = UPending" "u_size u = 3" "u_total u = 1" "u_chunk u = chunk_size" "\<not> u_rename u"
    "lib_conversation (1, 2, 3) (lb_db l) = Inr ()" "lb_files l = []" "lb_puts l = []"
  have r: "lib_reachable 1000 (empty_library upload_db []) l" by (rule reach1 [OF created [OF c abc_valid]])
  obtain l' r' w where l': "lib_reachable 1000 l l'" "find_upload 10 l' = Some r'" "u_status r' = UCompleted" "u_file r' = Some (w_id w)"
    "w \<in> set (lb_files l')" "set (lb_puts l') = set (lb_puts l) \<union> sent 10 u ''abc'' (u_total u)" "same_upload r' u"
    using upload_finishes [OF r u(1), of "''abc''"] u abc_decoded by auto
  have r2: "lib_reachable 1000 (empty_library upload_db []) l'" using r l'(1) lib_reachable_trans by blast
  have puts: "set (lb_puts l') = {(10, 0, ''abc'')}"
    using l'(6) u by (simp add: sent_def slice_def chunk_len_def chunk_size_def lessThan_Suc)
  have "u_id r' = 10" using upload_table.find_key l'(2) by fastforce
  then show thesis using l'(7) u by (intro that [OF r2 l'(2,3,4) _ _ _ l'(5)]) (simp_all add: puts same_upload_def)
qed

theorem upload_rows_well_formed_witness:
  "\<exists>l. lib_reachable 1000 (empty_library upload_db []) l \<and> lb_uploads l \<noteq> [] \<and>
    (\<forall>u \<in> set (lb_uploads l). 0 < u_size u \<and> u_total u = (u_size u + chunk_size - 1) div chunk_size \<and>
      sorted_wrt (<) (u_received u) \<and> set (u_received u) \<subseteq> {..<u_total u} \<and>
      u_bytes u = sum_list (map (chunk_len u) (u_received u)) \<and> u_bytes u \<le> u_size u \<and> progress_percent u \<le> 100 \<and>
      (u_bytes u = u_size u \<longleftrightarrow> length (u_received u) = u_total u))"
proof -
  obtain u l where c: "create_upload 1000 5 (1, 2, 3) [] abc_request (empty_library upload_db []) = Inr (u, l)" and u: "find_upload 10 l = Some u"
    by (rule abc_created)
  have "lib_reachable 1000 (empty_library upload_db []) l" by (rule reach1 [OF created [OF c abc_valid]])
  from this upload_rows_well_formed [OF this] show ?thesis using u by (intro exI [of _ l]) (simp add: find_upload_def; fastforce)
qed

theorem created_upload_fits_witness:
  "case create_upload 1000 5 (1, 2, 3) [] abc_request (empty_library upload_db []) of Inl _ \<Rightarrow> False
   | Inr (u, l') \<Rightarrow> (\<exists>a. find_allocation 1 (lb_db l') = Some a \<and>
        total_bytes (usage 1 (accounted l')) + reserved_total 5 1 (lb_db l') \<le> a_bytes a) \<and>
      lb_uploads l' = [u] \<and> u_status u = UPending"
proof (rule abc_created)
  fix u l assume c: "create_upload 1000 5 (1, 2, 3) [] abc_request (empty_library upload_db []) = Inr (u, l)"
  have "filter (is_reservation (fst (1, 2 :: nat, 3 :: nat)) (upload_key (next_id (lb_db (empty_library upload_db [])))))
      (reservations (lb_db (empty_library upload_db []))) = []" by code_simp
  from created_upload_fits [OF c abc_valid this] show ?thesis unfolding c by auto
qed

theorem unique_filename_is_free_witness:
  "let r = unique_library_filename ''a.txt'' [''a.txt'', ''a (1).txt''] in r = ''a (2).txt'' \<and> r \<notin> {''a.txt'', ''a (1).txt''} \<and> length r \<le> 255"
  using unique_filename_is_free [of "''a.txt''" "[''a.txt'', ''a (1).txt'']"]
  by (simp add: Let_def) code_simp

text \<open>A completed upload of two chunks, as a row.\<close>

definition two_chunks :: upload where
  "two_chunks = (new_upload 10 (1, 2, 3) None ''b.txt'' ''text/plain'' (Suc chunk_size) False)"

lemma two_chunks_total: "u_total two_chunks = 2" "u_size two_chunks = Suc chunk_size" "u_chunk two_chunks = chunk_size"
  "u_id two_chunks = 10" "u_scope two_chunks = (1, 2, 3)" "u_received two_chunks = []" "u_bytes two_chunks = 0" "u_status two_chunks = UPending"
  by (simp_all add: two_chunks_def new_upload_def chunk_size_def)

definition two_chunk_library :: library where
  "two_chunk_library = (empty_library (upload_db\<lparr>next_id := 11\<rparr>) [])\<lparr>lb_uploads := [two_chunks]\<rparr>"

lemma two_chunk_library: "lib_inv two_chunk_library" "find_upload 10 two_chunk_library = Some two_chunks"
  "lib_conversation (1, 2, 3) (lb_db two_chunk_library) = Inr ()"
proof -
  have "upload_ok two_chunks" by (simp add: upload_ok_def two_chunks_total chunk_size_def)
  moreover have "u_file two_chunks = None" by (simp add: two_chunks_def new_upload_def)
  ultimately show "lib_inv two_chunk_library"
    by (simp add: lib_inv_def rows_ok_def chunks_ok_def files_ok_def known_def two_chunk_library_def two_chunks_total empty_library_def)
  show "find_upload 10 two_chunk_library = Some two_chunks" by (simp add: find_upload_def two_chunk_library_def two_chunks_total)
  show "lib_conversation (1, 2, 3) (lb_db two_chunk_library) = Inr ()"
    by (simp add: two_chunk_library_def lib_conversation_def empty_library_def upload_db_def)
qed

theorem parallel_chunks_lose_one_witness:
  "\<exists>l' r. lib_reachable 5000000 two_chunk_library l' \<and> {(10, 0), (10, 1)} \<subseteq> set (lb_acked l') \<and>
    find_upload 10 l' = Some r \<and> set (u_received r) = {1} \<and>
    begin_complete (1, 2, 3) 10 l' = Inl (ApiError ''UPLOAD_INCOMPLETE'' 409)"
proof -
  have len: "length (replicate (chunk_len two_chunks i) CHR ''x'') = chunk_len two_chunks i" for i by simp
  have s: "lib_conversation (u_scope two_chunks) (lb_db two_chunk_library) = Inr ()" "u_status two_chunks \<in> {UPending, UUploading, UQueued}"
    "0 < u_total two_chunks" "0 \<notin> set (u_received two_chunks)" "1 < u_total two_chunks" "1 \<notin> set (u_received two_chunks)"
    using two_chunk_library(3) by (simp_all add: two_chunks_total)
  show ?thesis
    using parallel_chunks_lose_one [OF two_chunk_library(1,2) s(1,2,3,4) len s(5,6) len zero_neq_one, of 5000000]
    by (simp add: two_chunks_total) blast
qed

text \<open>A failed upload, all of its one chunk received, in a tenant that another upload has filled meanwhile.\<close>

definition failed_upload :: upload where
  "failed_upload = (new_upload 10 (1, 2, 3) None ''a.txt'' ''text/plain'' 3 False)\<lparr>u_received := [0], u_bytes := 3, u_status := UFailed\<rparr>"

definition full_db :: db where
  "full_db = upload_db\<lparr>next_id := 11, allocations := map (a_bytes_update (\<lambda>_. 1002)) (allocations upload_db)\<rparr>"

definition full_library :: library where
  "full_library = (empty_library full_db [])
     \<lparr>lb_uploads := [failed_upload], lb_puts := [(10, 0, ''abc'')]\<rparr>"

theorem completing_failed_upload_skips_quota_witness:
  "\<exists>a l'. find_allocation 1 (lb_db full_library) = Some a \<and> total_bytes (usage 1 (accounted full_library)) \<le> a_bytes a \<and>
    lib_reachable 1000 full_library l' \<and> find_allocation 1 (lb_db l') = Some a \<and> a_bytes a < total_bytes (usage 1 (accounted l'))"
proof -
  have f: "u_total failed_upload = 1" "u_size failed_upload = 3" "u_chunk failed_upload = chunk_size" "u_id failed_upload = 10"
    "u_scope failed_upload = (1, 2, 3)" "u_received failed_upload = [0]" "u_bytes failed_upload = 3" "u_status failed_upload = UFailed" "u_file failed_upload = None"
    by (simp_all add: failed_upload_def new_upload_def chunk_size_def)
  have "chunk_len failed_upload 0 = 3" by (simp add: chunk_len_def f chunk_size_def)
  moreover from this have "upload_ok failed_upload" by (simp add: upload_ok_def f) (simp add: chunk_size_def)
  ultimately have i: "lib_inv full_library"
    by (simp add: lib_inv_def rows_ok_def chunks_ok_def files_ok_def known_def full_library_def full_db_def f empty_library_def)
  have u: "find_upload 10 full_library = Some failed_upload" by (simp add: find_upload_def full_library_def f)
  have c: "lib_conversation (u_scope failed_upload) (lb_db full_library) = Inr ()"
    by (simp add: f full_library_def lib_conversation_def full_db_def upload_db_def)
  have "total_bytes (usage 1 (full_db\<lparr>uploads := [], library_files := []\<rparr>)) = 1000"
    "pending_upload_bytes (usage 1 (full_db\<lparr>uploads := [], library_files := []\<rparr>)) = 0" by code_simp+
  then have t: "total_bytes (usage 1 (accounted full_library)) = 1000"
    by (simp only: usage_accounted) (simp add: full_library_def f pending_sum_def counted_def reserving_def total_bytes_def)
  let ?a = "hd (allocations full_db)"
  have "find_allocation 1 full_db = Some ?a" "a_bytes ?a = 1002" by code_simp+
  then have a: "find_allocation 1 (lb_db full_library) = Some ?a" "a_bytes ?a = 1002" by (simp_all add: full_library_def)
  show ?thesis
    using completing_failed_upload_skips_quota [OF i u c f(8), of ?a 1000] a t by (simp add: f) metis
qed

theorem published_file_is_what_was_sent_witness:
  "\<exists>l w. lib_reachable 1000 (empty_library upload_db []) l \<and> w \<in> set (lb_files l) \<and> w_size w = 3 \<and>
    (case w_key w of Some k \<Rightarrow> w_binary w \<and> lb_objects l k = Some ''abc'' | None \<Rightarrow> \<not> w_binary w \<and> w_text w = utf8_decode ''abc'')"
proof (rule abc_published)
  fix l r w assume l: "lib_reachable 1000 (empty_library upload_db []) l" and r: "find_upload 10 l = Some r" "u_status r = UCompleted" "u_file r = Some (w_id w)"
    "u_size r = 3" "u_id r = 10" "u_chunk r = chunk_size" and puts: "\<forall>i b. (10, i, b) \<in> set (lb_puts l) \<longrightarrow> i = 0 \<and> b = ''abc''"
  have "chunk_len r 0 = 3" using r by (simp add: chunk_len_def chunk_size_def)
  then have p: "\<forall>i b. (u_id r, i, b) \<in> set (lb_puts l) \<longrightarrow> b = take (chunk_len r i) (drop (i * u_chunk r) ''abc'')"
    using puts r(5) by (metis drop0 length_Cons list.size(3) mult_0 numeral_3_eq_3 order_refl take_all)
  have "r \<in> set (lb_uploads l)" "length ''abc'' = u_size r" using upload_table.find_in r(1,4) by fastforce+
  from published_file_is_what_was_sent [OF l this(1) r(3) this(2) p] obtain v where v: "v \<in> set (lb_files l)" "w_size v = 3"
    "case w_key v of Some k \<Rightarrow> w_binary v \<and> lb_objects l k = Some ''abc'' | None \<Rightarrow> \<not> w_binary v \<and> w_text v = utf8_decode ''abc''"
    using r(4) by (auto split: option.splits)
  with l show ?thesis by blast
qed


end
