(* ===== verification/Storage_Cleanup.thy ===== *)
theory Storage_Cleanup
  imports Sessions
begin

text \<open>
  Object storage and the durable queue of deletions that still have to be done
  (\<open>system/models/storage_cleanup.py\<close>, \<open>storage_cleanup\<close> in \<open>system/workers/tasks_maintenance.py\<close>, the
  administrator's retry in \<open>system/api/admin.py\<close>, \<open>delete_object\<close> in \<open>system/services/storage_service.py\<close>).

  The store is the list of its object locations (bucket and key); the \<open>n\<close>-th call of a run is answered by
  \<open>up n\<close>.  The table has forced row level security
  (\<open>alembic/versions/20260816_0001_admin_cleanup_and_workspace_states.py\<close>): a statement meets the rows of the
  tenant that \<open>app.tenant_id\<close> names when it is sent, and the sessions have \<open>autoflush\<close> off, so that all
  changes of a run are sent at its commit.  SQLAlchemy raises \<open>StaleDataError\<close> when an \<open>UPDATE\<close> by key meets no
  row, and only warns when a \<open>DELETE\<close> does.
\<close>

section \<open>Objects\<close>

type_synonym location = "string \<times> string"

definition delete_object :: "bool \<Rightarrow> location \<Rightarrow> location list \<Rightarrow> location list" where
  "delete_object up loc objs = (if up then filter (\<lambda>l. l \<noteq> loc) objs else objs)"

fun split_on :: "char \<Rightarrow> string \<Rightarrow> string list" where
  "split_on c [] = [[]]"
| "split_on c (x # xs) = (if x = c then [] # split_on c xs
     else (case split_on c xs of [] \<Rightarrow> [[x]] | p # ps \<Rightarrow> (x # p) # ps))"

definition is_tenant_object_key :: "nat \<Rightarrow> string \<Rightarrow> bool" where
  "is_tenant_object_key tn object_key =
     (let key = map (\<lambda>c. if c = CHR 0x5C then CHR ''/'' else c) object_key;
          start = uuid_str tn @ ''/''
      in take (length start) key = start \<and> ''..'' \<notin> set (split_on (CHR ''/'') key))"

section \<open>Cleanup jobs\<close>

datatype cleanup_status = CPending | CFailed

record cleanup_job =
  sc_id :: nat
  sc_tenant :: nat
  sc_owner :: "nat option"
  sc_bucket :: string
  sc_key :: string
  sc_status :: cleanup_status
  sc_attempts :: nat
  sc_error :: "string option"
  sc_next :: int
  sc_created :: int

record storage =
  objects :: "location list"
  cleanup_rows :: "cleanup_job list"

datatype cleanup_error = StaleData | Refused app_error

definition sc_location :: "cleanup_job \<Rightarrow> location" where
  "sc_location j = (sc_bucket j, sc_key j)"

section \<open>Row level security\<close>

text \<open>The setting \<open>app.tenant_id\<close>: \<open>None\<close> is \<open>bypass\<close>.\<close>

definition scope_sees :: "nat option \<Rightarrow> cleanup_job \<Rightarrow> bool" where
  "scope_sees scope r = (case scope of None \<Rightarrow> True | Some tn \<Rightarrow> sc_tenant r = tn)"

definition flush_cleanup ::
  "nat option \<Rightarrow> cleanup_job list \<Rightarrow> cleanup_job list \<Rightarrow> cleanup_job list \<Rightarrow> cleanup_error + cleanup_job list" where
  "flush_cleanup scope updated deleted rows =
     (if list_ex (\<lambda>u. filter (\<lambda>r. sc_id r = sc_id u \<and> scope_sees scope r) rows = []) updated then Inl StaleData
      else Inr (filter (\<lambda>r. \<not> (sc_id r \<in> set (map sc_id deleted) \<and> scope_sees scope r))
                  (fold (\<lambda>u. upd_where (\<lambda>r. sc_id r = sc_id u \<and> scope_sees scope r) (\<lambda>_. u)) updated rows)))"

section \<open>The retry task\<close>

definition max_cleanup_attempts :: nat where "max_cleanup_attempts = 12"

definition cleanup_pending :: "cleanup_job \<Rightarrow> bool" where
  "cleanup_pending j = (sc_status j = CPending \<and> sc_attempts j < max_cleanup_attempts)"

definition cleanup_due :: "int \<Rightarrow> cleanup_job list \<Rightarrow> cleanup_job list" where
  "cleanup_due now rows =
     take 100 (order_by sc_next (filter (\<lambda>j. cleanup_pending j \<and> sc_next j \<le> now) rows))"

definition failed_attempt :: "int \<Rightarrow> cleanup_job \<Rightarrow> cleanup_job" where
  "failed_attempt now j =
     (let n = Suc (sc_attempts j);
          j1 = j\<lparr>sc_attempts := n, sc_owner := None, sc_error := Some ''storage_delete_failed''\<rparr>
      in if max_cleanup_attempts \<le> n then j1\<lparr>sc_status := CFailed\<rparr>
         else j1\<lparr>sc_next := now + 60 * min 60 (2 ^ min n 6)\<rparr>)"

text \<open>The loop returns the rows it deletes, the rows it changed and the objects that are left.\<close>

fun try_jobs :: "(nat \<Rightarrow> bool) \<Rightarrow> int \<Rightarrow> nat \<Rightarrow> cleanup_job list \<Rightarrow> location list
    \<Rightarrow> cleanup_job list \<times> cleanup_job list \<times> location list" where
  "try_jobs up now i [] objs = ([], [], objs)"
| "try_jobs up now i (j # js) objs =
     (let (gone, failed, objs') = try_jobs up now (Suc i) js (delete_object (up i) (sc_location j) objs)
      in if up i then (j # gone, failed, objs') else (gone, failed_attempt now j # failed, objs'))"

text \<open>
  The scope at the commit is the tenant of the last job of the loop.  When the flush raises, the rows are rolled
  back but the objects stay deleted.  The sweep of expired temporary assets that comes first commits on its
  own and only adds rows to the table.
\<close>

definition cleanup_scope :: "cleanup_job list \<Rightarrow> nat option" where
  "cleanup_scope js = (if js = [] then None else Some (sc_tenant (last js)))"

definition storage_cleanup ::
  "(nat \<Rightarrow> bool) \<Rightarrow> int \<Rightarrow> storage \<Rightarrow> (cleanup_error + nat \<times> nat) \<times> storage" where
  "storage_cleanup up now st =
     (let jobs = cleanup_due now (cleanup_rows st);
          (gone, failed, objs) = try_jobs up now 0 jobs (objects st);
          st1 = st\<lparr>objects := objs\<rparr>
      in case flush_cleanup (cleanup_scope jobs) failed gone (cleanup_rows st) of
           Inl e \<Rightarrow> (Inl e, st1)
         | Inr rows \<Rightarrow> (Inr (length gone, length failed), st1\<lparr>cleanup_rows := rows\<rparr>))"

section \<open>The administrator's retry\<close>

text \<open>The row is read under \<open>bypass\<close>; its \<open>UPDATE\<close> is sent by the flush of the audit event, which binds the
  tenant of the administrator first.\<close>

definition retry_storage_cleanup ::
  "int \<Rightarrow> auth_context \<Rightarrow> nat \<Rightarrow> storage \<Rightarrow> (cleanup_error + nat \<times> cleanup_status) \<times> storage" where
  "retry_storage_cleanup now auth job_id st =
     (case require_permissions [''admin:users:delete''] (ax_roles auth) (ax_permissions auth) of
        Inl _ \<Rightarrow> (Inl (Refused (ApiError ''FORBIDDEN'' 403)), st)
      | Inr _ \<Rightarrow>
          (case first_row (filter (\<lambda>j. sc_id j = job_id) (cleanup_rows st)) of
             None \<Rightarrow> (Inl (Refused (ApiError ''STORAGE_CLEANUP_NOT_FOUND'' 404)), st)
           | Some j \<Rightarrow>
               (if sc_status j \<noteq> CFailed then (Inl (Refused (ApiError ''STORAGE_CLEANUP_NOT_RETRYABLE'' 409)), st)
                else (case flush_cleanup (Some (ax_tenant auth))
                        [j\<lparr>sc_status := CPending, sc_attempts := 0, sc_error := None, sc_next := now\<rparr>] []
                        (cleanup_rows st) of
                     Inl e \<Rightarrow> (Inl e, st)
                   | Inr rows \<Rightarrow> (Inr (sc_id j, CPending), st\<lparr>cleanup_rows := rows\<rparr>)))))"

section \<open>Lemmas\<close>

lemma set_cleanup_due: "j \<in> set (cleanup_due now rows) \<Longrightarrow> j \<in> set rows \<and> cleanup_pending j \<and> sc_next j \<le> now"
  by (auto simp: cleanup_due_def dest: in_set_takeD)

lemma distinct_order_by: "distinct (map g xs) \<Longrightarrow> distinct (map g (order_by k xs))"
  by (auto simp: order_by_def distinct_map)

lemma distinct_map_take: "distinct (map g xs) \<Longrightarrow> distinct (map g (take n xs))"
  by (simp add: take_map [symmetric])

lemma distinct_cleanup_due: "distinct (map sc_id rows) \<Longrightarrow> distinct (map sc_id (cleanup_due now rows))"
  unfolding cleanup_due_def by (intro distinct_map_take distinct_order_by distinct_map_filter)

lemma length_cleanup_due: "length (cleanup_due now rows) \<le> 100"
  by (simp add: cleanup_due_def)

lemma cleanup_due_empty: "cleanup_due now rows = [] \<longleftrightarrow> (\<forall>j \<in> set rows. \<not> (cleanup_pending j \<and> sc_next j \<le> now))"
  by (auto simp: cleanup_due_def filter_empty_conv)

lemma try_jobs_failed:
  "set (fst (snd (try_jobs up now i js objs))) \<subseteq> failed_attempt now ` set js"
  by (induction up now i js objs rule: try_jobs.induct) (auto simp: Let_def split: prod.splits)

lemma try_jobs_gone:
  "set (fst (try_jobs up now i js objs)) \<subseteq> set js"
  by (induction up now i js objs rule: try_jobs.induct) (auto simp: Let_def split: prod.splits)

lemma try_jobs_all:
  "try_jobs (\<lambda>_. True) now i js objs = (js, [], filter (\<lambda>l. l \<notin> sc_location ` set js) objs)"
  by (induction js arbitrary: i objs) (auto simp: Let_def delete_object_def intro!: filter_cong)

lemma failed_attempt_key [simp]:
  "sc_id (failed_attempt now j) = sc_id j" "sc_tenant (failed_attempt now j) = sc_tenant j"
  by (simp_all add: failed_attempt_def Let_def)

lemma try_jobs_index:
  assumes "n < length js" and "\<not> up (i + n)"
  shows "failed_attempt now (js ! n) \<in> set (fst (snd (try_jobs up now i js objs)))"
  using assms
proof (induction js arbitrary: i n objs)
  case (Cons j js)
  show ?case
  proof (cases n)
    case 0
    with Cons.prems show ?thesis by (simp add: Let_def split: prod.splits)
  next
    case (Suc m)
    with Cons.IH [of m "Suc i" "delete_object (up i) (sc_location j) objs"] Cons.prems show ?thesis
      by (auto simp: Let_def split: prod.splits)
  qed
qed simp

text \<open>What the fold of updates writes.\<close>

lemma fold_update_rows:
  "x \<in> set (fold (\<lambda>u. upd_where (\<lambda>r. sc_id r = sc_id u \<and> scope_sees scope r) (\<lambda>_. u)) us rows)
   \<Longrightarrow> x \<in> set rows \<or> (x \<in> set us \<and> (\<exists>r \<in> set rows. sc_id r = sc_id x))"
proof (induction us arbitrary: x rule: rev_induct)
  case (snoc u us)
  then obtain y where y: "y \<in> set (fold (\<lambda>u. upd_where (\<lambda>r. sc_id r = sc_id u \<and> scope_sees scope r) (\<lambda>_. u)) us rows)"
    and x: "x = (if sc_id y = sc_id u \<and> scope_sees scope y then u else y)"
    by (auto simp: in_upd_where)
  from snoc.IH [OF y] x show ?case by (auto split: if_splits)
qed simp

lemma flush_cleanup_rows:
  "flush_cleanup scope us ds rows = Inr rows' \<Longrightarrow> x \<in> set rows' \<Longrightarrow> x \<in> set rows \<or> x \<in> set us"
  using fold_update_rows [of x scope us rows] by (auto simp: flush_cleanup_def split: if_splits)

section \<open>Properties\<close>

text \<open>A failed attempt is counted, forgets the owner of the object, and is repeated between two minutes and
  an hour later; after the twelfth the job is given up.  Every other row is untouched.\<close>

theorem cleanup_retry_bounds:
  assumes "storage_cleanup up now st = (Inr r, st')" and "j' \<in> set (cleanup_rows st')" and "j' \<notin> set (cleanup_rows st)"
  shows "\<exists>j \<in> set (cleanup_rows st). cleanup_pending j \<and> sc_next j \<le> now \<and> sc_id j' = sc_id j \<and>
    sc_location j' = sc_location j \<and> sc_owner j' = None \<and> sc_attempts j' = Suc (sc_attempts j) \<and>
    sc_attempts j' \<le> 12 \<and> (sc_status j' = CFailed \<longleftrightarrow> sc_attempts j' = 12) \<and>
    (sc_status j' = CPending \<longrightarrow> now + 2 * 60 \<le> sc_next j' \<and> sc_next j' \<le> now + 60 * 60)"
proof -
  let ?js = "cleanup_due now (cleanup_rows st)"
  obtain gone failed objs where t: "try_jobs up now 0 ?js (objects st) = (gone, failed, objs)"
    by (metis prod.collapse)
  have rows: "flush_cleanup (cleanup_scope ?js) failed gone (cleanup_rows st) = Inr (cleanup_rows st')"
    using assms(1) t by (auto simp: storage_cleanup_def Let_def split: sum.splits)
  then have "j' \<in> set failed" using flush_cleanup_rows assms(2,3) by blast
  then obtain j where j: "j \<in> set ?js" "j' = failed_attempt now j"
    using try_jobs_failed [of up now 0 ?js "objects st"] t by auto
  have p: "1 \<le> k \<Longrightarrow> (2 :: int) \<le> 2 ^ min k 6" for k :: nat
    using power_increasing [of 1 "min k 6" "2 :: int"] by simp
  have "j \<in> set (cleanup_rows st)" "cleanup_pending j" "sc_next j \<le> now" using set_cleanup_due j(1) by blast+
  then show ?thesis using j(2) p [of "Suc (sc_attempts j)"]
    by (intro bexI [of _ j])
      (auto simp: failed_attempt_def Let_def max_cleanup_attempts_def cleanup_pending_def sc_location_def)
qed


text \<open>A pass of the task with the store up, as rows and objects.\<close>

lemma storage_cleanup_up:
  "storage_cleanup (\<lambda>_. True) now st =
     (let js = cleanup_due now (cleanup_rows st)
      in (Inr (length js, 0), st\<lparr>objects := filter (\<lambda>l. l \<notin> sc_location ` set js) (objects st),
            cleanup_rows := filter (\<lambda>r. \<not> (sc_id r \<in> set (map sc_id js) \<and> scope_sees (cleanup_scope js) r)) (cleanup_rows st)\<rparr>))"
  by (simp add: storage_cleanup_def try_jobs_all flush_cleanup_def Let_def)

definition cleanup_pass :: "int \<Rightarrow> storage \<Rightarrow> storage" where
  "cleanup_pass now st = snd (storage_cleanup (\<lambda>_. True) now st)"

definition pending_count :: "storage \<Rightarrow> nat" where
  "pending_count st = length (filter cleanup_pending (cleanup_rows st))"

lemma cleanup_pass_shrinks:
  assumes "cleanup_due now (cleanup_rows st) \<noteq> []"
  shows "pending_count (cleanup_pass now st) < pending_count st"
proof -
  let ?js = "cleanup_due now (cleanup_rows st)"
  let ?P = "\<lambda>r. \<not> (sc_id r \<in> set (map sc_id ?js) \<and> scope_sees (cleanup_scope ?js) r)"
  have l: "last ?js \<in> set ?js" using assms by simp
  then have "last ?js \<in> set (cleanup_rows st)" "cleanup_pending (last ?js)" using set_cleanup_due by blast+
  moreover have "\<not> ?P (last ?js)" using assms l by (auto simp: cleanup_scope_def scope_sees_def)
  ultimately have "length (filter ?P (filter cleanup_pending (cleanup_rows st))) < length (filter cleanup_pending (cleanup_rows st))"
    by (intro length_filter_less [of "last ?js"]) auto
  then show ?thesis by (simp add: pending_count_def cleanup_pass_def storage_cleanup_up Let_def conj_commute)
qed

lemma cleanup_pass_idle: "cleanup_due now (cleanup_rows st) = [] \<Longrightarrow> cleanup_pass now st = st"
  by (simp add: cleanup_pass_def storage_cleanup_up)

lemma cleanup_pass_rows: "set (cleanup_rows (cleanup_pass now st)) \<subseteq> set (cleanup_rows st)"
  by (auto simp: cleanup_pass_def storage_cleanup_up Let_def)

lemma cleanup_pass_objects: "set (objects (cleanup_pass now st)) \<subseteq> set (objects st)"
  by (auto simp: cleanup_pass_def storage_cleanup_up Let_def)

lemma cleanup_pass_kept:
  assumes "distinct (map sc_id (cleanup_rows st))" and "j \<in> set (cleanup_rows st)"
    and "j \<notin> set (cleanup_rows (cleanup_pass now st))"
  shows "cleanup_pending j \<and> sc_next j \<le> now \<and> sc_location j \<notin> set (objects (cleanup_pass now st))"
proof -
  let ?js = "cleanup_due now (cleanup_rows st)"
  obtain i where i: "i \<in> set ?js" "sc_id i = sc_id j"
    using assms(2,3) by (auto simp: cleanup_pass_def storage_cleanup_up Let_def)
  then have "i = j" using assms(1,2) set_cleanup_due [OF i(1)] distinct_map_inj [of sc_id] by blast
  with i(1) set_cleanup_due [of j now] show ?thesis
    by (auto simp: cleanup_pass_def storage_cleanup_up Let_def)
qed

lemma cleanup_pass_distinct:
  "distinct (map sc_id (cleanup_rows st)) \<Longrightarrow> distinct (map sc_id (cleanup_rows (cleanup_pass now st)))"
  by (simp add: cleanup_pass_def storage_cleanup_up Let_def distinct_map_filter)

lemma cleanup_passes_rows: "set (cleanup_rows (fold cleanup_pass ts st)) \<subseteq> set (cleanup_rows st)"
  using cleanup_pass_rows by (induction ts arbitrary: st) fastforce+

lemma cleanup_passes_objects: "set (objects (fold cleanup_pass ts st)) \<subseteq> set (objects st)"
  using cleanup_pass_objects by (induction ts arbitrary: st) fastforce+

lemma due_job_drained:
  assumes "distinct (map sc_id (cleanup_rows st))" and "pending_count st \<le> length ts" and "\<forall>t \<in> set ts. now \<le> t"
    and "j \<in> set (cleanup_rows st)" and "cleanup_pending j" and "sc_next j \<le> now"
  shows "j \<notin> set (cleanup_rows (fold cleanup_pass ts st)) \<and> sc_location j \<notin> set (objects (fold cleanup_pass ts st))"
  using assms
proof (induction ts arbitrary: st)
  case Nil
  then show ?case by (auto simp: pending_count_def filter_empty_conv)
next
  case (Cons t ts)
  let ?st = "cleanup_pass t st"
  have "cleanup_due t (cleanup_rows st) \<noteq> []" using Cons.prems by (force simp: cleanup_due_empty)
  then have c: "pending_count ?st \<le> length ts" using cleanup_pass_shrinks Cons.prems(2) by fastforce
  show ?case
  proof (cases "j \<in> set (cleanup_rows ?st)")
    case True
    with Cons.IH [of ?st] Cons.prems c cleanup_pass_distinct show ?thesis by simp
  next
    case False
    with cleanup_pass_kept Cons.prems(1,4) have "sc_location j \<notin> set (objects ?st)" by blast
    with False cleanup_passes_rows cleanup_passes_objects show ?thesis by fastforce
  qed
qed

lemma waiting_only_removed:
  assumes "distinct (map sc_id (cleanup_rows st))" and "j \<in> set (cleanup_rows st)" and "\<not> cleanup_pending j"
  shows "j \<in> set (cleanup_rows (fold cleanup_pass ts st))"
  using assms
proof (induction ts arbitrary: st)
  case (Cons t ts)
  then have "j \<in> set (cleanup_rows (cleanup_pass t st))" using cleanup_pass_kept by blast
  with Cons.IH Cons.prems cleanup_pass_distinct show ?case by simp
qed simp

text \<open>
  What the services that queue objects rely on: passes only remove objects, and enough passes remove every object
  that waits.  So objects of which every stored one waits are all gone in the end.
\<close>

locale object_cleanup =
  fixes passes :: "int list \<Rightarrow> 's \<Rightarrow> 's"
    and stored :: "'s \<Rightarrow> location set"
    and waiting :: "int \<Rightarrow> 's \<Rightarrow> location set"
    and enough :: "int \<Rightarrow> int list \<Rightarrow> 's \<Rightarrow> bool"
  assumes passes_remove: "stored (passes ts s) \<subseteq> stored s"
    and waiting_removed: "enough now ts s \<Longrightarrow> l \<in> waiting now s \<Longrightarrow> l \<notin> stored (passes ts s)"
begin

lemma tracked_objects_go:
  assumes "enough now ts s" and "l \<in> stored s \<Longrightarrow> l \<in> waiting now s"
  shows "l \<notin> stored (passes ts s)"
  using assms passes_remove waiting_removed by blast

end

definition waiting_objects :: "int \<Rightarrow> storage \<Rightarrow> location set" where
  "waiting_objects now st = sc_location ` {j \<in> set (cleanup_rows st). cleanup_pending j \<and> sc_next j \<le> now}"

definition enough_passes :: "int \<Rightarrow> int list \<Rightarrow> storage \<Rightarrow> bool" where
  "enough_passes now ts st \<longleftrightarrow> distinct (map sc_id (cleanup_rows st)) \<and> pending_count st \<le> length ts \<and> (\<forall>t \<in> set ts. now \<le> t)"

interpretation cleanup: object_cleanup "fold cleanup_pass" "\<lambda>st. set (objects st)" waiting_objects enough_passes
proof
  show "set (objects (fold cleanup_pass ts s)) \<subseteq> set (objects s)" for ts s by (rule cleanup_passes_objects)
  show "l \<notin> set (objects (fold cleanup_pass ts s))" if "enough_passes now ts s" "l \<in> waiting_objects now s" for now ts s l
    using that due_job_drained [of s ts now] by (auto simp: enough_passes_def waiting_objects_def)
qed

text \<open>C18. Once the store answers, the queue drains: after as many passes as there are waiting jobs, every job that
  was due is gone together with its object, and the jobs that were given up are still there for the
  administrator.  (A pass leaves rows of other tenants than that of its last job, so that a single pass is
  not always enough.)\<close>

theorem cleanup_queue_drains:
  assumes "distinct (map sc_id (cleanup_rows st))" and "pending_count st \<le> length clock"
    and "\<forall>t \<in> set clock. now \<le> t"
  shows "(\<forall>j \<in> set (cleanup_rows st). cleanup_pending j \<and> sc_next j \<le> now \<longrightarrow>
      j \<notin> set (cleanup_rows (fold cleanup_pass clock st)) \<and> sc_location j \<notin> set (objects (fold cleanup_pass clock st))) \<and>
    (\<forall>j \<in> set (cleanup_rows st). \<not> cleanup_pending j \<longrightarrow> j \<in> set (cleanup_rows (fold cleanup_pass clock st)))"
  using due_job_drained [OF assms] waiting_only_removed [OF assms(1)] by blast

text \<open>A job whose object cannot be deleted, while the last job of the pass belongs to another tenant.\<close>

lemma foreign_failure_raises:
  assumes "n < length (cleanup_due now (cleanup_rows st))" and "\<not> up n"
    and "sc_tenant (cleanup_due now (cleanup_rows st) ! n) \<noteq> sc_tenant (last (cleanup_due now (cleanup_rows st)))"
    and "distinct (map sc_id (cleanup_rows st))"
  shows "fst (storage_cleanup up now st) = Inl StaleData"
    and "cleanup_rows (snd (storage_cleanup up now st)) = cleanup_rows st"
proof -
  let ?js = "cleanup_due now (cleanup_rows st)"
  let ?j = "?js ! n"
  obtain gone failed objs where t: "try_jobs up now 0 ?js (objects st) = (gone, failed, objs)"
    by (metis prod.collapse)
  have f: "failed_attempt now ?j \<in> set failed" using try_jobs_index [of n ?js up 0 now "objects st"] assms(1,2) t by simp
  have "?j \<in> set (cleanup_rows st)" using assms(1) set_cleanup_due nth_mem by blast
  then have e: "filter (\<lambda>r. sc_id r = sc_id (failed_attempt now ?j) \<and> scope_sees (cleanup_scope ?js) r) (cleanup_rows st) = []"
    using assms(1,3,4) distinct_map_inj [of sc_id "cleanup_rows st"]
    by (auto simp: filter_empty_conv scope_sees_def cleanup_scope_def)
  have "list_ex (\<lambda>u. filter (\<lambda>r. sc_id r = sc_id u \<and> scope_sees (cleanup_scope ?js) r) (cleanup_rows st) = []) failed"
    unfolding list_ex_iff using e by (intro bexI [OF _ f])
  then have "flush_cleanup (cleanup_scope ?js) failed gone (cleanup_rows st) = Inl StaleData"
    by (simp add: flush_cleanup_def)
  then show "fst (storage_cleanup up now st) = Inl StaleData"
    "cleanup_rows (snd (storage_cleanup up now st)) = cleanup_rows st"
    using t by (simp_all add: storage_cleanup_def)
qed

text \<open>C17. One object that cannot be deleted stops the queue of every tenant: when its job is in the same pass as a last job of
  another tenant, the pass raises at its commit, no row is changed or removed, the attempt is not counted,
  and the same happens in every later pass.\<close>

theorem foreign_failure_blocks_cleanup:
  assumes "n < length (cleanup_due now (cleanup_rows st))" and "\<not> up n"
    and "sc_tenant (cleanup_due now (cleanup_rows st) ! n) \<noteq> sc_tenant (last (cleanup_due now (cleanup_rows st)))"
    and "distinct (map sc_id (cleanup_rows st))"
  shows "fst (storage_cleanup up now (((\<lambda>s. snd (storage_cleanup up now s)) ^^ k) st)) = Inl StaleData
    \<and> cleanup_rows (((\<lambda>s. snd (storage_cleanup up now s)) ^^ k) st) = cleanup_rows st"
proof (induction k)
  case 0
  with foreign_failure_raises(1) [of n now st up] assms show ?case by simp
next
  case (Suc k)
  let ?s = "((\<lambda>s. snd (storage_cleanup up now s)) ^^ k) st"
  have r: "cleanup_rows ?s = cleanup_rows st" using Suc by simp
  then have "cleanup_rows (snd (storage_cleanup up now ?s)) = cleanup_rows st"
    using foreign_failure_raises(2) [of n now ?s up] assms by simp
  with foreign_failure_raises(1) [of n now "snd (storage_cleanup up now ?s)" up] assms show ?case by simp
qed

text \<open>The administrator's retry works for the jobs of the own tenant only, although the list shows all tenants.\<close>

theorem foreign_retry_raises:
  assumes "distinct (map sc_id (cleanup_rows st))" and "j \<in> set (cleanup_rows st)" and "sc_status j = CFailed"
    and "require_permissions [''admin:users:delete''] (ax_roles auth) (ax_permissions auth) = Inr ()"
  shows "if sc_tenant j = ax_tenant auth
    then fst (retry_storage_cleanup now auth (sc_id j) st) = Inr (sc_id j, CPending)
    else retry_storage_cleanup now auth (sc_id j) st = (Inl StaleData, st)"
proof -
  have f: "filter (\<lambda>r. sc_id r = sc_id j) (cleanup_rows st) \<noteq> []" using assms(2) by (auto simp: filter_empty_conv)
  have "first_row (filter (\<lambda>r. sc_id r = sc_id j) (cleanup_rows st)) = Some j"
  proof -
    obtain x where x: "first_row (filter (\<lambda>r. sc_id r = sc_id j) (cleanup_rows st)) = Some x" using f by fastforce
    then have "x \<in> set (cleanup_rows st)" "sc_id x = sc_id j" using first_row_in by fastforce+
    with x assms(1,2) distinct_map_inj [of sc_id] show ?thesis by metis
  qed
  moreover have "filter (\<lambda>r. sc_id r = sc_id j \<and> sc_tenant r = ax_tenant auth) (cleanup_rows st) = [] \<longleftrightarrow> sc_tenant j \<noteq> ax_tenant auth"
    using assms(1,2) distinct_map_inj [of sc_id "cleanup_rows st" _ j] by (auto simp: filter_empty_conv)
  ultimately show ?thesis using assms(3,4)
    by (simp add: retry_storage_cleanup_def flush_cleanup_def scope_sees_def)
qed

section \<open>An example\<close>

definition sample_job :: "nat \<Rightarrow> nat \<Rightarrow> string \<Rightarrow> cleanup_status \<Rightarrow> cleanup_job" where
  "sample_job k tn name st = \<lparr>sc_id = k, sc_tenant = tn, sc_owner = None, sc_bucket = ''files'', sc_key = name,
     sc_status = st, sc_attempts = (if st = CFailed then 12 else 0), sc_error = None, sc_next = 10, sc_created = 0\<rparr>"

definition sample_store :: storage where
  "sample_store = \<lparr>objects = [(''files'', ''a''), (''files'', ''b''), (''files'', ''c'')],
     cleanup_rows = [sample_job 1 7 ''a'' CPending, sample_job 2 8 ''b'' CPending, sample_job 3 7 ''c'' CFailed]\<rparr>"

theorem cleanup_queue_drains_witness:
  "distinct (map sc_id (cleanup_rows sample_store)) \<and> pending_count sample_store = 2 \<and>
   sample_job 1 7 ''a'' CPending \<in> set (cleanup_rows sample_store) \<and>
   sample_job 1 7 ''a'' CPending \<notin> set (cleanup_rows (fold cleanup_pass [20, 30] sample_store)) \<and>
   (''files'', ''a'') \<notin> set (objects (fold cleanup_pass [20, 30] sample_store))"
proof -
  have h: "distinct (map sc_id (cleanup_rows sample_store))" "pending_count sample_store = 2" by code_simp+
  have "pending_count sample_store \<le> length [20 :: int, 30]" "\<forall>t \<in> set [20 :: int, 30]. 20 \<le> t" using h by simp_all
  note r = cleanup_queue_drains [OF h(1) this]
  have j: "cleanup_pending (sample_job 1 7 ''a'' CPending)" "sample_job 1 7 ''a'' CPending \<in> set (cleanup_rows sample_store)"
    "sc_next (sample_job 1 7 ''a'' CPending) \<le> 20" by code_simp+
  have l: "sc_location (sample_job 1 7 ''a'' CPending) = (''files'', ''a'')" by code_simp
  from r h j show ?thesis unfolding l [symmetric] by blast
qed

theorem foreign_failure_blocks_cleanup_witness:
  "cleanup_due 20 (cleanup_rows sample_store) = [sample_job 1 7 ''a'' CPending, sample_job 2 8 ''b'' CPending] \<and>
   fst (storage_cleanup (\<lambda>i. i \<noteq> 0) 20 (((\<lambda>s. snd (storage_cleanup (\<lambda>i. i \<noteq> 0) 20 s)) ^^ 5) sample_store)) = Inl StaleData \<and>
   cleanup_rows (((\<lambda>s. snd (storage_cleanup (\<lambda>i. i \<noteq> 0) 20 s)) ^^ 5) sample_store) = cleanup_rows sample_store"
proof -
  have d: "cleanup_due 20 (cleanup_rows sample_store) = [sample_job 1 7 ''a'' CPending, sample_job 2 8 ''b'' CPending]"
    "distinct (map sc_id (cleanup_rows sample_store))" by code_simp+
  have "0 < length (cleanup_due 20 (cleanup_rows sample_store))" "\<not> (0 :: nat) \<noteq> 0"
    "sc_tenant (cleanup_due 20 (cleanup_rows sample_store) ! 0) \<noteq> sc_tenant (last (cleanup_due 20 (cleanup_rows sample_store)))"
    by (simp_all add: d sample_job_def)
  from foreign_failure_blocks_cleanup [where up = "\<lambda>i. i \<noteq> 0" and k = 5, OF this d(2)] d(1) show ?thesis by simp
qed

end
