(* ===== verification/Tenant_Content.thy ===== *)
theory Tenant_Content
  imports Storage_Cleanup
begin

text \<open>
  The rows a workspace deletion removes: the tables \<open>_purge_tenant_data\<close>
  (\<open>documents/services/deletion_service.py\<close>) names, with the key columns of their models and the
  \<open>ON DELETE CASCADE\<close> between them.  Tables that hang on a conversation, a document or a collection and that
  the service does not name are not in the model.
\<close>

section \<open>Tables\<close>

record tenant_row =
  tr_id :: nat
  tr_tenant :: nat

record document =
  dc_id :: nat
  dc_tenant :: nat
  dc_bucket :: string
  dc_key :: string
  dc_uploader :: nat

record dataset_index =
  di_tenant :: nat
  di_document :: nat
  di_bucket :: "string option"
  di_key :: "string option"

record document_chunk =
  ch_id :: nat
  ch_tenant :: nat
  ch_document :: nat

record chunk_embedding =
  em_tenant :: nat
  em_document :: nat
  em_chunk :: nat

record ingestion_job =
  ij_tenant :: nat
  ij_document :: nat

record query_citation =
  qc_tenant :: nat
  qc_query :: nat
  qc_document :: nat
  qc_chunk :: nat

record pinned_finding =
  pf_tenant :: nat
  pf_query :: nat

record comment =
  co_id :: nat
  co_tenant :: nat
  co_parent :: "nat option"

record chat_message =
  cs_id :: nat
  cs_conversation :: nat

record collection_document =
  cd_collection :: nat
  cd_document :: nat

text \<open>\<open>tb_versions\<close> holds the message of each version, \<open>tb_permissions\<close> the collection of each permission and
  \<open>tb_idempotency\<close> the tenant of each key.\<close>

record content =
  tb_documents :: "document list"
  tb_datasets :: "dataset_index list"
  tb_chunks :: "document_chunk list"
  tb_embeddings :: "chunk_embedding list"
  tb_ingestions :: "ingestion_job list"
  tb_queries :: "tenant_row list"
  tb_citations :: "query_citation list"
  tb_pins :: "pinned_finding list"
  tb_comments :: "comment list"
  tb_conversations :: "tenant_row list"
  tb_messages :: "chat_message list"
  tb_versions :: "nat list"
  tb_collections :: "tenant_row list"
  tb_coll_documents :: "collection_document list"
  tb_permissions :: "nat list"
  tb_idempotency :: "nat list"

type_synonym counts = "(string \<times> nat) list"

section \<open>Cascades\<close>

definition cascade_chunks :: "nat list \<Rightarrow> content \<Rightarrow> content" where
  "cascade_chunks chunks c = c\<lparr>
     tb_embeddings := filter (\<lambda>e. em_chunk e \<notin> set chunks) (tb_embeddings c),
     tb_citations := filter (\<lambda>q. qc_chunk q \<notin> set chunks) (tb_citations c)\<rparr>"

definition cascade_documents :: "nat list \<Rightarrow> content \<Rightarrow> content" where
  "cascade_documents docs c =
     (let chunks = map ch_id (filter (\<lambda>h. ch_document h \<in> set docs) (tb_chunks c));
          c1 = cascade_chunks chunks (c\<lparr>tb_chunks := filter (\<lambda>h. ch_document h \<notin> set docs) (tb_chunks c)\<rparr>)
      in c1\<lparr>
        tb_datasets := filter (\<lambda>d. di_document d \<notin> set docs) (tb_datasets c1),
        tb_embeddings := filter (\<lambda>e. em_document e \<notin> set docs) (tb_embeddings c1),
        tb_ingestions := filter (\<lambda>j. ij_document j \<notin> set docs) (tb_ingestions c1),
        tb_citations := filter (\<lambda>q. qc_document q \<notin> set docs) (tb_citations c1),
        tb_coll_documents := filter (\<lambda>m. cd_document m \<notin> set docs) (tb_coll_documents c1)\<rparr>)"

definition cascade_queries :: "nat list \<Rightarrow> content \<Rightarrow> content" where
  "cascade_queries queries c = c\<lparr>
     tb_citations := filter (\<lambda>q. qc_query q \<notin> set queries) (tb_citations c),
     tb_pins := filter (\<lambda>p. pf_query p \<notin> set queries) (tb_pins c)\<rparr>"

text \<open>The replies to removed comments, the replies to these, and so on.\<close>

definition reply_to :: "nat list \<Rightarrow> comment \<Rightarrow> bool" where
  "reply_to gone c = (case co_parent c of None \<Rightarrow> False | Some p \<Rightarrow> p \<in> set gone)"

function cascade_comments :: "nat list \<Rightarrow> comment list \<Rightarrow> comment list" where
  "cascade_comments gone cs =
     (let hit = filter (reply_to gone) cs
      in if hit = [] then cs else cascade_comments (map co_id hit) (filter (\<lambda>c. \<not> reply_to gone c) cs))"
  by pat_completeness auto

termination
proof (relation "measure (\<lambda>(gone, cs). length cs)", goal_cases)
  case (2 gone cs hit)
  then obtain c where "c \<in> set cs" "reply_to gone c" by (auto simp: filter_empty_conv)
  then show ?case using length_filter_less [of c cs "\<lambda>c. \<not> reply_to gone c"] by simp
qed simp

declare cascade_comments.simps [simp del]

definition cascade_conversations :: "nat list \<Rightarrow> content \<Rightarrow> content" where
  "cascade_conversations convs c =
     (let msgs = map cs_id (filter (\<lambda>m. cs_conversation m \<in> set convs) (tb_messages c))
      in c\<lparr>tb_messages := filter (\<lambda>m. cs_conversation m \<notin> set convs) (tb_messages c),
           tb_versions := filter (\<lambda>v. v \<notin> set msgs) (tb_versions c)\<rparr>)"

definition cascade_collections :: "nat list \<Rightarrow> content \<Rightarrow> content" where
  "cascade_collections colls c = c\<lparr>
     tb_coll_documents := filter (\<lambda>m. cd_collection m \<notin> set colls) (tb_coll_documents c),
     tb_permissions := filter (\<lambda>k. k \<notin> set colls) (tb_permissions c)\<rparr>"

section \<open>The statements of the purge\<close>

text \<open>A Python dict assignment keeps the place of a key that is there.\<close>

definition set_count :: "string \<Rightarrow> nat \<Rightarrow> counts \<Rightarrow> counts" where
  "set_count k n cnt = AList.update k n cnt"

definition tenant_ids :: "nat \<Rightarrow> tenant_row list \<Rightarrow> nat list" where
  "tenant_ids tn rows = map tr_id (filter (\<lambda>r. tr_tenant r = tn) rows)"

definition count_rows :: "nat \<Rightarrow> content \<Rightarrow> counts" where
  "count_rows tn c =
     (let convs = tenant_ids tn (tb_conversations c);
          msgs = map cs_id (filter (\<lambda>m. cs_conversation m \<in> set convs) (tb_messages c));
          colls = tenant_ids tn (tb_collections c)
      in [(''message_versions'', length (filter (\<lambda>v. v \<in> set msgs) (tb_versions c))),
          (''messages'', length msgs),
          (''conversations'', length convs),
          (''collection_documents'', length (filter (\<lambda>m. cd_collection m \<in> set colls) (tb_coll_documents c))),
          (''collection_permissions'', length (filter (\<lambda>k. k \<in> set colls) (tb_permissions c))),
          (''document_collections'', length colls),
          (''comments'', length (filter (\<lambda>r. co_tenant r = tn) (tb_comments c))),
          (''pinned_findings'', length (filter (\<lambda>r. pf_tenant r = tn) (tb_pins c)))])"

definition delete_query_citations :: "nat \<Rightarrow> counts \<times> content \<Rightarrow> counts \<times> content" where
  "delete_query_citations tn = (\<lambda>(cnt, c).
     (set_count ''query_citations'' (length (filter (\<lambda>q. qc_tenant q = tn) (tb_citations c))) cnt,
      c\<lparr>tb_citations := filter (\<lambda>q. qc_tenant q \<noteq> tn) (tb_citations c)\<rparr>))"

definition delete_queries :: "nat \<Rightarrow> counts \<times> content \<Rightarrow> counts \<times> content" where
  "delete_queries tn = (\<lambda>(cnt, c). let ids = tenant_ids tn (tb_queries c) in
     (set_count ''queries'' (length ids) cnt,
      cascade_queries ids (c\<lparr>tb_queries := filter (\<lambda>q. tr_tenant q \<noteq> tn) (tb_queries c)\<rparr>)))"

definition delete_pinned_findings :: "nat \<Rightarrow> counts \<times> content \<Rightarrow> counts \<times> content" where
  "delete_pinned_findings tn = (\<lambda>(cnt, c).
     (set_count ''pinned_findings'' (length (filter (\<lambda>p. pf_tenant p = tn) (tb_pins c))) cnt,
      c\<lparr>tb_pins := filter (\<lambda>p. pf_tenant p \<noteq> tn) (tb_pins c)\<rparr>))"

definition delete_comments :: "nat \<Rightarrow> counts \<times> content \<Rightarrow> counts \<times> content" where
  "delete_comments tn = (\<lambda>(cnt, c). let gone = filter (\<lambda>r. co_tenant r = tn) (tb_comments c) in
     (set_count ''comments'' (length gone) cnt,
      c\<lparr>tb_comments := cascade_comments (map co_id gone) (filter (\<lambda>r. co_tenant r \<noteq> tn) (tb_comments c))\<rparr>))"

definition delete_chunk_embeddings :: "nat \<Rightarrow> counts \<times> content \<Rightarrow> counts \<times> content" where
  "delete_chunk_embeddings tn = (\<lambda>(cnt, c).
     (set_count ''chunk_embeddings'' (length (filter (\<lambda>e. em_tenant e = tn) (tb_embeddings c))) cnt,
      c\<lparr>tb_embeddings := filter (\<lambda>e. em_tenant e \<noteq> tn) (tb_embeddings c)\<rparr>))"

definition delete_document_chunks :: "nat \<Rightarrow> counts \<times> content \<Rightarrow> counts \<times> content" where
  "delete_document_chunks tn = (\<lambda>(cnt, c). let gone = filter (\<lambda>h. ch_tenant h = tn) (tb_chunks c) in
     (set_count ''document_chunks'' (length gone) cnt,
      cascade_chunks (map ch_id gone) (c\<lparr>tb_chunks := filter (\<lambda>h. ch_tenant h \<noteq> tn) (tb_chunks c)\<rparr>)))"

definition delete_ingestion_jobs :: "nat \<Rightarrow> counts \<times> content \<Rightarrow> counts \<times> content" where
  "delete_ingestion_jobs tn = (\<lambda>(cnt, c).
     (set_count ''ingestion_jobs'' (length (filter (\<lambda>j. ij_tenant j = tn) (tb_ingestions c))) cnt,
      c\<lparr>tb_ingestions := filter (\<lambda>j. ij_tenant j \<noteq> tn) (tb_ingestions c)\<rparr>))"

definition delete_dataset_indexes :: "nat \<Rightarrow> counts \<times> content \<Rightarrow> counts \<times> content" where
  "delete_dataset_indexes tn = (\<lambda>(cnt, c).
     (set_count ''query_dataset_indexes'' (length (filter (\<lambda>d. di_tenant d = tn) (tb_datasets c))) cnt,
      c\<lparr>tb_datasets := filter (\<lambda>d. di_tenant d \<noteq> tn) (tb_datasets c)\<rparr>))"

definition delete_documents :: "nat \<Rightarrow> counts \<times> content \<Rightarrow> counts \<times> content" where
  "delete_documents tn = (\<lambda>(cnt, c). let gone = filter (\<lambda>d. dc_tenant d = tn) (tb_documents c) in
     (set_count ''documents'' (length gone) cnt,
      cascade_documents (map dc_id gone) (c\<lparr>tb_documents := filter (\<lambda>d. dc_tenant d \<noteq> tn) (tb_documents c)\<rparr>)))"

definition delete_idempotency_keys :: "nat \<Rightarrow> counts \<times> content \<Rightarrow> counts \<times> content" where
  "delete_idempotency_keys tn = (\<lambda>(cnt, c).
     (set_count ''idempotency_keys'' (length (filter (\<lambda>t. t = tn) (tb_idempotency c))) cnt,
      c\<lparr>tb_idempotency := filter (\<lambda>t. t \<noteq> tn) (tb_idempotency c)\<rparr>))"

definition correct_count :: "string \<Rightarrow> nat \<Rightarrow> counts \<Rightarrow> counts" where
  "correct_count k n cnt = (if map_of cnt k \<noteq> Some n then set_count k n cnt else cnt)"

definition delete_conversations :: "nat \<Rightarrow> counts \<times> content \<Rightarrow> counts \<times> content" where
  "delete_conversations tn = (\<lambda>(cnt, c). let ids = tenant_ids tn (tb_conversations c) in
     (correct_count ''conversations'' (length ids) cnt,
      cascade_conversations ids (c\<lparr>tb_conversations := filter (\<lambda>r. tr_tenant r \<noteq> tn) (tb_conversations c)\<rparr>)))"

definition delete_collections :: "nat \<Rightarrow> counts \<times> content \<Rightarrow> counts \<times> content" where
  "delete_collections tn = (\<lambda>(cnt, c). let ids = tenant_ids tn (tb_collections c) in
     (correct_count ''document_collections'' (length ids) cnt,
      cascade_collections ids (c\<lparr>tb_collections := filter (\<lambda>r. tr_tenant r \<noteq> tn) (tb_collections c)\<rparr>)))"

definition purge_rows :: "nat \<Rightarrow> content \<Rightarrow> counts \<times> content" where
  "purge_rows tn c =
     delete_collections tn (delete_conversations tn (delete_idempotency_keys tn (delete_documents tn
       (delete_dataset_indexes tn (delete_ingestion_jobs tn (delete_document_chunks tn (delete_chunk_embeddings tn
         (delete_comments tn (delete_pinned_findings tn (delete_queries tn (delete_query_citations tn
           (count_rows tn c, c))))))))))))"

section \<open>Reference\<close>

text \<open>What the purge is meant to leave: every table without the rows of the tenant.  A message, a version, a
  membership and a permission belong to the tenant of the row they hang on.\<close>

definition without_tenant :: "nat \<Rightarrow> content \<Rightarrow> content" where
  "without_tenant tn c =
     (let convs = tenant_ids tn (tb_conversations c);
          msgs = map cs_id (filter (\<lambda>m. cs_conversation m \<in> set convs) (tb_messages c));
          colls = tenant_ids tn (tb_collections c)
      in \<lparr>tb_documents = filter (\<lambda>d. dc_tenant d \<noteq> tn) (tb_documents c),
          tb_datasets = filter (\<lambda>d. di_tenant d \<noteq> tn) (tb_datasets c),
          tb_chunks = filter (\<lambda>h. ch_tenant h \<noteq> tn) (tb_chunks c),
          tb_embeddings = filter (\<lambda>e. em_tenant e \<noteq> tn) (tb_embeddings c),
          tb_ingestions = filter (\<lambda>j. ij_tenant j \<noteq> tn) (tb_ingestions c),
          tb_queries = filter (\<lambda>q. tr_tenant q \<noteq> tn) (tb_queries c),
          tb_citations = filter (\<lambda>q. qc_tenant q \<noteq> tn) (tb_citations c),
          tb_pins = filter (\<lambda>p. pf_tenant p \<noteq> tn) (tb_pins c),
          tb_comments = filter (\<lambda>r. co_tenant r \<noteq> tn) (tb_comments c),
          tb_conversations = filter (\<lambda>r. tr_tenant r \<noteq> tn) (tb_conversations c),
          tb_messages = filter (\<lambda>m. cs_conversation m \<notin> set convs) (tb_messages c),
          tb_versions = filter (\<lambda>v. v \<notin> set msgs) (tb_versions c),
          tb_collections = filter (\<lambda>r. tr_tenant r \<noteq> tn) (tb_collections c),
          tb_coll_documents = filter (\<lambda>m. cd_collection m \<notin> set colls) (tb_coll_documents c),
          tb_permissions = filter (\<lambda>k. k \<notin> set colls) (tb_permissions c),
          tb_idempotency = filter (\<lambda>t. t \<noteq> tn) (tb_idempotency c)\<rparr>)"

text \<open>No row refers to a row of another tenant.\<close>

definition consistent :: "content \<Rightarrow> bool" where
  "consistent c \<longleftrightarrow>
     (\<forall>d \<in> set (tb_documents c).
        (\<forall>x \<in> set (tb_datasets c). di_document x = dc_id d \<longrightarrow> di_tenant x = dc_tenant d) \<and>
        (\<forall>x \<in> set (tb_chunks c). ch_document x = dc_id d \<longrightarrow> ch_tenant x = dc_tenant d) \<and>
        (\<forall>x \<in> set (tb_embeddings c). em_document x = dc_id d \<longrightarrow> em_tenant x = dc_tenant d) \<and>
        (\<forall>x \<in> set (tb_ingestions c). ij_document x = dc_id d \<longrightarrow> ij_tenant x = dc_tenant d) \<and>
        (\<forall>x \<in> set (tb_citations c). qc_document x = dc_id d \<longrightarrow> qc_tenant x = dc_tenant d) \<and>
        (\<forall>x \<in> set (tb_coll_documents c). cd_document x = dc_id d \<longrightarrow>
           cd_collection x \<in> set (tenant_ids (dc_tenant d) (tb_collections c)))) \<and>
     (\<forall>h \<in> set (tb_chunks c).
        (\<forall>x \<in> set (tb_embeddings c). em_chunk x = ch_id h \<longrightarrow> em_tenant x = ch_tenant h) \<and>
        (\<forall>x \<in> set (tb_citations c). qc_chunk x = ch_id h \<longrightarrow> qc_tenant x = ch_tenant h)) \<and>
     (\<forall>q \<in> set (tb_queries c).
        (\<forall>x \<in> set (tb_citations c). qc_query x = tr_id q \<longrightarrow> qc_tenant x = tr_tenant q) \<and>
        (\<forall>x \<in> set (tb_pins c). pf_query x = tr_id q \<longrightarrow> pf_tenant x = tr_tenant q)) \<and>
     (\<forall>r \<in> set (tb_comments c). \<forall>x \<in> set (tb_comments c). co_parent x = Some (co_id r) \<longrightarrow> co_tenant x = co_tenant r)"

lemma in_tenant_ids: "x \<in> set (tenant_ids tn rows) \<longleftrightarrow> (\<exists>r \<in> set rows. tr_tenant r = tn \<and> x = tr_id r)"
  by (auto simp: tenant_ids_def)

lemma cascade_comments_none:
  "(\<And>c. c \<in> set cs \<Longrightarrow> \<not> reply_to gone c) \<Longrightarrow> cascade_comments gone cs = cs"
  by (subst cascade_comments.simps) (simp add: filter_empty_conv Let_def)

lemmas cascades = cascade_chunks_def cascade_documents_def cascade_queries_def cascade_conversations_def
  cascade_collections_def

lemmas purge_statements = delete_query_citations_def delete_queries_def delete_pinned_findings_def
  delete_comments_def delete_chunk_embeddings_def delete_document_chunks_def delete_ingestion_jobs_def
  delete_dataset_indexes_def delete_documents_def delete_idempotency_keys_def delete_conversations_def
  delete_collections_def

lemmas purge_unfold = purge_rows_def purge_statements cascades Let_def case_prod_beta filter_filter

lemma purged_plain_tables:
  "tb_documents (snd (purge_rows tn c)) = filter (\<lambda>d. dc_tenant d \<noteq> tn) (tb_documents c)"
  "tb_queries (snd (purge_rows tn c)) = filter (\<lambda>q. tr_tenant q \<noteq> tn) (tb_queries c)"
  "tb_conversations (snd (purge_rows tn c)) = filter (\<lambda>r. tr_tenant r \<noteq> tn) (tb_conversations c)"
  "tb_collections (snd (purge_rows tn c)) = filter (\<lambda>r. tr_tenant r \<noteq> tn) (tb_collections c)"
  "tb_idempotency (snd (purge_rows tn c)) = filter (\<lambda>t. t \<noteq> tn) (tb_idempotency c)"
  "tb_messages (snd (purge_rows tn c)) =
     filter (\<lambda>m. cs_conversation m \<notin> set (tenant_ids tn (tb_conversations c))) (tb_messages c)"
  "tb_versions (snd (purge_rows tn c)) = filter (\<lambda>v. v \<notin> set (map cs_id
     (filter (\<lambda>m. cs_conversation m \<in> set (tenant_ids tn (tb_conversations c))) (tb_messages c)))) (tb_versions c)"
  "tb_permissions (snd (purge_rows tn c)) =
     filter (\<lambda>k. k \<notin> set (tenant_ids tn (tb_collections c))) (tb_permissions c)"
  by (simp_all add: purge_unfold)

lemma consistentD:
  assumes "consistent c"
  shows "d \<in> set (tb_documents c) \<Longrightarrow> x \<in> set (tb_datasets c) \<Longrightarrow> di_document x = dc_id d \<Longrightarrow> dc_tenant d = di_tenant x"
    and "d \<in> set (tb_documents c) \<Longrightarrow> h \<in> set (tb_chunks c) \<Longrightarrow> ch_document h = dc_id d \<Longrightarrow> dc_tenant d = ch_tenant h"
    and "d \<in> set (tb_documents c) \<Longrightarrow> e \<in> set (tb_embeddings c) \<Longrightarrow> em_document e = dc_id d \<Longrightarrow> dc_tenant d = em_tenant e"
    and "d \<in> set (tb_documents c) \<Longrightarrow> j \<in> set (tb_ingestions c) \<Longrightarrow> ij_document j = dc_id d \<Longrightarrow> dc_tenant d = ij_tenant j"
    and "d \<in> set (tb_documents c) \<Longrightarrow> q \<in> set (tb_citations c) \<Longrightarrow> qc_document q = dc_id d \<Longrightarrow> dc_tenant d = qc_tenant q"
    and "h \<in> set (tb_chunks c) \<Longrightarrow> e \<in> set (tb_embeddings c) \<Longrightarrow> em_chunk e = ch_id h \<Longrightarrow> ch_tenant h = em_tenant e"
    and "h \<in> set (tb_chunks c) \<Longrightarrow> q \<in> set (tb_citations c) \<Longrightarrow> qc_chunk q = ch_id h \<Longrightarrow> ch_tenant h = qc_tenant q"
    and "t \<in> set (tb_queries c) \<Longrightarrow> q \<in> set (tb_citations c) \<Longrightarrow> qc_query q = tr_id t \<Longrightarrow> tr_tenant t = qc_tenant q"
    and "t \<in> set (tb_queries c) \<Longrightarrow> p \<in> set (tb_pins c) \<Longrightarrow> pf_query p = tr_id t \<Longrightarrow> tr_tenant t = pf_tenant p"
  using assms unfolding consistent_def by metis+

lemma purged_linked_tables:
  assumes "consistent c"
  shows "tb_chunks (snd (purge_rows tn c)) = filter (\<lambda>h. ch_tenant h \<noteq> tn) (tb_chunks c)"
    and "tb_datasets (snd (purge_rows tn c)) = filter (\<lambda>d. di_tenant d \<noteq> tn) (tb_datasets c)"
    and "tb_ingestions (snd (purge_rows tn c)) = filter (\<lambda>j. ij_tenant j \<noteq> tn) (tb_ingestions c)"
    and "tb_pins (snd (purge_rows tn c)) = filter (\<lambda>p. pf_tenant p \<noteq> tn) (tb_pins c)"
    and "tb_embeddings (snd (purge_rows tn c)) = filter (\<lambda>e. em_tenant e \<noteq> tn) (tb_embeddings c)"
    and "tb_citations (snd (purge_rows tn c)) = filter (\<lambda>q. qc_tenant q \<noteq> tn) (tb_citations c)"
  by (auto simp: purge_unfold in_tenant_ids intro!: filter_cong dest: consistentD [OF assms])

lemma purged_memberships:
  assumes "consistent c"
  shows "tb_coll_documents (snd (purge_rows tn c)) =
    filter (\<lambda>m. cd_collection m \<notin> set (tenant_ids tn (tb_collections c))) (tb_coll_documents c)"
  using assms unfolding consistent_def by (auto simp: purge_unfold intro!: filter_cong)

lemma purged_comments:
  assumes "consistent c"
  shows "tb_comments (snd (purge_rows tn c)) = filter (\<lambda>r. co_tenant r \<noteq> tn) (tb_comments c)"
proof -
  have "\<not> reply_to (map co_id (filter (\<lambda>r. co_tenant r = tn) (tb_comments c))) x"
    if "x \<in> set (tb_comments c)" "co_tenant x \<noteq> tn" for x
    using assms that unfolding consistent_def by (auto simp: reply_to_def split: option.splits)
  then show ?thesis by (auto simp: purge_unfold intro: cascade_comments_none)
qed

text \<open>The purge removes exactly the rows of the tenant: with its deletes, their order and the cascades behind them
  every table ends as the table without the rows of this tenant, no more and no less.\<close>

theorem purge_rows_exact: "consistent c \<Longrightarrow> snd (purge_rows tn c) = without_tenant tn c"
  by (simp add: without_tenant_def purged_plain_tables purged_linked_tables purged_memberships purged_comments Let_def)

text \<open>The number of pinned findings is taken twice, and the second time the cascade from the queries has
  removed them: the reported number is zero.\<close>

lemma map_of_set_count: "map_of (set_count k n cnt) k' = (if k' = k then Some n else map_of cnt k')"
  by (simp add: set_count_def update_conv)

lemma map_of_correct_count: "map_of (correct_count k n cnt) k' = (if k' = k then Some n else map_of cnt k')"
  by (auto simp: correct_count_def map_of_set_count)

theorem pinned_count_is_lost:
  assumes "\<forall>p \<in> set (tb_pins c). pf_query p \<in> set (tenant_ids (pf_tenant p) (tb_queries c))"
  shows "map_of (fst (purge_rows tn c)) ''pinned_findings'' = Some 0"
  using assms
  by (auto simp: purge_unfold map_of_set_count map_of_correct_count filter_empty_conv)

end
