(* ===== verification/Tenant_Deletion.thy ===== *)
theory Tenant_Deletion
  imports Tenant_Content
begin

text \<open>
  Deletion of a workspace: the requests of the administrators (\<open>system/api/admin.py\<close>), the approval state
  machine and the purge (\<open>documents/services/deletion_service.py\<close>,
  \<open>documents/repositories/data_deletions.py\<close>, \<open>documents/models/data_deletion.py\<close>), its Celery task
  (\<open>process_data_deletion\<close> in \<open>system/workers/tasks_maintenance.py\<close>), and what the erasure of an account does to
  the requests (\<open>auth/services/admin_user_service.py\<close>).

  The request handlers lock their row, so each is one step.  The worker and \<open>mark_enqueue_failed\<close> read the row
  without a lock and write it later: they are jobs that carry the row as it was loaded, and the \<open>UPDATE\<close> changes
  the columns that differ from it.
\<close>

section \<open>Rows\<close>

datatype deletion_status = DAwaiting | DQueued | DProcessing | DCompleted | DFailed | DCancelled

datatype approval_mode = TwoAdmin | SingleAdminDelayed

datatype deletion_reason = WorkspaceOffboarding | SecurityIncident

record data_deletion =
  dd_id :: nat
  dd_tenant :: nat
  dd_requester :: nat
  dd_approver :: "nat option"
  dd_status :: deletion_status
  dd_mode :: approval_mode
  dd_not_before :: "int option"
  dd_reason :: deletion_reason
  dd_counts :: counts
  dd_error :: "string option"
  dd_requested :: int
  dd_approved :: "int option"
  dd_started :: "int option"
  dd_completed :: "int option"
  dd_failed :: "int option"

text \<open>An event of the audit log about a deletion, and a cleanup job that is added but not yet sent.\<close>

record deletion_event =
  au_action :: string
  au_tenant :: nat
  au_deletion :: nat
  au_actor :: "nat option"
  au_at :: int

record pending_cleanup =
  pc_owner :: nat
  pc_location :: location
  pc_error :: "string option"

datatype deletion_job =
    FailJob data_deletion
  | BlockJob data_deletion
  | StartJob data_deletion
  | FetchJob data_deletion
  | SweepJob data_deletion "(location \<times> nat) list" "(string option \<times> string option \<times> nat) list"
  | CommitJob data_deletion "pending_cleanup list"

text \<open>\<open>approvals\<close> holds the rows whose approval is committed and whose task is not sent yet, \<open>deletion_tasks\<close> the
  messages in the broker, \<open>deletion_users\<close> tenant, id, e-mail and TOTP of each account.\<close>

record deletion_db =
  deletion_rows :: "data_deletion list"
  deletion_tenants :: "nat list"
  deletion_users :: "(nat \<times> nat \<times> string \<times> bool) list"
  deletion_audit :: "deletion_event list"
  deletion_content :: content
  deletion_storage :: storage
  approvals :: "data_deletion list"
  deletion_tasks :: "(nat \<times> nat) list"
  deletion_jobs :: "deletion_job list"
  deletion_next :: nat

record deletion_settings =
  ds_mfa_required :: bool
  ds_reauth_minutes :: int
  ds_delay_hours :: int
  ds_admin_emails :: "string list"

text \<open>The part of \<open>AuthContext\<close> the session check fills in beside the fields of \<open>auth_context\<close>.\<close>

record admin_context = auth_context +
  ax_jwt :: bool
  ax_session_at :: "int option"
  ax_mfa_at :: "int option"

section \<open>Repository\<close>

definition find_deletion :: "nat \<Rightarrow> nat \<Rightarrow> deletion_db \<Rightarrow> data_deletion option" where
  "find_deletion tn did s = first_row (filter (\<lambda>r. dd_tenant r = tn \<and> dd_id r = did) (deletion_rows s))"

definition upd_deletion :: "nat \<Rightarrow> (data_deletion \<Rightarrow> data_deletion) \<Rightarrow> deletion_db \<Rightarrow> deletion_db" where
  "upd_deletion did f s = s\<lparr>deletion_rows := upd_where (\<lambda>r. dd_id r = did) f (deletion_rows s)\<rparr>"

definition flush_deletion :: "data_deletion \<Rightarrow> data_deletion \<Rightarrow> data_deletion \<Rightarrow> data_deletion" where
  "flush_deletion u u' r = r\<lparr>
     dd_approver := changed (dd_approver u) (dd_approver u') (dd_approver r),
     dd_status := changed (dd_status u) (dd_status u') (dd_status r),
     dd_mode := changed (dd_mode u) (dd_mode u') (dd_mode r),
     dd_counts := changed (dd_counts u) (dd_counts u') (dd_counts r),
     dd_error := changed (dd_error u) (dd_error u') (dd_error r),
     dd_approved := changed (dd_approved u) (dd_approved u') (dd_approved r),
     dd_started := changed (dd_started u) (dd_started u') (dd_started r),
     dd_completed := changed (dd_completed u) (dd_completed u') (dd_completed r),
     dd_failed := changed (dd_failed u) (dd_failed u') (dd_failed r)\<rparr>"

definition mark_processing :: "int \<Rightarrow> data_deletion \<Rightarrow> data_deletion" where
  "mark_processing now row = row\<lparr>dd_status := DProcessing, dd_started := Some now, dd_completed := None,
     dd_failed := None, dd_error := None\<rparr>"

definition mark_completed :: "int \<Rightarrow> counts \<Rightarrow> data_deletion \<Rightarrow> data_deletion" where
  "mark_completed now cnt row = row\<lparr>dd_status := DCompleted, dd_completed := Some now, dd_failed := None,
     dd_counts := cnt, dd_error := None\<rparr>"

definition mark_deletion_failed :: "int \<Rightarrow> string \<Rightarrow> data_deletion \<Rightarrow> data_deletion" where
  "mark_deletion_failed now err row = row\<lparr>dd_status := DFailed, dd_completed := None, dd_failed := Some now,
     dd_error := Some err\<rparr>"

definition list_by_tenant :: "nat \<Rightarrow> int \<Rightarrow> deletion_db \<Rightarrow> data_deletion list" where
  "list_by_tenant tn limit s = take (nat (max 1 (min limit 100)))
     (order_by (\<lambda>r. (- dd_requested r, - int (dd_id r))) (filter (\<lambda>r. dd_tenant r = tn) (deletion_rows s)))"

definition write_deletion_event :: "int \<Rightarrow> string \<Rightarrow> data_deletion \<Rightarrow> nat option \<Rightarrow> deletion_db \<Rightarrow> deletion_db" where
  "write_deletion_event now action row actor s = s\<lparr>deletion_audit := deletion_audit s @
     [\<lparr>au_action = action, au_tenant = dd_tenant row, au_deletion = dd_id row, au_actor = actor, au_at = now\<rparr>]\<rparr>"

section \<open>Access of the administrators\<close>

definition find_platform_user :: "nat \<Rightarrow> nat \<Rightarrow> deletion_db \<Rightarrow> (string \<times> bool) option" where
  "find_platform_user tn user s =
     map_option (\<lambda>(_, _, email, totp). (email, totp))
       (first_row (filter (\<lambda>(t, u, _, _). t = tn \<and> u = user) (deletion_users s)))"

definition platform_admin_denial :: "deletion_settings \<Rightarrow> admin_context \<Rightarrow> deletion_db \<Rightarrow> string option" where
  "platform_admin_denial cfg auth s =
     (if \<not> is_admin_role (ax_roles auth) then Some ''ADMIN_ROLE_REQUIRED''
      else (case find_platform_user (ax_tenant auth) (ax_user auth) s of
         None \<Rightarrow> Some ''PLATFORM_ADMIN_ALLOWLIST_REQUIRED''
       | Some (email, totp) \<Rightarrow>
           (if \<not> is_platform_admin_email email (ds_admin_emails cfg) then Some ''PLATFORM_ADMIN_ALLOWLIST_REQUIRED''
            else if ds_mfa_required cfg \<and> \<not> totp then Some ''ADMIN_MFA_SETUP_REQUIRED''
            else if ds_mfa_required cfg \<and> (\<not> ax_jwt auth \<or> ax_session auth = None \<or> ax_mfa_at auth = None)
              then Some ''ADMIN_MFA_REQUIRED''
            else None)))"

definition require_platform_admin :: "deletion_settings \<Rightarrow> admin_context \<Rightarrow> deletion_db \<Rightarrow> app_error + unit" where
  "require_platform_admin cfg auth s = (case platform_admin_denial cfg auth s of
     None \<Rightarrow> Inr ()
   | Some denial \<Rightarrow> Inl (ApiError (if denial \<in> {''ADMIN_ROLE_REQUIRED'', ''PLATFORM_ADMIN_ALLOWLIST_REQUIRED''}
                                 then ''FORBIDDEN'' else denial) 403))"

definition require_recent_mfa :: "deletion_settings \<Rightarrow> int \<Rightarrow> admin_context \<Rightarrow> app_error + unit" where
  "require_recent_mfa cfg now auth =
     (if \<not> ds_mfa_required cfg then Inr ()
      else (case (ax_session_at auth, ax_mfa_at auth, ax_session auth) of
         (Some authenticated, Some verified, Some _) \<Rightarrow>
           (let deadline = now - 60 * ds_reauth_minutes cfg
            in if authenticated < deadline \<or> verified < deadline then Inl (ApiError ''RECENT_MFA_AUTH_REQUIRED'' 403)
               else Inr ())
       | _ \<Rightarrow> Inl (ApiError ''RECENT_MFA_AUTH_REQUIRED'' 403)))"

definition resolve_deletion_tenant ::
  "deletion_settings \<Rightarrow> nat option \<Rightarrow> admin_context \<Rightarrow> deletion_db \<Rightarrow> app_error + nat" where
  "resolve_deletion_tenant cfg target auth s =
     (let tn = (case target of None \<Rightarrow> ax_tenant auth | Some t \<Rightarrow> t)
      in if tn \<noteq> ax_tenant auth
         then (case require_platform_admin cfg auth s of Inl e \<Rightarrow> Inl e | Inr _ \<Rightarrow> Inr tn)
         else Inr tn)"

text \<open>The checks the destructive endpoints begin with.\<close>

definition deletion_target ::
  "deletion_settings \<Rightarrow> int \<Rightarrow> string \<Rightarrow> nat option \<Rightarrow> admin_context \<Rightarrow> deletion_db \<Rightarrow> app_error + nat" where
  "deletion_target cfg now permission target auth s =
     (case require_permissions [permission] (ax_roles auth) (ax_permissions auth) of
        Inl _ \<Rightarrow> Inl (ApiError ''FORBIDDEN'' 403)
      | Inr _ \<Rightarrow> (case require_recent_mfa cfg now auth of
          Inl e \<Rightarrow> Inl e
        | Inr _ \<Rightarrow> resolve_deletion_tenant cfg target auth s))"

section \<open>Flags of the status answer\<close>

definition has_permission :: "string \<Rightarrow> admin_context \<Rightarrow> bool" where
  "has_permission p auth = (p \<in> set (resolve_permissions (ax_roles auth) (ax_permissions auth)))"

definition can_approve_deletion :: "data_deletion \<Rightarrow> admin_context \<Rightarrow> bool" where
  "can_approve_deletion row auth = (dd_status row = DAwaiting \<and> dd_requester row \<noteq> ax_user auth
     \<and> has_permission ''admin:data_deletions:approve'' auth)"

definition can_self_approve_deletion :: "int \<Rightarrow> data_deletion \<Rightarrow> admin_context \<Rightarrow> bool" where
  "can_self_approve_deletion now row auth = (case dd_not_before row of
     None \<Rightarrow> False
   | Some t \<Rightarrow> dd_status row = DAwaiting \<and> dd_requester row = ax_user auth \<and> t \<le> now
       \<and> has_permission ''admin:data_deletions:approve'' auth)"

definition can_cancel_deletion :: "data_deletion \<Rightarrow> admin_context \<Rightarrow> bool" where
  "can_cancel_deletion row auth = (dd_status row = DAwaiting \<and> dd_requester row = ax_user auth
     \<and> has_permission ''admin:data_deletions:write'' auth)"

section \<open>Services of the request handlers\<close>

definition request_deletion ::
  "deletion_settings \<Rightarrow> int \<Rightarrow> nat \<Rightarrow> nat \<Rightarrow> deletion_reason \<Rightarrow> deletion_db \<Rightarrow> (app_error + data_deletion) \<times> deletion_db" where
  "request_deletion cfg now tn user reason s =
     (let row = \<lparr>dd_id = deletion_next s, dd_tenant = tn, dd_requester = user, dd_approver = None,
            dd_status = DAwaiting, dd_mode = TwoAdmin, dd_not_before = Some (now + 60 * 60 * ds_delay_hours cfg),
            dd_reason = reason, dd_counts = [], dd_error = None, dd_requested = now, dd_approved = None,
            dd_started = None, dd_completed = None, dd_failed = None\<rparr>
      in if tn \<notin> set (deletion_tenants s) then (Inl IntegrityError, s)
         else (Inr row, write_deletion_event now ''deletion.requested'' row (Some user)
                (s\<lparr>deletion_rows := deletion_rows s @ [row], deletion_next := Suc (deletion_next s)\<rparr>)))"

definition approve_deletion ::
  "int \<Rightarrow> nat \<Rightarrow> nat \<Rightarrow> nat \<Rightarrow> deletion_db \<Rightarrow> (app_error + data_deletion) \<times> deletion_db" where
  "approve_deletion now tn did user s = (case find_deletion tn did s of
     None \<Rightarrow> (Inl (ApiError ''DATA_DELETION_NOT_FOUND'' 404), s)
   | Some row \<Rightarrow>
       (if dd_requester row = user then (Inl (ApiError ''SECOND_APPROVER_REQUIRED'' 403), s)
        else if dd_status row \<noteq> DAwaiting then (Inl (ApiError ''DATA_DELETION_NOT_AWAITING_APPROVAL'' 409), s)
        else (let row' = row\<lparr>dd_status := DQueued, dd_mode := TwoAdmin, dd_approver := Some user, dd_approved := Some now\<rparr>
              in (Inr row', write_deletion_event now ''deletion.approved'' row' (Some user)
                    (upd_deletion did (flush_deletion row row') s)))))"

definition self_approve_deletion ::
  "int \<Rightarrow> nat \<Rightarrow> nat \<Rightarrow> nat \<Rightarrow> deletion_db \<Rightarrow> (app_error + data_deletion) \<times> deletion_db" where
  "self_approve_deletion now tn did user s = (case find_deletion tn did s of
     None \<Rightarrow> (Inl (ApiError ''DATA_DELETION_NOT_FOUND'' 404), s)
   | Some row \<Rightarrow>
       (if dd_requester row \<noteq> user then (Inl (ApiError ''DELETION_REQUESTER_ONLY'' 403), s)
        else if dd_status row \<noteq> DAwaiting then (Inl (ApiError ''DATA_DELETION_NOT_AWAITING_APPROVAL'' 409), s)
        else if (case dd_not_before row of None \<Rightarrow> True | Some t \<Rightarrow> now < t)
          then (Inl (ApiError ''DELETION_SELF_APPROVAL_DELAY_ACTIVE'' 409), s)
        else (let row' = row\<lparr>dd_status := DQueued, dd_mode := SingleAdminDelayed, dd_approver := Some user,
                             dd_approved := Some now\<rparr>
              in (Inr row', write_deletion_event now ''deletion.self_approved'' row' (Some user)
                    (upd_deletion did (flush_deletion row row') s)))))"

definition cancel_deletion ::
  "int \<Rightarrow> nat \<Rightarrow> nat \<Rightarrow> nat \<Rightarrow> deletion_db \<Rightarrow> (app_error + data_deletion) \<times> deletion_db" where
  "cancel_deletion now tn did user s = (case find_deletion tn did s of
     None \<Rightarrow> (Inl (ApiError ''DATA_DELETION_NOT_FOUND'' 404), s)
   | Some row \<Rightarrow>
       (if dd_requester row \<noteq> user then (Inl (ApiError ''DELETION_REQUESTER_ONLY'' 403), s)
        else if dd_status row \<noteq> DAwaiting then (Inl (ApiError ''DATA_DELETION_NOT_AWAITING_APPROVAL'' 409), s)
        else (let row' = row\<lparr>dd_status := DCancelled\<rparr>
              in (Inr row', write_deletion_event now ''deletion.cancelled'' row' (Some user)
                    (upd_deletion did (flush_deletion row row') s)))))"

section \<open>Request handlers\<close>

definition request_data_deletion :: "deletion_settings \<Rightarrow> int \<Rightarrow> admin_context \<Rightarrow> nat option \<Rightarrow> string \<Rightarrow> deletion_reason
    \<Rightarrow> deletion_db \<Rightarrow> (app_error + data_deletion) \<times> deletion_db" where
  "request_data_deletion cfg now auth target confirmation reason s =
     (case deletion_target cfg now ''admin:data_deletions:write'' target auth s of
        Inl e \<Rightarrow> (Inl e, s)
      | Inr tn \<Rightarrow> (if strip confirmation \<noteq> ''DELETE '' @ uuid_str tn then (Inl (ApiError ''INVALID_REQUEST'' 400), s)
                   else request_deletion cfg now tn (ax_user auth) reason s))"

text \<open>After the commit of an approval the handler sends the task; until then the approval waits in \<open>approvals\<close>.\<close>

definition to_be_sent :: "(app_error + data_deletion) \<times> deletion_db \<Rightarrow> (app_error + data_deletion) \<times> deletion_db" where
  "to_be_sent r = (case r of
     (Inl e, s) \<Rightarrow> (Inl e, s)
   | (Inr row, s) \<Rightarrow> (Inr row, s\<lparr>approvals := approvals s @ [row]\<rparr>))"

definition approve_data_deletion ::
  "deletion_settings \<Rightarrow> int \<Rightarrow> admin_context \<Rightarrow> nat option \<Rightarrow> nat \<Rightarrow> deletion_db \<Rightarrow> (app_error + data_deletion) \<times> deletion_db" where
  "approve_data_deletion cfg now auth target did s =
     (case deletion_target cfg now ''admin:data_deletions:approve'' target auth s of
        Inl e \<Rightarrow> (Inl e, s)
      | Inr tn \<Rightarrow> to_be_sent (approve_deletion now tn did (ax_user auth) s))"

definition self_approve_data_deletion ::
  "deletion_settings \<Rightarrow> int \<Rightarrow> admin_context \<Rightarrow> nat option \<Rightarrow> nat \<Rightarrow> deletion_db \<Rightarrow> (app_error + data_deletion) \<times> deletion_db" where
  "self_approve_data_deletion cfg now auth target did s =
     (case deletion_target cfg now ''admin:data_deletions:approve'' target auth s of
        Inl e \<Rightarrow> (Inl e, s)
      | Inr tn \<Rightarrow> to_be_sent (self_approve_deletion now tn did (ax_user auth) s))"

definition cancel_data_deletion ::
  "deletion_settings \<Rightarrow> int \<Rightarrow> admin_context \<Rightarrow> nat option \<Rightarrow> nat \<Rightarrow> deletion_db \<Rightarrow> (app_error + data_deletion) \<times> deletion_db" where
  "cancel_data_deletion cfg now auth target did s =
     (case deletion_target cfg now ''admin:data_deletions:write'' target auth s of
        Inl e \<Rightarrow> (Inl e, s)
      | Inr tn \<Rightarrow> cancel_deletion now tn did (ax_user auth) s)"

text \<open>The broker takes the message, refuses it, or takes it although the call raises; the exception handler then
  marks the row failed and answers with status 503.\<close>

datatype broker_answer = Sent | NotSent | SentButRaised

definition send_deletion_task :: "broker_answer \<Rightarrow> data_deletion \<Rightarrow> deletion_db \<Rightarrow> (app_error + data_deletion) \<times> deletion_db" where
  "send_deletion_task answer row s =
     (let s0 = s\<lparr>approvals := remove1 row (approvals s)\<rparr>;
          s1 = (if answer = NotSent then s0 else s0\<lparr>deletion_tasks := deletion_tasks s0 @ [(dd_id row, dd_tenant row)]\<rparr>)
      in if answer = Sent then (Inr row, s1)
         else (Inl (ApiError ''INTERNAL_SERVER_ERROR'' 503), s1\<lparr>deletion_jobs := deletion_jobs s1 @ [FailJob row]\<rparr>))"

section \<open>The worker\<close>

definition approval_valid :: "int \<Rightarrow> data_deletion \<Rightarrow> bool" where
  "approval_valid now row =
     ((dd_mode row = TwoAdmin \<and> dd_approver row \<noteq> None \<and> dd_approver row \<noteq> Some (dd_requester row)) \<or>
      (dd_mode row = SingleAdminDelayed \<and> dd_approver row = Some (dd_requester row) \<and>
        (case (dd_approved row, dd_not_before row) of
           (Some a, Some t) \<Rightarrow> t \<le> a \<and> t \<le> now
         | _ \<Rightarrow> False)))"

definition worker_decision :: "int \<Rightarrow> data_deletion \<Rightarrow> deletion_job option" where
  "worker_decision now row =
     (if dd_status row \<in> {DCompleted, DProcessing, DAwaiting, DCancelled} then None
      else if dd_status row = DQueued \<and> \<not> approval_valid now row then Some (BlockJob row)
      else Some (StartJob row))"

definition read_deletion_task :: "int \<Rightarrow> nat \<Rightarrow> nat \<Rightarrow> deletion_db \<Rightarrow> app_error + deletion_job option" where
  "read_deletion_task now tn did s = (case find_deletion tn did s of
     None \<Rightarrow> Inl (ApiError ''DATA_DELETION_NOT_FOUND'' 404)
   | Some row \<Rightarrow> Inr (worker_decision now row))"

text \<open>The objects of the documents, and those of the dataset indexes joined with their documents.\<close>

definition document_objects :: "nat \<Rightarrow> content \<Rightarrow> (location \<times> nat) list" where
  "document_objects tn c = map (\<lambda>d. ((dc_bucket d, dc_key d), dc_uploader d))
     (filter (\<lambda>d. dc_tenant d = tn) (tb_documents c))"

definition dataset_objects :: "nat \<Rightarrow> content \<Rightarrow> (string option \<times> string option \<times> nat) list" where
  "dataset_objects tn c = concat (map (\<lambda>x. map (\<lambda>d. (di_bucket x, di_key x, dc_uploader d))
       (filter (\<lambda>d. dc_id d = di_document x \<and> dc_tenant d = tn) (tb_documents c)))
     (filter (\<lambda>x. di_tenant x = tn) (tb_datasets c)))"

fun sweep_documents :: "(nat \<Rightarrow> bool) \<Rightarrow> nat \<Rightarrow> (location \<times> nat) list \<Rightarrow> location list \<Rightarrow> pending_cleanup list \<times> location list" where
  "sweep_documents up i [] objs = ([], objs)"
| "sweep_documents up i ((loc, owner) # xs) objs =
     (let (ps, objs') = sweep_documents up (Suc i) xs (delete_object (up i) loc objs)
      in if up i then (ps, objs')
         else (\<lparr>pc_owner = owner, pc_location = loc, pc_error = Some ''workspace_deletion_storage_cleanup_pending''\<rparr> # ps, objs'))"

text \<open>\<open>delete_tenant_object\<close> refuses a key outside the prefix of the tenant without asking the store; the refusal
  is an exception as well, and the object is queued.\<close>

fun sweep_datasets :: "(nat \<Rightarrow> bool) \<Rightarrow> nat \<Rightarrow> nat \<Rightarrow> (string option \<times> string option \<times> nat) list \<Rightarrow> location list
    \<Rightarrow> pending_cleanup list \<times> location list" where
  "sweep_datasets up tn i [] objs = ([], objs)"
| "sweep_datasets up tn i ((bucket, object_key, owner) # xs) objs =
     (case (bucket, object_key) of
        (Some (b # bs), Some (k # ks)) \<Rightarrow>
          (let loc = (b # bs, k # ks);
               ok = (is_tenant_object_key tn (k # ks) \<and> up i);
               (ps, objs') = sweep_datasets up tn (Suc i) xs (delete_object ok loc objs)
           in if ok then (ps, objs') else (\<lparr>pc_owner = owner, pc_location = loc, pc_error = None\<rparr> # ps, objs'))
      | _ \<Rightarrow> sweep_datasets up tn (Suc i) xs objs)"

definition cleanup_job_of :: "int \<Rightarrow> nat \<Rightarrow> nat \<Rightarrow> pending_cleanup \<Rightarrow> cleanup_job" where
  "cleanup_job_of now tn k p = \<lparr>sc_id = k, sc_tenant = tn, sc_owner = Some (pc_owner p), sc_bucket = fst (pc_location p),
     sc_key = snd (pc_location p), sc_status = CPending, sc_attempts = 0, sc_error = pc_error p, sc_next = now,
     sc_created = now\<rparr>"

definition add_cleanup_jobs :: "int \<Rightarrow> nat \<Rightarrow> nat \<Rightarrow> pending_cleanup list \<Rightarrow> storage \<Rightarrow> storage" where
  "add_cleanup_jobs now tn k ps st = st\<lparr>cleanup_rows := cleanup_rows st @
     map (\<lambda>(i, p). cleanup_job_of now tn i p) (zip [k..<k + length ps] ps)\<rparr>"

text \<open>
  One step of a job: the job that follows it and the store.  Every write ends with a commit; a row that was
  removed in the meantime makes the flush raise, and the task ends.  The last step is the transaction of the
  deletes; an error of the database in it is the end of the job without this step, because \<open>mark_failed\<close>, which
  the exception handler calls without a rollback, is refused as well.
\<close>

fun run_deletion_job :: "int \<Rightarrow> (nat \<Rightarrow> bool) \<Rightarrow> deletion_job \<Rightarrow> deletion_db \<Rightarrow> deletion_job option \<times> deletion_db" where
  "run_deletion_job now up (FailJob row) s =
     (case find_deletion (dd_tenant row) (dd_id row) s of
        None \<Rightarrow> (None, s)
      | Some _ \<Rightarrow> (None, write_deletion_event now ''deletion.queue_failed'' row (dd_approver row)
          (upd_deletion (dd_id row) (flush_deletion row (mark_deletion_failed now ''DELETION_QUEUE_UNAVAILABLE'' row)) s)))"
| "run_deletion_job now up (BlockJob row) s =
     (case find_deletion (dd_tenant row) (dd_id row) s of
        None \<Rightarrow> (None, s)
      | Some _ \<Rightarrow> (None, write_deletion_event now ''deletion.execution_blocked'' row None
          (upd_deletion (dd_id row) (flush_deletion row
             (row\<lparr>dd_status := DAwaiting, dd_approver := None, dd_approved := None\<rparr>)) s)))"
| "run_deletion_job now up (StartJob row) s =
     (case find_deletion (dd_tenant row) (dd_id row) s of
        None \<Rightarrow> (None, s)
      | Some _ \<Rightarrow> (Some (FetchJob (mark_processing now row)),
          upd_deletion (dd_id row) (flush_deletion row (mark_processing now row)) s))"
| "run_deletion_job now up (FetchJob row) s =
     (Some (SweepJob row (document_objects (dd_tenant row) (deletion_content s))
        (dataset_objects (dd_tenant row) (deletion_content s))), s)"
| "run_deletion_job now up (SweepJob row docs sets) s =
     (let (ps, objs1) = sweep_documents up 0 docs (objects (deletion_storage s));
          (qs, objs2) = sweep_datasets up (dd_tenant row) (length docs) sets objs1
      in (Some (CommitJob row (ps @ qs)), s\<lparr>deletion_storage := (deletion_storage s)\<lparr>objects := objs2\<rparr>\<rparr>))"
| "run_deletion_job now up (CommitJob row ps) s =
     (case find_deletion (dd_tenant row) (dd_id row) s of
        None \<Rightarrow> (None, s)
      | Some _ \<Rightarrow>
          (let (cnt, c) = purge_rows (dd_tenant row) (deletion_content s)
           in (None, write_deletion_event now ''deletion.completed'' row (Some (dd_requester row))
                 (upd_deletion (dd_id row) (flush_deletion row (mark_completed now cnt row))
                   (s\<lparr>deletion_content := c,
                      deletion_storage := add_cleanup_jobs now (dd_tenant row) (deletion_next s) ps (deletion_storage s),
                      deletion_next := deletion_next s + length ps\<rparr>)))))"

fun run_jobs :: "nat \<Rightarrow> int \<Rightarrow> (nat \<Rightarrow> bool) \<Rightarrow> deletion_job option \<Rightarrow> deletion_db \<Rightarrow> deletion_db" where
  "run_jobs 0 now up j s = s"
| "run_jobs (Suc n) now up None s = s"
| "run_jobs (Suc n) now up (Some j) s = (let (j', s') = run_deletion_job now up j s in run_jobs n now up j' s')"

text \<open>\<open>process_deletion\<close> without interruption: at most the four steps start, fetch, sweep and commit.\<close>

definition process_deletion :: "int \<Rightarrow> (nat \<Rightarrow> bool) \<Rightarrow> nat \<Rightarrow> nat \<Rightarrow> deletion_db \<Rightarrow> (app_error + unit) \<times> deletion_db" where
  "process_deletion now up tn did s = (case read_deletion_task now tn did s of
     Inl e \<Rightarrow> (Inl e, s)
   | Inr j \<Rightarrow> (Inr (), run_jobs 4 now up j s))"

section \<open>Removal of requests\<close>

text \<open>\<open>retention_cleanup\<close> removes old finished requests.  The erasure of an account is refused while a purge it
  requested runs; it removes the requests of the account in its own workspace, a request in another workspace
  makes the foreign key refuse, and the approvals of the account lose their approver.\<close>

definition expire_deletions :: "nat \<Rightarrow> int \<Rightarrow> deletion_db \<Rightarrow> deletion_db" where
  "expire_deletions tn cutoff s = s\<lparr>deletion_rows := filter (\<lambda>r. \<not> (dd_tenant r = tn \<and> dd_requested r < cutoff \<and>
     dd_status r \<in> {DCompleted, DFailed, DCancelled})) (deletion_rows s)\<rparr>"

definition erase_account :: "nat \<Rightarrow> nat \<Rightarrow> deletion_db \<Rightarrow> (app_error + unit) \<times> deletion_db" where
  "erase_account tn user s =
     (let mine = filter (\<lambda>r. dd_tenant r = tn \<and> dd_requester r = user) (deletion_rows s);
          rest = filter (\<lambda>r. \<not> (dd_tenant r = tn \<and> dd_requester r = user)) (deletion_rows s)
      in if list_ex (\<lambda>r. dd_status r = DProcessing) mine then (Inl (ApiError ''ACCOUNT_DELETION_IN_PROGRESS'' 409), s)
         else if list_ex (\<lambda>r. dd_requester r = user) rest then (Inl IntegrityError, s)
         else (Inr (), s\<lparr>deletion_rows := upd_where (\<lambda>r. dd_approver r = Some user) (\<lambda>r. r\<lparr>dd_approver := None\<rparr>) rest,
                deletion_users := filter (\<lambda>(t, u, _, _). \<not> (t = tn \<and> u = user)) (deletion_users s)\<rparr>))"

section \<open>The machine\<close>

text \<open>\<open>deletion_step cfg now\<close>: the handlers, the message that is sent or lost with its process, a message that is
  delivered (any number of times), a step or the death of a job, the removal of requests, and whatever the rest of the program does to
  users, tenants, contents and stored objects.\<close>

inductive deletion_step :: "deletion_settings \<Rightarrow> int \<Rightarrow> deletion_db \<Rightarrow> deletion_db \<Rightarrow> bool" for cfg now where
  Request: "deletion_step cfg now s (snd (request_data_deletion cfg now auth target confirmation reason s))"
| Approve: "deletion_step cfg now s (snd (approve_data_deletion cfg now auth target did s))"
| SelfApprove: "deletion_step cfg now s (snd (self_approve_data_deletion cfg now auth target did s))"
| Cancel: "deletion_step cfg now s (snd (cancel_data_deletion cfg now auth target did s))"
| Send: "row \<in> set (approvals s) \<Longrightarrow> deletion_step cfg now s (snd (send_deletion_task answer row s))"
| Lose: "deletion_step cfg now s (s\<lparr>approvals := remove1 row (approvals s)\<rparr>)"
| Deliver: "(did, tn) \<in> set (deletion_tasks s) \<Longrightarrow> read_deletion_task now tn did s = Inr (Some j) \<Longrightarrow>
    deletion_step cfg now s (s\<lparr>deletion_jobs := deletion_jobs s @ [j]\<rparr>)"
| Work: "j \<in> set (deletion_jobs s) \<Longrightarrow> run_deletion_job now up j s = (j', s') \<Longrightarrow>
    deletion_step cfg now s (s'\<lparr>deletion_jobs := remove1 j (deletion_jobs s) @ (case j' of None \<Rightarrow> [] | Some i \<Rightarrow> [i])\<rparr>)"
| Die: "j \<in> set (deletion_jobs s) \<Longrightarrow> deletion_step cfg now s (s\<lparr>deletion_jobs := remove1 j (deletion_jobs s)\<rparr>)"
| Expire: "deletion_step cfg now s (expire_deletions tn cutoff s)"
| Erase: "deletion_step cfg now s (snd (erase_account tn user s))"
| Other: "deletion_step cfg now s (s\<lparr>deletion_users := us, deletion_tenants := ts, deletion_content := c, deletion_storage := st\<rparr>)"

inductive deletion_steps :: "deletion_settings \<Rightarrow> deletion_db \<Rightarrow> deletion_db \<Rightarrow> bool" for cfg where
  Refl: "deletion_steps cfg s s"
| Next: "deletion_steps cfg s t \<Longrightarrow> deletion_step cfg now t u \<Longrightarrow> deletion_steps cfg s u"

definition fresh_installation :: "deletion_db \<Rightarrow> bool" where
  "fresh_installation s \<longleftrightarrow> deletion_rows s = [] \<and> deletion_audit s = [] \<and> approvals s = [] \<and> deletion_tasks s = [] \<and>
     deletion_jobs s = []"

end
