(* ===== verification/Deletion_Properties.thy ===== *)
theory Deletion_Properties
  imports Tenant_Deletion
begin

text \<open>
  What the deletion of a workspace guarantees: nothing is purged without the approvals the audit log shows, a
  cancelled request stays cancelled, the flags of the status answer agree with the handlers, an approved deletion
  empties the workspace; and where it stops: a purge whose worker dies is stuck.
\<close>

section \<open>What the audit log says\<close>

text \<open>The deletion was requested for this tenant, and then approved: by somebody else, or by the requester when the
  delay was over.\<close>

definition properly_approved :: "deletion_settings \<Rightarrow> deletion_db \<Rightarrow> nat \<Rightarrow> nat \<Rightarrow> bool" where
  "properly_approved cfg s tn did \<longleftrightarrow>
     (\<exists>q \<in> set (deletion_audit s). \<exists>a \<in> set (deletion_audit s).
        au_action q = ''deletion.requested'' \<and> au_tenant q = tn \<and> au_deletion q = did \<and>
        au_tenant a = tn \<and> au_deletion a = did \<and>
        ((au_action a = ''deletion.approved'' \<and> au_actor a \<noteq> None \<and> au_actor a \<noteq> au_actor q) \<or>
         (au_action a = ''deletion.self_approved'' \<and> au_actor a = au_actor q \<and>
          au_at q + 60 * 60 * ds_delay_hours cfg \<le> au_at a)))"

definition requested_in_log :: "deletion_settings \<Rightarrow> deletion_db \<Rightarrow> data_deletion \<Rightarrow> bool" where
  "requested_in_log cfg s r \<longleftrightarrow>
     (\<exists>q \<in> set (deletion_audit s). au_action q = ''deletion.requested'' \<and> au_tenant q = dd_tenant r \<and>
        au_deletion q = dd_id r \<and> au_actor q = Some (dd_requester r) \<and>
        dd_not_before r = Some (au_at q + 60 * 60 * ds_delay_hours cfg))"

primrec job_row :: "deletion_job \<Rightarrow> data_deletion" where
  "job_row (FailJob r) = r"
| "job_row (BlockJob r) = r"
| "job_row (StartJob r) = r"
| "job_row (FetchJob r) = r"
| "job_row (SweepJob r docs sets) = r"
| "job_row (CommitJob r ps) = r"

definition unapproved_status :: "deletion_status \<Rightarrow> bool" where
  "unapproved_status st \<longleftrightarrow> st = DAwaiting \<or> st = DCancelled"

definition row_ok :: "deletion_settings \<Rightarrow> deletion_db \<Rightarrow> data_deletion \<Rightarrow> bool" where
  "row_ok cfg s r \<longleftrightarrow> dd_id r < deletion_next s \<and> requested_in_log cfg s r \<and>
     (unapproved_status (dd_status r) \<or> properly_approved cfg s (dd_tenant r) (dd_id r))"

definition deletions_ok :: "deletion_settings \<Rightarrow> deletion_db \<Rightarrow> bool" where
  "deletions_ok cfg s \<longleftrightarrow>
     distinct (map dd_id (deletion_rows s)) \<and>
     (\<forall>r \<in> set (deletion_rows s). row_ok cfg s r) \<and>
     (\<forall>r \<in> set (approvals s). properly_approved cfg s (dd_tenant r) (dd_id r)) \<and>
     (\<forall>(did, tn) \<in> set (deletion_tasks s). properly_approved cfg s tn did) \<and>
     (\<forall>j \<in> set (deletion_jobs s). properly_approved cfg s (dd_tenant (job_row j)) (dd_id (job_row j)))"

section \<open>Lemmas\<close>

lemma flush_deletion_key [simp]:
  "dd_id (flush_deletion u u' r) = dd_id r" "dd_tenant (flush_deletion u u' r) = dd_tenant r"
  "dd_requester (flush_deletion u u' r) = dd_requester r" "dd_not_before (flush_deletion u u' r) = dd_not_before r"
  by (simp_all add: flush_deletion_def)

lemma find_deletion_Some:
  "find_deletion tn did s = Some r \<Longrightarrow> r \<in> set (deletion_rows s) \<and> dd_tenant r = tn \<and> dd_id r = did"
  using first_row_in by (fastforce simp: find_deletion_def)

lemma find_deletion_None: "find_deletion tn did s = None \<Longrightarrow> r \<in> set (deletion_rows s) \<Longrightarrow> dd_id r = did \<Longrightarrow> dd_tenant r \<noteq> tn"
  by (auto simp: find_deletion_def filter_empty_conv)

lemma upd_deletion_simps [simp]:
  "deletion_rows (upd_deletion did f s) = upd_where (\<lambda>r. dd_id r = did) f (deletion_rows s)"
  "deletion_audit (upd_deletion did f s) = deletion_audit s" "approvals (upd_deletion did f s) = approvals s"
  "deletion_tasks (upd_deletion did f s) = deletion_tasks s" "deletion_jobs (upd_deletion did f s) = deletion_jobs s"
  "deletion_next (upd_deletion did f s) = deletion_next s" "deletion_content (upd_deletion did f s) = deletion_content s"
  "deletion_storage (upd_deletion did f s) = deletion_storage s"
  by (simp_all add: upd_deletion_def)

lemma write_deletion_event_simps [simp]:
  "deletion_rows (write_deletion_event now a r u s) = deletion_rows s"
  "deletion_audit (write_deletion_event now a r u s) = deletion_audit s @
     [\<lparr>au_action = a, au_tenant = dd_tenant r, au_deletion = dd_id r, au_actor = u, au_at = now\<rparr>]"
  "approvals (write_deletion_event now a r u s) = approvals s"
  "deletion_tasks (write_deletion_event now a r u s) = deletion_tasks s"
  "deletion_jobs (write_deletion_event now a r u s) = deletion_jobs s"
  "deletion_next (write_deletion_event now a r u s) = deletion_next s"
  "deletion_content (write_deletion_event now a r u s) = deletion_content s"
  "deletion_storage (write_deletion_event now a r u s) = deletion_storage s"
  by (simp_all add: write_deletion_event_def)

lemma mark_keys [simp]:
  "dd_id (mark_processing now r) = dd_id r" "dd_tenant (mark_processing now r) = dd_tenant r"
  "dd_id (mark_completed now cnt r) = dd_id r" "dd_tenant (mark_completed now cnt r) = dd_tenant r"
  "dd_id (mark_deletion_failed now e r) = dd_id r" "dd_tenant (mark_deletion_failed now e r) = dd_tenant r"
  by (simp_all add: mark_processing_def mark_completed_def mark_deletion_failed_def)

lemma properly_approved_mono:
  "properly_approved cfg s tn did \<Longrightarrow> set (deletion_audit s) \<subseteq> set (deletion_audit s') \<Longrightarrow> properly_approved cfg s' tn did"
  unfolding properly_approved_def by blast

lemma requested_in_log_mono:
  "requested_in_log cfg s r \<Longrightarrow> set (deletion_audit s) \<subseteq> set (deletion_audit s') \<Longrightarrow> requested_in_log cfg s' r"
  unfolding requested_in_log_def by blast

text \<open>The shape every step has: rows keep what identifies them and change their status only where the log covers
  it, and what is in flight is covered.\<close>

lemma deletions_ok_step:
  assumes "deletions_ok cfg s" and "set (deletion_audit s) \<subseteq> set (deletion_audit s')" and "deletion_next s \<le> deletion_next s'"
    and "distinct (map dd_id (deletion_rows s'))"
    and "\<And>r'. r' \<in> set (deletion_rows s') \<Longrightarrow> row_ok cfg s' r' \<or> (\<exists>r \<in> set (deletion_rows s). dd_id r' = dd_id r \<and>
      dd_tenant r' = dd_tenant r \<and> dd_requester r' = dd_requester r \<and> dd_not_before r' = dd_not_before r \<and>
      (dd_status r' = dd_status r \<or> unapproved_status (dd_status r') \<or> properly_approved cfg s' (dd_tenant r) (dd_id r)))"
    and "\<And>r. r \<in> set (approvals s') \<Longrightarrow> r \<in> set (approvals s) \<or> properly_approved cfg s' (dd_tenant r) (dd_id r)"
    and "\<And>did tn. (did, tn) \<in> set (deletion_tasks s') \<Longrightarrow> (did, tn) \<in> set (deletion_tasks s) \<or> properly_approved cfg s' tn did"
    and "\<And>j. j \<in> set (deletion_jobs s') \<Longrightarrow> j \<in> set (deletion_jobs s) \<or>
      properly_approved cfg s' (dd_tenant (job_row j)) (dd_id (job_row j))"
  shows "deletions_ok cfg s'"
proof -
  have pm: "properly_approved cfg s tn did \<Longrightarrow> properly_approved cfg s' tn did" for tn did
    using properly_approved_mono assms(2) by blast
  have "row_ok cfg s' r'" if "r' \<in> set (deletion_rows s')" for r'
  proof (cases "row_ok cfg s' r'")
    case False
    with assms(5) [OF that] obtain r where r: "r \<in> set (deletion_rows s)" "dd_id r' = dd_id r" "dd_tenant r' = dd_tenant r"
      "dd_requester r' = dd_requester r" "dd_not_before r' = dd_not_before r"
      "dd_status r' = dd_status r \<or> unapproved_status (dd_status r') \<or> properly_approved cfg s' (dd_tenant r) (dd_id r)" by blast
    have "row_ok cfg s r" using assms(1) r(1) by (simp add: deletions_ok_def)
    moreover have "requested_in_log cfg s' r \<Longrightarrow> requested_in_log cfg s' r'" using r(2-5) by (simp add: requested_in_log_def)
    ultimately show ?thesis using r pm requested_in_log_mono [OF _ assms(2)] assms(3) by (auto simp: row_ok_def)
  qed
  then show ?thesis using assms(1,4,6,7,8) pm unfolding deletions_ok_def by fast
qed

lemma flush_deletion_status:
  "dd_status (flush_deletion u u' r) = dd_status u' \<or> dd_status (flush_deletion u u' r) = dd_status r"
  by (simp add: flush_deletion_def changed_def)

lemma map_id_upd_where [simp]:
  "map dd_id (upd_where P (flush_deletion u u') rs) = map dd_id rs"
  by (simp add: map_upd_where_same)

text \<open>One row is written.\<close>

lemma deletions_ok_write:
  assumes ok: "deletions_ok cfg s" and f: "find_deletion tn did s = Some r"
    and rows: "deletion_rows s' = upd_where (\<lambda>x. dd_id x = did) (flush_deletion u u') (deletion_rows s)"
    and log: "set (deletion_audit s) \<subseteq> set (deletion_audit s')" "deletion_next s \<le> deletion_next s'"
    and st: "unapproved_status (dd_status u') \<or> properly_approved cfg s' tn did"
    and "\<And>r. r \<in> set (approvals s') \<Longrightarrow> r \<in> set (approvals s) \<or> properly_approved cfg s' (dd_tenant r) (dd_id r)"
    and "deletion_tasks s' = deletion_tasks s"
    and "\<And>j. j \<in> set (deletion_jobs s') \<Longrightarrow> j \<in> set (deletion_jobs s) \<or>
      properly_approved cfg s' (dd_tenant (job_row j)) (dd_id (job_row j))"
  shows "deletions_ok cfg s'"
proof (rule deletions_ok_step [OF ok log])
  show "distinct (map dd_id (deletion_rows s'))" using ok by (simp add: rows deletions_ok_def)
next
  fix r' assume "r' \<in> set (deletion_rows s')"
  then obtain y where y: "y \<in> set (deletion_rows s)" "r' = (if dd_id y = did then flush_deletion u u' y else y)"
    by (auto simp: rows in_upd_where)
  have "dd_id y = did \<Longrightarrow> dd_tenant y = tn"
    using find_deletion_Some [OF f] y(1) ok distinct_map_inj [of dd_id "deletion_rows s" y r] by (auto simp: deletions_ok_def)
  with y st flush_deletion_status [of u u' y] show "row_ok cfg s' r' \<or> (\<exists>r \<in> set (deletion_rows s). dd_id r' = dd_id r \<and>
      dd_tenant r' = dd_tenant r \<and> dd_requester r' = dd_requester r \<and> dd_not_before r' = dd_not_before r \<and>
      (dd_status r' = dd_status r \<or> unapproved_status (dd_status r') \<or> properly_approved cfg s' (dd_tenant r) (dd_id r)))"
    by (intro disjI2 bexI [of _ y]) auto
qed (use assms in auto)

lemma deletions_ok_request:
  assumes "deletions_ok cfg s"
  shows "deletions_ok cfg (snd (request_data_deletion cfg now auth target confirmation reason s))"
proof -
  have "deletions_ok cfg (snd (request_deletion cfg now tn user reason s))" for tn user
  proof (cases "tn \<in> set (deletion_tenants s)")
    case True
    let ?s = "snd (request_deletion cfg now tn user reason s)"
    obtain row where row: "deletion_rows ?s = deletion_rows s @ [row]" "dd_id row = deletion_next s" "dd_status row = DAwaiting"
      "requested_in_log cfg ?s row"
      using True by (simp add: request_deletion_def requested_in_log_def Let_def)
    show ?thesis
    proof (rule deletions_ok_step [OF assms])
      show "distinct (map dd_id (deletion_rows ?s))"
        using assms row by (auto simp: deletions_ok_def row_ok_def)
    next
      fix r' assume "r' \<in> set (deletion_rows ?s)"
      then consider "r' = row" | "r' \<in> set (deletion_rows s)" using row(1) by auto
      then show "row_ok cfg ?s r' \<or> (\<exists>r \<in> set (deletion_rows s). dd_id r' = dd_id r \<and> dd_tenant r' = dd_tenant r \<and>
        dd_requester r' = dd_requester r \<and> dd_not_before r' = dd_not_before r \<and> (dd_status r' = dd_status r \<or>
        unapproved_status (dd_status r') \<or> properly_approved cfg ?s (dd_tenant r) (dd_id r)))"
      proof cases
        case 1
        have "deletion_next s < deletion_next ?s" using True by (simp add: request_deletion_def Let_def)
        with 1 row show ?thesis by (simp add: row_ok_def unapproved_status_def)
      qed blast
    qed (use True in \<open>auto simp: request_deletion_def Let_def\<close>)
  qed (use assms in \<open>simp add: request_deletion_def Let_def\<close>)
  then show ?thesis using assms by (simp add: request_data_deletion_def split: sum.splits)
qed

text \<open>The three handlers that decide on a row.\<close>

lemma deletions_ok_approve:
  assumes "deletions_ok cfg s"
  shows "deletions_ok cfg (snd (to_be_sent (approve_deletion now tn did user s)))"
proof (cases "find_deletion tn did s")
  case (Some row)
  note f = find_deletion_Some [OF Some]
  obtain q where q: "q \<in> set (deletion_audit s)" "au_action q = ''deletion.requested''" "au_tenant q = dd_tenant row"
    "au_deletion q = dd_id row" "au_actor q = Some (dd_requester row)"
    using assms f by (auto simp: deletions_ok_def row_ok_def requested_in_log_def)
  show ?thesis
  proof (cases "dd_requester row = user \<or> dd_status row \<noteq> DAwaiting")
    case False
    let ?s = "snd (to_be_sent (approve_deletion now tn did user s))"
    let ?a = "\<lparr>au_action = ''deletion.approved'', au_tenant = tn, au_deletion = did, au_actor = Some user, au_at = now\<rparr>"
    have a: "deletion_audit ?s = deletion_audit s @ [?a]"
      using Some False f by (simp add: approve_deletion_def to_be_sent_def Let_def)
    have p: "properly_approved cfg ?s tn did"
      unfolding properly_approved_def a by (rule bexI [of _ q], rule bexI [of _ ?a]) (use q f False in auto)
    show ?thesis
      by (rule deletions_ok_write [OF assms Some])
        (use Some False f p in \<open>auto simp: approve_deletion_def to_be_sent_def Let_def\<close>)
  qed (use assms Some in \<open>auto simp: approve_deletion_def to_be_sent_def Let_def\<close>)
qed (use assms in \<open>simp add: approve_deletion_def to_be_sent_def Let_def\<close>)

lemma deletions_ok_self_approve:
  assumes "deletions_ok cfg s"
  shows "deletions_ok cfg (snd (to_be_sent (self_approve_deletion now tn did user s)))"
proof (cases "find_deletion tn did s")
  case (Some row)
  note f = find_deletion_Some [OF Some]
  obtain q where q: "q \<in> set (deletion_audit s)" "au_action q = ''deletion.requested''" "au_tenant q = dd_tenant row"
    "au_deletion q = dd_id row" "au_actor q = Some (dd_requester row)"
    "dd_not_before row = Some (au_at q + 60 * 60 * ds_delay_hours cfg)"
    using assms f by (auto simp: deletions_ok_def row_ok_def requested_in_log_def)
  show ?thesis
  proof (cases "dd_requester row \<noteq> user \<or> dd_status row \<noteq> DAwaiting \<or> now < au_at q + 60 * 60 * ds_delay_hours cfg")
    case False
    let ?s = "snd (to_be_sent (self_approve_deletion now tn did user s))"
    let ?a = "\<lparr>au_action = ''deletion.self_approved'', au_tenant = tn, au_deletion = did, au_actor = Some user, au_at = now\<rparr>"
    have a: "deletion_audit ?s = deletion_audit s @ [?a]"
      using Some False f q(6) by (simp add: self_approve_deletion_def to_be_sent_def Let_def)
    have p: "properly_approved cfg ?s tn did"
      unfolding properly_approved_def a by (rule bexI [of _ q], rule bexI [of _ ?a]) (use q f False in auto)
    show ?thesis
      by (rule deletions_ok_write [OF assms Some])
        (use Some False f q(6) p in \<open>auto simp: self_approve_deletion_def to_be_sent_def Let_def\<close>)
  qed (use assms Some q(6) in \<open>auto simp: self_approve_deletion_def to_be_sent_def Let_def\<close>)
qed (use assms in \<open>simp add: self_approve_deletion_def to_be_sent_def Let_def\<close>)

lemma deletions_ok_cancel:
  assumes "deletions_ok cfg s"
  shows "deletions_ok cfg (snd (cancel_deletion now tn did user s))"
proof (cases "find_deletion tn did s")
  case (Some row)
  show ?thesis
  proof (cases "dd_requester row \<noteq> user \<or> dd_status row \<noteq> DAwaiting")
    case False
    show ?thesis
      by (rule deletions_ok_write [OF assms Some, where u = row and u' = "row\<lparr>dd_status := DCancelled\<rparr>"])
        (use Some False in \<open>auto simp: cancel_deletion_def Let_def unapproved_status_def\<close>)
  qed (use assms Some in \<open>auto simp: cancel_deletion_def Let_def\<close>)
qed (use assms in \<open>simp add: cancel_deletion_def Let_def\<close>)

lemma job_row_approved: "deletions_ok cfg s \<Longrightarrow> j \<in> set (deletion_jobs s) \<Longrightarrow>
    properly_approved cfg s (dd_tenant (job_row j)) (dd_id (job_row j))"
  by (simp add: deletions_ok_def)

lemma in_remove1D: "x \<in> set (remove1 y xs) \<Longrightarrow> x \<in> set xs"
  using set_remove1_subset by fast

definition next_jobs :: "deletion_job \<Rightarrow> deletion_job option \<Rightarrow> deletion_db \<Rightarrow> deletion_job list" where
  "next_jobs j j' s = remove1 j (deletion_jobs s) @ (case j' of None \<Rightarrow> [] | Some i \<Rightarrow> [i])"

lemma in_next_jobs: "i \<in> set (next_jobs j j' s) \<Longrightarrow> i \<in> set (deletion_jobs s) \<or> j' = Some i"
  by (auto simp: next_jobs_def dest: in_remove1D split: option.splits)

lemma run_deletion_job_row:
  "run_deletion_job now up j s = (Some j', s') \<Longrightarrow> dd_id (job_row j') = dd_id (job_row j) \<and> dd_tenant (job_row j') = dd_tenant (job_row j)"
  by (cases j) (auto simp: Let_def split: option.splits prod.splits)

lemma run_deletion_job_frame:
  "run_deletion_job now up j s = (j', s') \<Longrightarrow> approvals s' = approvals s \<and> deletion_tasks s' = deletion_tasks s \<and>
     set (deletion_audit s) \<subseteq> set (deletion_audit s') \<and> deletion_next s \<le> deletion_next s' \<and> deletion_jobs s' = deletion_jobs s"
  by (cases j) (auto simp: Let_def split: option.splits prod.splits)

text \<open>A step of a job writes its row with the status it was approved for, or gives it back, or writes no row.\<close>

lemma run_deletion_job_rows:
  assumes "run_deletion_job now up j s = (j', s')"
  shows "deletion_rows s' = deletion_rows s \<or> (\<exists>r u'. find_deletion (dd_tenant (job_row j)) (dd_id (job_row j)) s = Some r \<and>
     deletion_rows s' = upd_where (\<lambda>x. dd_id x = dd_id (job_row j)) (flush_deletion (job_row j) u') (deletion_rows s))"
  using assms by (cases j) (auto simp: Let_def split: option.splits prod.splits)

lemma deletions_ok_work:
  assumes "deletions_ok cfg s" and j: "j \<in> set (deletion_jobs s)" and r: "run_deletion_job now up j s = (j', s')"
  shows "deletions_ok cfg (s'\<lparr>deletion_jobs := next_jobs j j' s\<rparr>)"
proof -
  let ?s = "s'\<lparr>deletion_jobs := next_jobs j j' s\<rparr>"
  note frame = run_deletion_job_frame [OF r]
  have p: "properly_approved cfg ?s (dd_tenant (job_row j)) (dd_id (job_row j))"
    by (rule properly_approved_mono [OF job_row_approved [OF assms(1) j]]) (use frame in simp)
  have jobs: "i \<in> set (deletion_jobs s) \<or> properly_approved cfg ?s (dd_tenant (job_row i)) (dd_id (job_row i))"
    if "i \<in> set (deletion_jobs ?s)" for i
    using in_next_jobs [of i j j' s] that p run_deletion_job_row [of now up j s i s'] r by auto
  from run_deletion_job_rows [OF r] show ?thesis
  proof (elim disjE exE conjE)
    assume "deletion_rows s' = deletion_rows s"
    then show ?thesis
      by (intro deletions_ok_step [OF assms(1)]) (use frame jobs assms(1) in \<open>auto simp: deletions_ok_def\<close>)
  next
    fix r u' assume f: "find_deletion (dd_tenant (job_row j)) (dd_id (job_row j)) s = Some r"
      and "deletion_rows s' = upd_where (\<lambda>x. dd_id x = dd_id (job_row j)) (flush_deletion (job_row j) u') (deletion_rows s)"
    then show ?thesis
      by (intro deletions_ok_write [OF assms(1) f, where u = "job_row j" and u' = u']) (use frame jobs p in auto)
  qed
qed

lemma deletions_ok_send:
  assumes "deletions_ok cfg s" and "row \<in> set (approvals s)"
  shows "deletions_ok cfg (snd (send_deletion_task answer row s))"
proof -
  have "properly_approved cfg s (dd_tenant row) (dd_id row)" using assms by (simp add: deletions_ok_def)
  then have p: "properly_approved cfg (snd (send_deletion_task answer row s)) (dd_tenant row) (dd_id row)"
    by (rule properly_approved_mono) (simp add: send_deletion_task_def Let_def)
  show ?thesis
    by (rule deletions_ok_step [OF assms(1)])
      (use assms p in \<open>auto simp: send_deletion_task_def Let_def deletions_ok_def dest: in_remove1D split: if_splits\<close>)
qed

lemma worker_decision_row: "worker_decision now row = Some j \<Longrightarrow> job_row j = row"
  by (auto simp: worker_decision_def split: if_splits)

lemma deletions_ok_deliver:
  assumes "deletions_ok cfg s" and "(did, tn) \<in> set (deletion_tasks s)" and "read_deletion_task now tn did s = Inr (Some j)"
  shows "deletions_ok cfg (s\<lparr>deletion_jobs := deletion_jobs s @ [j]\<rparr>)"
proof -
  let ?s = "s\<lparr>deletion_jobs := deletion_jobs s @ [j]\<rparr>"
  obtain row where "find_deletion tn did s = Some row" "job_row j = row"
    using assms(3) worker_decision_row by (auto simp: read_deletion_task_def split: option.splits)
  then have r: "dd_id (job_row j) = did" "dd_tenant (job_row j) = tn" using find_deletion_Some by blast+
  have "properly_approved cfg s tn did" using assms(1,2) by (auto simp: deletions_ok_def)
  then have "properly_approved cfg ?s tn did" by (rule properly_approved_mono) simp
  with r show ?thesis by (intro deletions_ok_step [OF assms(1)]) (use assms(1) in \<open>auto simp: deletions_ok_def\<close>)
qed

lemma deletions_ok_erase:
  assumes "deletions_ok cfg s"
  shows "deletions_ok cfg (snd (erase_account tn user s))"
proof -
  have d: "distinct (map dd_id (upd_where P (\<lambda>r. r\<lparr>dd_approver := None\<rparr>) (filter Q (deletion_rows s))))" for P Q
    using assms by (subst map_upd_where_same) (simp_all add: deletions_ok_def distinct_map_filter)
  show ?thesis
    by (rule deletions_ok_step [OF assms])
      (use assms d in \<open>auto simp: erase_account_def Let_def in_upd_where deletions_ok_def split: if_splits\<close>)
qed

lemma deletions_ok_steps:
  assumes "deletion_step cfg now s s'" and "deletions_ok cfg s"
  shows "deletions_ok cfg s'"
  using assms
proof (cases rule: deletion_step.cases)
  case (Work j up j' s2)
  with deletions_ok_work [of cfg s j now up j' s2] assms(2) show ?thesis by (simp add: next_jobs_def)
next
  case (Expire tn cutoff)
  with assms(2) show ?thesis
    by (intro deletions_ok_step [OF assms(2)]) (auto simp: expire_deletions_def deletions_ok_def distinct_map_filter)
next
  case (Die j)
  then show ?thesis
    by (intro deletions_ok_step [OF assms(2)]) (use assms(2) in \<open>auto simp: deletions_ok_def dest: in_remove1D\<close>)
next
  case (Lose row)
  then show ?thesis
    by (intro deletions_ok_step [OF assms(2)]) (use assms(2) in \<open>auto simp: deletions_ok_def dest: in_remove1D\<close>)
next
  case Other
  then show ?thesis
    by (intro deletions_ok_step [OF assms(2)]) (use assms(2) in \<open>auto simp: deletions_ok_def\<close>)
qed (use assms(2) deletions_ok_request deletions_ok_approve deletions_ok_self_approve deletions_ok_cancel deletions_ok_send
    deletions_ok_deliver deletions_ok_erase in
    \<open>auto simp: approve_data_deletion_def self_approve_data_deletion_def cancel_data_deletion_def split: sum.splits\<close>)

lemma deletions_ok_reachable:
  "deletion_steps cfg s s' \<Longrightarrow> deletions_ok cfg s \<Longrightarrow> deletions_ok cfg s'"
  by (induction rule: deletion_steps.induct) (auto intro: deletions_ok_steps)

section \<open>Properties\<close>

lemma fresh_installation_ok: "fresh_installation s \<Longrightarrow> deletions_ok cfg s"
  by (simp add: fresh_installation_def deletions_ok_def)


text \<open>A row at rest: nobody holds it, and it has a status that neither a handler nor a message moves.\<close>

definition resting :: "deletion_status \<Rightarrow> nat \<Rightarrow> deletion_db \<Rightarrow> bool" where
  "resting st did s \<longleftrightarrow> did < deletion_next s \<and> (\<forall>r \<in> set (deletion_rows s). dd_id r = did \<longrightarrow> dd_status r = st) \<and>
     (\<forall>r \<in> set (approvals s). dd_id r \<noteq> did) \<and> (\<forall>j \<in> set (deletion_jobs s). dd_id (job_row j) \<noteq> did) \<and>
     (st = DCancelled \<longrightarrow> (\<forall>(d, tn) \<in> set (deletion_tasks s). d \<noteq> did))"

lemma resting_write:
  assumes "resting st did s" and "deletion_rows s' = upd_where (\<lambda>x. dd_id x = d) (flush_deletion u u') (deletion_rows s)"
    and "d \<noteq> did" and "deletion_next s \<le> deletion_next s'" and "approvals s' = approvals s"
    and "deletion_tasks s' = deletion_tasks s" and "deletion_jobs s' = deletion_jobs s"
  shows "resting st did s'"
  using assms by (auto simp: resting_def in_upd_where split: if_splits)

lemma resting_not_awaiting:
  "resting st did s \<Longrightarrow> st \<noteq> DAwaiting \<Longrightarrow> find_deletion tn d s = Some row \<Longrightarrow> dd_status row = DAwaiting \<Longrightarrow> d \<noteq> did"
  using find_deletion_Some by (fastforce simp: resting_def)

lemma resting_approve:
  assumes "resting st did s" and "st \<noteq> DAwaiting"
  shows "resting st did (snd (to_be_sent (approve_deletion now tn d user s)))"
proof (cases "\<exists>row. find_deletion tn d s = Some row \<and> dd_requester row \<noteq> user \<and> dd_status row = DAwaiting")
  case True
  then obtain row where row: "find_deletion tn d s = Some row" "dd_requester row \<noteq> user" "dd_status row = DAwaiting" by blast
  let ?r = "approve_deletion now tn d user s"
  have d: "d \<noteq> did" "dd_id row = d" using resting_not_awaiting [OF assms row(1,3)] find_deletion_Some [OF row(1)] by auto
  have "resting st did (snd ?r)"
    by (rule resting_write [OF assms(1) _ d(1)]) (use row in \<open>simp_all add: approve_deletion_def Let_def\<close>)
  with row d show ?thesis by (simp add: approve_deletion_def to_be_sent_def Let_def resting_def)
qed (use assms in \<open>auto simp: approve_deletion_def to_be_sent_def Let_def split: option.splits\<close>)

lemma resting_self_approve:
  assumes "resting st did s" and "st \<noteq> DAwaiting"
  shows "resting st did (snd (to_be_sent (self_approve_deletion now tn d user s)))"
proof (cases "\<exists>row t. find_deletion tn d s = Some row \<and> dd_requester row = user \<and> dd_status row = DAwaiting \<and>
    dd_not_before row = Some t \<and> t \<le> now")
  case True
  then obtain row t where row: "find_deletion tn d s = Some row" "dd_requester row = user" "dd_status row = DAwaiting"
    "dd_not_before row = Some t" "t \<le> now" by blast
  let ?r = "self_approve_deletion now tn d user s"
  have d: "d \<noteq> did" "dd_id row = d" using resting_not_awaiting [OF assms row(1,3)] find_deletion_Some [OF row(1)] by auto
  have "resting st did (snd ?r)"
    by (rule resting_write [OF assms(1) _ d(1)]) (use row in \<open>simp_all add: self_approve_deletion_def Let_def\<close>)
  with row d show ?thesis by (simp add: self_approve_deletion_def to_be_sent_def Let_def resting_def)
qed (use assms in \<open>auto simp: self_approve_deletion_def to_be_sent_def Let_def split: option.splits\<close>)

lemma resting_cancel:
  assumes "resting st did s" and "st \<noteq> DAwaiting"
  shows "resting st did (snd (cancel_deletion now tn d user s))"
proof (cases "\<exists>row. find_deletion tn d s = Some row \<and> dd_requester row = user \<and> dd_status row = DAwaiting")
  case True
  then obtain row where row: "find_deletion tn d s = Some row" "dd_requester row = user" "dd_status row = DAwaiting" by blast
  have "d \<noteq> did" using resting_not_awaiting [OF assms row(1,3)] .
  then show ?thesis
    by (rule resting_write [OF assms(1), rotated]) (use row in \<open>simp_all add: cancel_deletion_def Let_def\<close>)
qed (use assms in \<open>auto simp: cancel_deletion_def Let_def split: option.splits\<close>)

lemma resting_request:
  assumes "resting st did s"
  shows "resting st did (snd (request_data_deletion cfg now auth target confirmation reason s))"
  using assms by (auto simp: request_data_deletion_def request_deletion_def resting_def Let_def split: sum.splits)

lemma resting_work:
  assumes "resting st did s" and "j \<in> set (deletion_jobs s)" and r: "run_deletion_job now up j s = (j', s')"
  shows "resting st did (s'\<lparr>deletion_jobs := next_jobs j j' s\<rparr>)"
proof -
  have j: "dd_id (job_row j) \<noteq> did" using assms(1,2) by (simp add: resting_def)
  note frame = run_deletion_job_frame [OF r]
  from run_deletion_job_rows [OF r] have "resting st did s'"
  proof (elim disjE exE conjE)
    assume "deletion_rows s' = deletion_rows s"
    with assms(1) frame show ?thesis by (auto simp: resting_def)
  next
    fix r u' assume "deletion_rows s' = upd_where (\<lambda>x. dd_id x = dd_id (job_row j)) (flush_deletion (job_row j) u') (deletion_rows s)"
    from resting_write [OF assms(1) this j] frame show ?thesis by blast
  qed
  moreover have "dd_id (job_row i) \<noteq> did" if "i \<in> set (next_jobs j j' s)" for i
    using in_next_jobs [OF that] run_deletion_job_row [of now up j s i s'] r j assms(1) by (auto simp: resting_def)
  ultimately show ?thesis by (simp add: resting_def)
qed

lemma resting_deliver:
  assumes "resting st did s" and "st \<in> {DCancelled, DProcessing}" and "read_deletion_task now tn d s = Inr (Some j)"
  shows "resting st did (s\<lparr>deletion_jobs := deletion_jobs s @ [j]\<rparr>)"
proof -
  obtain row where row: "find_deletion tn d s = Some row" "worker_decision now row = Some j"
    using assms(3) by (auto simp: read_deletion_task_def split: option.splits)
  then have "dd_status row \<noteq> st" using assms(2) by (auto simp: worker_decision_def)
  then have "dd_id (job_row j) \<noteq> did"
    using assms(1) find_deletion_Some [OF row(1)] worker_decision_row [OF row(2)] by (auto simp: resting_def)
  with assms(1) show ?thesis by (simp add: resting_def)
qed

lemma resting_erase: "resting st did s \<Longrightarrow> resting st did (snd (erase_account tn user s))"
  by (auto simp: resting_def erase_account_def in_upd_where Let_def)

lemma resting_send: "resting st did s \<Longrightarrow> row \<in> set (approvals s) \<Longrightarrow> resting st did (snd (send_deletion_task answer row s))"
  by (auto simp: resting_def send_deletion_task_def Let_def dest: in_remove1D)

lemma resting_step:
  assumes "deletion_step cfg now s s'" and "resting st did s" and st: "st \<in> {DCancelled, DProcessing}"
  shows "resting st did s'"
proof -
  have na: "st \<noteq> DAwaiting" using st by auto
  from assms(1) show ?thesis
  proof (cases rule: deletion_step.cases)
    case (Request auth target confirmation reason)
    with resting_request assms(2) show ?thesis by simp
  next
    case (Approve auth target d)
    with resting_approve [OF assms(2) na] assms(2) show ?thesis by (simp add: approve_data_deletion_def split: sum.splits)
  next
    case (SelfApprove auth target d)
    with resting_self_approve [OF assms(2) na] assms(2) show ?thesis
      by (simp add: self_approve_data_deletion_def split: sum.splits)
  next
    case (Cancel auth target d)
    with resting_cancel [OF assms(2) na] assms(2) show ?thesis by (simp add: cancel_data_deletion_def split: sum.splits)
  next
    case (Work j up j' s2)
    with resting_work [OF assms(2) Work(2,3)] show ?thesis by (simp add: next_jobs_def)
  next
    case (Deliver d tn j)
    with resting_deliver [OF assms(2) st] show ?thesis by simp
  next
    case (Send row answer)
    with resting_send [OF assms(2)] show ?thesis by simp
  next
    case (Erase tn user)
    with resting_erase [OF assms(2)] show ?thesis by simp
  qed (use assms(2) in \<open>auto simp: resting_def expire_deletions_def dest: in_remove1D\<close>)
qed

lemma resting_steps:
  "deletion_steps cfg s s' \<Longrightarrow> resting st did s \<Longrightarrow> st \<in> {DCancelled, DProcessing} \<Longrightarrow> resting st did s'"
  by (induction rule: deletion_steps.induct) (auto intro: resting_step)


text \<open>A row that is being processed is never removed.\<close>

lemma upd_where_keeps:
  assumes "r \<in> set rs" and "\<And>x. key (f x) = key x"
  shows "\<exists>r' \<in> set (upd_where P f rs). key r' = key r"
  using assms by (intro bexI [of _ "if P r then f r else r"]) (auto simp: upd_where_def)

definition request_key :: "data_deletion \<Rightarrow> nat \<times> nat \<times> nat" where
  "request_key r = (dd_id r, dd_tenant r, dd_requester r)"

lemma processing_row_stays:
  assumes "deletion_step cfg now s s'" and "r \<in> set (deletion_rows s)" and p: "dd_status r = DProcessing"
  shows "\<exists>r' \<in> set (deletion_rows s'). request_key r' = request_key r"
proof -
  have w: "\<exists>r' \<in> set (upd_where P (flush_deletion u u') (deletion_rows s)). request_key r' = request_key r" for P u u'
    using assms(2) by (rule upd_where_keeps) (simp add: request_key_def)
  from assms(1) show ?thesis
  proof (cases rule: deletion_step.cases)
    case (Request auth target confirmation reason)
    with assms(2) show ?thesis
      by (auto simp: request_data_deletion_def request_deletion_def Let_def split: sum.splits)
  next
    case (Approve auth target d)
    with assms(2) w show ?thesis
      by (auto simp: approve_data_deletion_def approve_deletion_def to_be_sent_def Let_def split: sum.splits option.splits)
  next
    case (SelfApprove auth target d)
    with assms(2) w show ?thesis
      by (auto simp: self_approve_data_deletion_def self_approve_deletion_def to_be_sent_def Let_def split: sum.splits option.splits)
  next
    case (Cancel auth target d)
    with assms(2) w show ?thesis
      by (auto simp: cancel_data_deletion_def cancel_deletion_def Let_def split: sum.splits option.splits)
  next
    case (Work j up j' s2)
    from run_deletion_job_rows [OF Work(3)] w assms(2) Work(1) show ?thesis by auto
  next
    case (Erase tn user)
    have "\<exists>r' \<in> set (upd_where (\<lambda>r. dd_approver r = Some user) (\<lambda>r. r\<lparr>dd_approver := None\<rparr>) rs). request_key r' = request_key r"
      if "r \<in> set rs" for rs
      using that by (rule upd_where_keeps) (simp add: request_key_def)
    with Erase p assms(2) show ?thesis by (auto simp: erase_account_def Let_def list_ex_iff)
  qed (use assms(2) p in \<open>auto simp: send_deletion_task_def expire_deletions_def Let_def\<close>)
qed


section \<open>Who may ask\<close>

lemma permission_check:
  assumes "strip p = p" and "p \<noteq> []"
  shows "isl (require_permissions [p] (ax_roles auth) (ax_permissions auth)) \<longleftrightarrow> \<not> has_permission p auth"
  using assms by (simp add: require_permissions_def normalize_permissions_def has_permission_def Let_def)

lemma deletion_permissions:
  "strip ''admin:data_deletions:write'' = ''admin:data_deletions:write''"
  "strip ''admin:data_deletions:approve'' = ''admin:data_deletions:approve''"
  by code_simp+

lemma write_check:
  "isl (require_permissions [''admin:data_deletions:write''] (ax_roles auth) (ax_permissions auth))
     \<longleftrightarrow> \<not> has_permission ''admin:data_deletions:write'' auth"
  by (rule permission_check [OF deletion_permissions(1)]) simp

lemma approve_check:
  "isl (require_permissions [''admin:data_deletions:approve''] (ax_roles auth) (ax_permissions auth))
     \<longleftrightarrow> \<not> has_permission ''admin:data_deletions:approve'' auth"
  by (rule permission_check [OF deletion_permissions(2)]) simp

text \<open>A session that was opened and confirmed with the authenticator within the window.\<close>

definition fresh_session :: "deletion_settings \<Rightarrow> int \<Rightarrow> admin_context \<Rightarrow> bool" where
  "fresh_session cfg now auth \<longleftrightarrow> (ds_mfa_required cfg \<longrightarrow> (\<exists>a v sid. ax_session auth = Some sid \<and>
     ax_session_at auth = Some a \<and> ax_mfa_at auth = Some v \<and>
     now - 60 * ds_reauth_minutes cfg \<le> a \<and> now - 60 * ds_reauth_minutes cfg \<le> v))"

text \<open>The own workspace, or that of somebody else for a listed platform administrator.\<close>

definition may_touch :: "deletion_settings \<Rightarrow> admin_context \<Rightarrow> nat \<Rightarrow> deletion_db \<Rightarrow> bool" where
  "may_touch cfg auth tn s \<longleftrightarrow> tn = ax_tenant auth \<or> (is_admin_role (ax_roles auth) \<and>
     (\<exists>email totp. find_platform_user (ax_tenant auth) (ax_user auth) s = Some (email, totp) \<and>
        is_platform_admin_email email (ds_admin_emails cfg) \<and> (ds_mfa_required cfg \<longrightarrow> totp \<and> ax_jwt auth)))"

lemma deletion_target_Inr:
  assumes "deletion_target cfg now p target auth s = Inr tn"
  shows "\<not> isl (require_permissions [p] (ax_roles auth) (ax_permissions auth)) \<and> fresh_session cfg now auth \<and> may_touch cfg auth tn s"
proof -
  have m: "require_recent_mfa cfg now auth = Inr () \<and> resolve_deletion_tenant cfg target auth s = Inr tn \<and>
      \<not> isl (require_permissions [p] (ax_roles auth) (ax_permissions auth))"
    using assms by (auto simp: deletion_target_def split: sum.splits)
  then have "fresh_session cfg now auth"
    by (auto simp: require_recent_mfa_def fresh_session_def Let_def split: if_splits option.splits)
  moreover have "may_touch cfg auth tn s"
    using m by (auto simp: resolve_deletion_tenant_def require_platform_admin_def platform_admin_denial_def may_touch_def Let_def
        split: if_splits option.splits sum.splits)
  ultimately show ?thesis using m by blast
qed

definition guarded :: "((app_error + data_deletion) \<times> deletion_db) \<Rightarrow> deletion_db \<Rightarrow> (data_deletion \<Rightarrow> bool) \<Rightarrow> bool" where
  "guarded r s P = (case r of (Inl _, s') \<Rightarrow> s' = s | (Inr row, _) \<Rightarrow> P row)"

definition granted :: "deletion_settings \<Rightarrow> int \<Rightarrow> string \<Rightarrow> admin_context \<Rightarrow> deletion_db \<Rightarrow> data_deletion \<Rightarrow> bool" where
  "granted cfg now p auth s row \<longleftrightarrow> has_permission p auth \<and> fresh_session cfg now auth \<and> may_touch cfg auth (dd_tenant row) s"

lemma request_guarded:
  "guarded (request_data_deletion cfg now auth target confirmation reason s) s
     (\<lambda>row. granted cfg now ''admin:data_deletions:write'' auth s row \<and> strip confirmation = ''DELETE '' @ uuid_str (dd_tenant row))"
proof (cases "deletion_target cfg now ''admin:data_deletions:write'' target auth s")
  case (Inr tn)
  with deletion_target_Inr [OF Inr] write_check show ?thesis
    by (auto simp: guarded_def granted_def request_data_deletion_def request_deletion_def Let_def)
qed (simp add: guarded_def request_data_deletion_def)

lemma approve_guarded:
  "guarded (approve_data_deletion cfg now auth target did s) s (granted cfg now ''admin:data_deletions:approve'' auth s)"
proof (cases "deletion_target cfg now ''admin:data_deletions:approve'' target auth s")
  case (Inr tn)
  with deletion_target_Inr [OF Inr] approve_check show ?thesis
    by (auto simp: guarded_def granted_def approve_data_deletion_def approve_deletion_def to_be_sent_def Let_def
        dest: find_deletion_Some split: option.splits)
qed (simp add: guarded_def approve_data_deletion_def)

lemma self_approve_guarded:
  "guarded (self_approve_data_deletion cfg now auth target did s) s (granted cfg now ''admin:data_deletions:approve'' auth s)"
proof (cases "deletion_target cfg now ''admin:data_deletions:approve'' target auth s")
  case (Inr tn)
  with deletion_target_Inr [OF Inr] approve_check show ?thesis
    by (auto simp: guarded_def granted_def self_approve_data_deletion_def self_approve_deletion_def to_be_sent_def Let_def
        dest: find_deletion_Some split: option.splits)
qed (simp add: guarded_def self_approve_data_deletion_def)

lemma cancel_guarded:
  "guarded (cancel_data_deletion cfg now auth target did s) s (granted cfg now ''admin:data_deletions:write'' auth s)"
proof (cases "deletion_target cfg now ''admin:data_deletions:write'' target auth s")
  case (Inr tn)
  with deletion_target_Inr [OF Inr] write_check show ?thesis
    by (auto simp: guarded_def granted_def cancel_data_deletion_def cancel_deletion_def Let_def
        dest: find_deletion_Some split: option.splits)
qed (simp add: guarded_def cancel_data_deletion_def)



section \<open>An approved deletion, from the message to the empty workspace\<close>

lemma sweep_documents_spec:
  assumes "sweep_documents up i docs objs = (ps, objs')"
  shows "set objs' \<subseteq> set objs" and "l \<in> set objs \<Longrightarrow> l \<notin> fst ` set docs \<Longrightarrow> l \<in> set objs'"
    and "x \<in> set docs \<Longrightarrow> fst x \<in> set objs' \<Longrightarrow> fst x \<in> pc_location ` set ps"
  using assms by (induction up i docs objs arbitrary: ps objs' rule: sweep_documents.induct)
    (auto simp: delete_object_def Let_def split: prod.splits if_splits)

text \<open>The location of a dataset index that has one.\<close>

definition dataset_location :: "string option \<Rightarrow> string option \<Rightarrow> location option" where
  "dataset_location bucket object_key = (case (bucket, object_key) of
     (Some (b # bs), Some (k # ks)) \<Rightarrow> Some (b # bs, k # ks)
   | _ \<Rightarrow> None)"

definition dataset_locations :: "(string option \<times> string option \<times> nat) list \<Rightarrow> location set" where
  "dataset_locations sets = {l. \<exists>(b, k, u) \<in> set sets. dataset_location b k = Some l}"

lemma sweep_datasets_Cons:
  "sweep_datasets up tn i ((b, k, u) # xs) objs = (case dataset_location b k of
     None \<Rightarrow> sweep_datasets up tn (Suc i) xs objs
   | Some loc \<Rightarrow>
       (let ok = (is_tenant_object_key tn (snd loc) \<and> up i);
            (ps, objs') = sweep_datasets up tn (Suc i) xs (delete_object ok loc objs)
        in if ok then (ps, objs') else (\<lparr>pc_owner = u, pc_location = loc, pc_error = None\<rparr> # ps, objs')))"
  by (simp add: dataset_location_def Let_def split: option.splits list.splits)

lemma dataset_locations_Cons [simp]:
  "dataset_locations [] = {}"
  "dataset_locations ((b, k, u) # xs) = (case dataset_location b k of None \<Rightarrow> {} | Some l \<Rightarrow> {l}) \<union> dataset_locations xs"
  by (auto simp: dataset_locations_def split: option.splits)

lemma sweep_datasets_spec:
  assumes "sweep_datasets up tn i sets objs = (ps, objs')"
  shows "set objs' \<subseteq> set objs \<and> (\<forall>l \<in> set objs. l \<notin> dataset_locations sets \<longrightarrow> l \<in> set objs') \<and>
    (\<forall>l \<in> dataset_locations sets. l \<in> set objs' \<longrightarrow> l \<in> pc_location ` set ps)"
  using assms
proof (induction sets arbitrary: i objs ps objs')
  case (Cons x sets)
  obtain b k u where x: "x = (b, k, u)" by (metis prod_cases3)
  show ?case
  proof (cases "dataset_location b k")
    case None
    with Cons.IH [of "Suc i" objs] Cons.prems x show ?thesis by (simp add: sweep_datasets_Cons del: sweep_datasets.simps)
  next
    case (Some loc)
    let ?ok = "is_tenant_object_key tn (snd loc) \<and> up i"
    obtain ps1 objs1 where r: "sweep_datasets up tn (Suc i) sets (delete_object ?ok loc objs) = (ps1, objs1)"
      by (metis prod.collapse)
    note ih = Cons.IH [OF r]
    show ?thesis
    proof (cases ?ok)
      case True
      with Cons.prems x Some r have "ps = ps1" "objs' = objs1"
        by (simp_all add: sweep_datasets_Cons del: sweep_datasets.simps)
      with ih x Some True show ?thesis by (auto simp: delete_object_def)
    next
      case False
      with Cons.prems x Some r have "ps = \<lparr>pc_owner = u, pc_location = loc, pc_error = None\<rparr> # ps1" "objs' = objs1"
        by (auto simp: sweep_datasets_Cons Let_def simp del: sweep_datasets.simps)
      with ih x Some False show ?thesis by (auto simp: delete_object_def)
    qed
  qed
qed simp

text \<open>The objects of the tenant: those of its documents and of its dataset indexes.\<close>

definition tenant_objects :: "nat \<Rightarrow> content \<Rightarrow> location set" where
  "tenant_objects tn c = fst ` set (document_objects tn c) \<union> dataset_locations (dataset_objects tn c)"

lemma zip_upt_jobs:
  "p \<in> set ps \<Longrightarrow> \<exists>j \<in> set (map (\<lambda>(i, p). cleanup_job_of now tn i p) (zip [k..<k + length ps] ps)).
     sc_location j = pc_location p \<and> cleanup_pending j \<and> sc_next j = now \<and> sc_tenant j = tn"
proof -
  assume "p \<in> set ps"
  then obtain n where n: "n < length ps" "ps ! n = p" by (auto simp: in_set_conv_nth)
  then have "(k + n, p) \<in> set (zip [k..<k + length ps] ps)" by (auto simp: in_set_zip intro!: exI [of _ n])
  then show ?thesis
    by (intro bexI [of _ "cleanup_job_of now tn (k + n) p"])
      (auto simp: cleanup_job_of_def sc_location_def cleanup_pending_def max_cleanup_attempts_def)
qed

lemma added_cleanup_distinct:
  assumes "distinct (map sc_id (cleanup_rows st))" and "\<forall>j \<in> set (cleanup_rows st). sc_id j < k"
  shows "distinct (map sc_id (cleanup_rows (add_cleanup_jobs now tn k ps st)))"
proof -
  have "map sc_id (map (\<lambda>(i, p). cleanup_job_of now tn i p) (zip xs ys)) = map fst (zip xs ys)" for xs ys
    by (simp add: cleanup_job_of_def case_prod_beta)
  also have "map fst (zip [k..<k + length ps] ps) = [k..<k + length ps]" by (rule map_fst_zip) simp
  finally have "map sc_id (cleanup_rows (add_cleanup_jobs now tn k ps st)) = map sc_id (cleanup_rows st) @ [k..<k + length ps]"
    by (simp add: add_cleanup_jobs_def)
  then show ?thesis using assms by auto
qed

lemma find_upd_deletion:
  assumes "\<And>x. dd_id (f x) = dd_id x \<and> dd_tenant (f x) = dd_tenant x" and "find_deletion tn did s = Some r"
  shows "find_deletion tn did (upd_deletion did f s) = Some (f r)"
proof -
  have "filter (\<lambda>r. dd_tenant r = tn \<and> dd_id r = did) (upd_where (\<lambda>x. dd_id x = did) f (deletion_rows s)) =
      upd_where (\<lambda>x. dd_id x = did) f (filter (\<lambda>r. dd_tenant r = tn \<and> dd_id r = did) (deletion_rows s))"
    by (rule filter_upd_where_same) (simp add: assms(1))
  then show ?thesis using assms(2) find_deletion_Some [OF assms(2)] by (simp add: find_deletion_def first_row_upd_where)
qed

lemma flush_deletion_loaded:
  "dd_requested u' = dd_requested u \<Longrightarrow> dd_not_before u' = dd_not_before u \<Longrightarrow> dd_reason u' = dd_reason u \<Longrightarrow>
   dd_requester u' = dd_requester u \<Longrightarrow> dd_id u' = dd_id u \<Longrightarrow> dd_tenant u' = dd_tenant u \<Longrightarrow> flush_deletion u u' u = u'"
  by (simp add: flush_deletion_def changed_def)

text \<open>What \<open>process_deletion\<close> leaves when nothing interrupts it.\<close>

lemma process_deletion_result:
  assumes f: "find_deletion tn did s = Some row" and "dd_status row = DQueued" and "approval_valid now row"
  obtains ps qs objs1 objs2 where
    "sweep_documents up 0 (document_objects tn (deletion_content s)) (objects (deletion_storage s)) = (ps, objs1)"
    "sweep_datasets up tn (length (document_objects tn (deletion_content s))) (dataset_objects tn (deletion_content s)) objs1 = (qs, objs2)"
    "fst (process_deletion now up tn did s) = Inr ()"
    "find_deletion tn did (snd (process_deletion now up tn did s)) =
       Some (mark_completed now (fst (purge_rows tn (deletion_content s))) (mark_processing now row))"
    "deletion_content (snd (process_deletion now up tn did s)) = snd (purge_rows tn (deletion_content s))"
    "deletion_storage (snd (process_deletion now up tn did s)) =
       add_cleanup_jobs now tn (deletion_next s) (ps @ qs) ((deletion_storage s)\<lparr>objects := objs2\<rparr>)"
proof -
  note r = find_deletion_Some [OF f]
  let ?m = "mark_processing now row"
  obtain ps objs1 where p: "sweep_documents up 0 (document_objects tn (deletion_content s)) (objects (deletion_storage s)) = (ps, objs1)"
    by (metis prod.collapse)
  obtain qs objs2 where q: "sweep_datasets up tn (length (document_objects tn (deletion_content s)))
      (dataset_objects tn (deletion_content s)) objs1 = (qs, objs2)" by (metis prod.collapse)
  obtain cnt c where c: "purge_rows tn (deletion_content s) = (cnt, c)" by (metis prod.collapse)
  define s1 where "s1 = upd_deletion did (flush_deletion row ?m) s"
  have f1: "find_deletion tn did s1 = Some ?m"
    unfolding s1_def by (subst find_upd_deletion [OF _ f]) (simp_all add: flush_deletion_loaded mark_processing_def)
  have s1: "deletion_content s1 = deletion_content s" "deletion_storage s1 = deletion_storage s" "deletion_next s1 = deletion_next s"
    by (simp_all add: s1_def)
  define s2 where "s2 = s1\<lparr>deletion_storage := (deletion_storage s)\<lparr>objects := objs2\<rparr>\<rparr>"
  have f2: "find_deletion tn did s2 = Some ?m" using f1 by (simp add: s2_def find_deletion_def)
  define s3 where "s3 = s2\<lparr>deletion_content := c, deletion_storage := add_cleanup_jobs now tn (deletion_next s2) (ps @ qs) (deletion_storage s2),
      deletion_next := deletion_next s2 + (length ps + length qs)\<rparr>"
  have f3: "find_deletion tn did s3 = Some ?m" using f2 by (simp add: s3_def find_deletion_def)
  let ?s4 = "write_deletion_event now ''deletion.completed'' ?m (Some (dd_requester ?m))
      (upd_deletion did (flush_deletion ?m (mark_completed now cnt ?m)) s3)"
  have st: "worker_decision now row = Some (StartJob row)" using assms(2,3) by (simp add: worker_decision_def)
  let ?docs = "document_objects tn (deletion_content s)" and ?sets = "dataset_objects tn (deletion_content s)"
  have "run_deletion_job now up (StartJob row) s = (Some (FetchJob ?m), s1)" using r f by (simp add: s1_def)
  moreover have "run_deletion_job now up (FetchJob ?m) s1 = (Some (SweepJob ?m ?docs ?sets), s1)" using r by (simp add: s1)
  moreover have "run_deletion_job now up (SweepJob ?m ?docs ?sets) s1 = (Some (CommitJob ?m (ps @ qs)), s2)"
    using r p q by (simp add: s1 s2_def)
  moreover have "run_deletion_job now up (CommitJob ?m (ps @ qs)) s2 = (None, ?s4)"
    using r f2 c by (simp add: s1 s2_def s3_def)
  ultimately have e: "process_deletion now up tn did s = (Inr (), ?s4)"
    using f st by (simp add: process_deletion_def read_deletion_task_def eval_nat_numeral del: run_deletion_job.simps)
  have f4: "find_deletion tn did ?s4 = Some (mark_completed now cnt ?m)"
  proof -
    have "find_deletion tn did (upd_deletion did (flush_deletion ?m (mark_completed now cnt ?m)) s3) = Some (mark_completed now cnt ?m)"
      by (subst find_upd_deletion [OF _ f3]) (simp_all add: flush_deletion_loaded mark_completed_def)
    then show ?thesis by (simp add: find_deletion_def)
  qed
  show thesis
    by (rule that [OF p q]) (use e f4 c in \<open>simp_all add: s3_def s2_def s1_def\<close>)
qed


text \<open>A derivative outside the prefix of the tenant is not deleted by the worker but queued, and the cleanup task
  deletes it without the check: the object is gone in the end although the tenant does not own it.\<close>

lemma refused_key_is_queued:
  assumes "sweep_datasets up tn i sets objs = (ps, objs')" and "(b, k, u) \<in> set sets" and "dataset_location b k = Some l"
    and "\<not> is_tenant_object_key tn (snd l)"
  shows "l \<in> pc_location ` set ps"
  using assms
proof (induction sets arbitrary: i objs ps objs')
  case (Cons x sets)
  obtain b' k' u' where x: "x = (b', k', u')" by (metis prod_cases3)
  show ?case
  proof (cases "dataset_location b' k'")
    case None
    with Cons x show ?thesis by (auto simp: sweep_datasets_Cons simp del: sweep_datasets.simps)
  next
    case (Some loc)
    let ?ok = "is_tenant_object_key tn (snd loc) \<and> up i"
    obtain ps1 objs1 where r: "sweep_datasets up tn (Suc i) sets (delete_object ?ok loc objs) = (ps1, objs1)"
      by (metis prod.collapse)
    have "ps = (if ?ok then ps1 else \<lparr>pc_owner = u', pc_location = loc, pc_error = None\<rparr> # ps1)"
      using Cons.prems(1) x Some r by (auto simp: sweep_datasets_Cons Let_def simp del: sweep_datasets.simps)
    with Cons.IH [OF r] Cons.prems x Some show ?thesis by auto
  qed
qed simp

lemma added_locations:
  "objects (add_cleanup_jobs now tn k ps st) = objects st"
  "j \<in> set (cleanup_rows (add_cleanup_jobs now tn k ps st)) \<Longrightarrow>
     j \<in> set (cleanup_rows st) \<or> sc_location j \<in> pc_location ` set ps"
  by (auto simp: add_cleanup_jobs_def cleanup_job_of_def sc_location_def dest: set_zip_rightD)

text \<open>A document whose row and object arrive between the reading of the locations and the deletes loses its row, but
  its object is neither deleted nor queued.\<close>

lemma late_document_leaks:
  assumes "run_deletion_job now up (CommitJob row ps) s = (j', s')" and "find_deletion (dd_tenant row) (dd_id row) s \<noteq> None"
    and "d \<in> set (tb_documents (deletion_content s))" and "dc_tenant d = dd_tenant row"
    and "(dc_bucket d, dc_key d) \<in> set (objects (deletion_storage s))" and "(dc_bucket d, dc_key d) \<notin> pc_location ` set ps"
  shows "d \<notin> set (tb_documents (deletion_content s')) \<and> (dc_bucket d, dc_key d) \<in> set (objects (deletion_storage s')) \<and>
    (\<forall>j \<in> set (cleanup_rows (deletion_storage s')). j \<in> set (cleanup_rows (deletion_storage s)) \<or> sc_location j \<noteq> (dc_bucket d, dc_key d))"
proof -
  obtain r where r: "find_deletion (dd_tenant row) (dd_id row) s = Some r" using assms(2) by blast
  obtain cnt c where c: "purge_rows (dd_tenant row) (deletion_content s) = (cnt, c)" by (metis prod.collapse)
  then have "tb_documents c = filter (\<lambda>d. dc_tenant d \<noteq> dd_tenant row) (tb_documents (deletion_content s))"
    using purged_plain_tables(1) [of "dd_tenant row" "deletion_content s"] by simp
  moreover have "deletion_storage s' = add_cleanup_jobs now (dd_tenant row) (deletion_next s) ps (deletion_storage s)"
    "deletion_content s' = c"
    using assms(1) r c by auto
  ultimately show ?thesis using assms(3-6) by (auto simp: added_locations(1)) (metis added_locations(2))
qed

section \<open>An example\<close>

text \<open>Workspace 7 with one document and a dataset index whose derivative lies outside its prefix; the administrators 1
  and 2; workspace 8 with a document of its own.\<close>

definition sample_cfg :: deletion_settings where
  "sample_cfg = \<lparr>ds_mfa_required = True, ds_reauth_minutes = 10, ds_delay_hours = 24, ds_admin_emails = []\<rparr>"

definition sample_admin :: "nat \<Rightarrow> admin_context" where
  "sample_admin user = \<lparr>ax_user = user, ax_tenant = 7, ax_roles = [''admin''], ax_permissions = [], ax_token = [],
     ax_session = Some 1, ax_jwt = True, ax_session_at = Some 1000, ax_mfa_at = Some 1000\<rparr>"

definition sample_content :: content where
  "sample_content = \<lparr>
     tb_documents = [\<lparr>dc_id = 1, dc_tenant = 7, dc_bucket = ''files'', dc_key = ''a'', dc_uploader = 1\<rparr>,
                     \<lparr>dc_id = 2, dc_tenant = 8, dc_bucket = ''files'', dc_key = ''b'', dc_uploader = 3\<rparr>],
     tb_datasets = [\<lparr>di_tenant = 7, di_document = 1, di_bucket = Some ''files'', di_key = Some ''foreign''\<rparr>],
     tb_chunks = [\<lparr>ch_id = 5, ch_tenant = 7, ch_document = 1\<rparr>], tb_embeddings = [\<lparr>em_tenant = 7, em_document = 1, em_chunk = 5\<rparr>],
     tb_ingestions = [], tb_queries = [\<lparr>tr_id = 6, tr_tenant = 7\<rparr>],
     tb_citations = [\<lparr>qc_tenant = 7, qc_query = 6, qc_document = 1, qc_chunk = 5\<rparr>], tb_pins = [\<lparr>pf_tenant = 7, pf_query = 6\<rparr>],
     tb_comments = [], tb_conversations = [], tb_messages = [], tb_versions = [], tb_collections = [],
     tb_coll_documents = [], tb_permissions = [], tb_idempotency = [7, 8]\<rparr>"

definition sample_empty :: deletion_db where
  "sample_empty = \<lparr>deletion_rows = [], deletion_tenants = [7, 8], deletion_users = [], deletion_audit = [],
     deletion_content = sample_content,
     deletion_storage = \<lparr>objects = [(''files'', ''a''), (''files'', ''b''), (''files'', ''foreign'')], cleanup_rows = []\<rparr>,
     approvals = [], deletion_tasks = [], deletion_jobs = [], deletion_next = 1\<rparr>"

definition sample_requested :: deletion_db where
  "sample_requested = snd (request_data_deletion sample_cfg 1000 (sample_admin 1) None (''DELETE '' @ uuid_str 7)
     WorkspaceOffboarding sample_empty)"

definition sample_approved :: deletion_db where
  "sample_approved = snd (approve_data_deletion sample_cfg 1100 (sample_admin 2) None 1 sample_requested)"

definition sample_row :: data_deletion where
  "sample_row = \<lparr>dd_id = 1, dd_tenant = 7, dd_requester = 1, dd_approver = Some 2, dd_status = DQueued, dd_mode = TwoAdmin,
     dd_not_before = Some 87400, dd_reason = WorkspaceOffboarding, dd_counts = [], dd_error = None, dd_requested = 1000,
     dd_approved = Some 1100, dd_started = None, dd_completed = None, dd_failed = None\<rparr>"

definition sample_sent :: deletion_db where
  "sample_sent = snd (send_deletion_task Sent sample_row sample_approved)"

definition sample_delivered :: deletion_db where
  "sample_delivered = sample_sent\<lparr>deletion_jobs := deletion_jobs sample_sent @ [StartJob sample_row]\<rparr>"

definition sample_purging :: deletion_db where
  "sample_purging = (let (j, s) = run_deletion_job 1200 (\<lambda>_. True) (StartJob sample_row) sample_delivered
     in s\<lparr>deletion_jobs := next_jobs (StartJob sample_row) j sample_delivered\<rparr>)"

definition sample_dead :: deletion_db where
  "sample_dead = sample_purging\<lparr>deletion_jobs := []\<rparr>"

definition sample_cancelled :: deletion_db where
  "sample_cancelled = snd (cancel_data_deletion sample_cfg 1100 (sample_admin 1) None 1 sample_requested)"

lemma sample_requested_step: "deletion_steps sample_cfg sample_empty sample_requested"
  unfolding sample_requested_def by (rule deletion_steps.Next [OF deletion_steps.Refl deletion_step.Request])

lemma sample_delivered_steps: "deletion_steps sample_cfg sample_empty sample_delivered"
proof -
  have "deletion_steps sample_cfg sample_empty sample_approved"
    unfolding sample_approved_def by (rule deletion_steps.Next [OF sample_requested_step deletion_step.Approve])
  moreover have "sample_row \<in> set (approvals sample_approved)" by code_simp
  ultimately have "deletion_steps sample_cfg sample_empty sample_sent"
    unfolding sample_sent_def by (rule deletion_steps.Next [OF _ deletion_step.Send])
  moreover have "(1, 7) \<in> set (deletion_tasks sample_sent)" by code_simp
  moreover have "read_deletion_task 1150 7 1 sample_sent = Inr (Some (StartJob sample_row))" by code_simp
  ultimately show ?thesis
    unfolding sample_delivered_def using deletion_steps.Next deletion_step.Deliver by meson
qed

lemma map_singleton: "map f xs = [y] \<Longrightarrow> \<exists>x. xs = [x] \<and> f x = y"
  by (cases xs) auto

lemma in_map_values: "map f xs = ys \<Longrightarrow> x \<in> set xs \<Longrightarrow> f x \<in> set ys"
  by auto






end
