(* ===== verification/Spec2Isabelle.thy ===== *)
theory Spec2Isabelle
  imports Worker Queue_Refinement Rate_Limits Sessions Chunking Task_Plan Agent_Rounds Upload_Properties Deletion_Properties
begin

text \<open>
  Verification library for the AverQel backend (Python, \<open>src/backend/app\<close>).

  \<^bold>\<open>The program.\<close>  AverQel is a multi-tenant assistant.  A request is authenticated (\<open>auth\<close>), limited and made
  idempotent (\<open>system\<close>), and then served.  The core is DeepSpace (\<open>deepspace\<close>): a prompt becomes a queued turn of a
  conversation, a dispatcher claims it, a Celery worker runs it as an agent run, its frames are stored in a durable
  event log, published live and streamed to the browser, and the turn is settled so that the next one can start.
  Beside this stand the Library, whose files are uploaded in chunks and published by a worker, the storage quota and
  the retention service that every durable write reports to, the deletion of a whole
  workspace by its administrators, and the ingestion of documents.

  \<^bold>\<open>Theories.\<close>  All paths are below \<open>src/backend/app\<close>.
  \<^item> \<open>Prelude\<close>, \<open>Py_Text\<close>, \<open>Json\<close>, \<open>Redis\<close>: the Python, JSON and Redis operations the code uses.  \<open>Tables\<close>: the rows
    of the database tables (\<open>*/models\<close>), the record \<open>db\<close> of all tables, errors as values (\<open>app_error\<close>), and the contracts
    of the services as locales: \<open>keyed_table\<close> (rows found and updated by a key), \<open>neutral_service\<close> and \<open>neutral_guard\<close>
    (quota, notification and activity services leave the core tables alone).  \<open>owner_lock\<close> (\<open>Redis\<close>), \<open>rate_store\<close>
    (\<open>Rate_Limits\<close>) and \<open>settling\<close> (\<open>Turn_Queue\<close>) are the contracts of a lock, a counter and a queue operation.
  \<^item> \<open>Accounts\<close>: roles, permissions, tenant headers (\<open>auth/roles.py\<close>, \<open>permissions.py\<close>, \<open>rbac.py\<close>, \<open>tenancy.py\<close>).
    \<open>Sessions\<close>: refresh rotation and reuse detection, logout, lockout, the check of a request (\<open>auth/services/auth_service.py\<close>,
    \<open>auth/dependencies.py\<close>); a step relation over all of them with its invariant.
  \<^item> \<open>Quota\<close> and \<open>Lifecycle\<close>: \<open>system/services/storage_quota.py\<close>, \<open>user_notifications.py\<close>, \<open>storage_lifecycle.py\<close>.
    \<open>Rate_Limits\<close>: \<open>rate_limit_service.py\<close>, \<open>idempotency_service.py\<close>, \<open>deepspace/services/provider_circuit.py\<close>.
  \<^item> \<open>Run_Events\<close> and \<open>Stream_Delivery\<close>: \<open>deepspace/services/run_events.py\<close> (frames, log, replay, the three tasks of
    \<open>AsyncRunEventFanout\<close> as a step relation) and the stream loop of \<open>deepspace/api/chats.py\<close>.
  \<^item> \<open>Runtime_Store\<close>: \<open>deepspace/services/runtime_store.py\<close>, runs with steps, questions, approvals and cancellation.
  \<^item> \<open>Turn_Queue\<close>: every operation of \<open>deepspace/services/turn_queue.py\<close>; \<open>Queue_Refinement\<close>: the abstract line of requests
    it implements.  \<open>Worker\<close>: \<open>deepspace/workers/tasks.py\<close>, the dispatcher and the run of one turn.
  \<^item> \<open>Task_Plan\<close>: the plan ledger (\<open>task_loop.py\<close>, \<open>tool_registry.py\<close>).  \<open>Agent_Rounds\<close>: phases, execution batches, tool
    policy, discovery, context budget (\<open>runtime_transitions.py\<close>, \<open>execution_batches.py\<close>, \<open>runtime_policy.py\<close>,
    \<open>native_tool_broker.py\<close>, \<open>context_budget.py\<close>) and the checkpoint writes of a round (\<open>chat_service.py\<close>).
  \<^item> \<open>Library_Text\<close>, \<open>Library_Uploads\<close>, \<open>Upload_Properties\<close>: resumable uploads (\<open>deepspace/api/library.py\<close>,
    \<open>deepspace/workers/library_uploads.py\<close>, \<open>deepspace/services/library_uploads.py\<close>, \<open>system/services/storage_service.py\<close>).
  \<^item> \<open>Storage_Cleanup\<close>: the queue of objects that are still to be deleted, under row level security (\<open>storage_cleanup\<close> in
    \<open>system/workers/tasks_maintenance.py\<close>), with its contract \<open>object_cleanup\<close>.  \<open>Tenant_Content\<close>: the tables of a
    workspace, their cascades and the deletes of \<open>_purge_tenant_data\<close>.  \<open>Tenant_Deletion\<close>: the request handlers of
    \<open>system/api/admin.py\<close>, \<open>documents/services/deletion_service.py\<close> and its worker as a step relation.
    \<open>Deletion_Properties\<close>: what they guarantee.
  \<^item> \<open>Chunking\<close>: \<open>ingestion/services/chunking_service.py\<close>.

  \<^bold>\<open>How code becomes a definition.\<close>  A service method is a function of the state \<open>db\<close> that returns an error or the result
  with the new state; what is not committed when it raises is rolled back, so an error leaves the state as it was unless
  the code commits before.  Rows are records, a table is a list in insertion order, \<open>ORDER BY\<close> is a stable sort.  Where
  several sessions work on the same rows (the fan-out, the upload handlers and their worker, the account sessions, the
  queue and its dispatcher, the deletion of a workspace) the code between two points of suspension is one step of an inductive relation, and what a
  task carries over such a point is part of the state.

  \<^bold>\<open>Conventions.\<close>  Time is an \<open>int\<close> of seconds, read once per operation.  A UUID is a \<open>nat\<close> and a fresh one comes from a
  counter.  A \<open>str\<close> is a list of the code points 0 to 255, a text decoded from UTF-8 a list of numbers.  Python's integers
  are unbounded and stay \<open>int\<close> or \<open>nat\<close>; \<open>int(n * f)\<close> of a float is written out with its rounding.  Parameters of the model,
  because their code is not here: the keyed hashes, the frames a chat service yields, the host load, which accesses the
  object store and the broker serve.  A JWT is its claims.

  \<^bold>\<open>What the lemmas show.\<close>  Each component has its well-formedness predicate, a lemma per operation that keeps it, and the
  exact result of the operation on every branch; the steps have reachability and invariants by rule induction.  On top
  stand the properties \<open>C1\<close> to \<open>C40\<close>: claims exclude each other and a crashed dispatcher loses nothing; the queue refines
  a priority line; the worker settles every turn and a repeated delivery changes nothing; a stolen refresh token ends its
  session; frames are durable before they are live and a client sees them in order; a plan that is accepted can be worked
  off; a published file is what was sent; reservations and uploads fit the allocation; a workspace is only
  purged with a second approval or after the delay, and then completely; chunking terminates and keeps the text.  Some theorems state defects of the code as it is: a lost chunk, a lost approval, a failed upload that
  comes back without a quota check, a text with a NUL, a close that can wait for ever, split offsets, stuck plans, a
  deletion that stays in processing, a cleanup queue that one foreign failure stops.

  \<^bold>\<open>Termination and bounds.\<close>  The JSON decoder has twice the length of its input plus two as
  fuel, enough for everything the encoder writes (\<open>Json.json_loads_dumps\<close>).  The split loop of chunking is a
  \<open>while_option\<close> that is shown to return for every legal chunk size and overlap (\<open>C10\<close>).  The other loops that are not
  structural have measures: the search for a free file name has only finitely many taken names to pass, the cycle search
  visits each task once, decoding consumes bytes.  The bounds are those of the code: 40 tasks of a plan, the turns of a
  queue, the queue and batch sizes of the fan-out, 2 MiB chunks, 512 KiB of inline text, 255 characters of a name.

  \<^bold>\<open>Not modelled.\<close>  Code points above 255 in names and prompts; the SQL text-length sums of the storage metrics (their
  results are a table); metrics, logging and tracing; password hashing, one-time codes and external login; the prompt
  assembly and the provider streams of \<open>chat_service.py\<close>; Library browsing, editing, export, previews and datasets; the
  extraction and profile workers; documents, collections, retrieval and answers
  (only the rows a purge removes); parsers, OCR and embeddings; model
  providers, connectors and MCP clients; the web and desktop clients.  These are mostly text construction, views, or calls
  to models, libraries and services whose code is not in the repository.
\<close>

end
